(* ===== verification/Prelude.thy ===== *)
theory Prelude
  imports Main "HOL-Library.Word" "HOL-Library.Multiset"
begin

text \<open>
  Shared vocabulary of the development: how the Rust results and panics are represented, the
  fact collections the component theories fill, and the generic list lemmas they share.

  A Rust function that can panic or return an error is a function into a sum type: \<open>Inl\<close> is
  the panic or the error, \<open>Inr\<close> the value. \<open>usize\<close> values that are only counted, compared and
  used as indices are \<open>nat\<close>; counters whose wrap-around is observable are words.
\<close>

section \<open>Panics and results\<close>

datatype panic =
    ArithOverflow   \<comment> \<open>checked arithmetic on an unsigned integer leaves its range\<close>
  | IndexOutOfBounds   \<comment> \<open>a slice or \<open>Vec\<close> access out of range\<close>
  | AssertFailed   \<comment> \<open>an \<open>assert!\<close> that does not hold\<close>

type_synonym 'a partial = "panic + 'a"
type_synonym u8 = "8 word"
type_synonym u16 = "16 word"
type_synonym u32 = "32 word"
type_synonym u64 = "64 word"

definition bind_result :: "'e + 'a \<Rightarrow> ('a \<Rightarrow> 'e + 'b) \<Rightarrow> 'e + 'b" where
  "bind_result r f = (case r of Inl e \<Rightarrow> Inl e | Inr a \<Rightarrow> f a)"

lemma bind_result_simps [simp]:
  "bind_result (Inl e) f = Inl e"
  "bind_result (Inr a) f = f a"
  by (simp_all add: bind_result_def)

lemma bind_result_Inr:
  "bind_result r f = Inr b \<longleftrightarrow> (\<exists>a. r = Inr a \<and> f a = Inr b)"
  by (cases r) simp_all

definition checked_sub :: "nat \<Rightarrow> nat \<Rightarrow> nat partial" where
  "checked_sub a b = (if b \<le> a then Inr (a - b) else Inl ArithOverflow)"

definition vec_get :: "'a list \<Rightarrow> nat \<Rightarrow> 'a partial" where
  "vec_get xs i = (if i < length xs then Inr (xs ! i) else Inl IndexOutOfBounds)"

definition vec_set :: "'a list \<Rightarrow> nat \<Rightarrow> 'a \<Rightarrow> 'a list partial" where
  "vec_set xs i x = (if i < length xs then Inr (xs[i := x]) else Inl IndexOutOfBounds)"

text \<open>\<open>Vec::insert\<close> panics when the index is past the end.\<close>

definition vec_insert :: "'a list \<Rightarrow> nat \<Rightarrow> 'a \<Rightarrow> 'a list partial" where
  "vec_insert xs i x =
     (if i \<le> length xs then Inr (take i xs @ x # drop i xs) else Inl IndexOutOfBounds)"

definition vec_remove :: "'a list \<Rightarrow> nat \<Rightarrow> 'a list partial" where
  "vec_remove xs i =
     (if i < length xs then Inr (take i xs @ drop (Suc i) xs) else Inl IndexOutOfBounds)"

lemma vec_get_in [simp]: "i < length xs \<Longrightarrow> vec_get xs i = Inr (xs ! i)"
  by (simp add: vec_get_def)

lemma vec_set_in [simp]: "i < length xs \<Longrightarrow> vec_set xs i x = Inr (xs[i := x])"
  by (simp add: vec_set_def)

lemma vec_insert_in [simp]:
  "i \<le> length xs \<Longrightarrow> vec_insert xs i x = Inr (take i xs @ x # drop i xs)"
  by (simp add: vec_insert_def)

lemma vec_remove_in [simp]:
  "i < length xs \<Longrightarrow> vec_remove xs i = Inr (take i xs @ drop (Suc i) xs)"
  by (simp add: vec_remove_def)

lemma checked_sub_ge [simp]: "b \<le> a \<Longrightarrow> checked_sub a b = Inr (a - b)"
  by (simp add: checked_sub_def)

section \<open>Lists\<close>

lemma zip_insert_at:
  assumes "length xs = length ys" and "i \<le> length xs"
  shows "zip (take i xs @ x # drop i xs) (take i ys @ y # drop i ys)
       = take i (zip xs ys) @ (x, y) # drop i (zip xs ys)"
  using assms by (simp add: take_zip drop_zip)

lemma zip_remove_at:
  assumes "length xs = length ys" and "i < length xs"
  shows "zip (take i xs @ drop (Suc i) xs) (take i ys @ drop (Suc i) ys)
       = take i (zip xs ys) @ drop (Suc i) (zip xs ys)"
  using assms by (simp add: take_zip drop_zip)

lemma sum_list_take_le: "sum_list (take n (xs :: nat list)) \<le> sum_list xs"
  by (metis append_take_drop_id le_add1 sum_list_append)

lemma nth_insert_at:
  assumes "i \<le> length xs"
  shows "(take i xs @ x # drop i xs) ! j =
     (if j < i then xs ! j else if j = i then x else xs ! (j - 1))"
  using assms by (auto simp: nth_append min_def nth_Cons' not_less Suc_diff_le)

end
