(* ===== verification/F32.thy ===== *)
theory F32
  imports Prelude
begin

text \<open>
  Rust's \<open>f32\<close>: IEEE 754 binary32 on bit patterns. A value is its 32-bit pattern; comparisons
  read the sign-magnitude order of the patterns, arithmetic computes the exact result and rounds
  it to nearest, ties to even. Every finite magnitude is a whole number of units of \<open>2^-149\<close>,
  which keeps all of it in integer arithmetic.
\<close>

type_synonym f32 = "32 word"

section \<open>Patterns\<close>

definition F32_INF_MAG :: nat where "F32_INF_MAG = 2139095040"  \<comment> \<open>\<open>0x7F800000\<close>\<close>

definition f32_sign :: "f32 \<Rightarrow> bool" where
  "f32_sign w \<longleftrightarrow> 2 ^ 31 \<le> unat w"

definition f32_mag :: "f32 \<Rightarrow> nat" where
  "f32_mag w = unat w mod 2 ^ 31"

definition f32_mk :: "bool \<Rightarrow> nat \<Rightarrow> f32" where
  "f32_mk s m = word_of_nat (m + (if s then 2 ^ 31 else 0))"

definition f32_is_nan :: "f32 \<Rightarrow> bool" where
  "f32_is_nan w \<longleftrightarrow> F32_INF_MAG < f32_mag w"

definition f32_is_infinite :: "f32 \<Rightarrow> bool" where
  "f32_is_infinite w \<longleftrightarrow> f32_mag w = F32_INF_MAG"

definition f32_is_finite :: "f32 \<Rightarrow> bool" where
  "f32_is_finite w \<longleftrightarrow> f32_mag w < F32_INF_MAG"

definition f32_NAN :: f32 where "f32_NAN = 0x7FC00000"
definition f32_INFINITY :: f32 where "f32_INFINITY = 0x7F800000"
definition f32_MAX :: f32 where "f32_MAX = 0x7F7FFFFF"
definition f32_one :: f32 where "f32_one = 0x3F800000"
definition f32_zero :: f32 where "f32_zero = 0"

section \<open>Comparison\<close>

text \<open>The order of the non-NaN values: both zeros have key 0.\<close>

definition f32_key :: "f32 \<Rightarrow> int" where
  "f32_key w = (if f32_sign w then - int (f32_mag w) else int (f32_mag w))"

definition f32_lt :: "f32 \<Rightarrow> f32 \<Rightarrow> bool" where
  "f32_lt a b \<longleftrightarrow> \<not> f32_is_nan a \<and> \<not> f32_is_nan b \<and> f32_key a < f32_key b"

definition f32_le :: "f32 \<Rightarrow> f32 \<Rightarrow> bool" where
  "f32_le a b \<longleftrightarrow> \<not> f32_is_nan a \<and> \<not> f32_is_nan b \<and> f32_key a \<le> f32_key b"

definition f32_eq :: "f32 \<Rightarrow> f32 \<Rightarrow> bool" where
  "f32_eq a b \<longleftrightarrow> \<not> f32_is_nan a \<and> \<not> f32_is_nan b \<and> f32_key a = f32_key b"

abbreviation f32_gt :: "f32 \<Rightarrow> f32 \<Rightarrow> bool" where "f32_gt a b \<equiv> f32_lt b a"
abbreviation f32_ge :: "f32 \<Rightarrow> f32 \<Rightarrow> bool" where "f32_ge a b \<equiv> f32_le b a"

datatype ordering = Less | Equal | Greater

definition f32_partial_cmp :: "f32 \<Rightarrow> f32 \<Rightarrow> ordering option" where
  "f32_partial_cmp a b =
     (if f32_is_nan a \<or> f32_is_nan b then None
      else Some (if f32_key a < f32_key b then Less
                 else if f32_key a = f32_key b then Equal else Greater))"

text \<open>\<open>f32::min\<close> and \<open>f32::max\<close> return the other argument when one is NaN.\<close>

definition f32_min :: "f32 \<Rightarrow> f32 \<Rightarrow> f32" where
  "f32_min a b = (if f32_is_nan a then b else if f32_is_nan b then a
                  else if f32_key b < f32_key a then b else a)"

definition f32_max :: "f32 \<Rightarrow> f32 \<Rightarrow> f32" where
  "f32_max a b = (if f32_is_nan a then b else if f32_is_nan b then a
                  else if f32_key a < f32_key b then b else a)"

named_theorems f32_order \<open>the comparison operations, unfolded to keys\<close>

declare f32_lt_def [f32_order] f32_le_def [f32_order] f32_eq_def [f32_order]

lemma f32_lt_irrefl [simp]: "\<not> f32_lt a a"
  by (simp add: f32_order)

lemma f32_lt_trans: "f32_lt a b \<Longrightarrow> f32_lt b c \<Longrightarrow> f32_lt a c"
  by (simp add: f32_order)

lemma f32_le_trans: "f32_le a b \<Longrightarrow> f32_le b c \<Longrightarrow> f32_le a c"
  by (simp add: f32_order)

lemma f32_le_refl: "\<not> f32_is_nan a \<Longrightarrow> f32_le a a"
  by (simp add: f32_order)

lemma f32_not_lt: "\<not> f32_is_nan a \<Longrightarrow> \<not> f32_is_nan b \<Longrightarrow> \<not> f32_lt a b \<longleftrightarrow> f32_le b a"
  by (auto simp: f32_order)

lemma f32_not_le: "\<not> f32_is_nan a \<Longrightarrow> \<not> f32_is_nan b \<Longrightarrow> \<not> f32_le a b \<longleftrightarrow> f32_lt b a"
  by (auto simp: f32_order)

lemma f32_lt_imp_le: "f32_lt a b \<Longrightarrow> f32_le a b"
  by (simp add: f32_order)

lemma f32_lt_le_trans: "f32_lt a b \<Longrightarrow> f32_le b c \<Longrightarrow> f32_lt a c"
  by (simp add: f32_order)

lemma f32_le_lt_trans: "f32_le a b \<Longrightarrow> f32_lt b c \<Longrightarrow> f32_lt a c"
  by (simp add: f32_order)

section \<open>Rounding\<close>

text \<open>
  \<open>mag_val k\<close> is the value of the magnitude pattern \<open>k\<close> in units of \<open>2^-149\<close>: with exponent
  field \<open>E\<close> and fraction \<open>F\<close> it is \<open>F\<close> for \<open>E = 0\<close> and \<open>(2^23 + F) * 2^(E - 1)\<close> otherwise.
\<close>

definition mag_shift :: "nat \<Rightarrow> nat" where
  "mag_shift k = k div 2 ^ 23 - 1"

definition mag_val :: "nat \<Rightarrow> nat" where
  "mag_val k = (k - mag_shift k * 2 ^ 23) * 2 ^ mag_shift k"

text \<open>The number of binary digits of a number.\<close>

fun bit_len :: "nat \<Rightarrow> nat" where
  "bit_len n = (if n = 0 then 0 else Suc (bit_len (n div 2)))"

declare bit_len.simps [simp del]

text \<open>
  \<open>round_mag n d\<close> rounds the value \<open>n / d\<close> units to nearest, ties to even; results past the
  largest finite magnitude become infinity.
\<close>

definition round_mag :: "nat \<Rightarrow> nat \<Rightarrow> nat" where
  "round_mag n d =
     (let s = bit_len (n div d) - 24;
          u = d * 2 ^ s;
          t = n div u;
          r = n mod u
      in min F32_INF_MAG
           (s * 2 ^ 23 + (if u < 2 * r \<or> (u = 2 * r \<and> odd t) then Suc t else t)))"

section \<open>Arithmetic\<close>

definition f32_mul :: "f32 \<Rightarrow> f32 \<Rightarrow> f32" where
  "f32_mul a b =
     (if f32_is_nan a \<or> f32_is_nan b then f32_NAN
      else if f32_is_infinite a \<or> f32_is_infinite b then
        (if f32_mag a = 0 \<or> f32_mag b = 0 then f32_NAN
         else f32_mk (f32_sign a \<noteq> f32_sign b) F32_INF_MAG)
      else f32_mk (f32_sign a \<noteq> f32_sign b)
             (round_mag (mag_val (f32_mag a) * mag_val (f32_mag b)) (2 ^ 149)))"

definition f32_div :: "f32 \<Rightarrow> f32 \<Rightarrow> f32" where
  "f32_div a b =
     (let s = (f32_sign a \<noteq> f32_sign b) in
      if f32_is_nan a \<or> f32_is_nan b then f32_NAN
      else if f32_is_infinite a then (if f32_is_infinite b then f32_NAN else f32_mk s F32_INF_MAG)
      else if f32_is_infinite b then f32_mk s 0
      else if f32_mag b = 0 then (if f32_mag a = 0 then f32_NAN else f32_mk s F32_INF_MAG)
      else f32_mk s (round_mag (mag_val (f32_mag a) * 2 ^ 149) (mag_val (f32_mag b))))"

definition f32_signed_val :: "f32 \<Rightarrow> int" where
  "f32_signed_val a = (if f32_sign a then - int (mag_val (f32_mag a)) else int (mag_val (f32_mag a)))"

definition f32_add :: "f32 \<Rightarrow> f32 \<Rightarrow> f32" where
  "f32_add a b =
     (if f32_is_nan a \<or> f32_is_nan b then f32_NAN
      else if f32_is_infinite a then
        (if f32_is_infinite b \<and> f32_sign a \<noteq> f32_sign b then f32_NAN else a)
      else if f32_is_infinite b then b
      else let z = f32_signed_val a + f32_signed_val b
           in if z = 0 then f32_mk (f32_sign a \<and> f32_sign b) 0
              else f32_mk (z < 0) (round_mag (nat \<bar>z\<bar>) 1))"

text \<open>The casts \<open>n as f32\<close> and \<open>x as usize\<close> (truncating, saturating, NaN to 0), and \<open>ceil\<close>.\<close>

definition USIZE_MAX :: nat where "USIZE_MAX = 2 ^ 64 - 1"

definition f32_of_nat :: "nat \<Rightarrow> f32" where
  "f32_of_nat n = f32_mk False (round_mag (n * 2 ^ 149) 1)"

definition f32_as_usize :: "f32 \<Rightarrow> nat" where
  "f32_as_usize x =
     (if f32_is_nan x \<or> f32_sign x then 0
      else if f32_is_infinite x then USIZE_MAX
      else min USIZE_MAX (mag_val (f32_mag x) div 2 ^ 149))"

text \<open>\<open>ceil\<close> of a non-negative value; integers of up to 24 digits are exact.\<close>

definition f32_ceil :: "f32 \<Rightarrow> f32" where
  "f32_ceil x =
     (if f32_is_nan x \<or> f32_is_infinite x then x
      else if f32_sign x
        then f32_mk True (round_mag (mag_val (f32_mag x) div 2 ^ 149 * 2 ^ 149) 1)
      else f32_mk False (round_mag ((mag_val (f32_mag x) + (2 ^ 149 - 1)) div 2 ^ 149 * 2 ^ 149) 1))"

section \<open>Facts about rounding\<close>

text \<open>
  Magnitude patterns are ordered as their values; the rounded result is never below a
  representable value that is a lower bound of the exact one. Together they give the growth
  of a product by a factor above one, which bounds the rounds of the pruning loop.
\<close>

lemma mag_val_Suc: "mag_val (Suc k) = mag_val k + 2 ^ mag_shift k"
proof -
  define j where "j = k div 2 ^ 23"
  define r where "r = k mod 2 ^ 23"
  have k: "k = j * 2 ^ 23 + r" and r: "r < 2 ^ 23" by (simp_all add: j_def r_def)
  show ?thesis
  proof (cases "Suc r < 2 ^ 23")
    case True
    have d: "Suc k div 2 ^ 23 = j"
      using k True by (simp add: div_eq_dividend_iff) 
    have "mag_shift (Suc k) = mag_shift k"
      unfolding mag_shift_def d j_def ..
    moreover have "mag_shift k * 2 ^ 23 \<le> k"
      unfolding mag_shift_def by (metis diff_le_self div_times_less_eq_dividend le_trans mult_le_mono1)
    ultimately show ?thesis
      by (simp add: mag_val_def Suc_diff_le)
  next
    case False
    with r have r': "r = 2 ^ 23 - 1" by simp
    with k have k': "Suc k = Suc j * 2 ^ 23" by simp
    have d: "Suc k div 2 ^ 23 = Suc j" unfolding k' by simp
    show ?thesis
    proof (cases j)
      case 0
      then show ?thesis using k r' d by (simp add: mag_val_def mag_shift_def j_def[symmetric])
    next
      case (Suc i)
      have "mag_shift (Suc k) = Suc i" unfolding mag_shift_def d Suc by simp
      moreover have "mag_shift k = i" using Suc unfolding mag_shift_def j_def by simp
      ultimately show ?thesis
        unfolding mag_val_def using k r' Suc by simp
    qed
  qed
qed

lemma mag_val_strict_mono: "i < k \<Longrightarrow> mag_val i < mag_val k"
  by (induction k) (auto simp: mag_val_Suc less_Suc_eq trans_less_add1)

lemma mag_val_less_iff [simp]: "mag_val i < mag_val k \<longleftrightarrow> i < k"
  by (metis linorder_neqE_nat mag_val_strict_mono order_less_asym)

lemma mag_val_le_iff [simp]: "mag_val i \<le> mag_val k \<longleftrightarrow> i \<le> k"
  by (meson linorder_not_le mag_val_less_iff)

lemma bit_len_bounds: "n \<noteq> 0 \<Longrightarrow> 2 ^ (bit_len n - 1) \<le> n \<and> n < 2 ^ bit_len n"
proof (induction n rule: bit_len.induct)
  case (1 n)
  show ?case
  proof (cases "n div 2 = 0")
    case True
    with "1.prems" have "n = 1" by auto
    then show ?thesis by (simp add: bit_len.simps)
  next
    case False
    with "1" have IH: "2 ^ (bit_len (n div 2) - 1) \<le> n div 2" "n div 2 < 2 ^ bit_len (n div 2)" by auto
    obtain b where b: "bit_len (n div 2) = Suc b"
      using False by (subst (asm) bit_len.simps) (simp add: bit_len.simps)
    have "bit_len n = Suc (Suc b)" using "1.prems" b by (subst bit_len.simps) simp
    with IH b show ?thesis by auto
  qed
qed

lemma bit_len_0 [simp]: "bit_len 0 = 0" by (simp add: bit_len.simps)

lemma mag_val_split:
  assumes "s = 0 \<or> 2 ^ 23 \<le> t" and "t \<le> 2 ^ 24"
  shows "mag_val (s * 2 ^ 23 + t) = t * 2 ^ s"
proof (cases "t < 2 ^ 24")
  case True
  show ?thesis
  proof (cases "2 ^ 23 \<le> t")
    case True
    have "(s * 2 ^ 23 + t) div 2 ^ 23 = Suc s"
      using True \<open>t < 2 ^ 24\<close> by (intro div_nat_eqI) auto
    then show ?thesis by (simp add: mag_val_def mag_shift_def)
  next
    case False
    with assms have "s = 0" by simp
    moreover have "t div 2 ^ 23 = 0" using False by simp
    ultimately show ?thesis by (simp add: mag_val_def mag_shift_def)
  qed
next
  case False
  with assms have t: "t = 2 ^ 24" by simp
  have "s * 2 ^ 23 + t = (s + 2) * 2 ^ 23" by (simp add: t)
  then have "mag_shift (s * 2 ^ 23 + t) = Suc s" by (simp add: mag_shift_def)
  then show ?thesis by (simp add: mag_val_def t)
qed

lemma round_floor:
  assumes "0 < d" and s: "s = bit_len (n div d) - 24" and t: "t = n div (d * 2 ^ s)"
  shows "mag_val (s * 2 ^ 23 + t) * d \<le> n" and "n < mag_val (s * 2 ^ 23 + Suc t) * d"
    and "s = 0 \<or> 2 ^ 23 \<le> t" and "t < 2 ^ 24"
proof -
  have tq: "t = n div d div 2 ^ s" by (simp add: t div_mult2_eq)
  show c: "s = 0 \<or> 2 ^ 23 \<le> t"
  proof (cases "s = 0")
    case False
    then have nz: "n div d \<noteq> 0" and sb: "bit_len (n div d) = s + 24"
      using s by (auto simp del: div_eq_0_iff intro: ccontr)
    then have "2 ^ (s + 23) \<le> n div d" using bit_len_bounds[OF nz] by (simp add: add.commute)
    then have "2 ^ (s + 23) div 2 ^ s \<le> t" unfolding tq by (rule div_le_mono)
    then show ?thesis by (simp add: power_add)
  qed simp
  show u: "t < 2 ^ 24"
  proof (cases "n div d = 0")
    case True then show ?thesis by (simp add: tq)
  next
    case False
    have "bit_len (n div d) \<le> s + 24" using s by simp
    then have "n div d < 2 ^ (s + 24)" using bit_len_bounds[OF False]
      by (meson less_le_trans one_le_numeral power_increasing)
    then show ?thesis unfolding tq by (simp add: less_mult_imp_div_less power_add mult.commute)
  qed
  have "t * (d * 2 ^ s) \<le> n" unfolding t by (rule div_times_less_eq_dividend)
  moreover have "mag_val (s * 2 ^ 23 + t) = t * 2 ^ s"
    by (rule mag_val_split) (use c u in auto)
  ultimately show "mag_val (s * 2 ^ 23 + t) * d \<le> n"
    by (simp add: ac_simps)
  have "n < Suc t * (d * 2 ^ s)" unfolding t using assms(1)
    by (metis dividend_less_div_times mult_Suc nat_0_less_mult_iff zero_less_numeral zero_less_power)
  moreover have "mag_val (s * 2 ^ 23 + Suc t) = Suc t * 2 ^ s"
    by (rule mag_val_split) (use c u in auto)
  ultimately show "n < mag_val (s * 2 ^ 23 + Suc t) * d"
    by (simp add: ac_simps)
qed

lemma round_mag_ge:
  assumes "0 < d" and "mag_val k * d \<le> n" and "k \<le> F32_INF_MAG"
  shows "k \<le> round_mag n d"
proof -
  define s where "s = bit_len (n div d) - 24"
  define t where "t = n div (d * 2 ^ s)"
  note f = round_floor[OF assms(1) s_def t_def]
  have "mag_val k < mag_val (s * 2 ^ 23 + Suc t)"
    using f(2) assms by (meson le_less_trans mult_less_cancel2)
  then have "k \<le> s * 2 ^ 23 + t" by simp
  moreover have "min F32_INF_MAG (s * 2 ^ 23 + t) \<le> round_mag n d"
    unfolding round_mag_def Let_def s_def[symmetric] t_def[symmetric] by (simp add: min_le_iff_disj)
  ultimately show ?thesis using assms(3) by linarith
qed
lemma round_mag_le_inf: "round_mag n d \<le> F32_INF_MAG"
  by (simp add: round_mag_def Let_def)

lemma unat_f32_mk: "m < 2 ^ 31 \<Longrightarrow> unat (f32_mk s m) = m + (if s then 2 ^ 31 else 0)"
  unfolding f32_mk_def by (subst unat_of_nat) simp

lemma f32_mag_mk [simp]: "m < 2 ^ 31 \<Longrightarrow> f32_mag (f32_mk s m) = m"
  by (simp add: f32_mag_def unat_f32_mk)

lemma f32_sign_mk [simp]: "m < 2 ^ 31 \<Longrightarrow> f32_sign (f32_mk s m) = s"
  by (simp add: f32_sign_def unat_f32_mk)

lemma f32_mag_bound: "f32_mag w < 2 ^ 31"
  by (simp add: f32_mag_def)

lemma mag_val_ge_shift: "2 ^ 23 \<le> k \<Longrightarrow> 2 ^ (23 + mag_shift k) \<le> mag_val k"
proof -
  assume "2 ^ 23 \<le> k"
  then have "0 < k div 2 ^ 23" by (simp add: div_greater_zero_iff)
  then have "Suc (mag_shift k) = k div 2 ^ 23" unfolding mag_shift_def by simp
  then have "Suc (mag_shift k) * 2 ^ 23 \<le> k" by (metis div_times_less_eq_dividend)
  then have "2 ^ 23 \<le> k - mag_shift k * 2 ^ 23" by simp
  then show ?thesis unfolding mag_val_def power_add by (rule mult_right_mono) simp
qed

lemma f32_mul_grows:
  assumes "f32_le f32_one c" and "f32_is_finite c" and "f32_lt f32_one i" and "f32_is_finite i"
  shows "f32_lt c (f32_mul c i)" and "\<not> f32_sign (f32_mul c i)"
proof -
  have one: "f32_key f32_one = 1065353216" by (simp add: f32_key_def f32_one_def f32_sign_def f32_mag_def)
  have c: "1065353216 \<le> f32_mag c" "\<not> f32_sign c" and i: "1065353216 < f32_mag i" "\<not> f32_sign i"
    using assms(1,3) unfolding f32_le_def f32_lt_def one by (auto simp: f32_key_def split: if_splits)
  let ?k = "f32_mag c" and ?r = "round_mag (mag_val (f32_mag c) * mag_val (f32_mag i)) (2 ^ 149)"
  have m: "f32_mul c i = f32_mk False ?r"
    using assms c i by (simp add: f32_mul_def f32_is_finite_def f32_is_nan_def f32_is_infinite_def)
  have "mag_val (Suc 1065353216) \<le> mag_val (f32_mag i)" using i by simp
  then have vi: "2 ^ 149 + 2 ^ 126 \<le> mag_val (f32_mag i)" by (simp add: mag_val_def mag_shift_def)
  have vc: "2 ^ (23 + mag_shift ?k) \<le> mag_val ?k" by (rule mag_val_ge_shift) (use c in simp)
  have "mag_val (Suc ?k) * 2 ^ 149 = mag_val ?k * 2 ^ 149 + 2 ^ (23 + mag_shift ?k) * 2 ^ 126"
    unfolding mag_val_Suc distrib_right by (simp add: power_add)
  also have "\<dots> \<le> mag_val ?k * (2 ^ 149 + 2 ^ 126)"
    unfolding distrib_left by (intro add_left_mono mult_right_mono vc) simp
  also have "\<dots> \<le> mag_val ?k * mag_val (f32_mag i)" using vi by (rule mult_left_mono) simp
  finally have "Suc ?k \<le> ?r"
    by (intro round_mag_ge) (use assms(2) in \<open>auto simp: f32_is_finite_def\<close>)
  moreover have "?r \<le> F32_INF_MAG" by (rule round_mag_le_inf)
  moreover have "F32_INF_MAG < 2 ^ 31" by (simp add: F32_INF_MAG_def)
  ultimately show "f32_lt c (f32_mul c i)" and "\<not> f32_sign (f32_mul c i)"
    using c by (auto simp: m f32_lt_def f32_is_nan_def f32_key_def)
qed

end
