(* ===== verification/Neighbor.thy ===== *)
theory Neighbor
  imports F32
begin

text \<open>
  \<open>diskann/src/neighbor/mod.rs\<close>: the pairing of an ID with a distance and the comparison
  functions of its \<open>ord\<close> module, and the comparison sort the crate calls with them.
\<close>

section \<open>Neighbors\<close>

datatype ('i, 'd) neighbor = Neighbor (nbr_id: 'i) (nbr_distance: 'd)

type_synonym 'i nbr = "('i, f32) neighbor"

definition as_tuple :: "('i, 'd) neighbor \<Rightarrow> 'i \<times> 'd" where
  "as_tuple n = (nbr_id n, nbr_distance n)"

section \<open>Orderings\<close>

definition fast_distance :: "'i nbr \<Rightarrow> 'i nbr \<Rightarrow> ordering" where
  "fast_distance x y =
     (case f32_partial_cmp (nbr_distance x) (nbr_distance y) of Some c \<Rightarrow> c | None \<Rightarrow> Equal)"

definition id_cmp :: "'i :: linorder \<Rightarrow> 'i \<Rightarrow> ordering" where
  "id_cmp a b = (if a < b then Less else if a = b then Equal else Greater)"

fun ordering_then :: "ordering \<Rightarrow> ordering \<Rightarrow> ordering" where
  "ordering_then Equal c = c"
| "ordering_then c _ = c"

definition fast_distance_total :: "'i :: linorder nbr \<Rightarrow> 'i nbr \<Rightarrow> ordering" where
  "fast_distance_total x y = ordering_then (fast_distance x y) (id_cmp (nbr_id x) (nbr_id y))"

fun ordering_reverse :: "ordering \<Rightarrow> ordering" where
  "ordering_reverse Less = Greater"
| "ordering_reverse Equal = Equal"
| "ordering_reverse Greater = Less"

definition reverse_cmp :: "('a \<Rightarrow> 'a \<Rightarrow> ordering) \<Rightarrow> 'a \<Rightarrow> 'a \<Rightarrow> ordering" where
  "reverse_cmp f x y = ordering_reverse (f x y)"

section \<open>Comparison sort\<close>

text \<open>
  \<open>slice::sort_unstable_by\<close> leaves the order of equal elements open; the model takes the stable
  order. The lemmas below state only what every sort gives: a permutation, ordered by the
  comparison.
\<close>

fun insert_by :: "('a \<Rightarrow> 'a \<Rightarrow> ordering) \<Rightarrow> 'a \<Rightarrow> 'a list \<Rightarrow> 'a list" where
  "insert_by cmp x [] = [x]"
| "insert_by cmp x (y # ys) =
     (if cmp x y = Greater then y # insert_by cmp x ys else x # y # ys)"

fun sort_by :: "('a \<Rightarrow> 'a \<Rightarrow> ordering) \<Rightarrow> 'a list \<Rightarrow> 'a list" where
  "sort_by cmp [] = []"
| "sort_by cmp (x # xs) = insert_by cmp x (sort_by cmp xs)"

lemma mset_insert_by [simp]: "mset (insert_by cmp x ys) = add_mset x (mset ys)"
  by (induction ys) auto

lemma mset_sort_by [simp]: "mset (sort_by cmp xs) = mset xs"
  by (induction xs) auto

lemma set_sort_by [simp]: "set (sort_by cmp xs) = set xs"
  by (metis mset_sort_by set_mset_mset)

lemma length_sort_by [simp]: "length (sort_by cmp xs) = length xs"
  by (metis mset_sort_by size_mset)

lemma distinct_map_sort_by [simp]: "distinct (map f (sort_by cmp xs)) \<longleftrightarrow> distinct (map f xs)"
  by (metis mset_eq_imp_distinct_iff mset_map mset_sort_by)

definition by_distance :: "'i nbr \<Rightarrow> 'i nbr \<Rightarrow> bool" where
  "by_distance x y \<longleftrightarrow> f32_key (nbr_distance x) \<le> f32_key (nbr_distance y)"

definition no_nan :: "'i nbr list \<Rightarrow> bool" where
  "no_nan ns \<longleftrightarrow> (\<forall>n \<in> set ns. \<not> f32_is_nan (nbr_distance n))"

lemma no_nan_simps [simp]:
  "no_nan []"
  "no_nan (n # ns) \<longleftrightarrow> \<not> f32_is_nan (nbr_distance n) \<and> no_nan ns"
  "no_nan (ms @ ns) \<longleftrightarrow> no_nan ms \<and> no_nan ns"
  by (auto simp: no_nan_def)

lemma no_nan_subset: "no_nan ns \<Longrightarrow> set ms \<subseteq> set ns \<Longrightarrow> no_nan ms"
  by (auto simp: no_nan_def)

lemma fast_distance_cases:
  assumes "\<not> f32_is_nan (nbr_distance x)" and "\<not> f32_is_nan (nbr_distance y)"
  shows "fast_distance x y = Less \<longleftrightarrow> f32_key (nbr_distance x) < f32_key (nbr_distance y)"
    and "fast_distance x y = Greater \<longleftrightarrow> f32_key (nbr_distance y) < f32_key (nbr_distance x)"
    and "fast_distance x y = Equal \<longleftrightarrow> f32_key (nbr_distance x) = f32_key (nbr_distance y)"
  using assms by (auto simp: fast_distance_def f32_partial_cmp_def)

lemma sorted_insert_by:
  "no_nan (x # ys) \<Longrightarrow> sorted_wrt by_distance ys \<Longrightarrow>
   sorted_wrt by_distance (insert_by fast_distance x ys)"
proof (induction ys)
  case (Cons y ys)
  have ins: "set (insert_by fast_distance x ys) = insert x (set ys)"
    by (metis mset_insert_by set_mset_add_mset_insert set_mset_mset)
  show ?case
  proof (cases "fast_distance x y = Greater")
    case True
    with Cons ins show ?thesis
      by (auto simp: fast_distance_cases by_distance_def)
  next
    case False
    then have "f32_key (nbr_distance x) \<le> f32_key (nbr_distance y)"
      using Cons.prems by (simp add: fast_distance_cases)
    with False Cons.prems show ?thesis
      by (auto simp: by_distance_def intro: order_trans)
  qed
qed simp

lemma sorted_sort_by: "no_nan xs \<Longrightarrow> sorted_wrt by_distance (sort_by fast_distance xs)"
proof (induction xs)
  case (Cons x xs)
  then have "no_nan (x # sort_by fast_distance xs)"
    by (auto simp: no_nan_def)
  with Cons show ?case by (auto intro: sorted_insert_by)
qed simp

end
