(* ===== verification/NeighborQueue.thy ===== *)
theory NeighborQueue
  imports Neighbor
begin

text \<open>
  \<open>diskann/src/neighbor/queue.rs\<close>: the bounded (or auto-resizable) priority queue of a graph
  search. Ids with their visited flag and distances live in two parallel vectors; the lower
  bound of an insertion is found eight lanes at a time.

  The section \<open>Operations\<close> follows the methods of \<open>NeighborPriorityQueue\<close>; release-build
  behaviour, with unchecked arithmetic and indexing that would be undefined made a panic.
\<close>

section \<open>State\<close>

record 'i npq =
  pq_size :: nat
  pq_capacity :: nat
  pq_cursor :: nat
  pq_id_visiteds :: "('i \<times> bool) list"
  pq_distances :: "f32 list"
  pq_auto_resizable :: bool
  pq_search_param_l :: nat

definition npq_new :: "nat \<Rightarrow> 'i npq" where
  "npq_new l = \<lparr>pq_size = 0, pq_capacity = l, pq_cursor = 0, pq_id_visiteds = [],
     pq_distances = [], pq_auto_resizable = False, pq_search_param_l = l\<rparr>"

definition npq_auto_resizable_with_search_param_l :: "nat \<Rightarrow> 'i npq" where
  "npq_auto_resizable_with_search_param_l l = \<lparr>pq_size = 0, pq_capacity = l, pq_cursor = 0,
     pq_id_visiteds = [], pq_distances = [], pq_auto_resizable = True, pq_search_param_l = l\<rparr>"

section \<open>The vectorised lower bound\<close>

text \<open>\<open>search.ge_simd(target).first()\<close>: the first lane that compares greater or equal.\<close>

fun first_ge :: "f32 \<Rightarrow> f32 list \<Rightarrow> nat option" where
  "first_ge t [] = None"
| "first_ge t (x # xs) = (if f32_ge x t then Some 0 else map_option Suc (first_ge t xs))"

definition load_simd :: "f32 list \<Rightarrow> nat \<Rightarrow> f32 list" where
  "load_simd ds i = take 8 (drop i ds)"

text \<open>A partial load fills the lanes past the end with \<open>0.0\<close>.\<close>

definition load_simd_first :: "f32 list \<Rightarrow> nat \<Rightarrow> nat \<Rightarrow> f32 list" where
  "load_simd_first ds i n =
     (let xs = take (min n 8) (drop i ds) in xs @ replicate (8 - length xs) f32_zero)"

text \<open>The loop over sixteen lanes: \<open>Inl\<close> a result, \<open>Inr\<close> the index it stopped at.\<close>

function lower_bound_loop :: "f32 list \<Rightarrow> nat \<Rightarrow> f32 \<Rightarrow> nat \<Rightarrow> nat + nat" where
  "lower_bound_loop ds sz t index =
     (if index + 16 \<le> sz then
        (case (first_ge t (load_simd ds index), first_ge t (load_simd ds (index + 8))) of
           (Some offset, _) \<Rightarrow> Inl (index + offset)
         | (None, Some offset) \<Rightarrow> Inl (index + 8 + offset)
         | (None, None) \<Rightarrow> lower_bound_loop ds sz t (index + 16))
      else Inr index)"
  by pat_completeness auto
termination
  by (relation "measure (\<lambda>(ds, sz, t, index). sz - index)") auto

declare lower_bound_loop.simps [simp del]

definition lower_bound_tail :: "f32 list \<Rightarrow> nat \<Rightarrow> f32 \<Rightarrow> nat \<Rightarrow> nat" where
  "lower_bound_tail ds sz t index =
     (if index < sz then
        (case first_ge t (load_simd_first ds index (sz - index)) of
           Some offset \<Rightarrow> index + offset
         | None \<Rightarrow> sz)
      else sz)"

definition get_lower_bound :: "'i npq \<Rightarrow> f32 \<Rightarrow> nat" where
  "get_lower_bound q t =
     (case lower_bound_loop (pq_distances q) (pq_size q) t 0 of
        Inl r \<Rightarrow> r
      | Inr index \<Rightarrow>
          if index + 8 \<le> pq_size q then
            (case first_ge t (load_simd (pq_distances q) index) of
               Some offset \<Rightarrow> index + offset
             | None \<Rightarrow> lower_bound_tail (pq_distances q) (pq_size q) t (index + 8))
          else lower_bound_tail (pq_distances q) (pq_size q) t index)"

section \<open>Operations\<close>

definition get_unchecked :: "'i npq \<Rightarrow> nat \<Rightarrow> 'i nbr partial" where
  "get_unchecked q i =
     bind_result (vec_get (pq_id_visiteds q) i) (\<lambda>iv.
     bind_result (vec_get (pq_distances q) i) (\<lambda>d.
     Inr (Neighbor (fst iv) d)))"

definition npq_get :: "'i npq \<Rightarrow> nat \<Rightarrow> 'i nbr partial" where
  "npq_get q i = (if i < pq_size q then get_unchecked q i else Inl AssertFailed)"

definition npq_reserve :: "'i npq \<Rightarrow> nat \<Rightarrow> 'i npq" where
  "npq_reserve q additional = q\<lparr>pq_capacity := pq_capacity q + additional\<rparr>"

text \<open>The part of \<open>insert\<close> after the capacity checks.\<close>

definition npq_insert_at_bound :: "'i npq \<Rightarrow> 'i nbr \<Rightarrow> 'i npq partial" where
  "npq_insert_at_bound q n =
     (let insert_idx = (if 0 < pq_size q then get_lower_bound q (nbr_distance n) else 0) in
      bind_result
        (if pq_size q = pq_capacity q then
           bind_result (checked_sub (pq_size q) 1) (\<lambda>sz.
             Inr (q\<lparr>pq_id_visiteds := take sz (pq_id_visiteds q),
                    pq_distances := take sz (pq_distances q), pq_size := sz\<rparr>))
         else Inr q) (\<lambda>q.
      bind_result (vec_insert (pq_id_visiteds q) insert_idx (nbr_id n, False)) (\<lambda>ivs.
      bind_result (vec_insert (pq_distances q) insert_idx (nbr_distance n)) (\<lambda>ds.
      Inr (q\<lparr>pq_id_visiteds := ivs, pq_distances := ds, pq_size := Suc (pq_size q),
             pq_cursor := (if insert_idx < pq_cursor q then insert_idx else pq_cursor q)\<rparr>)))))"

definition npq_insert :: "'i npq \<Rightarrow> 'i nbr \<Rightarrow> 'i npq partial" where
  "npq_insert q n =
     (if f32_is_nan (nbr_distance n) then Inr q
      else if pq_auto_resizable q then
        npq_insert_at_bound
          (if pq_size q = pq_capacity q then npq_reserve q (max 1 (pq_capacity q div 2)) else q) n
      else if pq_size q = pq_capacity q then
        bind_result (checked_sub (pq_size q) 1) (\<lambda>last.
        bind_result (get_unchecked q last) (\<lambda>m.
        if f32_lt (nbr_distance m) (nbr_distance n) then Inr q else npq_insert_at_bound q n))
      else npq_insert_at_bound q n)"

definition npq_drain_best :: "'i npq \<Rightarrow> nat \<Rightarrow> 'i npq" where
  "npq_drain_best q n =
     (let c = min n (pq_size q) in
      q\<lparr>pq_id_visiteds := drop c (pq_id_visiteds q), pq_distances := drop c (pq_distances q),
        pq_size := pq_size q - c, pq_cursor := 0\<rparr>)"

definition npq_remove :: "'i npq \<Rightarrow> 'i nbr \<Rightarrow> (bool \<times> 'i npq) partial" where
  "npq_remove q n =
     (if pq_size q = 0 then Inr (False, q)
      else
        let index = get_lower_bound q (nbr_distance n) in
        if index < pq_size q then
          bind_result (get_unchecked q index) (\<lambda>m.
          if nbr_id m = nbr_id n then
            bind_result (vec_remove (pq_id_visiteds q) index) (\<lambda>ivs.
            bind_result (vec_remove (pq_distances q) index) (\<lambda>ds.
            Inr (True, q\<lparr>pq_id_visiteds := ivs, pq_distances := ds, pq_size := pq_size q - 1,
              pq_cursor := (if index < pq_cursor q \<and> 0 < pq_cursor q then pq_cursor q - 1
                            else pq_cursor q)\<rparr>)))
          else Inr (False, q))
        else Inr (False, q))"

definition npq_set_visited :: "'i npq \<Rightarrow> nat \<Rightarrow> bool \<Rightarrow> 'i npq partial" where
  "npq_set_visited q i flag =
     (if i < pq_size q \<and> pq_size q \<le> pq_capacity q then
        bind_result (vec_get (pq_id_visiteds q) i) (\<lambda>iv.
        Inr (q\<lparr>pq_id_visiteds := (pq_id_visiteds q)[i := (fst iv, flag)]\<rparr>))
      else Inl AssertFailed)"

definition npq_get_visited :: "'i npq \<Rightarrow> nat \<Rightarrow> bool partial" where
  "npq_get_visited q i =
     (if i < pq_size q then bind_result (vec_get (pq_id_visiteds q) i) (\<lambda>iv. Inr (snd iv))
      else Inl AssertFailed)"

definition npq_has_notvisited_node :: "'i npq \<Rightarrow> bool" where
  "npq_has_notvisited_node q \<longleftrightarrow> pq_cursor q < min (pq_search_param_l q) (pq_size q)"

text \<open>The loop of \<open>closest_notvisited\<close> that moves the cursor past visited nodes.\<close>

function skip_visited :: "'i npq \<Rightarrow> nat \<Rightarrow> nat partial" where
  "skip_visited q c =
     (if c < pq_size q then
        bind_result (npq_get_visited q c) (\<lambda>v. if v then skip_visited q (Suc c) else Inr c)
      else Inr c)"
  by pat_completeness auto
termination
  by (relation "measure (\<lambda>(q, c). pq_size q - c)") auto

declare skip_visited.simps [simp del]

definition npq_closest_notvisited :: "'i npq \<Rightarrow> ('i nbr option \<times> 'i npq) partial" where
  "npq_closest_notvisited q =
     (if \<not> npq_has_notvisited_node q then Inr (None, q)
      else
        let current = pq_cursor q in
        bind_result (npq_set_visited q current True) (\<lambda>q.
        bind_result (skip_visited q (Suc current)) (\<lambda>c.
        bind_result (get_unchecked q current) (\<lambda>n.
        Inr (Some n, q\<lparr>pq_cursor := c\<rparr>)))))"

definition npq_reconfigure :: "'i npq \<Rightarrow> nat \<Rightarrow> 'i npq" where
  "npq_reconfigure q l =
     (let q = q\<lparr>pq_search_param_l := l\<rparr>;
          q = (if l < pq_size q then
                 q\<lparr>pq_id_visiteds := take l (pq_id_visiteds q),
                   pq_distances := take l (pq_distances q),
                   pq_size := l, pq_cursor := min (pq_cursor q) l\<rparr>
               else q)
      in q\<lparr>pq_capacity := l\<rparr>)"

definition npq_clear :: "'i npq \<Rightarrow> 'i npq" where
  "npq_clear q = q\<lparr>pq_id_visiteds := [], pq_distances := [], pq_size := 0, pq_cursor := 0\<rparr>"

definition npq_is_full :: "'i npq \<Rightarrow> bool" where
  "npq_is_full q \<longleftrightarrow> \<not> pq_auto_resizable q \<and> pq_size q = pq_capacity q"

definition npq_truncate :: "'i npq \<Rightarrow> nat \<Rightarrow> 'i npq" where
  "npq_truncate q len =
     (if len < pq_size q then
        q\<lparr>pq_id_visiteds := take len (pq_id_visiteds q), pq_distances := take len (pq_distances q),
          pq_size := len, pq_cursor := 0\<rparr>
      else q)"

text \<open>
  The compaction loop of \<open>retain\<close>: \<open>read_idx\<close> runs over the queue, kept entries move to
  \<open>write_idx\<close> and lose their visited flag.
\<close>

function retain_loop ::
  "('i nbr \<Rightarrow> bool) \<Rightarrow> nat \<Rightarrow> nat \<Rightarrow> nat \<Rightarrow> ('i \<times> bool) list \<Rightarrow> f32 list \<Rightarrow>
   nat \<times> ('i \<times> bool) list \<times> f32 list" where
  "retain_loop f sz read_idx write_idx ivs ds =
     (if read_idx < sz then
        if f (Neighbor (fst (ivs ! read_idx)) (ds ! read_idx)) then
          retain_loop f sz (Suc read_idx) (Suc write_idx)
            (ivs[write_idx := (fst (ivs ! read_idx), False)])
            (ds[write_idx := ds ! read_idx])
        else retain_loop f sz (Suc read_idx) write_idx ivs ds
      else (write_idx, ivs, ds))"
  by pat_completeness auto
termination
  by (relation "measure (\<lambda>(f, sz, r, w, ivs, ds). sz - r)") auto

declare retain_loop.simps [simp del]

definition npq_retain :: "'i npq \<Rightarrow> ('i nbr \<Rightarrow> bool) \<Rightarrow> 'i npq" where
  "npq_retain q f =
     (if pq_size q = 0 then q
      else
        let (w, ivs, ds) = retain_loop f (pq_size q) 0 0 (pq_id_visiteds q) (pq_distances q)
        in npq_truncate (q\<lparr>pq_id_visiteds := ivs, pq_distances := ds\<rparr>) w)"

text \<open>\<open>iter\<close> and \<open>BestCandidatesIterator::next\<close>: the iterator's cursor, its bound and the queue.\<close>

definition iter_next :: "'i npq \<Rightarrow> nat \<Rightarrow> nat \<Rightarrow> ('i nbr option \<times> nat) partial" where
  "iter_next q sz cursor =
     (if cursor < sz then bind_result (npq_get q cursor) (\<lambda>n. Inr (Some n, Suc cursor))
      else Inr (None, cursor))"

fun iter_collect :: "'i npq \<Rightarrow> nat \<Rightarrow> nat \<Rightarrow> 'i nbr list partial" where
  "iter_collect q 0 cursor = Inr []"
| "iter_collect q (Suc remaining) cursor =
     bind_result (npq_get q cursor) (\<lambda>n.
     bind_result (iter_collect q remaining (Suc cursor)) (\<lambda>ns. Inr (n # ns)))"

definition npq_iter :: "'i npq \<Rightarrow> 'i nbr list partial" where
  "npq_iter q = iter_collect q (min (pq_search_param_l q) (pq_size q)) 0"

section \<open>The lower bound\<close>

text \<open>The reference definition: the number of leading distances below the target.\<close>

definition lower_bound_ref :: "f32 \<Rightarrow> f32 list \<Rightarrow> nat" where
  "lower_bound_ref t ds = length (takeWhile (\<lambda>x. \<not> f32_ge x t) ds)"

lemma lower_bound_ref_le: "lower_bound_ref t ds \<le> length ds"
  by (simp add: lower_bound_ref_def length_takeWhile_le)

lemma first_ge_Some: "first_ge t xs = Some n \<Longrightarrow> lower_bound_ref t xs = n \<and> n < length xs"
  by (induction xs arbitrary: n) (auto simp: lower_bound_ref_def split: if_splits)

lemma first_ge_eq_None: "first_ge t xs = None \<longleftrightarrow> (\<forall>x \<in> set xs. \<not> f32_ge x t)"
  by (induction xs) (auto split: if_splits)

lemmas first_ge_None = first_ge_eq_None [THEN iffD1]

lemma lower_bound_ref_prefix:
  assumes "\<forall>x \<in> set xs. \<not> f32_ge x t"
  shows "lower_bound_ref t (xs @ ys) = length xs + lower_bound_ref t ys"
  using assms by (simp add: lower_bound_ref_def takeWhile_append)

lemma lower_bound_ref_append:
  "lower_bound_ref t xs < length xs \<Longrightarrow> lower_bound_ref t (xs @ ys) = lower_bound_ref t xs"
  unfolding lower_bound_ref_def
  by (induction xs) auto

lemma lower_bound_ref_drop:
  assumes "\<forall>x \<in> set (take i ds). \<not> f32_ge x t" and "i \<le> length ds"
  shows "lower_bound_ref t ds = i + lower_bound_ref t (drop i ds)"
  using lower_bound_ref_prefix [OF assms(1), of "drop i ds"] assms(2) by simp

lemma load_Some:
  assumes "first_ge t (load_simd ds i) = Some k"
    and "\<forall>x \<in> set (take i ds). \<not> f32_ge x t" and "i \<le> length ds"
  shows "lower_bound_ref t ds = i + k"
proof -
  have "lower_bound_ref t (take 8 (drop i ds)) = k \<and> k < length (take 8 (drop i ds))"
    using first_ge_Some [OF assms(1)] by (simp add: load_simd_def)
  then have "lower_bound_ref t (take 8 (drop i ds) @ drop 8 (drop i ds)) = k"
    by (subst lower_bound_ref_append) auto
  then have "lower_bound_ref t (drop i ds) = k"
    by (simp only: append_take_drop_id)
  then show ?thesis
    using lower_bound_ref_drop [OF assms(2,3)] by simp
qed

lemma load_None:
  assumes "first_ge t (load_simd ds i) = None" and "\<forall>x \<in> set (take i ds). \<not> f32_ge x t"
  shows "\<forall>x \<in> set (take (i + 8) ds). \<not> f32_ge x t"
  using first_ge_None [OF assms(1)] assms(2) by (auto simp: load_simd_def take_add)

lemma lower_bound_loop_spec:
  assumes "\<forall>x \<in> set (take i ds). \<not> f32_ge x t" and "i \<le> length ds"
  shows "case lower_bound_loop ds (length ds) t i of
           Inl r \<Rightarrow> r = lower_bound_ref t ds
         | Inr j \<Rightarrow> j \<le> length ds \<and> length ds < j + 16 \<and> (\<forall>x \<in> set (take j ds). \<not> f32_ge x t)"
  using assms
proof (induction ds "length ds" t i rule: lower_bound_loop.induct)
  case (1 ds t i)
  show ?case
  proof (cases "i + 16 \<le> length ds")
    case False
    with "1.prems" show ?thesis by (simp add: lower_bound_loop.simps)
  next
    case True
    show ?thesis
    proof (cases "first_ge t (load_simd ds i)")
      case (Some k)
      with True "1.prems" load_Some [OF Some] show ?thesis
        by (simp add: lower_bound_loop.simps)
    next
      case None
      note low = load_None [OF None "1.prems"(1)]
      show ?thesis
      proof (cases "first_ge t (load_simd ds (i + 8))")
        case (Some k)
        with True None load_Some [OF Some low] show ?thesis
          by (simp add: lower_bound_loop.simps)
      next
        case None2: None
        have "\<forall>x \<in> set (take (i + 16) ds). \<not> f32_ge x t"
          using load_None [OF None2 low] by (simp add: ac_simps)
        with "1.hyps" True None None2 show ?thesis
          by (subst lower_bound_loop.simps) simp
      qed
    qed
  qed
qed

lemma lower_bound_tail_spec:
  assumes "\<forall>x \<in> set (take i ds). \<not> f32_ge x t" and "i \<le> length ds" and "length ds < i + 8"
  shows "lower_bound_tail ds (length ds) t i = lower_bound_ref t ds"
proof (cases "i < length ds")
  case False
  with assms lower_bound_ref_drop [OF assms(1,2)] show ?thesis
    by (simp add: lower_bound_tail_def lower_bound_ref_def)
next
  case True
  let ?xs = "drop i ds"
  have load: "load_simd_first ds i (length ds - i) = ?xs @ replicate (8 - length ?xs) f32_zero"
    using assms(3) by (simp add: load_simd_first_def Let_def min_def)
  show ?thesis
  proof (cases "lower_bound_ref t ?xs < length ?xs")
    case lt: True
    show ?thesis
    proof (cases "first_ge t (?xs @ replicate (8 - length ?xs) f32_zero)")
      case None
      then have "\<forall>x \<in> set ?xs. \<not> f32_ge x t" using first_ge_None [OF None] by auto
      then have "lower_bound_ref t ?xs = length ?xs" 
        by (simp add: lower_bound_ref_def takeWhile_eq_all_conv [THEN iffD2])
      with lt show ?thesis by simp
    next
      case (Some k)
      with first_ge_Some [OF Some] lower_bound_ref_append [OF lt] True load
        lower_bound_ref_drop [OF assms(1,2)] show ?thesis
        by (simp add: lower_bound_tail_def)
    qed
  next
    case ge: False
    then have all: "\<forall>x \<in> set ?xs. \<not> f32_ge x t"
      unfolding lower_bound_ref_def
      by (metis le_antisym length_takeWhile_le not_less takeWhile_eq_take take_all set_takeWhileD)
    have whole: "lower_bound_ref t ds = length ds"
      using lower_bound_ref_drop [OF assms(1,2)] ge lower_bound_ref_le [of t ?xs] assms(2) by simp
    show ?thesis
    proof (cases "first_ge t (?xs @ replicate (8 - length ?xs) f32_zero)")
      case None
      with load True whole show ?thesis by (simp add: lower_bound_tail_def)
    next
      case (Some k)
      have "lower_bound_ref t (?xs @ replicate (8 - length ?xs) f32_zero)
            = length ?xs + lower_bound_ref t (replicate (8 - length ?xs) f32_zero)"
        by (rule lower_bound_ref_prefix [OF all])
      moreover have "f32_ge f32_zero t"
      proof (rule ccontr)
        assume "\<not> f32_ge f32_zero t"
        then have "first_ge t (?xs @ replicate (8 - length ?xs) f32_zero) = None"
          using all by (auto simp: first_ge_eq_None)
        with Some show False by simp
      qed
      then have "lower_bound_ref t (replicate (8 - length ?xs) f32_zero) = 0"
        by (cases "8 - length ?xs") (auto simp: lower_bound_ref_def)
      ultimately have "k = length ?xs" using first_ge_Some [OF Some] by simp
      with load True whole Some show ?thesis by (simp add: lower_bound_tail_def)
    qed
  qed
qed

lemma get_lower_bound_ref:
  assumes "pq_size q = length (pq_distances q)"
  shows "get_lower_bound q t = lower_bound_ref t (pq_distances q)"
proof -
  let ?ds = "pq_distances q"
  have loop: "case lower_bound_loop ?ds (length ?ds) t 0 of
           Inl r \<Rightarrow> r = lower_bound_ref t ?ds
         | Inr j \<Rightarrow> j \<le> length ?ds \<and> length ?ds < j + 16 \<and> (\<forall>x \<in> set (take j ?ds). \<not> f32_ge x t)"
    by (rule lower_bound_loop_spec) simp_all
  show ?thesis
  proof (cases "lower_bound_loop ?ds (length ?ds) t 0")
    case (Inl r)
    with loop assms show ?thesis by (simp add: get_lower_bound_def)
  next
    case (Inr j)
    with loop have j: "j \<le> length ?ds" "length ?ds < j + 16" "\<forall>x \<in> set (take j ?ds). \<not> f32_ge x t"
      by simp_all
    show ?thesis
    proof (cases "j + 8 \<le> length ?ds")
      case False
      with Inr j assms show ?thesis by (simp add: get_lower_bound_def lower_bound_tail_spec)
    next
      case True
      show ?thesis
      proof (cases "first_ge t (load_simd ?ds j)")
        case (Some k)
        with True Inr assms load_Some [OF Some j(3,1)] show ?thesis
          by (simp add: get_lower_bound_def)
      next
        case None
        have "lower_bound_tail ?ds (length ?ds) t (j + 8) = lower_bound_ref t ?ds"
          by (rule lower_bound_tail_spec [OF load_None [OF None j(3)]]) (use True j in auto)
        with None True Inr assms show ?thesis by (simp add: get_lower_bound_def)
      qed
    qed
  qed
qed

section \<open>Invariant\<close>

definition keys_sorted :: "f32 list \<Rightarrow> bool" where
  "keys_sorted ds \<longleftrightarrow> sorted (map f32_key ds) \<and> (\<forall>d \<in> set ds. \<not> f32_is_nan d)"

text \<open>
  The vectors have the recorded size, which the capacity bounds; the distances are sorted and
  contain no NaN; the cursor is within the queue.
\<close>

definition npq_wf :: "'i npq \<Rightarrow> bool" where
  "npq_wf q \<longleftrightarrow>
     length (pq_id_visiteds q) = pq_size q \<and> length (pq_distances q) = pq_size q \<and>
     pq_size q \<le> pq_capacity q \<and> pq_cursor q \<le> pq_size q \<and> keys_sorted (pq_distances q)"

text \<open>The cursor stands on the first unvisited entry.\<close>

definition npq_cursor_ok :: "'i npq \<Rightarrow> bool" where
  "npq_cursor_ok q \<longleftrightarrow>
     (\<forall>i < pq_cursor q. snd (pq_id_visiteds q ! i)) \<and>
     (pq_cursor q < pq_size q \<longrightarrow> \<not> snd (pq_id_visiteds q ! pq_cursor q))"

abbreviation npq_zip :: "'i npq \<Rightarrow> (('i \<times> bool) \<times> f32) list" where
  "npq_zip q \<equiv> zip (pq_id_visiteds q) (pq_distances q)"

abbreviation entry_nbr :: "('i \<times> bool) \<times> f32 \<Rightarrow> 'i nbr" where
  "entry_nbr e \<equiv> Neighbor (fst (fst e)) (snd e)"

abbreviation entry_visited :: "('i \<times> bool) \<times> f32 \<Rightarrow> bool" where
  "entry_visited e \<equiv> snd (fst e)"

definition npq_entries :: "'i npq \<Rightarrow> 'i nbr list" where
  "npq_entries q = map entry_nbr (npq_zip q)"

abbreviation insert_at :: "nat \<Rightarrow> 'a \<Rightarrow> 'a list \<Rightarrow> 'a list" where
  "insert_at i x xs \<equiv> take i xs @ x # drop i xs"

text \<open>Abstractly, an entry goes in front of the first one that is not closer.\<close>

definition insert_before :: "'i nbr \<Rightarrow> 'i nbr list \<Rightarrow> 'i nbr list" where
  "insert_before n ns =
     takeWhile (\<lambda>m. \<not> f32_ge (nbr_distance m) (nbr_distance n)) ns @ n #
     dropWhile (\<lambda>m. \<not> f32_ge (nbr_distance m) (nbr_distance n)) ns"

lemma keys_sorted_simps [simp]:
  "keys_sorted []"
  "keys_sorted (d # ds) \<longleftrightarrow> \<not> f32_is_nan d \<and> (\<forall>x \<in> set ds. f32_key d \<le> f32_key x) \<and> keys_sorted ds"
  by (auto simp: keys_sorted_def)

lemma keys_sorted_take [simp]: "keys_sorted ds \<Longrightarrow> keys_sorted (take n ds)"
  by (auto simp: keys_sorted_def sorted_wrt_take simp flip: take_map dest: in_set_takeD)

lemma keys_sorted_drop [simp]: "keys_sorted ds \<Longrightarrow> keys_sorted (drop n ds)"
  by (auto simp: keys_sorted_def sorted_wrt_drop simp flip: drop_map dest: in_set_dropD)

lemma keys_sorted_append:
  "keys_sorted (xs @ ys) \<longleftrightarrow> keys_sorted xs \<and> keys_sorted ys \<and>
     (\<forall>x \<in> set xs. \<forall>y \<in> set ys. f32_key x \<le> f32_key y)"
  by (auto simp: keys_sorted_def sorted_append)

lemma keys_sorted_nth:
  "keys_sorted ds \<Longrightarrow> i \<le> j \<Longrightarrow> j < length ds \<Longrightarrow> f32_le (ds ! i) (ds ! j)"
  using sorted_nth_mono [of "map f32_key ds" i j]
  by (simp add: keys_sorted_def f32_le_def)

lemma lower_bound_ref_take:
  "x \<in> set (take (lower_bound_ref t ds) ds) \<Longrightarrow> \<not> f32_ge x t"
  unfolding lower_bound_ref_def by (metis set_takeWhileD takeWhile_eq_take)

lemma lower_bound_ref_drop_ge:
  assumes "keys_sorted ds" and "x \<in> set (drop (lower_bound_ref t ds) ds)"
  shows "f32_ge x t"
proof -
  have d: "drop (lower_bound_ref t ds) ds = dropWhile (\<lambda>x. \<not> f32_ge x t) ds"
    unfolding lower_bound_ref_def by (rule dropWhile_eq_drop [symmetric])
  obtain y ys where y: "dropWhile (\<lambda>x. \<not> f32_ge x t) ds = y # ys"
    using assms(2) d by (cases "dropWhile (\<lambda>x. \<not> f32_ge x t) ds") auto
  have "f32_ge y t" using y by (metis hd_dropWhile list.distinct(1) list.sel(1))
  moreover have "keys_sorted (y # ys)" using assms(1) d y by (metis keys_sorted_drop)
  ultimately show ?thesis using assms(2) d y by (auto simp: f32_order keys_sorted_def)
qed

lemma keys_sorted_insert:
  assumes "keys_sorted ds" and "\<not> f32_is_nan t"
  shows "keys_sorted (insert_at (lower_bound_ref t ds) t ds)"
proof -
  have "\<forall>x \<in> set (take (lower_bound_ref t ds) ds). f32_key x < f32_key t"
    using assms lower_bound_ref_take [of _ t ds]
    by (force simp: f32_order keys_sorted_def dest: in_set_takeD)
  moreover have "\<forall>x \<in> set (drop (lower_bound_ref t ds) ds). f32_key t \<le> f32_key x"
    using lower_bound_ref_drop_ge [OF assms(1)] by (auto simp: f32_order)
  ultimately show ?thesis
    using assms by (force simp: keys_sorted_append)
qed

section \<open>Insertion\<close>

lemma take_insert_at:
  "i \<le> c \<Longrightarrow> c < length xs \<Longrightarrow>
   take (Suc c) (insert_at i x xs) = insert_at i x (take c xs)"
  by (simp add: min_def take_Cons' drop_take Suc_diff_le)

lemma if_less_min: "(if i < c then i else c) = min i (c :: nat)"
  by simp

lemma wf_lower_bound:
  "npq_wf q \<Longrightarrow> get_lower_bound q t = lower_bound_ref t (pq_distances q)"
  by (simp add: npq_wf_def get_lower_bound_ref)

lemma wf_insert_idx:
  "npq_wf q \<Longrightarrow> (if 0 < pq_size q then get_lower_bound q t else 0) = lower_bound_ref t (pq_distances q)"
  by (auto simp: wf_lower_bound lower_bound_ref_def npq_wf_def)

text \<open>The closed form of an insertion, on every branch.\<close>

lemma npq_insert_eq:
  assumes wf: "npq_wf q" and nan: "\<not> f32_is_nan (nbr_distance n)"
    and cap: "pq_auto_resizable q \<or> 0 < pq_capacity q"
  defines "i \<equiv> lower_bound_ref (nbr_distance n) (pq_distances q)"
    and "c \<equiv> (if pq_auto_resizable q \<and> pq_size q = pq_capacity q
              then pq_capacity q + max 1 (pq_capacity q div 2) else pq_capacity q)"
  shows "npq_insert q n = Inr (q\<lparr>pq_capacity := c,
           pq_id_visiteds := take c (insert_at i (nbr_id n, False) (pq_id_visiteds q)),
           pq_distances := take c (insert_at i (nbr_distance n) (pq_distances q)),
           pq_size := min c (Suc (pq_size q)), pq_cursor := min i (pq_cursor q)\<rparr>)"
proof -
  have i: "i \<le> pq_size q"
    using wf lower_bound_ref_le [of "nbr_distance n" "pq_distances q"] by (simp add: i_def npq_wf_def)
  have room: "npq_insert_at_bound r n = Inr (r\<lparr>
           pq_id_visiteds := insert_at i (nbr_id n, False) (pq_id_visiteds r),
           pq_distances := insert_at i (nbr_distance n) (pq_distances r),
           pq_size := Suc (pq_size r), pq_cursor := min i (pq_cursor r)\<rparr>)"
    if "npq_wf r" "pq_size r < pq_capacity r" "pq_distances r = pq_distances q" for r
    using that i wf wf_insert_idx [OF that(1), of "nbr_distance n"]
    by (simp add: npq_insert_at_bound_def npq_wf_def i_def Let_def min_def)
  show ?thesis
  proof (cases "pq_size q = pq_capacity q")
    case False
    with wf have "pq_size q < pq_capacity q" by (simp add: npq_wf_def)
    with room [OF wf] False wf show ?thesis
      using nan i by (simp add: npq_insert_def c_def npq_wf_def)
  next
    case full: True
    show ?thesis
    proof (cases "pq_auto_resizable q")
      case True
      let ?r = "npq_reserve q (max 1 (pq_capacity q div 2))"
      have "npq_wf ?r" using wf by (simp add: npq_wf_def npq_reserve_def)
      moreover have "pq_size ?r < pq_capacity ?r" "pq_distances ?r = pq_distances q"
        using full by (simp_all add: npq_reserve_def max_def)
      ultimately have "npq_insert q n = Inr (?r\<lparr>
           pq_id_visiteds := insert_at i (nbr_id n, False) (pq_id_visiteds ?r),
           pq_distances := insert_at i (nbr_distance n) (pq_distances ?r),
           pq_size := Suc (pq_size ?r), pq_cursor := min i (pq_cursor ?r)\<rparr>)"
        using room full True nan by (simp add: npq_insert_def)
      with full True wf i show ?thesis
        by (simp add: c_def npq_reserve_def npq_wf_def)
    next
      case False
      with cap have pos: "0 < pq_size q" using full by simp
      let ?l = "pq_size q - 1"
      have c: "c = Suc ?l" using False full pos by (simp add: c_def)
      have len: "length (pq_id_visiteds q) = Suc ?l" "length (pq_distances q) = Suc ?l"
        using wf pos by (simp_all add: npq_wf_def)
      have last: "get_unchecked q ?l = Inr (Neighbor (fst (pq_id_visiteds q ! ?l)) (pq_distances q ! ?l))"
        using len by (simp add: get_unchecked_def)
      show ?thesis
      proof (cases "f32_lt (pq_distances q ! ?l) (nbr_distance n)")
        case True
        have "\<forall>x \<in> set (pq_distances q). \<not> f32_ge x (nbr_distance n)"
        proof
          fix x assume "x \<in> set (pq_distances q)"
          then obtain j where "j \<le> ?l" "x = pq_distances q ! j"
            using len by (metis in_set_conv_nth less_Suc_eq_le)
          then have "f32_le x (pq_distances q ! ?l)"
            using keys_sorted_nth [of "pq_distances q" j ?l] wf len by (simp add: npq_wf_def)
          with True show "\<not> f32_ge x (nbr_distance n)" by (auto simp: f32_order)
        qed
        then have "i = pq_size q"
          using wf unfolding i_def lower_bound_ref_def
          by (subst takeWhile_eq_all_conv [THEN iffD2]) (auto simp: npq_wf_def)
        with True False full last nan wf pos show ?thesis
          by (simp add: npq_insert_def c_def npq_wf_def min_def)
      next
        case ge: False
        have "i \<le> ?l"
        proof (rule ccontr)
          assume "\<not> i \<le> ?l"
          then have "pq_distances q ! ?l \<in> set (take i (pq_distances q))"
            using len i pos by (auto simp: in_set_conv_nth intro!: exI [of _ ?l])
          then have "\<not> f32_ge (pq_distances q ! ?l) (nbr_distance n)"
            unfolding i_def by (rule lower_bound_ref_take)
          with ge nan wf len show False
            by (auto simp: f32_order npq_wf_def keys_sorted_def)
        qed
        then have "npq_insert_at_bound q n = Inr (q\<lparr>
             pq_id_visiteds := insert_at i (nbr_id n, False) (take ?l (pq_id_visiteds q)),
             pq_distances := insert_at i (nbr_distance n) (take ?l (pq_distances q)),
             pq_size := Suc ?l, pq_cursor := min i (pq_cursor q)\<rparr>)"
          using full pos len wf_insert_idx [OF wf, of "nbr_distance n"]
          by (simp add: npq_insert_at_bound_def Let_def i_def [symmetric] vec_insert_def
              if_less_min del: take_take)
        moreover have "take c (insert_at i x xs) = insert_at i x (take ?l xs)"
          if "length xs = Suc ?l" for x :: 'z and xs
          unfolding c by (rule take_insert_at) (use that \<open>i \<le> ?l\<close> in simp_all)
        note trunc = this this
        ultimately show ?thesis
          using False ge full pos last nan trunc(1) [OF len(1)] trunc(2) [OF len(2)]
          by (simp add: npq_insert_def c_def del: take_append)
      qed
    qed
  qed
qed

lemma length_entries [simp]: "npq_wf q \<Longrightarrow> length (npq_entries q) = pq_size q"
  by (simp add: npq_entries_def npq_wf_def)

lemma entries_nth:
  "npq_wf q \<Longrightarrow> i < pq_size q \<Longrightarrow>
   npq_entries q ! i = Neighbor (fst (pq_id_visiteds q ! i)) (pq_distances q ! i)"
  by (simp add: npq_entries_def npq_wf_def)

lemma distances_entries: "npq_wf q \<Longrightarrow> map nbr_distance (npq_entries q) = pq_distances q"
  by (rule nth_equalityI) (auto simp: npq_wf_def npq_entries_def)

lemma ids_entries: "npq_wf q \<Longrightarrow> map nbr_id (npq_entries q) = map fst (pq_id_visiteds q)"
  by (rule nth_equalityI) (auto simp: npq_wf_def npq_entries_def)

lemma insert_before_eq:
  "insert_before n ns = insert_at (lower_bound_ref (nbr_distance n) (map nbr_distance ns)) n ns"
  by (simp add: insert_before_def lower_bound_ref_def takeWhile_map comp_def
      takeWhile_eq_take [symmetric] dropWhile_eq_drop [symmetric])

lemma npq_insert_zip:
  assumes wf: "npq_wf q" and "\<not> f32_is_nan (nbr_distance n)"
    and "pq_auto_resizable q \<or> 0 < pq_capacity q" and ins: "npq_insert q n = Inr q'"
  shows "npq_zip q' = take (pq_capacity q')
           (insert_at (lower_bound_ref (nbr_distance n) (pq_distances q))
              ((nbr_id n, False), nbr_distance n) (npq_zip q))"
    and "pq_capacity q' = (if pq_auto_resizable q \<and> pq_size q = pq_capacity q
              then pq_capacity q + max 1 (pq_capacity q div 2) else pq_capacity q)"
    and "pq_search_param_l q' = pq_search_param_l q" and "pq_auto_resizable q' = pq_auto_resizable q"
    and "pq_cursor q' = min (lower_bound_ref (nbr_distance n) (pq_distances q)) (pq_cursor q)"
proof -
  note q' = trans [OF ins [symmetric] npq_insert_eq [OF assms(1-3)], unfolded sum.inject]
  let ?i = "lower_bound_ref (nbr_distance n) (pq_distances q)"
  have i: "?i \<le> pq_size q" using wf lower_bound_ref_le [of "nbr_distance n" "pq_distances q"]
    by (simp add: npq_wf_def)
  have z: "zip (insert_at ?i (nbr_id n, False) (pq_id_visiteds q)) (insert_at ?i (nbr_distance n) (pq_distances q))
      = insert_at ?i ((nbr_id n, False), nbr_distance n) (zip (pq_id_visiteds q) (pq_distances q))"
    by (rule zip_insert_at) (use wf i in \<open>simp_all add: npq_wf_def\<close>)
  have ivs: "pq_id_visiteds q' = take (pq_capacity q') (insert_at ?i (nbr_id n, False) (pq_id_visiteds q))"
    and ds: "pq_distances q' = take (pq_capacity q') (insert_at ?i (nbr_distance n) (pq_distances q))"
    by (subst q', simp del: take_append)+
  show "npq_zip q' = take (pq_capacity q') (insert_at ?i ((nbr_id n, False), nbr_distance n) (npq_zip q))"
    unfolding ivs ds take_zip [symmetric] z ..
qed (subst trans [OF ins [symmetric] npq_insert_eq [OF assms(1-3)], unfolded sum.inject], simp)+

lemma npq_insert_entries:
  assumes wf: "npq_wf q" and "\<not> f32_is_nan (nbr_distance n)"
    and "pq_auto_resizable q \<or> 0 < pq_capacity q" and ins: "npq_insert q n = Inr q'"
  shows "npq_entries q' = take (pq_capacity q') (insert_before n (npq_entries q))"
proof -
  let ?i = "lower_bound_ref (nbr_distance n) (pq_distances q)"
  have "npq_entries q' = take (pq_capacity q') (map entry_nbr
          (insert_at ?i ((nbr_id n, False), nbr_distance n) (npq_zip q)))"
    unfolding npq_entries_def npq_insert_zip(1) [OF assms] take_map ..
  also have "map entry_nbr (insert_at ?i ((nbr_id n, False), nbr_distance n) (npq_zip q))
     = insert_at ?i n (npq_entries q)"
    by (simp add: npq_entries_def take_map drop_map)
  finally show ?thesis
    unfolding insert_before_eq distances_entries [OF wf] .
qed

lemma npq_insert_wf:
  assumes wf: "npq_wf q" and "\<not> f32_is_nan (nbr_distance n)"
    and "pq_auto_resizable q \<or> 0 < pq_capacity q" and ins: "npq_insert q n = Inr q'"
  shows "npq_wf q'" and "npq_cursor_ok q \<Longrightarrow> npq_cursor_ok q'"
proof -
  let ?i = "lower_bound_ref (nbr_distance n) (pq_distances q)"
  let ?c = "if pq_auto_resizable q \<and> pq_size q = pq_capacity q
              then pq_capacity q + max 1 (pq_capacity q div 2) else pq_capacity q"
  have i: "?i \<le> pq_size q" using wf lower_bound_ref_le [of "nbr_distance n" "pq_distances q"]
    by (simp add: npq_wf_def)
  have q': "q' = q\<lparr>pq_capacity := ?c,
           pq_id_visiteds := take ?c (insert_at ?i (nbr_id n, False) (pq_id_visiteds q)),
           pq_distances := take ?c (insert_at ?i (nbr_distance n) (pq_distances q)),
           pq_size := min ?c (Suc (pq_size q)), pq_cursor := min ?i (pq_cursor q)\<rparr>"
    using ins npq_insert_eq [OF assms(1-3)] by simp
  have c: "pq_size q \<le> ?c" "0 < ?c" using wf assms(3) by (auto simp: npq_wf_def max_def)
  have srt: "keys_sorted (take ?c (insert_at ?i (nbr_distance n) (pq_distances q)))"
    by (rule keys_sorted_take [OF keys_sorted_insert]) (use assms in \<open>auto simp: npq_wf_def\<close>)
  show "npq_wf q'"
    using wf i c srt unfolding q' npq_wf_def by (simp del: take_append) (simp add: min_def)
  assume ok: "npq_cursor_ok q"
  have nth: "take ?c (insert_at ?i (nbr_id n, False) (pq_id_visiteds q)) ! j
     = (if j < ?i then pq_id_visiteds q ! j else if j = ?i then (nbr_id n, False)
        else pq_id_visiteds q ! (j - 1))" if "j < ?c" for j
    unfolding nth_take [OF that] by (rule nth_insert_at) (use i wf in \<open>simp add: npq_wf_def\<close>)
  show "npq_cursor_ok q'"
    unfolding npq_cursor_ok_def
  proof (intro conjI allI impI)
    fix j assume "j < pq_cursor q'"
    then have "j < ?i" "j < pq_cursor q" "j < ?c" using i c wf by (auto simp: q' npq_wf_def)
    then show "snd (pq_id_visiteds q' ! j)"
      using ok nth [of j] by (simp add: q' npq_cursor_ok_def del: take_append)
  next
    assume "pq_cursor q' < pq_size q'"
    then have lt: "min ?i (pq_cursor q) < ?c" by (simp add: q')
    show "\<not> snd (pq_id_visiteds q' ! pq_cursor q')"
    proof (cases "?i \<le> pq_cursor q")
      case True
      then show ?thesis using nth [OF lt] by (simp add: q' del: take_append)
    next
      case False
      then have "pq_cursor q < pq_size q" using i by simp
      then show ?thesis using False nth [OF lt] ok by (simp add: q' npq_cursor_ok_def del: take_append)
    qed
  qed
qed

lemma npq_insert_nan: "f32_is_nan (nbr_distance n) \<Longrightarrow> npq_insert q n = Inr q"
  by (simp add: npq_insert_def)

lemma npq_insert_total:
  "npq_wf q \<Longrightarrow> pq_auto_resizable q \<or> 0 < pq_capacity q \<Longrightarrow> \<exists>q'. npq_insert q n = Inr q'"
  by (cases "f32_is_nan (nbr_distance n)") (auto simp: npq_insert_nan npq_insert_eq)

section \<open>Taking the closest unvisited entry\<close>

lemma skip_visited_spec:
  assumes "length (pq_id_visiteds q) = pq_size q" and "c \<le> pq_size q"
  shows "\<exists>c'. skip_visited q c = Inr c' \<and> c \<le> c' \<and> c' \<le> pq_size q \<and>
     (\<forall>i. c \<le> i \<longrightarrow> i < c' \<longrightarrow> snd (pq_id_visiteds q ! i)) \<and>
     (c' < pq_size q \<longrightarrow> \<not> snd (pq_id_visiteds q ! c'))"
  using assms
proof (induction q c rule: skip_visited.induct)
  case (1 q c)
  show ?case
  proof (cases "c < pq_size q")
    case False
    with "1.prems" show ?thesis by (subst skip_visited.simps) auto
  next
    case lt: True
    then have v: "npq_get_visited q c = Inr (snd (pq_id_visiteds q ! c))"
      using "1.prems" by (simp add: npq_get_visited_def)
    show ?thesis
    proof (cases "snd (pq_id_visiteds q ! c)")
      case False
      with lt v show ?thesis by (subst skip_visited.simps) auto
    next
      case True
      from "1.IH" [OF lt True] "1.prems" lt obtain c' where c':
        "skip_visited q (Suc c) = Inr c'" "Suc c \<le> c'" "c' \<le> pq_size q"
        "\<forall>i. Suc c \<le> i \<longrightarrow> i < c' \<longrightarrow> snd (pq_id_visiteds q ! i)"
        "c' < pq_size q \<longrightarrow> \<not> snd (pq_id_visiteds q ! c')"
        by auto
      have "snd (pq_id_visiteds q ! i)" if "c \<le> i" "i < c'" for i
        using that True c'(4) by (cases "i = c") auto
      moreover have "skip_visited q c = Inr c'"
        using lt v True c'(1) by (subst skip_visited.simps) simp
      ultimately show ?thesis using c' by (intro exI [of _ c']) auto
    qed
  qed
qed

lemma npq_closest_notvisited_spec:
  assumes wf: "npq_wf q" and has: "npq_has_notvisited_node q"
  obtains c where
    "npq_closest_notvisited q = Inr (Some (npq_entries q ! pq_cursor q),
       q\<lparr>pq_id_visiteds := (pq_id_visiteds q)[pq_cursor q := (fst (pq_id_visiteds q ! pq_cursor q), True)],
         pq_cursor := c\<rparr>)"
    and "pq_cursor q < c" and "c \<le> pq_size q"
    and "\<And>i. pq_cursor q < i \<Longrightarrow> i < c \<Longrightarrow> snd (pq_id_visiteds q ! i)"
    and "c < pq_size q \<Longrightarrow> \<not> snd (pq_id_visiteds q ! c)"
proof -
  let ?cur = "pq_cursor q"
  let ?q = "q\<lparr>pq_id_visiteds := (pq_id_visiteds q)[?cur := (fst (pq_id_visiteds q ! ?cur), True)]\<rparr>"
  have cur: "?cur < pq_size q" using has by (simp add: npq_has_notvisited_node_def)
  have len: "length (pq_id_visiteds q) = pq_size q" "length (pq_distances q) = pq_size q"
    "pq_size q \<le> pq_capacity q"
    using wf by (simp_all add: npq_wf_def)
  obtain c where c: "skip_visited ?q (Suc ?cur) = Inr c" "Suc ?cur \<le> c" "c \<le> pq_size q"
      "\<forall>i. Suc ?cur \<le> i \<longrightarrow> i < c \<longrightarrow> snd (pq_id_visiteds ?q ! i)"
      "c < pq_size q \<longrightarrow> \<not> snd (pq_id_visiteds ?q ! c)"
    using skip_visited_spec [of ?q "Suc ?cur"] cur len by auto
  have set: "npq_set_visited q ?cur True = Inr ?q"
    using cur len by (simp add: npq_set_visited_def)
  have "get_unchecked ?q ?cur = Inr (npq_entries q ! ?cur)"
    using cur len wf by (simp add: get_unchecked_def entries_nth)
  with set c(1) have "npq_closest_notvisited q = Inr (Some (npq_entries q ! ?cur), ?q\<lparr>pq_cursor := c\<rparr>)"
    using has by (simp add: npq_closest_notvisited_def Let_def)
  with c show thesis by (intro that [of c]) auto
qed

lemma npq_closest_notvisited_none:
  "\<not> npq_has_notvisited_node q \<Longrightarrow> npq_closest_notvisited q = Inr (None, q)"
  by (simp add: npq_closest_notvisited_def)

lemma npq_closest_notvisited_wf:
  assumes wf: "npq_wf q" and r: "npq_closest_notvisited q = Inr (r, q')"
  shows "npq_wf q'" and "npq_cursor_ok q \<Longrightarrow> npq_cursor_ok q'" and "npq_entries q' = npq_entries q"
proof -
  have "npq_wf q' \<and> (npq_cursor_ok q \<longrightarrow> npq_cursor_ok q') \<and> npq_entries q' = npq_entries q"
  proof (cases "npq_has_notvisited_node q")
    case False
    with wf r show ?thesis by (simp add: npq_closest_notvisited_none)
  next
    case True
    then have cur: "pq_cursor q < pq_size q" by (simp add: npq_has_notvisited_node_def)
    from wf True obtain c where c: "npq_closest_notvisited q = Inr (Some (npq_entries q ! pq_cursor q),
       q\<lparr>pq_id_visiteds := (pq_id_visiteds q)[pq_cursor q := (fst (pq_id_visiteds q ! pq_cursor q), True)],
         pq_cursor := c\<rparr>)" "pq_cursor q < c" "c \<le> pq_size q"
        "\<And>i. pq_cursor q < i \<Longrightarrow> i < c \<Longrightarrow> snd (pq_id_visiteds q ! i)"
        "c < pq_size q \<Longrightarrow> \<not> snd (pq_id_visiteds q ! c)"
      by (rule npq_closest_notvisited_spec) blast
    then have q': "q' = q\<lparr>pq_id_visiteds := (pq_id_visiteds q)[pq_cursor q := (fst (pq_id_visiteds q ! pq_cursor q), True)],
         pq_cursor := c\<rparr>" using r by simp
    have wf': "npq_wf q'" using wf c(3) by (simp add: q' npq_wf_def)
    have "npq_cursor_ok q'" if ok: "npq_cursor_ok q"
      unfolding npq_cursor_ok_def
    proof (intro conjI allI impI)
      fix i assume "i < pq_cursor q'"
      then have "i < pq_cursor q \<or> i = pq_cursor q \<or> pq_cursor q < i \<and> i < c" by (auto simp: q')
      then show "snd (pq_id_visiteds q' ! i)"
        using ok c(4) cur wf by (auto simp: q' npq_cursor_ok_def npq_wf_def nth_list_update)
    next
      assume "pq_cursor q' < pq_size q'"
      then show "\<not> snd (pq_id_visiteds q' ! pq_cursor q')"
        using c(2,5) by (simp add: q')
    qed
    moreover have "npq_entries q' = npq_entries q"
    proof (rule nth_equalityI)
      have len: "length (pq_id_visiteds q) = pq_size q" using wf by (simp add: npq_wf_def)
      fix i assume "i < length (npq_entries q')"
      then have "i < pq_size q" using wf' by (simp add: q')
      then show "npq_entries q' ! i = npq_entries q ! i"
        using entries_nth [OF wf, of i] entries_nth [OF wf', of i] len cur
        by (cases "i = pq_cursor q") (simp_all add: q')
    qed (use wf wf' in \<open>simp add: q'\<close>)
    ultimately show ?thesis using wf' by blast
  qed
  then show "npq_wf q'" "npq_cursor_ok q \<Longrightarrow> npq_cursor_ok q'" "npq_entries q' = npq_entries q"
    by auto
qed

section \<open>The pending entries\<close>

text \<open>
  The flagged entries among the \<open>search_param_l\<close> best, those the cursor has passed, and those a
  search still has to take: the one under the cursor and the unvisited ones behind it. Only
  \<open>drain_best\<close> leaves the cursor on an entry that is already visited, so the invariant of a search
  is the weaker one, that everything before the cursor is visited.
\<close>

definition npq_prefix_ok :: "'i npq \<Rightarrow> bool" where
  "npq_prefix_ok q \<longleftrightarrow> (\<forall>i < pq_cursor q. snd (pq_id_visiteds q ! i))"

definition npq_pending :: "'i npq \<Rightarrow> 'i nbr list" where
  "npq_pending q = map entry_nbr
     (case drop (pq_cursor q) (take (pq_search_param_l q) (npq_zip q)) of
        [] \<Rightarrow> [] | e # es \<Rightarrow> e # filter (\<lambda>e. \<not> entry_visited e) es)"

definition npq_done :: "'i npq \<Rightarrow> 'i nbr set" where
  "npq_done q = entry_nbr ` {e \<in> set (npq_zip q). entry_visited e}"

lemma cursor_ok_prefix: "npq_cursor_ok q \<Longrightarrow> npq_prefix_ok q"
  by (simp add: npq_cursor_ok_def npq_prefix_ok_def)

lemma filter_take_none:
  assumes "\<And>i. i < c \<Longrightarrow> i < length xs \<Longrightarrow> \<not> P (xs ! i)"
  shows "filter P (take c xs) = []"
  using assms by (auto simp: filter_empty_conv in_set_conv_nth)

lemma filter_drop_all:
  assumes "\<And>i. i < c \<Longrightarrow> i < length xs \<Longrightarrow> \<not> P (xs ! i)"
  shows "filter P xs = filter P (drop c xs)"
  using filter_take_none [of c xs P] assms by (metis append_Nil append_take_drop_id filter_append)

text \<open>With the cursor on the first unvisited entry, the pending entries are the unvisited ones.\<close>

lemma npq_pending_unvisited:
  assumes "npq_wf q" and "npq_cursor_ok q"
  shows "npq_pending q =
     map entry_nbr (filter (\<lambda>e. \<not> entry_visited e) (take (pq_search_param_l q) (npq_zip q)))"
proof -
  let ?Z = "take (pq_search_param_l q) (npq_zip q)"
  have "filter (\<lambda>e. \<not> entry_visited e) ?Z = filter (\<lambda>e. \<not> entry_visited e) (drop (pq_cursor q) ?Z)"
    by (rule filter_drop_all) (use assms in \<open>auto simp: npq_cursor_ok_def npq_wf_def\<close>)
  moreover have "\<not> entry_visited e" if "drop (pq_cursor q) ?Z = e # es" for e es
  proof -
    have "pq_cursor q < length ?Z" using that by (metis drop_all list.distinct(1) not_less)
    moreover from this have "e = ?Z ! pq_cursor q" using that by (metis Cons_nth_drop_Suc list.inject)
    ultimately show ?thesis using assms by (auto simp: npq_cursor_ok_def npq_wf_def)
  qed
  ultimately show ?thesis by (auto simp: npq_pending_def split: list.split)
qed

lemma npq_has_pending:
  assumes "npq_wf q"
  shows "npq_has_notvisited_node q \<longleftrightarrow> npq_pending q \<noteq> []"
proof -
  have "npq_pending q = [] \<longleftrightarrow> drop (pq_cursor q) (take (pq_search_param_l q) (npq_zip q)) = []"
    unfolding npq_pending_def by (cases "drop (pq_cursor q) (take (pq_search_param_l q) (npq_zip q))")
      (simp_all only: list.case list.map, simp_all)
  also have "\<dots> \<longleftrightarrow> \<not> npq_has_notvisited_node q"
    using assms by (auto simp: npq_has_notvisited_node_def npq_wf_def)
  finally show ?thesis by blast
qed

lemma npq_pending_done:
  assumes "npq_wf q" and "npq_prefix_ok q"
  shows "set (take (pq_search_param_l q) (npq_entries q)) \<subseteq> set (npq_pending q) \<union> npq_done q"
proof
  let ?Z = "take (pq_search_param_l q) (npq_zip q)"
  fix n assume "n \<in> set (take (pq_search_param_l q) (npq_entries q))"
  then obtain e where e: "e \<in> set ?Z" "n = entry_nbr e"
    by (auto simp: npq_entries_def take_map)
  then consider "e \<in> set (take (pq_cursor q) ?Z)" | "e \<in> set (drop (pq_cursor q) ?Z)"
    by (metis Un_iff append_take_drop_id set_append)
  then show "n \<in> set (npq_pending q) \<union> npq_done q"
  proof cases
    case 1
    then have "entry_visited e" using assms by (auto simp: npq_prefix_ok_def npq_wf_def in_set_conv_nth)
    with e show ?thesis by (auto simp: npq_done_def dest: in_set_takeD)
  next
    case 2
    then obtain y ys where y: "drop (pq_cursor q) ?Z = y # ys"
      by (cases "drop (pq_cursor q) ?Z") auto
    show ?thesis
    proof (cases "entry_visited e")
      case True
      with e show ?thesis by (auto simp: npq_done_def dest: in_set_takeD)
    next
      case False
      with 2 y e show ?thesis by (auto simp: npq_pending_def)
    qed
  qed
qed

lemma npq_closest_pending:
  assumes wf: "npq_wf q" and pend: "npq_pending q = n # ns"
  obtains q' where "npq_closest_notvisited q = Inr (Some n, q')" and "npq_pending q' = ns"
    and "npq_wf q'" and "npq_prefix_ok q \<Longrightarrow> npq_prefix_ok q'" and "npq_entries q' = npq_entries q"
    and "pq_search_param_l q' = pq_search_param_l q" and "npq_done q' \<subseteq> insert n (npq_done q)"
    and "pq_capacity q' = pq_capacity q" and "pq_auto_resizable q' = pq_auto_resizable q"
proof -
  have has: "npq_has_notvisited_node q" using npq_has_pending [OF wf] pend by simp
  let ?cur = "pq_cursor q"
  let ?iv = "fst (pq_id_visiteds q ! ?cur)"
  let ?Z = "\<lambda>q. take (pq_search_param_l q) (npq_zip q)"
  from wf has obtain c where c: "npq_closest_notvisited q = Inr (Some (npq_entries q ! ?cur),
       q\<lparr>pq_id_visiteds := (pq_id_visiteds q)[?cur := (?iv, True)], pq_cursor := c\<rparr>)"
      "?cur < c" "c \<le> pq_size q"
      "\<And>i. ?cur < i \<Longrightarrow> i < c \<Longrightarrow> snd (pq_id_visiteds q ! i)"
      "c < pq_size q \<Longrightarrow> \<not> snd (pq_id_visiteds q ! c)"
    by (rule npq_closest_notvisited_spec) blast
  let ?q = "q\<lparr>pq_id_visiteds := (pq_id_visiteds q)[?cur := (?iv, True)], pq_cursor := c\<rparr>"
  have cur: "?cur < pq_size q" "?cur < pq_search_param_l q" "?cur < length (?Z q)"
    using has wf by (simp_all add: npq_has_notvisited_node_def npq_wf_def)
  have len: "length (pq_id_visiteds q) = pq_size q" "length (pq_distances q) = pq_size q"
    using wf by (simp_all add: npq_wf_def)
  have Z': "drop c (?Z ?q) = drop c (?Z q)"
    using c(2) by (simp add: drop_take drop_zip)
  have "drop ?cur (?Z q) = (pq_id_visiteds q ! ?cur, pq_distances q ! ?cur) # drop (Suc ?cur) (?Z q)"
    using cur len by (subst Cons_nth_drop_Suc [OF cur(3), symmetric]) simp
  then have 1: "npq_pending q = npq_entries q ! ?cur #
      map entry_nbr (filter (\<lambda>e. \<not> entry_visited e) (drop (Suc ?cur) (?Z q)))"
    unfolding npq_pending_def using cur wf by (simp add: entries_nth)
  have "filter (\<lambda>e. \<not> entry_visited e) (drop (Suc ?cur) (?Z q))
      = filter (\<lambda>e. \<not> entry_visited e) (drop (c - Suc ?cur) (drop (Suc ?cur) (?Z q)))"
    by (rule filter_drop_all) (use c(2,4) cur(3) in \<open>subst nth_drop, auto\<close>)
  also have "\<dots> = filter (\<lambda>e. \<not> entry_visited e) (drop c (?Z q))"
    using c(2) by simp
  also have "\<dots> = (case drop c (?Z q) of [] \<Rightarrow> [] | e # es \<Rightarrow> e # filter (\<lambda>e. \<not> entry_visited e) es)"
  proof (cases "c < length (?Z q)")
    case True
    then have "\<not> entry_visited (?Z q ! c)" using c(5) len by simp
    then show ?thesis unfolding Cons_nth_drop_Suc [OF True, symmetric] by (simp only: filter.simps list.case not_False_eq_True if_True)
  next
    case False
    then have "drop c (?Z q) = []" by (simp only: drop_all not_less)
    then show ?thesis by simp
  qed
  finally have 2: "npq_pending ?q = map entry_nbr (filter (\<lambda>e. \<not> entry_visited e) (drop (Suc ?cur) (?Z q)))"
    unfolding npq_pending_def using Z' by simp
  show thesis
  proof (rule that [of ?q])
    show "npq_closest_notvisited q = Inr (Some n, ?q)" using c pend 1 by simp
    show "npq_pending ?q = ns" using 2 1 pend by simp
    show "npq_prefix_ok ?q" if "npq_prefix_ok q"
      using that c(4) cur(1) len unfolding npq_prefix_ok_def
      by (simp add: nth_list_update) (metis linorder_neqE_nat)
    have "zip ((pq_id_visiteds q)[?cur := (?iv, True)]) (pq_distances q)
        = (npq_zip q)[?cur := ((?iv, True), pq_distances q ! ?cur)]"
      by (simp add: update_zip)
    then have "set (npq_zip ?q) \<subseteq> insert ((?iv, True), pq_distances q ! ?cur) (set (npq_zip q))"
      by (simp add: set_update_subset_insert)
    then have "npq_done ?q \<subseteq> insert (entry_nbr ((?iv, True), pq_distances q ! ?cur)) (npq_done q)"
      unfolding npq_done_def by blast
    moreover have "n = Neighbor ?iv (pq_distances q ! ?cur)"
      using 1 pend wf cur by (simp add: entries_nth)
    ultimately show "npq_done ?q \<subseteq> insert n (npq_done q)" by simp
  qed (use npq_closest_notvisited_wf [OF wf c(1)] in auto)
qed

lemma npq_closest_empty: "npq_wf q \<Longrightarrow> npq_pending q = [] \<Longrightarrow> npq_closest_notvisited q = Inr (None, q)"
  by (simp add: npq_has_pending npq_closest_notvisited_none)

section \<open>The other operations\<close>

lemma npq_drain_best_wf: "npq_wf q \<Longrightarrow> npq_wf (npq_drain_best q n)"
  by (auto simp: npq_wf_def npq_drain_best_def Let_def)

lemma npq_drain_best_entries: "npq_wf q \<Longrightarrow> npq_entries (npq_drain_best q n) = drop n (npq_entries q)"
  by (auto simp: npq_wf_def npq_drain_best_def Let_def npq_entries_def drop_zip drop_map min_def)

lemma npq_reconfigure_wf: "npq_wf q \<Longrightarrow> npq_wf (npq_reconfigure q l)"
  by (auto simp: npq_wf_def npq_reconfigure_def Let_def)

lemma npq_reconfigure_cursor:
  assumes "npq_wf q" and "npq_cursor_ok q"
  shows "npq_cursor_ok (npq_reconfigure q l)"
proof (cases "l < pq_size q")
  case True
  then show ?thesis
    using assms by (auto simp: npq_wf_def npq_reconfigure_def Let_def npq_cursor_ok_def min_def)
qed (use assms in \<open>auto simp: npq_reconfigure_def npq_cursor_ok_def\<close>)

lemma npq_reconfigure_entries: "npq_wf q \<Longrightarrow> npq_entries (npq_reconfigure q l) = take l (npq_entries q)"
  by (auto simp: npq_wf_def npq_reconfigure_def Let_def npq_entries_def take_zip take_map)

lemma npq_clear_wf: "npq_wf (npq_clear q)" "npq_cursor_ok (npq_clear q)" "npq_entries (npq_clear q) = []"
  by (simp_all add: npq_wf_def npq_clear_def npq_cursor_ok_def npq_entries_def)

lemma npq_new_wf: "npq_wf (npq_new l)" "npq_cursor_ok (npq_new l)" "npq_entries (npq_new l) = []"
  by (simp_all add: npq_wf_def npq_new_def npq_cursor_ok_def npq_entries_def)

lemma npq_auto_resizable_wf:
  "npq_wf (npq_auto_resizable_with_search_param_l l)"
  "npq_cursor_ok (npq_auto_resizable_with_search_param_l l)"
  "npq_entries (npq_auto_resizable_with_search_param_l l) = []"
  by (simp_all add: npq_wf_def npq_auto_resizable_with_search_param_l_def npq_cursor_ok_def npq_entries_def)

lemma npq_get_entries: "npq_wf q \<Longrightarrow> i < pq_size q \<Longrightarrow> npq_get q i = Inr (npq_entries q ! i)"
  by (simp add: npq_get_def get_unchecked_def entries_nth npq_wf_def)

lemma iter_collect_eq:
  "npq_wf q \<Longrightarrow> c + r \<le> pq_size q \<Longrightarrow> iter_collect q r c = Inr (take r (drop c (npq_entries q)))"
proof (induction r arbitrary: c)
  case (Suc r)
  then have "drop c (npq_entries q) = npq_entries q ! c # drop (Suc c) (npq_entries q)"
    by (subst Cons_nth_drop_Suc) auto
  with Suc show ?case by (simp add: npq_get_entries)
qed simp

lemma npq_iter_eq: "npq_wf q \<Longrightarrow> npq_iter q = Inr (take (pq_search_param_l q) (npq_entries q))"
  by (simp add: npq_iter_def iter_collect_eq) (simp add: min_def)

lemma npq_wf_remove:
  assumes wf: "npq_wf q" and i: "i < pq_size q"
  defines "q' \<equiv> q\<lparr>pq_id_visiteds := take i (pq_id_visiteds q) @ drop (Suc i) (pq_id_visiteds q),
      pq_distances := take i (pq_distances q) @ drop (Suc i) (pq_distances q),
      pq_size := pq_size q - 1,
      pq_cursor := (if i < pq_cursor q \<and> 0 < pq_cursor q then pq_cursor q - 1 else pq_cursor q)\<rparr>"
  shows "npq_wf q'" and "npq_entries q' = take i (npq_entries q) @ drop (Suc i) (npq_entries q)"
proof -
  have "keys_sorted (take i (pq_distances q) @ pq_distances q ! i # drop (Suc i) (pq_distances q))"
    using wf i by (simp add: npq_wf_def id_take_nth_drop [symmetric])
  then have "keys_sorted (take i (pq_distances q) @ drop (Suc i) (pq_distances q))"
    by (auto simp: keys_sorted_append)
  then show "npq_wf q'"
    using wf i by (auto simp: npq_wf_def q'_def min_def)
  show "npq_entries q' = take i (npq_entries q) @ drop (Suc i) (npq_entries q)"
    using wf i unfolding npq_entries_def q'_def
    by (simp add: npq_wf_def zip_append1 take_zip drop_zip take_map drop_map min_def)
qed

section \<open>Retaining\<close>

lemma retain_loop_spec:
  assumes "w \<le> r" and "r \<le> length ivs" and "length ds = length ivs"
    and "retain_loop f (length ivs) r w ivs ds = (w', ivs', ds')"
  shows "length ivs' = length ivs \<and> length ds' = length ivs \<and> w' \<le> length ivs \<and>
    take w' (zip ivs' ds') = take w (zip ivs ds) @
      map (\<lambda>e. ((fst (fst e), False), snd e)) (filter (\<lambda>e. f (entry_nbr e)) (drop r (zip ivs ds)))"
  using assms
proof (induction f "length ivs" r w ivs ds rule: retain_loop.induct)
  case (1 f r w ivs ds)
  show ?case
  proof (cases "r < length ivs")
    case False
    with "1.prems" show ?thesis by (simp add: retain_loop.simps)
  next
    case True
    have d: "drop r (zip ivs ds) = (ivs ! r, ds ! r) # drop (Suc r) (zip ivs ds)"
      using True "1.prems" by (simp add: Cons_nth_drop_Suc [symmetric])
    show ?thesis
    proof (cases "f (Neighbor (fst (ivs ! r)) (ds ! r))")
      case keep: True
      let ?ivs = "ivs[w := (fst (ivs ! r), False)]" and ?ds = "ds[w := ds ! r]"
      have z: "zip ?ivs ?ds = (zip ivs ds)[w := ((fst (ivs ! r), False), ds ! r)]"
        by (simp add: update_zip)
      have "length ivs' = length ivs \<and> length ds' = length ivs \<and> w' \<le> length ivs \<and>
        take w' (zip ivs' ds') = take (Suc w) (zip ?ivs ?ds) @
        map (\<lambda>e. ((fst (fst e), False), snd e)) (filter (\<lambda>e. f (entry_nbr e)) (drop (Suc r) (zip ?ivs ?ds)))"
        using "1.hyps"(1) [OF True keep] "1.prems" True keep
        by (simp add: retain_loop.simps [of _ _ r])
      moreover have "take (Suc w) (zip ?ivs ?ds) = take w (zip ivs ds) @ [((fst (ivs ! r), False), ds ! r)]"
        unfolding z using True "1.prems" by (subst take_Suc_conv_app_nth) auto
      moreover have "drop (Suc r) (zip ?ivs ?ds) = drop (Suc r) (zip ivs ds)"
        unfolding z using "1.prems" by simp
      ultimately show ?thesis using d keep by simp
    next
      case drop: False
      with "1.hyps"(2) [OF True drop] "1.prems" True d show ?thesis
        by (simp add: retain_loop.simps [of _ _ r])
    qed
  qed
qed

text \<open>
  \<open>retain\<close> keeps exactly the entries of the predicate, in order, and clears their flags; the
  cursor only returns to the front when an entry was dropped.
\<close>

lemma npq_retain_spec:
  assumes wf: "npq_wf q"
  shows "npq_entries (npq_retain q f) = filter f (npq_entries q)"
    and "\<forall>iv \<in> set (pq_id_visiteds (npq_retain q f)). \<not> snd iv"
    and "pq_cursor (npq_retain q f) = (if list_all f (npq_entries q) then pq_cursor q else 0)"
    and "npq_wf (npq_retain q f)"
proof -
  let ?r = "npq_retain q f"
  have len: "length (pq_id_visiteds q) = pq_size q" "length (pq_distances q) = pq_size q"
    using wf by (simp_all add: npq_wf_def)
  obtain w ivs ds where l: "retain_loop f (pq_size q) 0 0 (pq_id_visiteds q) (pq_distances q) = (w, ivs, ds)"
    by (cases "retain_loop f (pq_size q) 0 0 (pq_id_visiteds q) (pq_distances q)")
  have "length ivs = pq_size q \<and> length ds = pq_size q \<and> w \<le> pq_size q \<and>
    take w (zip ivs ds) = map (\<lambda>e. ((fst (fst e), False), snd e)) (filter (\<lambda>e. f (entry_nbr e)) (npq_zip q))"
    using retain_loop_spec [of 0 0 "pq_id_visiteds q" "pq_distances q" f w ivs ds] l len by simp
  then have s: "length ivs = pq_size q" "length ds = pq_size q" "w \<le> pq_size q"
    and z: "take w (zip ivs ds) = map (\<lambda>e. ((fst (fst e), False), snd e)) (filter (\<lambda>e. f (entry_nbr e)) (npq_zip q))"
    by blast+
  have r: "pq_id_visiteds ?r = take w ivs" "pq_distances ?r = take w ds" "pq_size ?r = w"
    "pq_cursor ?r = (if w < pq_size q then 0 else pq_cursor q)" "pq_capacity ?r = pq_capacity q"
    using s l len wf by (auto simp: npq_retain_def npq_truncate_def npq_wf_def)
  have zr: "npq_zip ?r = take w (zip ivs ds)" unfolding r by (simp add: take_zip)
  show e: "npq_entries ?r = filter f (npq_entries q)"
    unfolding npq_entries_def zr z filter_map by (simp add: comp_def)
  have "map fst (npq_zip ?r) = pq_id_visiteds ?r"
    using s r by simp
  then have "set (pq_id_visiteds ?r) = fst ` set (npq_zip ?r)" by (metis set_map)
  then show "\<forall>iv \<in> set (pq_id_visiteds ?r). \<not> snd iv" unfolding zr z by auto
  have w: "w = length (filter f (npq_entries q))"
    using arg_cong [OF e, of length] r s by (simp add: npq_entries_def)
  then have "w < pq_size q \<longleftrightarrow> \<not> list_all f (npq_entries q)"
    using len length_filter_less [of _ "npq_entries q" f] wf
    by (metis length_entries list_all_iff filter_True nat_neq_iff)
  then show "pq_cursor ?r = (if list_all f (npq_entries q) then pq_cursor q else 0)"
    unfolding r by simp
  have "pq_distances ?r = map nbr_distance (npq_entries ?r)"
    using s r by (simp add: npq_entries_def comp_def map_snd_zip)
  also have "\<dots> = map nbr_distance (filter f (npq_entries q))" by (simp add: e)
  finally have "keys_sorted (pq_distances ?r)"
    using wf sorted_filter [of "f32_key \<circ> nbr_distance" "npq_entries q" f]
    by (auto simp: keys_sorted_def npq_wf_def distances_entries [OF wf, symmetric] comp_def)
  then show "npq_wf ?r"
    using s wf unfolding npq_wf_def r by (auto simp: npq_wf_def)
qed

section \<open>The queue trait\<close>

lemma mset_insert_before: "mset (insert_before n ns) = add_mset n (mset ns)"
proof -
  have "mset (takeWhile P ns) + mset (dropWhile P ns) = mset ns" for P
    by (metis mset_append takeWhile_dropWhile_id)
  then show ?thesis by (simp add: insert_before_def)
qed

lemma npq_insert_laws:
  assumes wf: "npq_wf q" and pre: "npq_prefix_ok q" and cap: "pq_auto_resizable q \<or> 0 < pq_capacity q"
    and ins: "npq_insert q n = Inr q'"
  shows "npq_prefix_ok q'" and "npq_done q' \<subseteq> npq_done q"
    and "mset (npq_entries q') \<subseteq># add_mset n (mset (npq_entries q))"
proof -
  have "npq_prefix_ok q' \<and> npq_done q' \<subseteq> npq_done q \<and>
    mset (npq_entries q') \<subseteq># add_mset n (mset (npq_entries q))"
  proof (cases "f32_is_nan (nbr_distance n)")
    case True
    with ins pre show ?thesis by (simp add: npq_insert_nan subset_mset.add_increasing)
  next
    case False
    let ?i = "lower_bound_ref (nbr_distance n) (pq_distances q)"
    let ?e = "((nbr_id n, False), nbr_distance n)"
    note Z = npq_insert_zip [OF wf False cap ins]
    note wf' = npq_insert_wf(1) [OF wf False cap ins]
    have "set (npq_zip q') \<subseteq> insert ?e (set (npq_zip q))"
      unfolding Z(1) by (auto dest!: in_set_takeD simp del: take_append dest: in_set_dropD)
    then have "npq_done q' \<subseteq> npq_done q" unfolding npq_done_def by fastforce
    moreover have "npq_prefix_ok q'"
      unfolding npq_prefix_ok_def
    proof (intro allI impI)
      fix j assume j: "j < pq_cursor q'"
      then have lt: "j < ?i" "j < pq_cursor q" using Z(5) by simp_all
      have len: "length (pq_id_visiteds q') = pq_size q'" "length (pq_distances q') = pq_size q'"
        "pq_cursor q' \<le> pq_size q'" "pq_size q' \<le> pq_capacity q'"
        using wf' by (simp_all add: npq_wf_def)
      have i: "?i \<le> length (npq_zip q)"
        using wf lower_bound_ref_le [of "nbr_distance n" "pq_distances q"] by (simp add: npq_wf_def)
      have "pq_id_visiteds q' ! j = fst (npq_zip q' ! j)" using j len by simp
      also have "\<dots> = fst (npq_zip q ! j)"
        unfolding Z(1) using j len lt nth_insert_at [OF i, of ?e j] by (simp del: take_append)
      also have "\<dots> = pq_id_visiteds q ! j" using lt i by simp
      finally show "snd (pq_id_visiteds q' ! j)" using pre lt by (simp add: npq_prefix_ok_def)
    qed
    moreover have "mset (npq_entries q') \<subseteq># mset (insert_before n (npq_entries q))"
      unfolding npq_insert_entries [OF wf False cap ins] by (metis append_take_drop_id mset_append mset_subset_eq_add_left)
    then have "mset (npq_entries q') \<subseteq># add_mset n (mset (npq_entries q))"
      by (simp add: mset_insert_before)
    ultimately show ?thesis by blast
  qed
  then show "npq_prefix_ok q'" "npq_done q' \<subseteq> npq_done q"
    "mset (npq_entries q') \<subseteq># add_mset n (mset (npq_entries q))"
    by blast+
qed

text \<open>The methods of the trait \<open>NeighborQueue\<close>, the interface the searches are generic over.\<close>

record ('q, 'i) queue_ops =
  qo_insert :: "'q \<Rightarrow> 'i nbr \<Rightarrow> 'q partial"
  qo_closest_notvisited :: "'q \<Rightarrow> ('i nbr option \<times> 'q) partial"
  qo_has_notvisited_node :: "'q \<Rightarrow> bool"
  qo_size :: "'q \<Rightarrow> nat"
  qo_search_l :: "'q \<Rightarrow> nat"
  qo_clear :: "'q \<Rightarrow> 'q"
  qo_iter :: "'q \<Rightarrow> 'i nbr list partial"

definition npq_ops :: "('i npq, 'i) queue_ops" where
  "npq_ops = \<lparr>qo_insert = npq_insert, qo_closest_notvisited = npq_closest_notvisited,
     qo_has_notvisited_node = npq_has_notvisited_node, qo_size = pq_size,
     qo_search_l = pq_search_param_l, qo_clear = npq_clear, qo_iter = npq_iter\<rparr>"

text \<open>
  What a search relies on. A queue has a list of entries, best first; among the best
  \<open>search_l\<close> every entry is pending or done; the pending ones are taken in order, and taking one
  is the only way for it to become done. An entry leaves the queue only for \<open>search_l\<close> others that
  are at least as close, and a NaN distance is ignored.
\<close>

locale neighbor_queue =
  fixes Q :: "('q, 'i) queue_ops"
    and inv :: "'q \<Rightarrow> bool"
    and entries :: "'q \<Rightarrow> 'i nbr list"
    and pending :: "'q \<Rightarrow> 'i nbr list"
    and finished :: "'q \<Rightarrow> 'i nbr set"
  assumes insert_law: "inv q \<Longrightarrow> \<exists>q'. qo_insert Q q n = Inr q' \<and> inv q' \<and>
      mset (entries q') \<subseteq># add_mset n (mset (entries q)) \<and> finished q' \<subseteq> finished q \<and>
      qo_search_l Q q' = qo_search_l Q q"
    and closest_none_law: "inv q \<Longrightarrow> pending q = [] \<Longrightarrow> qo_closest_notvisited Q q = Inr (None, q)"
    and closest_some_law: "inv q \<Longrightarrow> pending q = n # ns \<Longrightarrow>
      \<exists>q'. qo_closest_notvisited Q q = Inr (Some n, q') \<and> inv q' \<and> pending q' = ns \<and>
        entries q' = entries q \<and> finished q' \<subseteq> insert n (finished q) \<and>
        qo_search_l Q q' = qo_search_l Q q"
    and has_law: "inv q \<Longrightarrow> qo_has_notvisited_node Q q \<longleftrightarrow> pending q \<noteq> []"
    and cover_law: "inv q \<Longrightarrow> set (take (qo_search_l Q q) (entries q)) \<subseteq> set (pending q) \<union> finished q"
    and pending_law: "inv q \<Longrightarrow> set (pending q) \<subseteq> set (entries q)"
    and iter_law: "inv q \<Longrightarrow> qo_iter Q q = Inr (take (qo_search_l Q q) (entries q))"
    and sorted_law: "inv q \<Longrightarrow> sorted_wrt by_distance (entries q)"
    and nan_law: "inv q \<Longrightarrow> f32_is_nan (nbr_distance n) \<Longrightarrow> qo_insert Q q n = Inr q"
    and best_law: "inv q \<Longrightarrow> qo_insert Q q n = Inr q' \<Longrightarrow> \<not> f32_is_nan (nbr_distance n) \<Longrightarrow>
      r \<in># add_mset n (mset (entries q)) - mset (entries q') \<Longrightarrow>
      qo_search_l Q q' \<le> length (entries q') \<and> (\<forall>m \<in> set (entries q'). by_distance m r)"

definition npq_inv :: "'i npq \<Rightarrow> bool" where
  "npq_inv q \<longleftrightarrow> npq_wf q \<and> npq_prefix_ok q \<and> (pq_auto_resizable q \<or> 0 < pq_capacity q) \<and>
     pq_search_param_l q \<le> pq_capacity q"

lemma npq_entries_sorted: "npq_wf q \<Longrightarrow> sorted_wrt by_distance (npq_entries q)"
proof -
  assume wf: "npq_wf q"
  then have "sorted (map f32_key (map nbr_distance (npq_entries q)))"
    unfolding distances_entries [OF wf] by (simp add: npq_wf_def keys_sorted_def)
  then show ?thesis by (simp add: sorted_wrt_map by_distance_def [abs_def])
qed

lemma npq_pending_entries: "set (npq_pending q) \<subseteq> set (npq_entries q)"
proof -
  let ?D = "drop (pq_cursor q) (take (pq_search_param_l q) (npq_zip q))"
  have "set (npq_pending q) \<subseteq> entry_nbr ` set ?D"
    unfolding npq_pending_def by (cases ?D) (simp_all only: list.case set_map list.map set_simps, auto)
  also have "\<dots> \<subseteq> entry_nbr ` set (npq_zip q)"
    by (intro image_mono) (meson order_trans set_drop_subset set_take_subset)
  finally show ?thesis by (simp add: npq_entries_def)
qed

lemma sorted_insert_before:
  assumes "sorted_wrt by_distance ns" and "\<forall>m \<in> set (n # ns). \<not> f32_is_nan (nbr_distance m)"
  shows "sorted_wrt by_distance (insert_before n ns)"
  using assms
proof (induction ns)
  case Nil
  then show ?case by (simp add: insert_before_def)
next
  case (Cons m ns)
  have le: "by_distance m x" if "x \<in> set ns" for x using Cons.prems(1) that by simp
  have mn: "by_distance n m \<or> by_distance m n" by (auto simp: by_distance_def)
  have ge: "f32_ge (nbr_distance m) (nbr_distance n) \<longleftrightarrow> by_distance n m"
    using Cons.prems(2) by (simp add: by_distance_def f32_order)
  have set: "set (insert_before n ns) = insert n (set ns)"
    using arg_cong [OF mset_insert_before [of n ns], of set_mset] by simp
  have mem: "x \<in> set (insert_before n ns) \<Longrightarrow> x = n \<or> x \<in> set ns" for x using set by auto
  show ?case
  proof (cases "by_distance n m")
    case True
    then have "by_distance n x" if "x \<in> set ns" for x
      using le [OF that] by (auto simp: by_distance_def)
    with True Cons.prems(1) show ?thesis by (simp add: insert_before_def ge)
  next
    case False
    with mn have "by_distance m x" if "x \<in> set (insert_before n ns)" for x
      using mem [OF that] le by auto
    moreover have "insert_before n (m # ns) = m # insert_before n ns"
      using False by (simp add: insert_before_def ge)
    ultimately show ?thesis using Cons by simp
  qed
qed

lemma npq_insert_best:
  assumes wf: "npq_wf q" and cap: "pq_auto_resizable q \<or> 0 < pq_capacity q"
    and l: "pq_search_param_l q \<le> pq_capacity q"
    and ins: "npq_insert q n = Inr q'" and nan: "\<not> f32_is_nan (nbr_distance n)"
    and r: "r \<in># add_mset n (mset (npq_entries q)) - mset (npq_entries q')"
  shows "pq_search_param_l q' \<le> length (npq_entries q') \<and> (\<forall>m \<in> set (npq_entries q'). by_distance m r)"
proof -
  let ?X = "insert_before n (npq_entries q)" and ?c = "pq_capacity q'"
  note e = npq_insert_entries [OF wf nan cap ins]
  have "mset ?X = mset (take ?c ?X) + mset (drop ?c ?X)" by (metis append_take_drop_id mset_append)
  with r have drop: "r \<in> set (drop ?c ?X)" by (simp add: e mset_insert_before [symmetric])
  then have len: "?c < length ?X" by (cases "?c < length ?X") auto
  have "\<forall>d \<in> set (map nbr_distance (npq_entries q)). \<not> f32_is_nan d"
    unfolding distances_entries [OF wf] using wf by (simp add: npq_wf_def keys_sorted_def)
  with nan have "sorted_wrt by_distance ?X" by (intro sorted_insert_before npq_entries_sorted [OF wf]) auto
  then have "sorted_wrt by_distance (take ?c ?X @ drop ?c ?X)" by simp
  with drop have "\<forall>m \<in> set (npq_entries q'). by_distance m r" unfolding sorted_wrt_append e by blast
  moreover have "pq_search_param_l q' \<le> ?c"
    using npq_insert_zip(2,3) [OF wf nan cap ins] l by simp
  ultimately show ?thesis using len by (simp add: e)
qed

interpretation npq: neighbor_queue npq_ops npq_inv npq_entries npq_pending npq_done
proof
  fix q :: "'a npq" and n :: "'a nbr" and ns
  assume inv: "npq_inv q"
  then have wf: "npq_wf q" and pre: "npq_prefix_ok q" and cap: "pq_auto_resizable q \<or> 0 < pq_capacity q"
    and l: "pq_search_param_l q \<le> pq_capacity q"
    by (simp_all add: npq_inv_def)
  show "\<exists>q'. qo_insert npq_ops q n = Inr q' \<and> npq_inv q' \<and>
      mset (npq_entries q') \<subseteq># add_mset n (mset (npq_entries q)) \<and> npq_done q' \<subseteq> npq_done q \<and>
      qo_search_l npq_ops q' = qo_search_l npq_ops q"
  proof (cases "f32_is_nan (nbr_distance n)")
    case True
    with inv show ?thesis by (auto simp: npq_ops_def npq_insert_nan subset_mset.add_increasing)
  next
    case False
    from npq_insert_total [OF wf cap] obtain q' where q': "npq_insert q n = Inr q'" by blast
    show ?thesis
      using npq_insert_laws [OF wf pre cap q'] npq_insert_wf(1) [OF wf False cap q']
        npq_insert_zip(2-4) [OF wf False cap q'] cap l
      by (intro exI [of _ q']) (auto simp: npq_ops_def q' npq_inv_def)
  qed
  show "npq_pending q = [] \<Longrightarrow> qo_closest_notvisited npq_ops q = Inr (None, q)"
    using wf by (simp add: npq_ops_def npq_closest_empty)
  show "\<exists>q'. qo_closest_notvisited npq_ops q = Inr (Some n, q') \<and> npq_inv q' \<and> npq_pending q' = ns \<and>
        npq_entries q' = npq_entries q \<and> npq_done q' \<subseteq> insert n (npq_done q) \<and>
        qo_search_l npq_ops q' = qo_search_l npq_ops q" if "npq_pending q = n # ns"
    by (rule npq_closest_pending [OF wf that]) (use pre cap l in \<open>auto simp: npq_ops_def npq_inv_def\<close>)
  show "qo_has_notvisited_node npq_ops q \<longleftrightarrow> npq_pending q \<noteq> []"
    using wf by (simp add: npq_ops_def npq_has_pending)
  show "set (take (qo_search_l npq_ops q) (npq_entries q)) \<subseteq> set (npq_pending q) \<union> npq_done q"
    using npq_pending_done [OF wf pre] by (simp add: npq_ops_def)
  show "set (npq_pending q) \<subseteq> set (npq_entries q)" by (rule npq_pending_entries)
  show "qo_iter npq_ops q = Inr (take (qo_search_l npq_ops q) (npq_entries q))"
    using wf by (simp add: npq_ops_def npq_iter_eq)
  show "sorted_wrt by_distance (npq_entries q)" by (rule npq_entries_sorted [OF wf])
  show "f32_is_nan (nbr_distance n) \<Longrightarrow> qo_insert npq_ops q n = Inr q"
    by (simp add: npq_ops_def npq_insert_nan)
  show "qo_search_l npq_ops q' \<le> length (npq_entries q') \<and> (\<forall>m \<in> set (npq_entries q'). by_distance m r)"
    if "qo_insert npq_ops q n = Inr q'" "\<not> f32_is_nan (nbr_distance n)"
      "r \<in># add_mset n (mset (npq_entries q)) - mset (npq_entries q')" for q' r
    using npq_insert_best [OF wf cap l _ that(2,3)] that(1) by (simp add: npq_ops_def)
qed

lemma npq_pending_sorted:
  assumes "npq_wf q"
  shows "sorted_wrt (\<lambda>m n. f32_le (nbr_distance m) (nbr_distance n)) (npq_pending q)"
proof -
  let ?D = "drop (pq_cursor q) (take (pq_search_param_l q) (npq_zip q))"
  have "sorted_wrt (\<lambda>d e. f32_le (snd d) (snd e)) (npq_zip q)"
    using assms keys_sorted_nth [of "pq_distances q"]
    by (auto simp: sorted_wrt_iff_nth_less npq_wf_def)
  then have "sorted_wrt (\<lambda>d e. f32_le (snd d) (snd e)) ?D"
    by (simp add: sorted_wrt_drop sorted_wrt_take)
  then show ?thesis
    unfolding npq_pending_def
    by (cases ?D) (simp_all only: list.case list.map sorted_wrt.simps, auto simp: sorted_wrt_map sorted_wrt_filter)
qed

lemma npq_remove_eq:
  fixes q :: "'i npq" and n :: "'i nbr"
  assumes wf: "npq_wf q"
  defines "i \<equiv> lower_bound_ref (nbr_distance n) (pq_distances q)"
  shows "npq_remove q n =
     (if i < pq_size q \<and> nbr_id (npq_entries q ! i) = nbr_id n
      then Inr (True, q\<lparr>pq_id_visiteds := take i (pq_id_visiteds q) @ drop (Suc i) (pq_id_visiteds q),
        pq_distances := take i (pq_distances q) @ drop (Suc i) (pq_distances q),
        pq_size := pq_size q - 1,
        pq_cursor := (if i < pq_cursor q \<and> 0 < pq_cursor q then pq_cursor q - 1 else pq_cursor q)\<rparr>)
      else Inr (False, q))"
  using wf unfolding i_def
  by (simp add: npq_remove_def Let_def wf_lower_bound get_unchecked_def npq_wf_def npq_entries_def)

section \<open>Properties\<close>

text \<open>A fixed queue of capacity three holding three entries, the first one visited.\<close>

definition sample_queue :: "nat npq" where
  "sample_queue = \<lparr>pq_size = 3, pq_capacity = 3, pq_cursor = 1,
     pq_id_visiteds = [(7, True), (4, False), (9, False)],
     pq_distances = [0x3F800000, 0x40000000, 0x40000000], pq_auto_resizable = False,
     pq_search_param_l = 3\<rparr>"

lemmas f32_eval = f32_key_def f32_is_nan_def f32_mag_def f32_sign_def f32_le_def f32_lt_def
  F32_INF_MAG_def

lemma sample_queue_ok: "npq_wf sample_queue" "npq_cursor_ok sample_queue" "npq_prefix_ok sample_queue"
  by (simp_all add: sample_queue_def npq_wf_def npq_cursor_ok_def npq_prefix_ok_def f32_eval nth_Cons'
      less_Suc_eq_0_disj)

lemma sample_queue_entries:
  "npq_entries sample_queue = [Neighbor 7 0x3F800000, Neighbor 4 0x40000000, Neighbor 9 0x40000000]"
  by (simp add: sample_queue_def npq_entries_def)

text \<open>
  C24. The lower bound, computed sixteen and eight lanes at a time with a zero-padded partial load
  for the rest, is the number of leading distances that are not greater or equal to the target:
  the index of the first entry at least as far as the target, or the size of the queue.
\<close>

theorem get_lower_bound_correct:
  assumes "pq_size q = length (pq_distances q)"
  shows "get_lower_bound q t = length (takeWhile (\<lambda>d. \<not> f32_ge d t) (pq_distances q))"
  using get_lower_bound_ref [OF assms] by (simp add: lower_bound_ref_def)

theorem get_lower_bound_correct_witness:
  "get_lower_bound sample_queue 0x3FC00000 = 1"
  by (subst get_lower_bound_correct) (simp_all add: sample_queue_def f32_eval)



text \<open>
  C21. Taking the closest unvisited node of a well-formed queue never panics and keeps the entries
  and the invariant. It returns nothing exactly when no unvisited entry is left among the
  \<open>search_param_l\<close> best; otherwise it returns the first unvisited one, which no other
  unvisited one precedes in distance, and marks only that one.
\<close>

theorem npq_closest_notvisited_correct:
  assumes "npq_wf q" and "npq_cursor_ok q"
  shows "\<exists>r q'. npq_closest_notvisited q = Inr (r, q') \<and> npq_wf q' \<and> npq_cursor_ok q' \<and>
     npq_entries q' = npq_entries q \<and>
     map entry_nbr (filter (\<lambda>e. \<not> entry_visited e) (take (pq_search_param_l q) (npq_zip q)))
       = (case r of None \<Rightarrow> [] | Some n \<Rightarrow> n # npq_pending q') \<and>
     (case r of None \<Rightarrow> q' = q
      | Some n \<Rightarrow> \<forall>m \<in> set (npq_pending q'). f32_le (nbr_distance n) (nbr_distance m))"
proof (cases "npq_pending q")
  case Nil
  with assms npq_closest_empty [OF assms(1)] npq_pending_unvisited [OF assms] show ?thesis
    by (intro exI [of _ None] exI [of _ q]) simp
next
  case (Cons n ns)
  from npq_closest_pending [OF assms(1) Cons] obtain q' where
    q': "npq_closest_notvisited q = Inr (Some n, q')" "npq_pending q' = ns" by metis
  note w = npq_closest_notvisited_wf [OF assms(1) q'(1)]
  have "\<forall>m \<in> set ns. f32_le (nbr_distance n) (nbr_distance m)"
    using npq_pending_sorted [OF assms(1)] Cons by simp
  with q' w assms(2) npq_pending_unvisited [OF assms] Cons show ?thesis
    by (intro exI [of _ "Some n"] exI [of _ q']) simp
qed

theorem npq_closest_notvisited_correct_witness:
  "\<exists>r q'. npq_closest_notvisited sample_queue = Inr (Some r, q') \<and> r = Neighbor 4 0x40000000"
proof -
  have "map entry_nbr (filter (\<lambda>e. \<not> entry_visited e) (take (pq_search_param_l sample_queue) (npq_zip sample_queue)))
     = [Neighbor 4 0x40000000, Neighbor 9 0x40000000]"
    by (simp add: sample_queue_def)
  with npq_closest_notvisited_correct [OF sample_queue_ok(1,2)] show ?thesis
    by (auto split: option.splits)
qed

text \<open>
  C36. \<open>remove\<close> looks at one entry only, the first that is not closer than the neighbor: it removes
  that entry when it has the neighbor's id and reports whether it did; nothing else changes and
  the invariant on the vectors is kept. An entry with the same distance and the wanted id
  behind it is not found.
\<close>

theorem npq_remove_correct:
  assumes "npq_wf q"
  shows "let i = length (takeWhile (\<lambda>m. \<not> f32_ge (nbr_distance m) (nbr_distance n)) (npq_entries q)) in
     \<exists>removed q'. npq_remove q n = Inr (removed, q') \<and> npq_wf q' \<and>
       removed = (i < pq_size q \<and> nbr_id (npq_entries q ! i) = nbr_id n) \<and>
       npq_entries q' = (if removed then take i (npq_entries q) @ drop (Suc i) (npq_entries q)
                         else npq_entries q)"
proof -
  let ?i = "lower_bound_ref (nbr_distance n) (pq_distances q)"
  have i: "length (takeWhile (\<lambda>m. \<not> f32_ge (nbr_distance m) (nbr_distance n)) (npq_entries q)) = ?i"
    unfolding lower_bound_ref_def distances_entries [OF assms, symmetric]
    by (simp add: takeWhile_map comp_def)
  show ?thesis
    unfolding i Let_def npq_remove_eq [OF assms]
    using npq_wf_remove [OF assms, of ?i] assms by simp
qed

theorem npq_remove_correct_witness:
  "\<exists>q'. npq_remove sample_queue (Neighbor 9 0x40000000) = Inr (False, q') \<and>
     Neighbor 9 0x40000000 \<in> set (npq_entries q')"
  using npq_remove_correct [OF sample_queue_ok(1), of "Neighbor 9 0x40000000"]
  unfolding sample_queue_entries by (auto simp: f32_eval)

text \<open>
  C37. \<open>retain\<close> keeps exactly the entries the predicate accepts, in order, all unvisited, and the
  vectors stay well formed. The cursor returns to the front only when an entry was dropped: when
  the predicate accepts everything, it stays where it was although every flag is cleared.
\<close>

theorem npq_retain_correct:
  assumes "npq_wf q"
  shows "npq_entries (npq_retain q f) = filter f (npq_entries q) \<and>
     (\<forall>iv \<in> set (pq_id_visiteds (npq_retain q f)). \<not> snd iv) \<and> npq_wf (npq_retain q f) \<and>
     pq_cursor (npq_retain q f) = (if list_all f (npq_entries q) then pq_cursor q else 0)"
  using npq_retain_spec [OF assms, of f] by blast

theorem npq_retain_correct_witness:
  "pq_cursor (npq_retain sample_queue (\<lambda>n. nbr_id n < 10)) = 1 \<and>
   \<not> npq_cursor_ok (npq_retain sample_queue (\<lambda>n. nbr_id n < 10))"
proof -
  note r = npq_retain_correct [OF sample_queue_ok(1), of "\<lambda>n. nbr_id n < 10"]
  let ?r = "npq_retain sample_queue (\<lambda>n. nbr_id n < 10)"
  have c: "pq_cursor ?r = 1" using r by (simp add: sample_queue_entries) (simp add: sample_queue_def)
  have "npq_entries ?r \<noteq> []" using r by (simp add: sample_queue_entries)
  then have "pq_id_visiteds ?r \<noteq> []" by (auto simp: npq_entries_def)
  then have "\<not> snd (pq_id_visiteds ?r ! 0)" using r by (metis length_greater_0_conv nth_mem)
  then show ?thesis using c by (auto simp: npq_cursor_ok_def)
qed

end
