(* ===== verification/OutputBuffer.thy ===== *)
theory OutputBuffer
  imports Neighbor
begin

text \<open>
  The output side of a search: the trait \<open>SearchOutputBuffer\<close> of
  \<open>diskann/src/graph/search_output_buffer.rs\<close> with its implementations there (\<open>IdDistance\<close>,
  \<open>IdDistanceAssociatedData\<close>), in \<open>neighbor/mod.rs\<close> (\<open>BackInserter\<close>, \<open>Vec\<close>), in
  \<open>graph/search/range_search.rs\<close> (\<open>DistanceFiltered\<close>), in \<open>diskann-benchmark-core\<close> (\<open>Buffer\<close>) and
  in \<open>diskann-disk\<close> (\<open>SearchOutput\<close>). An iterator argument is the finite list of its items.

  The trait is a dictionary of operations; the locale \<open>output_buffer\<close> states its contract over
  the contents of the buffer, and every implementation interprets it.
\<close>

section \<open>The trait\<close>

datatype buffer_state = Available | Full

definition is_available :: "buffer_state \<Rightarrow> bool" where
  "is_available s \<longleftrightarrow> s = Available"

definition state_is_full :: "buffer_state \<Rightarrow> bool" where
  "state_is_full s \<longleftrightarrow> s = Full"

record ('b, 'n) buffer_ops =
  bo_size_hint :: "'b \<Rightarrow> nat option partial"
  bo_push :: "'b \<Rightarrow> 'n \<Rightarrow> (buffer_state \<times> 'b) partial"
  bo_current_len :: "'b \<Rightarrow> nat"
  bo_extend :: "'b \<Rightarrow> 'n list \<Rightarrow> (nat \<times> 'b) partial"

text \<open>
  The loop that pushes items until the buffer says it is full, written out in the \<open>extend\<close> of
  several implementations and in post-processors.
\<close>

fun push_until_full :: "('b \<Rightarrow> 'n \<Rightarrow> (buffer_state \<times> 'b) partial) \<Rightarrow> 'b \<Rightarrow> 'n list \<Rightarrow> 'b partial" where
  "push_until_full push b [] = Inr b"
| "push_until_full push b (n # ns) =
     bind_result (push b n) (\<lambda>(s, b). if state_is_full s then Inr b else push_until_full push b ns)"

section \<open>\<open>BackInserter\<close>\<close>

record 'n back_inserter =
  bi_buffer :: "'n list"
  bi_position :: nat

definition bi_new :: "'n list \<Rightarrow> 'n back_inserter" where
  "bi_new buffer = \<lparr>bi_buffer = buffer, bi_position = 0\<rparr>"

definition bi_size_hint :: "'n back_inserter \<Rightarrow> nat option partial" where
  "bi_size_hint b = bind_result (checked_sub (length (bi_buffer b)) (bi_position b)) (\<lambda>n. Inr (Some n))"

definition bi_push :: "'n back_inserter \<Rightarrow> 'n \<Rightarrow> (buffer_state \<times> 'n back_inserter) partial" where
  "bi_push b n =
     (if bi_position b = length (bi_buffer b) then Inr (Full, b)
      else
        bind_result (vec_set (bi_buffer b) (bi_position b) n) (\<lambda>buf.
        let b = \<lparr>bi_buffer = buf, bi_position = Suc (bi_position b)\<rparr> in
        Inr (if bi_position b = length (bi_buffer b) then Full else Available, b)))"

text \<open>\<open>zip(buffer.iter_mut().skip(p), itr).for_each\<close>: the count and the slice afterwards.\<close>

fun zip_write :: "'n list \<Rightarrow> nat \<Rightarrow> 'n list \<Rightarrow> nat \<times> 'n list" where
  "zip_write buf p [] = (0, buf)"
| "zip_write buf p (n # ns) =
     (if p < length buf then
        let (i, buf) = zip_write (buf[p := n]) (Suc p) ns in (Suc i, buf)
      else (0, buf))"

definition bi_extend :: "'n back_inserter \<Rightarrow> 'n list \<Rightarrow> (nat \<times> 'n back_inserter) partial" where
  "bi_extend b itr =
     (let (i, buf) = zip_write (bi_buffer b) (bi_position b) itr in
      Inr (i, \<lparr>bi_buffer = buf, bi_position = bi_position b + i\<rparr>))"

definition back_inserter_ops :: "('n back_inserter, 'n) buffer_ops" where
  "back_inserter_ops = \<lparr>bo_size_hint = bi_size_hint, bo_push = bi_push,
     bo_current_len = bi_position, bo_extend = bi_extend\<rparr>"

section \<open>\<open>Vec\<close>\<close>

definition vec_ops :: "('n list, 'n) buffer_ops" where
  "vec_ops = \<lparr>bo_size_hint = (\<lambda>v. Inr None), bo_push = (\<lambda>v n. Inr (Available, v @ [n])),
     bo_current_len = length, bo_extend = (\<lambda>v itr. Inr (length (v @ itr) - length v, v @ itr))\<rparr>"

section \<open>\<open>IdDistance\<close>\<close>

record 'i id_distance =
  idd_ids :: "'i list"
  idd_distances :: "f32 list"
  idd_position :: nat

definition idd_new :: "'i list \<Rightarrow> f32 list \<Rightarrow> 'i id_distance partial" where
  "idd_new ids ds =
     (if length ids = length ds then Inr \<lparr>idd_ids = ids, idd_distances = ds, idd_position = 0\<rparr>
      else Inl AssertFailed)"

definition idd_capacity :: "'i id_distance \<Rightarrow> nat" where
  "idd_capacity b = length (idd_ids b)"

definition idd_size_hint :: "'i id_distance \<Rightarrow> nat option partial" where
  "idd_size_hint b = bind_result (checked_sub (idd_capacity b) (idd_position b)) (\<lambda>n. Inr (Some n))"

definition idd_push :: "'i id_distance \<Rightarrow> 'i nbr \<Rightarrow> (buffer_state \<times> 'i id_distance) partial" where
  "idd_push b n =
     (if idd_position b = idd_capacity b then Inr (Full, b)
      else
        let (i, d) = as_tuple n in
        bind_result (vec_set (idd_ids b) (idd_position b) i) (\<lambda>ids.
        bind_result (vec_set (idd_distances b) (idd_position b) d) (\<lambda>ds.
        let b = \<lparr>idd_ids = ids, idd_distances = ds, idd_position = Suc (idd_position b)\<rparr> in
        Inr (if idd_position b = idd_capacity b then Full else Available, b))))"

fun idd_write :: "'i list \<Rightarrow> f32 list \<Rightarrow> nat \<Rightarrow> 'i nbr list \<Rightarrow> nat \<times> 'i list \<times> f32 list" where
  "idd_write ids ds p [] = (0, ids, ds)"
| "idd_write ids ds p (n # ns) =
     (if p < length ids \<and> p < length ds then
        let (i_in, d_in) = as_tuple n;
            (i, ids, ds) = idd_write (ids[p := i_in]) (ds[p := d_in]) (Suc p) ns
        in (Suc i, ids, ds)
      else (0, ids, ds))"

definition idd_extend :: "'i id_distance \<Rightarrow> 'i nbr list \<Rightarrow> (nat \<times> 'i id_distance) partial" where
  "idd_extend b itr =
     (let (i, ids, ds) = idd_write (idd_ids b) (idd_distances b) (idd_position b) itr in
      Inr (i, \<lparr>idd_ids = ids, idd_distances = ds, idd_position = idd_position b + i\<rparr>))"

definition id_distance_ops :: "('i id_distance, 'i nbr) buffer_ops" where
  "id_distance_ops = \<lparr>bo_size_hint = idd_size_hint, bo_push = idd_push,
     bo_current_len = idd_position, bo_extend = idd_extend\<rparr>"

section \<open>\<open>IdDistanceAssociatedData\<close>\<close>

record ('i, 'a) id_distance_assoc =
  ida_ids :: "'i list"
  ida_distances :: "f32 list"
  ida_associated_data :: "'a list"
  ida_position :: nat

definition ida_new :: "'i list \<Rightarrow> f32 list \<Rightarrow> 'a list \<Rightarrow> ('i, 'a) id_distance_assoc partial" where
  "ida_new ids ds as =
     (if length ids \<noteq> length ds then Inl AssertFailed
      else if length ids \<noteq> length as then Inl AssertFailed
      else Inr \<lparr>ida_ids = ids, ida_distances = ds, ida_associated_data = as, ida_position = 0\<rparr>)"

definition ida_capacity :: "('i, 'a) id_distance_assoc \<Rightarrow> nat" where
  "ida_capacity b = length (ida_ids b)"

definition ida_size_hint :: "('i, 'a) id_distance_assoc \<Rightarrow> nat option partial" where
  "ida_size_hint b = bind_result (checked_sub (ida_capacity b) (ida_position b)) (\<lambda>n. Inr (Some n))"

definition ida_push ::
  "('i, 'a) id_distance_assoc \<Rightarrow> ('i \<times> 'a) nbr \<Rightarrow> (buffer_state \<times> ('i, 'a) id_distance_assoc) partial" where
  "ida_push b n =
     (if ida_position b = ida_capacity b then Inr (Full, b)
      else
        let ((i, a), d) = as_tuple n in
        bind_result (vec_set (ida_ids b) (ida_position b) i) (\<lambda>ids.
        bind_result (vec_set (ida_distances b) (ida_position b) d) (\<lambda>ds.
        bind_result (vec_set (ida_associated_data b) (ida_position b) a) (\<lambda>as.
        let b = \<lparr>ida_ids = ids, ida_distances = ds, ida_associated_data = as,
                 ida_position = Suc (ida_position b)\<rparr> in
        Inr (if ida_position b = ida_capacity b then Full else Available, b)))))"

fun ida_write ::
  "'i list \<Rightarrow> f32 list \<Rightarrow> 'a list \<Rightarrow> nat \<Rightarrow> ('i \<times> 'a) nbr list \<Rightarrow> nat \<times> 'i list \<times> f32 list \<times> 'a list" where
  "ida_write ids ds as p [] = (0, ids, ds, as)"
| "ida_write ids ds as p (n # ns) =
     (if p < length ids \<and> p < length ds \<and> p < length as then
        let ((i_in, a_in), d_in) = as_tuple n;
            (i, ids, ds, as) = ida_write (ids[p := i_in]) (ds[p := d_in]) (as[p := a_in]) (Suc p) ns
        in (Suc i, ids, ds, as)
      else (0, ids, ds, as))"

definition ida_extend ::
  "('i, 'a) id_distance_assoc \<Rightarrow> ('i \<times> 'a) nbr list \<Rightarrow> (nat \<times> ('i, 'a) id_distance_assoc) partial" where
  "ida_extend b itr =
     (let (i, ids, ds, as) =
        ida_write (ida_ids b) (ida_distances b) (ida_associated_data b) (ida_position b) itr in
      Inr (i, \<lparr>ida_ids = ids, ida_distances = ds, ida_associated_data = as,
               ida_position = ida_position b + i\<rparr>))"

definition id_distance_assoc_ops :: "(('i, 'a) id_distance_assoc, ('i \<times> 'a) nbr) buffer_ops" where
  "id_distance_assoc_ops = \<lparr>bo_size_hint = ida_size_hint, bo_push = ida_push,
     bo_current_len = ida_position, bo_extend = ida_extend\<rparr>"

section \<open>The disk index's \<open>SearchOutput\<close>\<close>

record ('a, 'v) search_output =
  so_output :: "(u32, 'a) id_distance_assoc"
  so_indexed_vectors :: "'v option list option"

datatype search_output_error = LengthMismatch | SoPanic panic

definition so_new ::
  "u32 list \<Rightarrow> f32 list \<Rightarrow> 'a list \<Rightarrow> 'v option list option \<Rightarrow> search_output_error + ('a, 'v) search_output" where
  "so_new ids ds as ivs =
     (if (case ivs of Some vs \<Rightarrow> length ids \<noteq> length vs | None \<Rightarrow> False) then Inl LengthMismatch
      else case ida_new ids ds as of
        Inl p \<Rightarrow> Inl (SoPanic p)
      | Inr b \<Rightarrow> Inr \<lparr>so_output = b, so_indexed_vectors = ivs\<rparr>)"

definition so_push ::
  "('a, 'v) search_output \<Rightarrow> (u32 \<times> 'a \<times> 'v option) nbr \<Rightarrow> (buffer_state \<times> ('a, 'v) search_output) partial" where
  "so_push b n =
     (let position = ida_position (so_output b) in
      if position = ida_capacity (so_output b) then Inr (Full, b)
      else
        let ((i, a, v), d) = as_tuple n in
        bind_result (ida_push (so_output b) (Neighbor (i, a) d)) (\<lambda>(state, out).
        case so_indexed_vectors b of
          None \<Rightarrow> Inr (state, b\<lparr>so_output := out\<rparr>)
        | Some vs \<Rightarrow>
            bind_result (vec_set vs position v) (\<lambda>vs.
            Inr (state, \<lparr>so_output = out, so_indexed_vectors = Some vs\<rparr>))))"

definition so_extend ::
  "('a, 'v) search_output \<Rightarrow> (u32 \<times> 'a \<times> 'v option) nbr list \<Rightarrow> (nat \<times> ('a, 'v) search_output) partial" where
  "so_extend b itr =
     (let start = ida_position (so_output b) in
      bind_result (push_until_full so_push b itr) (\<lambda>b.
      bind_result (checked_sub (ida_position (so_output b)) start) (\<lambda>n. Inr (n, b))))"

definition search_output_ops :: "(('a, 'v) search_output, (u32 \<times> 'a \<times> 'v option) nbr) buffer_ops" where
  "search_output_ops = \<lparr>bo_size_hint = (\<lambda>b. ida_size_hint (so_output b)), bo_push = so_push,
     bo_current_len = (\<lambda>b. ida_position (so_output b)), bo_extend = so_extend\<rparr>"

section \<open>The benchmark's \<open>Buffer\<close>\<close>

datatype 'i bench_buffer = BufSlice (bb_slice: "'i list") (bb_written: nat) | BufVec (bb_vec: "'i list")

definition bb_current_len :: "'i bench_buffer \<Rightarrow> nat" where
  "bb_current_len b = (case b of BufSlice items written \<Rightarrow> written | BufVec v \<Rightarrow> length v)"

definition bb_size_hint :: "'i bench_buffer \<Rightarrow> nat option partial" where
  "bb_size_hint b =
     (case b of
        BufSlice items written \<Rightarrow>
          bind_result (checked_sub (length items) written) (\<lambda>n. Inr (Some n))
      | BufVec v \<Rightarrow> Inr None)"

definition bb_push :: "'i bench_buffer \<Rightarrow> ('i, 'd) neighbor \<Rightarrow> (buffer_state \<times> 'i bench_buffer) partial" where
  "bb_push b n =
     (case b of
        BufSlice items written \<Rightarrow>
          if written < length items then
            let items = items[written := fst (as_tuple n)]; written = Suc written in
            Inr (if written = length items then Full else Available, BufSlice items written)
          else Inr (Full, b)
      | BufVec v \<Rightarrow> Inr (Available, BufVec (v @ [fst (as_tuple n)])))"

definition bb_extend :: "'i bench_buffer \<Rightarrow> ('i, 'd) neighbor list \<Rightarrow> (nat \<times> 'i bench_buffer) partial" where
  "bb_extend b itr =
     (case b of
        BufSlice items written \<Rightarrow>
          if written \<le> length items then
            let (i, items) = zip_write items written (map (\<lambda>n. fst (as_tuple n)) itr) in
            Inr (i, BufSlice items (written + i))
          else Inr (0, b)
      | BufVec v \<Rightarrow>
          let v' = v @ map (\<lambda>n. fst (as_tuple n)) itr in
          Inr (length v' - length v, BufVec v'))"

definition bench_buffer_ops :: "('i bench_buffer, ('i, 'd) neighbor) buffer_ops" where
  "bench_buffer_ops = \<lparr>bo_size_hint = bb_size_hint, bo_push = bb_push,
     bo_current_len = bb_current_len, bo_extend = bb_extend\<rparr>"

section \<open>\<open>DistanceFiltered\<close>\<close>

text \<open>The wrapper holds the predicate and a reference to the inner buffer: the state is the inner one.\<close>

definition df_push ::
  "('b, 'i nbr) buffer_ops \<Rightarrow> (f32 \<Rightarrow> bool) \<Rightarrow> 'b \<Rightarrow> 'i nbr \<Rightarrow> (buffer_state \<times> 'b) partial" where
  "df_push B predicate b n =
     (if predicate (nbr_distance n) then bo_push B b n
      else bind_result (bo_size_hint B b) (\<lambda>h. Inr (if h = Some 0 then Full else Available, b)))"

definition df_extend ::
  "('b, 'i nbr) buffer_ops \<Rightarrow> (f32 \<Rightarrow> bool) \<Rightarrow> 'b \<Rightarrow> 'i nbr list \<Rightarrow> (nat \<times> 'b) partial" where
  "df_extend B predicate b itr = bo_extend B b (filter (\<lambda>n. predicate (nbr_distance n)) itr)"

definition distance_filtered_ops ::
  "('b, 'i nbr) buffer_ops \<Rightarrow> (f32 \<Rightarrow> bool) \<Rightarrow> ('b, 'i nbr) buffer_ops" where
  "distance_filtered_ops B predicate = \<lparr>bo_size_hint = bo_size_hint B, bo_push = df_push B predicate,
     bo_current_len = bo_current_len B, bo_extend = df_extend B predicate\<rparr>"

section \<open>The contract\<close>

text \<open>
  A buffer holds a list of items and may have a capacity. A push appends an admitted item while
  there is room and answers \<open>Full\<close> exactly when no room is left afterwards; \<open>extend\<close> appends the
  admitted items of the iterator as far as there is room and returns how many it appended.
\<close>

fun has_room :: "nat option \<Rightarrow> nat \<Rightarrow> bool" where
  "has_room None n \<longleftrightarrow> True"
| "has_room (Some c) n \<longleftrightarrow> n < c"

fun fit :: "nat option \<Rightarrow> nat \<Rightarrow> 'n list \<Rightarrow> 'n list" where
  "fit None n xs = xs"
| "fit (Some c) n xs = take (c - n) xs"

locale buffer_push =
  fixes B :: "('b, 'n) buffer_ops"
    and inv :: "'b \<Rightarrow> bool"
    and contents :: "'b \<Rightarrow> 'c list"
    and cap :: "'b \<Rightarrow> nat option"
    and item :: "'n \<Rightarrow> 'c"
    and admit :: "'n \<Rightarrow> bool"
  assumes push_law: "inv b \<Longrightarrow> \<exists>s b'. bo_push B b n = Inr (s, b') \<and> inv b' \<and> cap b' = cap b \<and>
      contents b' = (if admit n \<and> has_room (cap b) (length (contents b)) then contents b @ [item n]
                     else contents b) \<and>
      (s = Full \<longleftrightarrow> \<not> has_room (cap b) (length (contents b')))"
    and len_law: "inv b \<Longrightarrow> bo_current_len B b = length (contents b)"
    and hint_law: "inv b \<Longrightarrow> bo_size_hint B b = Inr (map_option (\<lambda>c. c - length (contents b)) (cap b))"
    and bound_law: "inv b \<Longrightarrow> cap b = Some c \<Longrightarrow> length (contents b) \<le> c"
begin

lemma push_until_full_contents:
  "inv b \<Longrightarrow> \<exists>b'. push_until_full (bo_push B) b ns = Inr b' \<and> inv b' \<and> cap b' = cap b \<and>
     contents b' = contents b @ fit (cap b) (length (contents b)) (map item (filter admit ns))"
proof (induction ns arbitrary: b)
  case Nil
  then show ?case by (cases "cap b") auto
next
  case (Cons n ns)
  from push_law [OF Cons.prems, of n] obtain s b1 where p: "bo_push B b n = Inr (s, b1)" "inv b1"
    "cap b1 = cap b"
    "contents b1 = (if admit n \<and> has_room (cap b) (length (contents b)) then contents b @ [item n]
                    else contents b)"
    "s = Full \<longleftrightarrow> \<not> has_room (cap b) (length (contents b1))"
    by blast
  show ?case
  proof (cases s)
    case Full
    then obtain c where c: "cap b = Some c" "c \<le> length (contents b1)"
      using p(5) by (cases "cap b") auto
    then have "contents b1 = contents b @ fit (cap b) (length (contents b)) (map item (filter admit (n # ns)))"
      using p(4) by (auto simp: take_Cons' not_less split: if_splits)
    with p Full show ?thesis by (auto simp: state_is_full_def)
  next
    case Available
    then have r: "has_room (cap b) (length (contents b1))" using p(5) by auto
    from Cons.IH [OF p(2)] obtain b2 where b2: "push_until_full (bo_push B) b1 ns = Inr b2" "inv b2"
      "cap b2 = cap b"
      "contents b2 = contents b1 @ fit (cap b) (length (contents b1)) (map item (filter admit ns))"
      using p(3) by auto
    have "has_room (cap b) (length (contents b))" using r p(4) by (cases "cap b") (auto split: if_splits)
    then have "contents b2 = contents b @ fit (cap b) (length (contents b)) (map item (filter admit (n # ns)))"
      using b2(4) p(4) by (cases "cap b") (auto simp: take_Cons')
    with b2 p Available show ?thesis by (auto simp: state_is_full_def)
  qed
qed

end

locale output_buffer = buffer_push +
  assumes extend_law: "inv b \<Longrightarrow> \<exists>b'. inv b' \<and> cap b' = cap b \<and>
      contents b' = contents b @ fit (cap b) (length (contents b)) (map item (filter admit ns)) \<and>
      bo_extend B b ns = Inr (length (fit (cap b) (length (contents b)) (map item (filter admit ns))), b')"
begin

text \<open>Extending is pushing until the buffer is full.\<close>

lemma extend_is_push_until_full:
  assumes "inv b"
  shows "\<exists>b1 b2. bo_extend B b ns = Inr (length (contents b1) - length (contents b), b1) \<and>
     push_until_full (bo_push B) b ns = Inr b2 \<and> contents b1 = contents b2"
  using extend_law [OF assms, of ns] push_until_full_contents [OF assms, of ns] by fastforce

lemma extend_within_capacity:
  assumes "inv b" and "bo_extend B b ns = Inr (k, b')"
  shows "k \<le> length ns" and "cap b = Some c \<Longrightarrow> k \<le> c - length (contents b)"
    and "length (contents b') = length (contents b) + k"
proof -
  from extend_law [OF assms(1), of ns] assms(2)
  have k: "k = length (fit (cap b) (length (contents b)) (map item (filter admit ns)))"
    and c: "contents b' = contents b @ fit (cap b) (length (contents b)) (map item (filter admit ns))"
    by auto
  have "length (filter admit ns) \<le> length ns" by simp
  then show "k \<le> length ns" using k by (cases "cap b") (auto intro: min.coboundedI1)
  show "cap b = Some c \<Longrightarrow> k \<le> c - length (contents b)" using k by simp
  show "length (contents b') = length (contents b) + k" using k c by simp
qed

end

text \<open>
  A buffer that simulates another one through an abstraction function satisfies the contract of
  that one.
\<close>

locale buffer_refinement = output_buffer B inv contents cap item admit
  for B :: "('b, 'n) buffer_ops"
    and inv :: "'b \<Rightarrow> bool"
    and contents :: "'b \<Rightarrow> 'c list"
    and cap :: "'b \<Rightarrow> nat option"
    and item :: "'n \<Rightarrow> 'c"
    and admit :: "'n \<Rightarrow> bool" +
  fixes A :: "('a, 'm) buffer_ops"
    and ainv :: "'a \<Rightarrow> bool"
    and abs :: "'a \<Rightarrow> 'b"
    and conv :: "'m \<Rightarrow> 'n"
  assumes ainv_law: "ainv a \<Longrightarrow> inv (abs a)"
    and apush_law: "ainv a \<Longrightarrow> bo_push B (abs a) (conv m) = Inr (s, b') \<Longrightarrow>
      \<exists>a'. bo_push A a m = Inr (s, a') \<and> ainv a' \<and> abs a' = b'"
    and alen_law: "ainv a \<Longrightarrow> bo_current_len A a = bo_current_len B (abs a)"
    and ahint_law: "ainv a \<Longrightarrow> bo_size_hint A a = bo_size_hint B (abs a)"
    and aextend_law: "ainv a \<Longrightarrow> bo_extend B (abs a) (map conv ms) = Inr (k, b') \<Longrightarrow>
      \<exists>a'. bo_extend A a ms = Inr (k, a') \<and> ainv a' \<and> abs a' = b'"

sublocale buffer_refinement \<subseteq> refined: output_buffer A ainv "\<lambda>a. contents (abs a)"
  "\<lambda>a. cap (abs a)" "\<lambda>m. item (conv m)" "\<lambda>m. admit (conv m)"
proof
  fix a m c ms assume a: "ainv a"
  from push_law [OF ainv_law [OF a], of "conv m"] obtain s b' where
    b': "bo_push B (abs a) (conv m) = Inr (s, b')" "cap b' = cap (abs a)"
      "contents b' = (if admit (conv m) \<and> has_room (cap (abs a)) (length (contents (abs a)))
         then contents (abs a) @ [item (conv m)] else contents (abs a))"
      "s = Full \<longleftrightarrow> \<not> has_room (cap (abs a)) (length (contents b'))" by blast
  with apush_law [OF a b'(1)] show "\<exists>s a'. bo_push A a m = Inr (s, a') \<and> ainv a' \<and> cap (abs a') = cap (abs a) \<and>
      contents (abs a') = (if admit (conv m) \<and> has_room (cap (abs a)) (length (contents (abs a)))
         then contents (abs a) @ [item (conv m)] else contents (abs a)) \<and>
      (s = Full \<longleftrightarrow> \<not> has_room (cap (abs a)) (length (contents (abs a'))))"
    by metis
  show "bo_current_len A a = length (contents (abs a))"
    by (simp add: alen_law [OF a] len_law [OF ainv_law [OF a]])
  show "bo_size_hint A a = Inr (map_option (\<lambda>c. c - length (contents (abs a))) (cap (abs a)))"
    by (simp add: ahint_law [OF a] hint_law [OF ainv_law [OF a]])
  show "cap (abs a) = Some c \<Longrightarrow> length (contents (abs a)) \<le> c"
    by (rule bound_law [OF ainv_law [OF a]])
  let ?fit = "fit (cap (abs a)) (length (contents (abs a))) (map item (filter admit (map conv ms)))"
  from extend_law [OF ainv_law [OF a], of "map conv ms"] obtain b2 where
    b2: "cap b2 = cap (abs a)" "contents b2 = contents (abs a) @ ?fit"
      "bo_extend B (abs a) (map conv ms) = Inr (length ?fit, b2)" by blast
  have "map item (filter admit (map conv ms)) = map (\<lambda>m. item (conv m)) (filter (\<lambda>m. admit (conv m)) ms)"
    by (simp add: filter_map comp_def)
  with b2 aextend_law [OF a b2(3)] show "\<exists>a'. ainv a' \<and> cap (abs a') = cap (abs a) \<and>
     contents (abs a') = contents (abs a) @ fit (cap (abs a)) (length (contents (abs a)))
       (map (\<lambda>m. item (conv m)) (filter (\<lambda>m. admit (conv m)) ms)) \<and>
     bo_extend A a ms = Inr (length (fit (cap (abs a)) (length (contents (abs a)))
       (map (\<lambda>m. item (conv m)) (filter (\<lambda>m. admit (conv m)) ms))), a')"
    by metis
qed

section \<open>The implementations meet the contract\<close>

lemma zip_write_eq:
  "p \<le> length buf \<Longrightarrow> zip_write buf p ns =
     (min (length buf - p) (length ns), take p buf @ take (length buf - p) ns @ drop (p + length ns) buf)"
proof (induction ns arbitrary: buf p)
  case (Cons n ns)
  show ?case
  proof (cases "p < length buf")
    case True
    then have "take (Suc p) (buf[p := n]) = take p buf @ [n]"
      by (simp add: take_Suc_conv_app_nth)
    with True Cons.IH [of "Suc p" "buf[p := n]"] show ?thesis
      by (simp add: Let_def take_Cons' )
  qed (use Cons.prems in simp)
qed simp

definition bi_inv :: "'n back_inserter \<Rightarrow> bool" where
  "bi_inv b \<longleftrightarrow> bi_position b \<le> length (bi_buffer b)"

abbreviation bi_contents :: "'n back_inserter \<Rightarrow> 'n list" where
  "bi_contents b \<equiv> take (bi_position b) (bi_buffer b)"

abbreviation bi_cap :: "'n back_inserter \<Rightarrow> nat option" where
  "bi_cap b \<equiv> Some (length (bi_buffer b))"

abbreviation accept_all :: "'n \<Rightarrow> bool" where
  "accept_all \<equiv> (\<lambda>_. True)"

interpretation bi: output_buffer back_inserter_ops bi_inv bi_contents bi_cap id accept_all
proof
  fix b :: "'a back_inserter" and n ns c
  assume inv: "bi_inv b"
  show "\<exists>s b'. bo_push back_inserter_ops b n = Inr (s, b') \<and> bi_inv b' \<and> bi_cap b' = bi_cap b \<and>
      bi_contents b' = (if True \<and> has_room (bi_cap b) (length (bi_contents b)) then bi_contents b @ [id n]
                        else bi_contents b) \<and>
      (s = Full \<longleftrightarrow> \<not> has_room (bi_cap b) (length (bi_contents b')))"
    using inv by (auto simp: back_inserter_ops_def bi_push_def bi_inv_def Let_def vec_set_def
        take_Suc_conv_app_nth min_def)
  show "bo_current_len back_inserter_ops b = length (bi_contents b)"
    using inv by (simp add: back_inserter_ops_def bi_inv_def)
  show "bo_size_hint back_inserter_ops b = Inr (map_option (\<lambda>c. c - length (bi_contents b)) (bi_cap b))"
    using inv by (simp add: back_inserter_ops_def bi_size_hint_def bi_inv_def min_def)
  show "bi_cap b = Some c \<Longrightarrow> length (bi_contents b) \<le> c" by auto
  show "\<exists>b'. bi_inv b' \<and> bi_cap b' = bi_cap b \<and>
      bi_contents b' = bi_contents b @ fit (bi_cap b) (length (bi_contents b)) (map id (filter accept_all ns)) \<and>
      bo_extend back_inserter_ops b ns
        = Inr (length (fit (bi_cap b) (length (bi_contents b)) (map id (filter accept_all ns))), b')"
    using inv by (auto simp: back_inserter_ops_def bi_extend_def bi_inv_def zip_write_eq min_def)
qed

interpretation vec: output_buffer vec_ops accept_all id "\<lambda>_. None" id accept_all
  by unfold_locales (auto simp: vec_ops_def)

subsection \<open>Parallel slices refine a slice of neighbors\<close>

definition idd_abs :: "'i id_distance \<Rightarrow> 'i nbr back_inserter" where
  "idd_abs b = \<lparr>bi_buffer = map2 Neighbor (idd_ids b) (idd_distances b), bi_position = idd_position b\<rparr>"

definition idd_inv :: "'i id_distance \<Rightarrow> bool" where
  "idd_inv b \<longleftrightarrow> length (idd_ids b) = length (idd_distances b) \<and> idd_position b \<le> length (idd_ids b)"

lemma map2_update:
  "(map2 f xs ys)[p := f x y] = map2 f (xs[p := x]) (ys[p := y])"
  using map_update [of "\<lambda>(x, y). f x y" "zip xs ys" p "(x, y)"] by (simp add: update_zip)

lemma idd_write_abs:
  assumes "length ids = length ds" and "idd_write ids ds p ns = (k, ids', ds')"
  shows "zip_write (map2 Neighbor ids ds) p ns = (k, map2 Neighbor ids' ds') \<and>
     length ids' = length ids \<and> length ds' = length ds"
  using assms
proof (induction ns arbitrary: ids ds p k)
  case (Cons n ns)
  show ?case
  proof (cases "p < length ids")
    case True
    obtain j where j: "idd_write (ids[p := nbr_id n]) (ds[p := nbr_distance n]) (Suc p) ns = (j, ids', ds')" "k = Suc j"
      using Cons.prems True by (auto simp: as_tuple_def split: prod.splits)
    from Cons.IH [OF _ j(1)] Cons.prems(1) True j(2) show ?thesis
      by (simp add: map2_update [of Neighbor _ _ p "nbr_id n" "nbr_distance n", simplified neighbor.collapse])
  qed (use Cons.prems in auto)
qed simp

interpretation idd: buffer_refinement back_inserter_ops bi_inv bi_contents bi_cap id accept_all
  id_distance_ops idd_inv idd_abs id
proof
  fix a :: "'a id_distance" and m ms s b' k
  assume a: "idd_inv a"
  then show "bi_inv (idd_abs a)" by (simp add: idd_inv_def bi_inv_def idd_abs_def)
  show "bo_current_len id_distance_ops a = bo_current_len back_inserter_ops (idd_abs a)"
    by (simp add: id_distance_ops_def back_inserter_ops_def idd_abs_def)
  show "bo_size_hint id_distance_ops a = bo_size_hint back_inserter_ops (idd_abs a)"
    using a by (simp add: id_distance_ops_def back_inserter_ops_def idd_abs_def idd_size_hint_def
        bi_size_hint_def idd_capacity_def idd_inv_def)
  show "\<exists>a'. bo_push id_distance_ops a m = Inr (s, a') \<and> idd_inv a' \<and> idd_abs a' = b'"
    if "bo_push back_inserter_ops (idd_abs a) (id m) = Inr (s, b')"
    using that a map2_update [of Neighbor "idd_ids a" "idd_distances a" "idd_position a" "nbr_id m" "nbr_distance m"]
    by (auto simp: id_distance_ops_def back_inserter_ops_def idd_push_def bi_push_def idd_abs_def
        idd_inv_def idd_capacity_def as_tuple_def Let_def)
  show "\<exists>a'. bo_extend id_distance_ops a ms = Inr (k, a') \<and> idd_inv a' \<and> idd_abs a' = b'"
    if ext: "bo_extend back_inserter_ops (idd_abs a) (map id ms) = Inr (k, b')"
  proof -
    obtain j ids ds where w: "idd_write (idd_ids a) (idd_distances a) (idd_position a) ms = (j, ids, ds)"
      by (cases "idd_write (idd_ids a) (idd_distances a) (idd_position a) ms")
    have len: "length (idd_ids a) = length (idd_distances a)" "idd_position a \<le> length (idd_ids a)"
      using a by (simp_all add: idd_inv_def)
    note z = idd_write_abs [OF len(1) w]
    moreover have "j \<le> length (idd_ids a) - idd_position a"
      using z len zip_write_eq [of "idd_position a" "map2 Neighbor (idd_ids a) (idd_distances a)" ms] by auto
    ultimately show ?thesis
      using ext w len by (auto simp: id_distance_ops_def back_inserter_ops_def idd_extend_def bi_extend_def
          idd_abs_def idd_inv_def)
  qed
qed

definition ida_nbrs :: "'i list \<Rightarrow> f32 list \<Rightarrow> 'a list \<Rightarrow> ('i \<times> 'a) nbr list" where
  "ida_nbrs ids ds as = map2 Neighbor (zip ids as) ds"

definition ida_abs :: "('i, 'a) id_distance_assoc \<Rightarrow> ('i \<times> 'a) nbr back_inserter" where
  "ida_abs b = \<lparr>bi_buffer = ida_nbrs (ida_ids b) (ida_distances b) (ida_associated_data b),
     bi_position = ida_position b\<rparr>"

definition ida_inv :: "('i, 'a) id_distance_assoc \<Rightarrow> bool" where
  "ida_inv b \<longleftrightarrow> length (ida_ids b) = length (ida_distances b) \<and>
     length (ida_ids b) = length (ida_associated_data b) \<and> ida_position b \<le> length (ida_ids b)"

lemma ida_nbrs_update:
  "(ida_nbrs ids ds as)[p := n] =
   ida_nbrs (ids[p := fst (nbr_id n)]) (ds[p := nbr_distance n]) (as[p := snd (nbr_id n)])"
  unfolding ida_nbrs_def using map2_update [of Neighbor "zip ids as" ds p "nbr_id n" "nbr_distance n"]
  by (simp add: update_zip)

lemma length_ida_nbrs [simp]:
  "length ids = length ds \<Longrightarrow> length ids = length as \<Longrightarrow> length (ida_nbrs ids ds as) = length ids"
  by (simp add: ida_nbrs_def)

lemma ida_write_abs:
  assumes "length ids = length ds" and "length ids = length as"
    and "ida_write ids ds as p ns = (k, ids', ds', as')"
  shows "zip_write (ida_nbrs ids ds as) p ns = (k, ida_nbrs ids' ds' as') \<and>
     length ids' = length ids \<and> length ds' = length ds \<and> length as' = length as"
  using assms
proof (induction ns arbitrary: ids ds as p k)
  case (Cons n ns)
  show ?case
  proof (cases "p < length ids")
    case True
    obtain j where j: "ida_write (ids[p := fst (nbr_id n)]) (ds[p := nbr_distance n]) (as[p := snd (nbr_id n)])
        (Suc p) ns = (j, ids', ds', as')" "k = Suc j"
      using Cons.prems True by (auto simp: as_tuple_def split: prod.splits)
    from Cons.IH [OF _ _ j(1)] Cons.prems(1,2) True j(2) show ?thesis
      by (simp add: ida_nbrs_update)
  qed (use Cons.prems in auto)
qed simp

definition ida_stored :: "('i, 'a) id_distance_assoc \<Rightarrow> ('i \<times> 'a) nbr \<Rightarrow> ('i, 'a) id_distance_assoc" where
  "ida_stored a m = \<lparr>ida_ids = (ida_ids a)[ida_position a := fst (nbr_id m)],
    ida_distances = (ida_distances a)[ida_position a := nbr_distance m],
    ida_associated_data = (ida_associated_data a)[ida_position a := snd (nbr_id m)],
    ida_position = Suc (ida_position a)\<rparr>"

lemma ida_push_room:
  assumes "ida_inv a" and "ida_position a \<noteq> length (ida_ids a)"
  shows "ida_push a m =
     Inr (if Suc (ida_position a) = length (ida_ids a) then Full else Available, ida_stored a m)"
    and "ida_inv (ida_stored a m)"
  using assms
  by (simp_all add: ida_push_def ida_inv_def ida_capacity_def as_tuple_def Let_def split_beta ida_stored_def)

lemma ida_push_abs:
  assumes a: "ida_inv a" and p: "bi_push (ida_abs a) m = Inr (s, b')"
  shows "\<exists>a'. ida_push a m = Inr (s, a') \<and> ida_inv a' \<and> ida_abs a' = b'"
proof (cases "ida_position a = length (ida_ids a)")
  case True
  with assms show ?thesis by (simp add: bi_push_def ida_abs_def ida_push_def ida_capacity_def ida_inv_def)
next
  case False
  with a p ida_push_room [OF a False, of m] show ?thesis
    by (simp add: bi_push_def ida_abs_def ida_inv_def Let_def ida_nbrs_update ida_stored_def)
qed

interpretation ida: buffer_refinement back_inserter_ops bi_inv bi_contents bi_cap id accept_all
  id_distance_assoc_ops ida_inv ida_abs id
proof
  fix a :: "('a, 'b) id_distance_assoc" and m ms s b' k
  assume a: "ida_inv a"
  then show "bi_inv (ida_abs a)" by (simp add: ida_inv_def bi_inv_def ida_abs_def)
  show "bo_current_len id_distance_assoc_ops a = bo_current_len back_inserter_ops (ida_abs a)"
    by (simp add: id_distance_assoc_ops_def back_inserter_ops_def ida_abs_def)
  show "bo_size_hint id_distance_assoc_ops a = bo_size_hint back_inserter_ops (ida_abs a)"
    using a by (simp add: id_distance_assoc_ops_def back_inserter_ops_def ida_abs_def ida_size_hint_def
        bi_size_hint_def ida_capacity_def ida_inv_def)
  show "\<exists>a'. bo_push id_distance_assoc_ops a m = Inr (s, a') \<and> ida_inv a' \<and> ida_abs a' = b'"
    if "bo_push back_inserter_ops (ida_abs a) (id m) = Inr (s, b')"
    using ida_push_abs [OF a, of m] that by (simp add: id_distance_assoc_ops_def back_inserter_ops_def)
  show "\<exists>a'. bo_extend id_distance_assoc_ops a ms = Inr (k, a') \<and> ida_inv a' \<and> ida_abs a' = b'"
    if ext: "bo_extend back_inserter_ops (ida_abs a) (map id ms) = Inr (k, b')"
  proof -
    obtain j ids ds as where
      w: "ida_write (ida_ids a) (ida_distances a) (ida_associated_data a) (ida_position a) ms = (j, ids, ds, as)"
      by (cases "ida_write (ida_ids a) (ida_distances a) (ida_associated_data a) (ida_position a) ms")
    have len: "length (ida_ids a) = length (ida_distances a)"
        "length (ida_ids a) = length (ida_associated_data a)" "ida_position a \<le> length (ida_ids a)"
      using a by (simp_all add: ida_inv_def)
    note z = ida_write_abs [OF len(1,2) w]
    moreover have "j \<le> length (ida_ids a) - ida_position a"
      using z len zip_write_eq [of "ida_position a"
          "ida_nbrs (ida_ids a) (ida_distances a) (ida_associated_data a)" ms] by auto
    ultimately show ?thesis
      using ext w len by (auto simp: id_distance_assoc_ops_def back_inserter_ops_def ida_extend_def
          bi_extend_def ida_abs_def ida_inv_def)
  qed
qed

subsection \<open>The disk index's output\<close>

definition so_inv :: "('a, 'v) search_output \<Rightarrow> bool" where
  "so_inv b \<longleftrightarrow> ida_inv (so_output b) \<and>
     (case so_indexed_vectors b of None \<Rightarrow> True
      | Some vs \<Rightarrow> length vs = length (ida_ids (so_output b)))"

definition so_item :: "(u32 \<times> 'a \<times> 'v option) nbr \<Rightarrow> (u32 \<times> 'a) nbr" where
  "so_item n = Neighbor (fst (nbr_id n), fst (snd (nbr_id n))) (nbr_distance n)"

abbreviation so_contents :: "('a, 'v) search_output \<Rightarrow> (u32 \<times> 'a) nbr list" where
  "so_contents b \<equiv> bi_contents (ida_abs (so_output b))"

abbreviation so_cap :: "('a, 'v) search_output \<Rightarrow> nat option" where
  "so_cap b \<equiv> bi_cap (ida_abs (so_output b))"

lemma so_push_eq:
  assumes "so_inv b"
  shows "\<exists>s out b'. ida_push (so_output b) (so_item n) = Inr (s, out) \<and> so_push b n = Inr (s, b') \<and>
     so_output b' = out \<and> so_inv b'"
proof (cases "ida_position (so_output b) = length (ida_ids (so_output b))")
  case True
  with assms show ?thesis by (simp add: so_push_def ida_push_def ida_capacity_def)
next
  case False
  have a: "ida_inv (so_output b)" using assms by (simp add: so_inv_def)
  note o = ida_push_room [OF a False, of "so_item n"]
  have lt: "ida_position (so_output b) < length (ida_ids (so_output b))"
    using a False by (simp add: ida_inv_def)
  have len: "length (ida_ids (ida_stored (so_output b) (so_item n))) = length (ida_ids (so_output b))"
    by (simp add: ida_stored_def)
  show ?thesis
  proof (cases "so_indexed_vectors b")
    case None
    with o False show ?thesis
      by (simp add: so_push_def so_item_def as_tuple_def ida_capacity_def so_inv_def split_beta)
  next
    case (Some vs)
    with assms have "length vs = length (ida_ids (so_output b))" by (simp add: so_inv_def)
    with Some o False lt len show ?thesis
      by (simp add: so_push_def so_item_def as_tuple_def ida_capacity_def so_inv_def split_beta Let_def)
  qed
qed

interpretation so_push: buffer_push search_output_ops so_inv so_contents so_cap so_item accept_all
proof
  fix b :: "('a, 'b) search_output" and n c
  assume b: "so_inv b"
  then have a: "ida_inv (so_output b)" by (simp add: so_inv_def)
  from so_push_eq [OF b, of n] obtain s out b' where
    p: "ida_push (so_output b) (so_item n) = Inr (s, out)" "so_push b n = Inr (s, b')" "so_output b' = out" "so_inv b'"
    by blast
  with ida.refined.push_law [OF a, of "so_item n"]
  show "\<exists>s b'. bo_push search_output_ops b n = Inr (s, b') \<and> so_inv b' \<and> so_cap b' = so_cap b \<and>
      so_contents b' = (if True \<and> has_room (so_cap b) (length (so_contents b)) then so_contents b @ [so_item n]
                        else so_contents b) \<and>
      (s = Full \<longleftrightarrow> \<not> has_room (so_cap b) (length (so_contents b')))"
    by (simp add: search_output_ops_def id_distance_assoc_ops_def)
  show "bo_current_len search_output_ops b = length (so_contents b)"
    using ida.refined.len_law [OF a] by (simp add: search_output_ops_def id_distance_assoc_ops_def)
  show "bo_size_hint search_output_ops b = Inr (map_option (\<lambda>c. c - length (so_contents b)) (so_cap b))"
    using ida.refined.hint_law [OF a] by (simp add: search_output_ops_def id_distance_assoc_ops_def)
  show "so_cap b = Some c \<Longrightarrow> length (so_contents b) \<le> c" by auto
qed

interpretation so: output_buffer search_output_ops so_inv so_contents so_cap so_item accept_all
proof
  fix b :: "('a, 'b) search_output" and ns
  assume b: "so_inv b"
  from so_push.push_until_full_contents [OF b, of ns] obtain b' where
    b': "push_until_full so_push b ns = Inr b'" "so_inv b'" "so_cap b' = so_cap b"
      "so_contents b' = so_contents b @ fit (so_cap b) (length (so_contents b)) (map so_item (filter accept_all ns))"
    by (auto simp: search_output_ops_def)
  have len: "ida_position (so_output x) = length (so_contents x)" if "so_inv x" for x :: "('a, 'b) search_output"
    using so_push.len_law [OF that] by (simp add: search_output_ops_def)
  have "length (so_contents b') - length (so_contents b)
      = length (fit (so_cap b) (length (so_contents b)) (map so_item (filter accept_all ns)))"
    unfolding b'(4) by simp
  moreover have "length (so_contents b) \<le> length (so_contents b')" unfolding b'(4) by simp
  ultimately have "so_extend b ns =
      Inr (length (fit (so_cap b) (length (so_contents b)) (map so_item (filter accept_all ns))), b')"
    unfolding so_extend_def b'(1) Let_def len [OF b] by (simp only: bind_result_simps len [OF b'(2)] checked_sub_ge)
  with b' show "\<exists>b'. so_inv b' \<and> so_cap b' = so_cap b \<and>
      so_contents b' = so_contents b @ fit (so_cap b) (length (so_contents b)) (map so_item (filter accept_all ns)) \<and>
      bo_extend search_output_ops b ns
        = Inr (length (fit (so_cap b) (length (so_contents b)) (map so_item (filter accept_all ns))), b')"
    by (intro exI [of _ b']) (simp only: search_output_ops_def buffer_ops.simps simp_thms)
qed

subsection \<open>The benchmark's buffer\<close>

fun bb_inv :: "'i bench_buffer \<Rightarrow> bool" where
  "bb_inv (BufSlice items written) \<longleftrightarrow> written \<le> length items"
| "bb_inv (BufVec v) \<longleftrightarrow> True"

fun bb_contents :: "'i bench_buffer \<Rightarrow> 'i list" where
  "bb_contents (BufSlice items written) = take written items"
| "bb_contents (BufVec v) = v"

fun bb_cap :: "'i bench_buffer \<Rightarrow> nat option" where
  "bb_cap (BufSlice items written) = Some (length items)"
| "bb_cap (BufVec v) = None"

interpretation bb: output_buffer "bench_buffer_ops :: ('i bench_buffer, ('i, 'd) neighbor) buffer_ops"
  bb_inv bb_contents bb_cap nbr_id accept_all
proof
  fix b :: "'i bench_buffer" and n :: "('i, 'd) neighbor" and ns :: "('i, 'd) neighbor list" and c
  assume b: "bb_inv b"
  note defs = bench_buffer_ops_def bb_push_def bb_extend_def bb_size_hint_def bb_current_len_def as_tuple_def Let_def
  show "\<exists>s b'. bo_push bench_buffer_ops b n = Inr (s, b') \<and> bb_inv b' \<and> bb_cap b' = bb_cap b \<and>
      bb_contents b' = (if True \<and> has_room (bb_cap b) (length (bb_contents b)) then bb_contents b @ [nbr_id n]
                        else bb_contents b) \<and>
      (s = Full \<longleftrightarrow> \<not> has_room (bb_cap b) (length (bb_contents b')))"
    using b by (cases b) (auto simp: defs take_Suc_conv_app_nth min_def)
  show "bo_current_len bench_buffer_ops b = length (bb_contents b)"
    using b by (cases b) (auto simp: bench_buffer_ops_def bb_current_len_def)
  show "bo_size_hint bench_buffer_ops b = Inr (map_option (\<lambda>c. c - length (bb_contents b)) (bb_cap b))"
    using b by (cases b) (auto simp: bench_buffer_ops_def bb_size_hint_def min_def)
  show "bb_cap b = Some c \<Longrightarrow> length (bb_contents b) \<le> c" by (cases b) auto
  show "\<exists>b'. bb_inv b' \<and> bb_cap b' = bb_cap b \<and>
      bb_contents b' = bb_contents b @ fit (bb_cap b) (length (bb_contents b)) (map nbr_id (filter accept_all ns)) \<and>
      bo_extend bench_buffer_ops b ns
        = Inr (length (fit (bb_cap b) (length (bb_contents b)) (map nbr_id (filter accept_all ns))), b')"
  proof (cases b)
    case (BufSlice items w)
    have m: "map (\<lambda>n. nbr_id n) ns = map nbr_id ns" by simp
    show ?thesis
      using b unfolding BufSlice
      by (auto simp: defs zip_write_eq min_def)
  qed (auto simp: defs)
qed

subsection \<open>Filtering in front of a buffer\<close>

lemma distance_filtered_output_buffer:
  assumes "output_buffer B binv contents cap item admit"
  shows "output_buffer (distance_filtered_ops B p) binv contents cap item
    (\<lambda>n. p (nbr_distance n) \<and> admit n)"
proof -
  from assms have push: "buffer_push B binv contents cap item admit"
    by (simp add: output_buffer_def)
  note push_law = buffer_push.push_law [OF push] and hint = buffer_push.hint_law [OF push]
  show ?thesis
  proof
    fix b n ns c assume b: "binv b"
    show "\<exists>s b'. bo_push (distance_filtered_ops B p) b n = Inr (s, b') \<and> binv b' \<and> cap b' = cap b \<and>
      contents b' = (if (p (nbr_distance n) \<and> admit n) \<and> has_room (cap b) (length (contents b))
         then contents b @ [item n] else contents b) \<and>
      (s = Full \<longleftrightarrow> \<not> has_room (cap b) (length (contents b')))"
    proof (cases "p (nbr_distance n)")
      case True
      with push_law [OF b, of n] show ?thesis by (simp add: distance_filtered_ops_def df_push_def)
    next
      case False
      then show ?thesis
        using b hint [OF b] by (cases "cap b") (auto simp: distance_filtered_ops_def df_push_def)
    qed
    show "bo_current_len (distance_filtered_ops B p) b = length (contents b)"
      using buffer_push.len_law [OF push b] by (simp add: distance_filtered_ops_def)
    show "bo_size_hint (distance_filtered_ops B p) b = Inr (map_option (\<lambda>c. c - length (contents b)) (cap b))"
      using hint [OF b] by (simp add: distance_filtered_ops_def)
    show "cap b = Some c \<Longrightarrow> length (contents b) \<le> c"
      by (rule buffer_push.bound_law [OF push b])
    have f: "filter admit (filter (\<lambda>n. p (nbr_distance n)) ns) = filter (\<lambda>n. p (nbr_distance n) \<and> admit n) ns"
      by (simp add: conj_commute)
    show "\<exists>b'. binv b' \<and> cap b' = cap b \<and>
      contents b' = contents b @ fit (cap b) (length (contents b))
        (map item (filter (\<lambda>n. p (nbr_distance n) \<and> admit n) ns)) \<and>
      bo_extend (distance_filtered_ops B p) b ns = Inr (length (fit (cap b) (length (contents b))
        (map item (filter (\<lambda>n. p (nbr_distance n) \<and> admit n) ns))), b')"
      using output_buffer.extend_law [OF assms b, of "filter (\<lambda>n. p (nbr_distance n)) ns"]
      unfolding f by (simp add: distance_filtered_ops_def df_extend_def)
  qed
qed

interpretation filtered_idd: output_buffer "distance_filtered_ops id_distance_ops p" idd_inv
  "\<lambda>b. bi_contents (idd_abs b)" "\<lambda>b. bi_cap (idd_abs b)" "\<lambda>n. n" "\<lambda>n. p (nbr_distance n)" for p
  using distance_filtered_output_buffer [OF idd.refined.output_buffer_axioms, of p] by simp

section \<open>Properties\<close>

text \<open>
  C30. For the pair of id and distance slices, \<open>extend\<close> stores exactly what pushing the neighbors one
  by one until the buffer answers \<open>Full\<close> stores: the first neighbors that fit behind those
  already there. The returned count is the number of neighbors stored.
\<close>

theorem id_distance_extend_is_push:
  assumes "idd_inv b"
  shows "\<exists>k b1 b2. idd_extend b ns = Inr (k, b1) \<and> push_until_full idd_push b ns = Inr b2 \<and>
     idd_inv b1 \<and> bi_contents (idd_abs b1) = bi_contents (idd_abs b2) \<and>
     bi_contents (idd_abs b1) = bi_contents (idd_abs b) @ take (idd_capacity b - idd_position b) ns \<and>
     k = min (idd_capacity b - idd_position b) (length ns)"
proof -
  have cap: "bi_cap (idd_abs b) = Some (idd_capacity b)"
    using assms by (simp add: idd_abs_def idd_capacity_def idd_inv_def)
  have len: "length (bi_contents (idd_abs b)) = idd_position b"
    using idd.refined.len_law [OF assms] by (simp add: id_distance_ops_def)
  show ?thesis
    using idd.refined.extend_law [OF assms, of ns] idd.refined.push_until_full_contents [OF assms, of ns]
    unfolding cap len by (auto simp: id_distance_ops_def min.commute)
qed

definition sample_idd :: "nat id_distance" where
  "sample_idd = \<lparr>idd_ids = [5, 0, 0], idd_distances = [0x3F800000, 0, 0], idd_position = 1\<rparr>"

theorem id_distance_extend_is_push_witness:
  "\<exists>k b1. idd_extend sample_idd [Neighbor 6 1, Neighbor 7 2, Neighbor 8 3] = Inr (k, b1) \<and> k = 2"
proof -
  have "idd_inv sample_idd" by (simp add: sample_idd_def idd_inv_def)
  from id_distance_extend_is_push [OF this, of "[Neighbor 6 1, Neighbor 7 2, Neighbor 8 3]"] show ?thesis
    by (auto simp: sample_idd_def idd_capacity_def)
qed

text \<open>
  C31. The distance filter of a range search in front of the id and distance slices lets exactly the
  neighbors in range through: \<open>extend\<close> appends, in order, the first neighbors whose distance the
  predicate accepts as far as they fit, and a single push reports \<open>Full\<close> exactly when no slot is
  left, whether or not it stored its neighbor.
\<close>

theorem distance_filtered_correct:
  assumes "idd_inv b"
  shows "\<exists>k b1 s b2. df_extend id_distance_ops p b ns = Inr (k, b1) \<and>
     bi_contents (idd_abs b1) = bi_contents (idd_abs b) @
       take (idd_capacity b - idd_position b) (filter (\<lambda>n. p (nbr_distance n)) ns) \<and>
     length (bi_contents (idd_abs b1)) = length (bi_contents (idd_abs b)) + k \<and>
     df_push id_distance_ops p b n = Inr (s, b2) \<and>
     bi_contents (idd_abs b2) = (if p (nbr_distance n) \<and> idd_position b < idd_capacity b
       then bi_contents (idd_abs b) @ [n] else bi_contents (idd_abs b)) \<and>
     (s = Full \<longleftrightarrow> idd_capacity b \<le> length (bi_contents (idd_abs b2)))"
proof -
  have cap: "bi_cap (idd_abs b) = Some (idd_capacity b)"
    using assms by (simp add: idd_abs_def idd_capacity_def idd_inv_def)
  have len: "length (bi_contents (idd_abs b)) = idd_position b"
    using idd.refined.len_law [OF assms] by (simp add: id_distance_ops_def)
  from filtered_idd.extend_law [OF assms, of p ns] obtain b1 where
    "bi_contents (idd_abs b1) = bi_contents (idd_abs b) @
       take (idd_capacity b - idd_position b) (filter (\<lambda>n. p (nbr_distance n)) ns)"
    "df_extend id_distance_ops p b ns =
       Inr (length (take (idd_capacity b - idd_position b) (filter (\<lambda>n. p (nbr_distance n)) ns)), b1)"
    unfolding cap len by (auto simp: distance_filtered_ops_def)
  moreover from filtered_idd.push_law [OF assms, of p n] obtain s b2 where
    "df_push id_distance_ops p b n = Inr (s, b2)"
    "bi_contents (idd_abs b2) = (if p (nbr_distance n) \<and> idd_position b < idd_capacity b
       then bi_contents (idd_abs b) @ [n] else bi_contents (idd_abs b))"
    "s = Full \<longleftrightarrow> \<not> length (bi_contents (idd_abs b2)) < idd_capacity b"
    unfolding cap len has_room.simps distance_filtered_ops_def buffer_ops.simps by metis
  ultimately show ?thesis by (metis length_append not_less)
qed

theorem distance_filtered_correct_witness:
  "\<exists>k b1. df_extend id_distance_ops (\<lambda>d. f32_le d f32_one) sample_idd
     [Neighbor 6 0x40000000, Neighbor 7 0x3F000000] = Inr (k, b1) \<and>
     bi_contents (idd_abs b1) = [Neighbor 5 0x3F800000, Neighbor 7 0x3F000000]"
proof -
  have "idd_inv sample_idd" by (simp add: sample_idd_def idd_inv_def)
  note c = distance_filtered_correct [OF this, of "\<lambda>d. f32_le d f32_one"
      "[Neighbor 6 0x40000000, Neighbor 7 0x3F000000]" "Neighbor 1 0"]
  have "filter (\<lambda>n. f32_le (nbr_distance n) f32_one) [Neighbor 6 0x40000000, Neighbor 7 0x3F000000]
      = [Neighbor (7::nat) 0x3F000000]"
    by (simp add: f32_le_def f32_key_def f32_is_nan_def f32_mag_def f32_sign_def F32_INF_MAG_def f32_one_def)
  moreover have "bi_contents (idd_abs sample_idd) = [Neighbor 5 0x3F800000]"
    "idd_capacity sample_idd - idd_position sample_idd = 2"
    by (simp_all add: sample_idd_def idd_abs_def idd_capacity_def)
  ultimately show ?thesis using c by (metis append_Cons append_Nil take_Cons_numeral take_Nil)
qed

end
