(* ===== verification/Adjacency.thy ===== *)
theory Adjacency
  imports Prelude
begin

text \<open>
  The out-neighbors of a vertex: \<open>AdjacencyList\<close> with its \<open>ResizeGuard\<close>
  (\<open>diskann/src/graph/adjacencylist.rs\<close>), the membership test it is built on
  (\<open>diskann-vector/src/contains\<close>), and the aggregation of back-edges during a batch insert
  (\<open>graph/internal/backedge.rs\<close>, \<open>aggregate_backedges\<close> of \<open>graph/index.rs\<close>).
\<close>

section \<open>Membership\<close>

text \<open>
  The AVX2 routine compares lanes (all ones where equal, zero elsewhere), gathers the sign bits of
  the lanes into a mask and tests the mask. A chunk pointer is the suffix of the slice it points into.
\<close>

definition cmpeq :: "'a :: len word list \<Rightarrow> 'a word \<Rightarrow> 'a word list" where
  "cmpeq lanes target = map (\<lambda>x. if x = target then -1 else 0) lanes"

fun movemask :: "'a :: len word list \<Rightarrow> nat" where
  "movemask [] = 0"
| "movemask (x # xs) = (if bit x (LENGTH('a) - 1) then 1 else 0) + 2 * movemask xs"

definition compare_4_items_u32 :: "u32 list \<Rightarrow> u32 \<Rightarrow> bool" where
  "compare_4_items_u32 chunk target \<longleftrightarrow> movemask (cmpeq (take 4 chunk) target) \<noteq> 0"

definition compare_8_items_u32 :: "u32 list \<Rightarrow> u32 \<Rightarrow> bool" where
  "compare_8_items_u32 chunk target \<longleftrightarrow> movemask (cmpeq (take 8 chunk) target) \<noteq> 0"

definition compare_16_items_u32 :: "u32 list \<Rightarrow> u32 \<Rightarrow> bool" where
  "compare_16_items_u32 chunk target \<longleftrightarrow>
     compare_8_items_u32 chunk target \<or> compare_8_items_u32 (drop 8 chunk) target"

definition compare_32_items_u32 :: "u32 list \<Rightarrow> u32 \<Rightarrow> bool" where
  "compare_32_items_u32 chunk target \<longleftrightarrow>
     compare_16_items_u32 chunk target \<or> compare_16_items_u32 (drop 16 chunk) target"

text \<open>
  One step \<open>if remaining.len() >= n { if compare(..) { return true; } remaining = &remaining[n..]; }\<close>,
  with \<open>k\<close> the code after it.
\<close>

definition chunk_step ::
  "nat \<Rightarrow> ('a list \<Rightarrow> 'a \<Rightarrow> bool) \<Rightarrow> 'a \<Rightarrow> ('a list \<Rightarrow> bool) \<Rightarrow> 'a list \<Rightarrow> bool" where
  "chunk_step n compare target k remaining =
     (if n \<le> length remaining then
        if compare remaining target then True else k (drop n remaining)
      else k remaining)"

function chunk_loop_32 :: "('a list \<Rightarrow> 'a \<Rightarrow> bool) \<Rightarrow> 'a \<Rightarrow> ('a list \<Rightarrow> bool) \<Rightarrow> 'a list \<Rightarrow> bool" where
  "chunk_loop_32 compare target k remaining =
     (if 32 \<le> length remaining then
        if compare remaining target then True
        else chunk_loop_32 compare target k (drop 32 remaining)
      else k remaining)"
  by pat_completeness auto
termination
  by (relation "measure (\<lambda>(c, t, k, r). length r)") auto

declare chunk_loop_32.simps [simp del]

fun scan_rest :: "'a \<Rightarrow> 'a list \<Rightarrow> bool" where
  "scan_rest target [] = False"
| "scan_rest target (v # vs) = (if v = target then True else scan_rest target vs)"

definition contains_simd_u32 :: "u32 list \<Rightarrow> u32 \<Rightarrow> bool" where
  "contains_simd_u32 vector target =
     chunk_loop_32 compare_32_items_u32 target
       (chunk_step 16 compare_16_items_u32 target
       (chunk_step 8 compare_8_items_u32 target
       (chunk_step 4 compare_4_items_u32 target (scan_rest target)))) vector"

definition compare_2_items_u64 :: "u64 list \<Rightarrow> u64 \<Rightarrow> bool" where
  "compare_2_items_u64 chunk target \<longleftrightarrow> movemask (cmpeq (take 2 chunk) target) \<noteq> 0"

definition compare_4_items_u64 :: "u64 list \<Rightarrow> u64 \<Rightarrow> bool" where
  "compare_4_items_u64 chunk target \<longleftrightarrow> movemask (cmpeq (take 4 chunk) target) \<noteq> 0"

definition compare_8_items_u64 :: "u64 list \<Rightarrow> u64 \<Rightarrow> bool" where
  "compare_8_items_u64 chunk target \<longleftrightarrow>
     compare_4_items_u64 chunk target \<or> compare_4_items_u64 (drop 4 chunk) target"

definition compare_16_items_u64 :: "u64 list \<Rightarrow> u64 \<Rightarrow> bool" where
  "compare_16_items_u64 chunk target \<longleftrightarrow>
     compare_8_items_u64 chunk target \<or> compare_8_items_u64 (drop 8 chunk) target"

definition compare_32_items_u64 :: "u64 list \<Rightarrow> u64 \<Rightarrow> bool" where
  "compare_32_items_u64 chunk target \<longleftrightarrow>
     compare_16_items_u64 chunk target \<or> compare_16_items_u64 (drop 16 chunk) target"

definition contains_simd_u64 :: "u64 list \<Rightarrow> u64 \<Rightarrow> bool" where
  "contains_simd_u64 vector target =
     chunk_loop_32 compare_32_items_u64 target
       (chunk_step 16 compare_16_items_u64 target
       (chunk_step 8 compare_8_items_u64 target
       (chunk_step 4 compare_4_items_u64 target
       (chunk_step 2 compare_2_items_u64 target (scan_rest target))))) vector"

text \<open>The fallback, and what \<open>ContainsSimd\<close> means for a type without lanes.\<close>

definition slice_contains :: "'a list \<Rightarrow> 'a \<Rightarrow> bool" where
  "slice_contains vector target = list_ex (\<lambda>v. v = target) vector"

section \<open>Adjacency lists\<close>

record 'i adjacency_list =
  al_edges :: "'i list"

definition al_new :: "'i adjacency_list" where
  "al_new = \<lparr>al_edges = []\<rparr>"

definition al_last :: "'i adjacency_list \<Rightarrow> nat \<Rightarrow> 'i list option" where
  "al_last a count' =
     (if count' \<le> length (al_edges a) then Some (drop (length (al_edges a) - count') (al_edges a))
      else None)"

definition al_retain :: "'i adjacency_list \<Rightarrow> ('i \<Rightarrow> bool) \<Rightarrow> 'i adjacency_list" where
  "al_retain a f = \<lparr>al_edges = filter f (al_edges a)\<rparr>"

definition al_clear :: "'i adjacency_list \<Rightarrow> 'i adjacency_list" where
  "al_clear a = \<lparr>al_edges = []\<rparr>"

definition al_truncate :: "'i adjacency_list \<Rightarrow> nat \<Rightarrow> 'i adjacency_list" where
  "al_truncate a len = \<lparr>al_edges = take len (al_edges a)\<rparr>"

text \<open>The operations that need \<open>ContainsSimd\<close> take its method as an argument.\<close>

definition al_contains :: "('i list \<Rightarrow> 'i \<Rightarrow> bool) \<Rightarrow> 'i adjacency_list \<Rightarrow> 'i \<Rightarrow> bool" where
  "al_contains contains a i = contains (al_edges a) i"

definition al_push ::
  "('i list \<Rightarrow> 'i \<Rightarrow> bool) \<Rightarrow> 'i adjacency_list \<Rightarrow> 'i \<Rightarrow> bool \<times> 'i adjacency_list" where
  "al_push contains a i =
     (if \<not> al_contains contains a i then (True, \<lparr>al_edges = al_edges a @ [i]\<rparr>) else (False, a))"

fun al_extend_from_slice ::
  "('i list \<Rightarrow> 'i \<Rightarrow> bool) \<Rightarrow> 'i adjacency_list \<Rightarrow> 'i list \<Rightarrow> nat \<times> 'i adjacency_list" where
  "al_extend_from_slice contains a [] = (0, a)"
| "al_extend_from_slice contains a (i # is) =
     (let (pushed, a) = al_push contains a i;
          (n, a) = al_extend_from_slice contains a is
      in ((if pushed then Suc n else n), a))"

definition al_sort :: "'i :: linorder adjacency_list \<Rightarrow> 'i adjacency_list" where
  "al_sort a = \<lparr>al_edges = sort (al_edges a)\<rparr>"

text \<open>\<open>from_iter_unique\<close> trusts the iterator to yield no duplicates.\<close>

definition al_from_iter_unique :: "'i list \<Rightarrow> 'i adjacency_list" where
  "al_from_iter_unique itr = \<lparr>al_edges = itr\<rparr>"

fun dedup :: "'i list \<Rightarrow> 'i list" where
  "dedup [] = []"
| "dedup [x] = [x]"
| "dedup (x # y # xs) = (if x = y then dedup (y # xs) else x # dedup (y # xs))"

definition al_from_iter_untrusted :: "'i :: linorder list \<Rightarrow> 'i adjacency_list" where
  "al_from_iter_untrusted itr = \<lparr>al_edges = dedup (sort itr)\<rparr>"

definition al_all_unique :: "('i list \<Rightarrow> 'i \<Rightarrow> bool) \<Rightarrow> 'i adjacency_list \<Rightarrow> bool" where
  "al_all_unique contains a \<longleftrightarrow>
     fst (al_extend_from_slice contains al_new (al_edges a)) = length (al_edges a)"

text \<open>Debug builds panic on duplicates, release builds do not look.\<close>

definition al_debug_check_uniqueness ::
  "bool \<Rightarrow> ('i list \<Rightarrow> 'i \<Rightarrow> bool) \<Rightarrow> 'i adjacency_list \<Rightarrow> 'i adjacency_list partial" where
  "al_debug_check_uniqueness debug contains a =
     (if debug \<and> \<not> al_all_unique contains a then Inl AssertFailed else Inr a)"

definition al_overwrite_trusted ::
  "bool \<Rightarrow> ('i list \<Rightarrow> 'i \<Rightarrow> bool) \<Rightarrow> 'i adjacency_list \<Rightarrow> 'i list \<Rightarrow> 'i adjacency_list partial" where
  "al_overwrite_trusted debug contains a is =
     (let a = al_clear a; a = \<lparr>al_edges = al_edges a @ is\<rparr> in
      al_debug_check_uniqueness debug contains a)"

definition al_remap_trusted ::
  "bool \<Rightarrow> ('i list \<Rightarrow> 'i \<Rightarrow> bool) \<Rightarrow> 'i adjacency_list \<Rightarrow> ('i \<Rightarrow> 'i) \<Rightarrow> 'i adjacency_list partial" where
  "al_remap_trusted debug contains a f =
     al_debug_check_uniqueness debug contains \<lparr>al_edges = map f (al_edges a)\<rparr>"

definition al_from_value :: "'i \<Rightarrow> 'i adjacency_list" where
  "al_from_value v = \<lparr>al_edges = [v]\<rparr>"

text \<open>The guard of \<open>resize\<close> is the resized list; it is written through, then finished or dropped.\<close>

definition al_resize :: "'i \<Rightarrow> 'i adjacency_list \<Rightarrow> nat \<Rightarrow> 'i adjacency_list" where
  "al_resize dflt a capacity =
     \<lparr>al_edges = take capacity (al_edges a) @ replicate (capacity - length (al_edges a)) dflt\<rparr>"

definition guard_write :: "'i adjacency_list \<Rightarrow> nat \<Rightarrow> 'i \<Rightarrow> 'i adjacency_list" where
  "guard_write g k v = \<lparr>al_edges = (al_edges g)[k := v]\<rparr>"

definition guard_finish ::
  "bool \<Rightarrow> ('i list \<Rightarrow> 'i \<Rightarrow> bool) \<Rightarrow> 'i adjacency_list \<Rightarrow> nat \<Rightarrow> 'i adjacency_list partial" where
  "guard_finish debug contains g at_most = al_debug_check_uniqueness debug contains (al_truncate g at_most)"

definition guard_drop :: "'i adjacency_list \<Rightarrow> 'i adjacency_list" where
  "guard_drop g = al_clear g"

section \<open>Back-edges\<close>

datatype 'i backedge_buffer =
    BNone
  | BOne 'i
  | BTwo 'i 'i
  | BThree 'i 'i 'i
  | BFour 'i 'i 'i 'i
  | BMany "'i adjacency_list"

definition bbuf_new :: "'i \<Rightarrow> 'i backedge_buffer" where
  "bbuf_new v = BOne v"

fun bbuf_deref :: "'i backedge_buffer \<Rightarrow> 'i list" where
  "bbuf_deref BNone = []"
| "bbuf_deref (BOne v) = [v]"
| "bbuf_deref (BTwo v0 v1) = [v0, v1]"
| "bbuf_deref (BThree v0 v1 v2) = [v0, v1, v2]"
| "bbuf_deref (BFour v0 v1 v2 v3) = [v0, v1, v2, v3]"
| "bbuf_deref (BMany a) = al_edges a"

definition bbuf_push_slow ::
  "('i list \<Rightarrow> 'i \<Rightarrow> bool) \<Rightarrow> 'i adjacency_list \<Rightarrow> 'i \<Rightarrow> bool \<times> 'i adjacency_list" where
  "bbuf_push_slow contains a v = al_push contains a v"

text \<open>\<open>dflt\<close> is \<open>I::default()\<close>, \<open>debug\<close> whether debug assertions are compiled in.\<close>

fun bbuf_push ::
  "bool \<Rightarrow> ('i list \<Rightarrow> 'i \<Rightarrow> bool) \<Rightarrow> 'i \<Rightarrow> 'i backedge_buffer \<Rightarrow> 'i \<Rightarrow> (bool \<times> 'i backedge_buffer) partial" where
  "bbuf_push debug contains dflt BNone x = Inr (True, BOne x)"
| "bbuf_push debug contains dflt (BOne v) x =
     (if v \<noteq> x then Inr (True, BTwo v x) else Inr (False, BOne v))"
| "bbuf_push debug contains dflt (BTwo v0 v1) x =
     (if v0 \<noteq> x \<and> v1 \<noteq> x then Inr (True, BThree v0 v1 x) else Inr (False, BTwo v0 v1))"
| "bbuf_push debug contains dflt (BThree v0 v1 v2) x =
     (if v0 \<noteq> x \<and> v1 \<noteq> x \<and> v2 \<noteq> x then Inr (True, BFour v0 v1 v2 x)
      else Inr (False, BThree v0 v1 v2))"
| "bbuf_push debug contains dflt (BFour v0 v1 v2 v3) x =
     (if v0 \<noteq> x \<and> v1 \<noteq> x \<and> v2 \<noteq> x \<and> v3 \<noteq> x then
        let guard = al_resize dflt al_new 5;
            guard = guard_write guard 0 v0;
            guard = guard_write guard 1 v1;
            guard = guard_write guard 2 v2;
            guard = guard_write guard 3 v3;
            guard = guard_write guard 4 x
        in bind_result (guard_finish debug contains guard 5) (\<lambda>a. Inr (True, BMany a))
      else Inr (False, BFour v0 v1 v2 v3))"
| "bbuf_push debug contains dflt (BMany a) x =
     (let (inserted, a) = bbuf_push_slow contains a x in Inr (inserted, BMany a))"

record 'i pending_edge =
  pe_source :: 'i
  pe_edges :: "'i adjacency_list"

fun aggregate_targets ::
  "bool \<Rightarrow> ('i list \<Rightarrow> 'i \<Rightarrow> bool) \<Rightarrow> 'i \<Rightarrow> 'i \<Rightarrow> 'i list \<Rightarrow>
   ('i \<rightharpoonup> 'i backedge_buffer) \<Rightarrow> ('i \<rightharpoonup> 'i backedge_buffer) partial" where
  "aggregate_targets debug contains dflt source [] m = Inr m"
| "aggregate_targets debug contains dflt source (target # targets) m =
     bind_result
       (case m target of
          Some buf \<Rightarrow> bind_result (bbuf_push debug contains dflt buf source) (\<lambda>(_, buf). Inr (m(target \<mapsto> buf)))
        | None \<Rightarrow> Inr (m(target \<mapsto> bbuf_new source)))
       (aggregate_targets debug contains dflt source targets)"

fun aggregate_lists ::
  "bool \<Rightarrow> ('i list \<Rightarrow> 'i \<Rightarrow> bool) \<Rightarrow> 'i \<Rightarrow> 'i pending_edge list \<Rightarrow>
   ('i \<rightharpoonup> 'i backedge_buffer) \<Rightarrow> ('i \<rightharpoonup> 'i backedge_buffer) partial" where
  "aggregate_lists debug contains dflt [] m = Inr m"
| "aggregate_lists debug contains dflt (e # es) m =
     bind_result (aggregate_targets debug contains dflt (pe_source e) (al_edges (pe_edges e)) m)
       (aggregate_lists debug contains dflt es)"

definition aggregate_backedges ::
  "bool \<Rightarrow> ('i list \<Rightarrow> 'i \<Rightarrow> bool) \<Rightarrow> 'i \<Rightarrow> 'i pending_edge list \<Rightarrow> ('i \<rightharpoonup> 'i backedge_buffer) partial" where
  "aggregate_backedges debug contains dflt edge_lists = aggregate_lists debug contains dflt edge_lists Map.empty"

section \<open>Membership is membership\<close>

lemma movemask_cmpeq: "movemask (cmpeq xs t) \<noteq> 0 \<longleftrightarrow> t \<in> set xs"
  by (induction xs) (auto simp: cmpeq_def)

lemma in_take_drop: "t \<in> set xs \<longleftrightarrow> t \<in> set (take n xs) \<or> t \<in> set (drop n xs)"
  by (metis Un_iff append_take_drop_id set_append)

text \<open>A comparison of the first \<open>n\<close> items.\<close>

definition compares :: "nat \<Rightarrow> ('a list \<Rightarrow> 'a \<Rightarrow> bool) \<Rightarrow> bool" where
  "compares n compare \<longleftrightarrow> (\<forall>xs t. compare xs t \<longleftrightarrow> t \<in> set (take n xs))"

lemma compares_double:
  assumes "compares n f" and "\<And>xs t. g xs t \<longleftrightarrow> f xs t \<or> f (drop n xs) t"
  shows "compares (2 * n) g"
proof -
  have "set (take (n + n) xs) = set (take n xs) \<union> set (take n (drop n xs))" for xs :: "'a list"
    by (simp add: take_add)
  then show ?thesis using assms by (auto simp: compares_def mult_2)
qed

lemma compares_u32 [simp]:
  "compares 4 compare_4_items_u32" "compares 8 compare_8_items_u32"
  "compares 16 compare_16_items_u32" "compares 32 compare_32_items_u32"
proof -
  show "compares 4 compare_4_items_u32"
    unfolding compares_def compare_4_items_u32_def using movemask_cmpeq by blast
  show 8: "compares 8 compare_8_items_u32"
    unfolding compares_def compare_8_items_u32_def using movemask_cmpeq by blast
  show 16: "compares 16 compare_16_items_u32"
    using compares_double [where n = 8 and f = compare_8_items_u32 and g = compare_16_items_u32,
      OF 8 compare_16_items_u32_def] by simp
  show "compares 32 compare_32_items_u32"
    using compares_double [where n = 16 and f = compare_16_items_u32 and g = compare_32_items_u32,
      OF 16 compare_32_items_u32_def] by simp
qed

lemma compares_u64 [simp]:
  "compares 2 compare_2_items_u64" "compares 4 compare_4_items_u64" "compares 8 compare_8_items_u64"
  "compares 16 compare_16_items_u64" "compares 32 compare_32_items_u64"
proof -
  show "compares 2 compare_2_items_u64"
    unfolding compares_def compare_2_items_u64_def using movemask_cmpeq by blast
  show 4: "compares 4 compare_4_items_u64"
    unfolding compares_def compare_4_items_u64_def using movemask_cmpeq by blast
  show 8: "compares 8 compare_8_items_u64"
    using compares_double [where n = 4 and f = compare_4_items_u64 and g = compare_8_items_u64,
      OF 4 compare_8_items_u64_def] by simp
  show 16: "compares 16 compare_16_items_u64"
    using compares_double [where n = 8 and f = compare_8_items_u64 and g = compare_16_items_u64,
      OF 8 compare_16_items_u64_def] by simp
  show "compares 32 compare_32_items_u64"
    using compares_double [where n = 16 and f = compare_16_items_u64 and g = compare_32_items_u64,
      OF 16 compare_32_items_u64_def] by simp
qed

lemma scan_rest_eq: "scan_rest t xs \<longleftrightarrow> t \<in> set xs"
  by (induction xs) auto

lemma chunk_step_eq:
  assumes "compares n compare" and "\<And>r. k r \<longleftrightarrow> t \<in> set r"
  shows "chunk_step n compare t k r \<longleftrightarrow> t \<in> set r"
  unfolding chunk_step_def in_take_drop [of t r n] assms(2)
  using assms(1) by (simp add: compares_def)

lemma chunk_loop_32_eq:
  assumes "compares 32 compare" and "\<And>r. k r \<longleftrightarrow> t \<in> set r"
  shows "chunk_loop_32 compare t k r \<longleftrightarrow> t \<in> set r"
  using assms
proof (induction compare t k r rule: chunk_loop_32.induct)
  case (1 compare t k r)
  show ?case
  proof (cases "32 \<le> length r")
    case True
    have "chunk_loop_32 compare t k (drop 32 r) \<longleftrightarrow> t \<in> set (drop 32 r)" if "\<not> compare r t"
      by (rule "1.IH" [OF True that "1.prems"])
    moreover have "compare r t \<longleftrightarrow> t \<in> set (take 32 r)" using "1.prems"(1) by (simp add: compares_def)
    ultimately show ?thesis
      unfolding chunk_loop_32.simps [of compare t k r] in_take_drop [of t r 32] using True by simp
  next
    case False
    then show ?thesis unfolding chunk_loop_32.simps [of compare t k r] by (simp add: "1.prems"(2))
  qed
qed

lemma contains_simd_u32_eq: "contains_simd_u32 xs t \<longleftrightarrow> t \<in> set xs"
  unfolding contains_simd_u32_def
  by (intro chunk_loop_32_eq chunk_step_eq scan_rest_eq) simp_all

lemma contains_simd_u64_eq: "contains_simd_u64 xs t \<longleftrightarrow> t \<in> set xs"
  unfolding contains_simd_u64_def
  by (intro chunk_loop_32_eq chunk_step_eq scan_rest_eq) simp_all

section \<open>Uniqueness of edges\<close>

definition backedges_of :: "('i \<rightharpoonup> 'i backedge_buffer) \<Rightarrow> 'i \<Rightarrow> 'i list" where
  "backedges_of m t = (case m t of None \<Rightarrow> [] | Some buf \<Rightarrow> bbuf_deref buf)"

definition buffers_distinct :: "('i \<rightharpoonup> 'i backedge_buffer) \<Rightarrow> bool" where
  "buffers_distinct m \<longleftrightarrow> (\<forall>buf \<in> ran m. distinct (bbuf_deref buf))"

text \<open>\<open>m'\<close> is \<open>m\<close> with the sources \<open>A t\<close> added to every target \<open>t\<close>.\<close>

definition sources_added ::
  "('i \<rightharpoonup> 'i backedge_buffer) \<Rightarrow> ('i \<Rightarrow> 'i set) \<Rightarrow> ('i \<rightharpoonup> 'i backedge_buffer) \<Rightarrow> bool" where
  "sources_added m A m' \<longleftrightarrow> buffers_distinct m' \<and>
     (\<forall>t. set (backedges_of m' t) = set (backedges_of m t) \<union> A t) \<and>
     dom m' = dom m \<union> {t. A t \<noteq> {}}"

lemma sources_added_trans:
  "sources_added m A m1 \<Longrightarrow> sources_added m1 B m2 \<Longrightarrow> sources_added m (\<lambda>t. A t \<union> B t) m2"
  unfolding sources_added_def by auto

text \<open>The contract of \<open>ContainsSimd\<close>, and what the adjacency lists built on it promise.\<close>

locale contains_simd =
  fixes contains :: "'i list \<Rightarrow> 'i \<Rightarrow> bool"
  assumes contains_law: "contains xs i \<longleftrightarrow> i \<in> set xs"
begin

lemma push_edges:
  "al_edges (snd (al_push contains a i)) = (if i \<in> set (al_edges a) then al_edges a else al_edges a @ [i])"
  "fst (al_push contains a i) \<longleftrightarrow> i \<notin> set (al_edges a)"
  by (simp_all add: al_push_def al_contains_def contains_law)

lemma extend_edges:
  assumes "al_extend_from_slice contains a is = (n, a')"
  shows "set (al_edges a') = set (al_edges a) \<union> set is"
    and "distinct (al_edges a) \<Longrightarrow> distinct (al_edges a')"
    and "length (al_edges a') = length (al_edges a) + n"
    and "\<exists>new. al_edges a' = al_edges a @ new \<and> set new \<subseteq> set is"
proof -
  have "set (al_edges a') = set (al_edges a) \<union> set is \<and>
    (distinct (al_edges a) \<longrightarrow> distinct (al_edges a')) \<and> length (al_edges a') = length (al_edges a) + n \<and>
    (\<exists>new. al_edges a' = al_edges a @ new \<and> set new \<subseteq> set is)"
    using assms
  proof (induction "is" arbitrary: a n)
    case (Cons i "is")
    obtain p b where p: "al_push contains a i = (p, b)" by (cases "al_push contains a i")
    obtain m where m: "al_extend_from_slice contains b is = (m, a')" "n = (if p then Suc m else m)"
      using Cons.prems p by (auto split: prod.splits)
    from Cons.IH [OF m(1)] push_edges [of a i] m(2) p show ?case by auto
  qed simp
  then show "set (al_edges a') = set (al_edges a) \<union> set is"
    and "distinct (al_edges a) \<Longrightarrow> distinct (al_edges a')"
    and "length (al_edges a') = length (al_edges a) + n"
    and "\<exists>new. al_edges a' = al_edges a @ new \<and> set new \<subseteq> set is"
    by auto
qed

lemma all_unique_distinct: "al_all_unique contains a \<longleftrightarrow> distinct (al_edges a)"
proof -
  obtain n b where e: "al_extend_from_slice contains al_new (al_edges a) = (n, b)"
    by (cases "al_extend_from_slice contains al_new (al_edges a)")
  note x = extend_edges [OF e]
  have "distinct (al_edges b)" "set (al_edges b) = set (al_edges a)" "length (al_edges b) = n"
    using x by (simp_all add: al_new_def)
  then have "n = card (set (al_edges a))" by (metis distinct_card)
  then show ?thesis unfolding al_all_unique_def e by (metis card_distinct distinct_card fst_conv)
qed

text \<open>A push on a back-edge buffer is a push on its contents, in all six representations.\<close>

lemma bbuf_push_spec:
  assumes "distinct (bbuf_deref b)"
  shows "\<exists>b'. bbuf_push debug contains dflt b x = Inr (x \<notin> set (bbuf_deref b), b') \<and>
     bbuf_deref b' = (if x \<in> set (bbuf_deref b) then bbuf_deref b else bbuf_deref b @ [x]) \<and>
     distinct (bbuf_deref b')"
proof (cases b)
  case (BFour v0 v1 v2 v3)
  have g: "al_truncate (guard_write (guard_write (guard_write (guard_write (guard_write
     (al_resize dflt al_new 5) 0 v0) (Suc 0) v1) 2 v2) 3 v3) 4 x) 5 = \<lparr>al_edges = [v0, v1, v2, v3, x]\<rparr>"
    by (simp add: guard_write_def al_resize_def al_new_def al_truncate_def eval_nat_numeral)
  show ?thesis
    using assms BFour
    by (auto simp: guard_finish_def al_debug_check_uniqueness_def g all_unique_distinct Let_def)
next
  case (BMany a)
  then show ?thesis
    using assms by (auto simp: bbuf_push_slow_def al_push_def al_contains_def contains_law)
qed (use assms in auto)

lemma entry_push_spec:
  assumes "buffers_distinct m"
  shows "\<exists>m'. (case m u of
          Some buf \<Rightarrow> bind_result (bbuf_push debug contains dflt buf s) (\<lambda>(_, buf). Inr (m(u \<mapsto> buf)))
        | None \<Rightarrow> Inr (m(u \<mapsto> bbuf_new s))) = Inr m' \<and>
      sources_added m (\<lambda>t. if t = u then {s} else {}) m'"
proof -
  have upd: "sources_added m (\<lambda>t. if t = u then {s} else {}) (m(u \<mapsto> buf))"
    if "distinct (bbuf_deref buf)" "set (bbuf_deref buf) = set (backedges_of m u) \<union> {s}" for buf
    using assms that unfolding sources_added_def buffers_distinct_def
    by (auto simp: backedges_of_def ran_def)
  show ?thesis
  proof (cases "m u")
    case None
    with upd [of "bbuf_new s"] show ?thesis by (simp add: bbuf_new_def backedges_of_def)
  next
    case (Some buf)
    then have "distinct (bbuf_deref buf)" using assms by (auto simp: buffers_distinct_def ran_def)
    from bbuf_push_spec [OF this, of debug dflt s] obtain b where
      b: "bbuf_push debug contains dflt buf s = Inr (s \<notin> set (bbuf_deref buf), b)"
        "bbuf_deref b = (if s \<in> set (bbuf_deref buf) then bbuf_deref buf else bbuf_deref buf @ [s])"
        "distinct (bbuf_deref b)" by blast
    have "set (bbuf_deref b) = set (backedges_of m u) \<union> {s}"
      using b(2) Some by (auto simp: backedges_of_def)
    with upd [OF b(3)] b(1) Some show ?thesis by simp
  qed
qed

lemma aggregate_targets_spec:
  "buffers_distinct m \<Longrightarrow> \<exists>m'. aggregate_targets debug contains dflt s ts m = Inr m' \<and>
     sources_added m (\<lambda>t. if t \<in> set ts then {s} else {}) m'"
proof (induction ts arbitrary: m)
  case Nil
  then show ?case by (simp add: sources_added_def)
next
  case (Cons u ts)
  from entry_push_spec [OF Cons.prems] obtain m1 where
    m1: "(case m u of
          Some buf \<Rightarrow> bind_result (bbuf_push debug contains dflt buf s) (\<lambda>(_, buf). Inr (m(u \<mapsto> buf)))
        | None \<Rightarrow> Inr (m(u \<mapsto> bbuf_new s))) = Inr m1"
      "sources_added m (\<lambda>t. if t = u then {s} else {}) m1" by blast
  then have "buffers_distinct m1" by (simp add: sources_added_def)
  from Cons.IH [OF this] obtain m2 where m2: "aggregate_targets debug contains dflt s ts m1 = Inr m2"
      "sources_added m1 (\<lambda>t. if t \<in> set ts then {s} else {}) m2" by blast
  have "(\<lambda>t. (if t = u then {s} else {}) \<union> (if t \<in> set ts then {s} else {}))
      = (\<lambda>t. if t \<in> set (u # ts) then {s} else {})" by (rule ext) auto
  with sources_added_trans [OF m1(2) m2(2)] m1(1) m2(1) show ?case by simp
qed

lemma aggregate_lists_spec:
  "buffers_distinct m \<Longrightarrow> \<exists>m'. aggregate_lists debug contains dflt es m = Inr m' \<and>
     sources_added m (\<lambda>t. pe_source ` {e \<in> set es. t \<in> set (al_edges (pe_edges e))}) m'"
proof (induction es arbitrary: m)
  case Nil
  then show ?case by (simp add: sources_added_def)
next
  case (Cons e es)
  from aggregate_targets_spec [OF Cons.prems] obtain m1 where
    m1: "aggregate_targets debug contains dflt (pe_source e) (al_edges (pe_edges e)) m = Inr m1"
      "sources_added m (\<lambda>t. if t \<in> set (al_edges (pe_edges e)) then {pe_source e} else {}) m1" by blast
  then have "buffers_distinct m1" by (simp add: sources_added_def)
  from Cons.IH [OF this] obtain m2 where m2: "aggregate_lists debug contains dflt es m1 = Inr m2"
      "sources_added m1 (\<lambda>t. pe_source ` {e \<in> set es. t \<in> set (al_edges (pe_edges e))}) m2" by blast
  have "(\<lambda>t. (if t \<in> set (al_edges (pe_edges e)) then {pe_source e} else {}) \<union>
        pe_source ` {e \<in> set es. t \<in> set (al_edges (pe_edges e))})
      = (\<lambda>t. pe_source ` {e' \<in> set (e # es). t \<in> set (al_edges (pe_edges e'))})" by (rule ext) auto
  with sources_added_trans [OF m1(2) m2(2)] m1(1) m2(1) show ?case by simp
qed

end

interpretation simd_u32: contains_simd contains_simd_u32
  by unfold_locales (rule contains_simd_u32_eq)

interpretation simd_u64: contains_simd contains_simd_u64
  by unfold_locales (rule contains_simd_u64_eq)

interpretation slice: contains_simd slice_contains
  by unfold_locales (simp add: slice_contains_def list_ex_iff)

lemma dedup_sorted:
  "sorted xs \<Longrightarrow> distinct (dedup xs) \<and> set (dedup xs) = set xs \<and> sorted (dedup xs)"
  by (induction xs rule: dedup.induct) auto

section \<open>Properties\<close>

text \<open>
  C25. The AVX2 membership tests over 32-bit and 64-bit ids, which compare 32, 16, 8, 4 (and 2) lanes
  at a time through lane masks and finish with a scalar loop, decide membership in the slice.
\<close>

theorem contains_simd_correct:
  "contains_simd_u32 xs t = (t \<in> set xs) \<and> contains_simd_u64 ys u = (u \<in> set ys)"
  by (simp add: contains_simd_u32_eq contains_simd_u64_eq)

text \<open>
  C26. Appending edges to an adjacency list of 32-bit ids keeps its edges distinct, adds exactly the
  ids of the slice, keeps the existing edges in front and returns how many were new. The
  duplicate test of debug builds is exact, and building a list from an untrusted iterator gives the
  sorted, distinct ids of the iterator.
\<close>

theorem adjacency_list_unique:
  assumes "distinct (al_edges a)" and "al_extend_from_slice contains_simd_u32 a is = (n, a')"
  shows "distinct (al_edges a') \<and> set (al_edges a') = set (al_edges a) \<union> set is \<and>
     take (length (al_edges a)) (al_edges a') = al_edges a \<and>
     n = length (al_edges a') - length (al_edges a) \<and>
     al_all_unique contains_simd_u32 b = distinct (al_edges b) \<and>
     distinct (al_edges (al_from_iter_untrusted is)) \<and>
     set (al_edges (al_from_iter_untrusted is)) = set is"
  using simd_u32.extend_edges [OF assms(2)] assms(1) simd_u32.all_unique_distinct [of b]
    dedup_sorted [of "sort is"]
  by (auto simp: al_from_iter_untrusted_def)

theorem adjacency_list_unique_witness:
  "\<exists>n a'. al_extend_from_slice contains_simd_u32 \<lparr>al_edges = [3, 1]\<rparr> [1, 2, 2] = (n, a') \<and>
     distinct (al_edges a') \<and> set (al_edges a') = {1, 2, 3}"
proof -
  obtain n a' where e: "al_extend_from_slice contains_simd_u32 \<lparr>al_edges = [3, 1]\<rparr> [1, 2, 2] = (n, a')"
    by (cases "al_extend_from_slice contains_simd_u32 \<lparr>al_edges = [3, 1]\<rparr> [1, 2, 2]")
  with adjacency_list_unique [OF _ e] show ?thesis by auto
qed

text \<open>
  C27. A back-edge buffer behaves as a duplicate-free list in all of its six representations, so
  aggregating the edges of a batch succeeds and gives, for every target, each source that has an edge
  to it exactly once; a target without such a source gets no entry.
\<close>

theorem aggregate_backedges_correct:
  "\<exists>m. aggregate_backedges debug contains_simd_u32 dflt edge_lists = Inr m \<and>
     (\<forall>t. distinct (backedges_of m t) \<and>
        set (backedges_of m t) = {pe_source e | e. e \<in> set edge_lists \<and> t \<in> set (al_edges (pe_edges e))} \<and>
        (m t = None) = (backedges_of m t = []))"
proof -
  from simd_u32.aggregate_lists_spec [of Map.empty debug dflt edge_lists] obtain m where
    m: "aggregate_lists debug contains_simd_u32 dflt edge_lists Map.empty = Inr m"
      "sources_added Map.empty (\<lambda>t. pe_source ` {e \<in> set edge_lists. t \<in> set (al_edges (pe_edges e))}) m"
    by (auto simp: buffers_distinct_def)
  have "distinct (backedges_of m t)" for t
    using m(2) by (auto simp: sources_added_def buffers_distinct_def backedges_of_def ran_def split: option.split)
  moreover have s: "set (backedges_of m t) =
      {pe_source e | e. e \<in> set edge_lists \<and> t \<in> set (al_edges (pe_edges e))}" for t
    using m(2) unfolding sources_added_def by (auto simp: backedges_of_def [of Map.empty])
  moreover have "(m t = None) = (backedges_of m t = [])" for t
  proof -
    have "dom m = {t. pe_source ` {e \<in> set edge_lists. t \<in> set (al_edges (pe_edges e))} \<noteq> {}}"
      using m(2) unfolding sources_added_def by simp
    then have "t \<notin> dom m \<longleftrightarrow> pe_source ` {e \<in> set edge_lists. t \<in> set (al_edges (pe_edges e))} = {}"
      by simp
    also have "pe_source ` {e \<in> set edge_lists. t \<in> set (al_edges (pe_edges e))} = set (backedges_of m t)"
      unfolding s by blast
    finally show ?thesis by (simp add: domIff)
  qed
  ultimately show ?thesis using m(1) by (auto simp: aggregate_backedges_def)
qed

end
