(* ===== verification/GraphConfig.thy ===== *)
theory GraphConfig
  imports F32
begin

text \<open>
  \<open>diskann/src/graph/config\<close>: the pruning rule, the intra-batch candidate policy, the validated
  configuration with its builder, and the experimental insert retry. \<open>NonZeroU32\<close> and \<open>NonZeroU16\<close>
  fields are numbers; that they are positive and within their width is a theorem about the
  constructor.
\<close>

section \<open>Pruning rule\<close>

datatype metric = Cosine | InnerProduct | L2 | CosineNormalized

datatype prune_kind = TriangleInequality | Occluding

definition OCCLUDING_MASK :: f32 where "OCCLUDING_MASK = 0x3C23D70A"

definition prune_kind_from_metric :: "metric \<Rightarrow> prune_kind" where
  "prune_kind_from_metric m =
     (case m of
        L2 \<Rightarrow> TriangleInequality
      | Cosine \<Rightarrow> TriangleInequality
      | CosineNormalized \<Rightarrow> TriangleInequality
      | InnerProduct \<Rightarrow> Occluding)"

definition update_occlude_factor :: "prune_kind \<Rightarrow> f32 \<Rightarrow> f32 \<Rightarrow> f32 \<Rightarrow> f32 \<Rightarrow> f32" where
  "update_occlude_factor kind distance_ik distance_jk current_factor current_alpha =
     (case kind of
        TriangleInequality \<Rightarrow>
          if f32_eq distance_jk f32_zero then f32_MAX
          else f32_max current_factor (f32_div distance_ik distance_jk)
      | Occluding \<Rightarrow>
          if f32_lt distance_jk (f32_mul current_alpha distance_ik)
          then f32_add current_alpha OCCLUDING_MASK
          else current_factor)"

section \<open>Intra-batch candidates\<close>

datatype intra_batch_candidates = IbcNone | IbcMax nat | IbcAll

definition ibc_new :: "u32 \<Rightarrow> intra_batch_candidates" where
  "ibc_new v = (if v = 0 then IbcNone else IbcMax (unat v))"

definition ibc_get :: "intra_batch_candidates \<Rightarrow> nat \<Rightarrow> nat" where
  "ibc_get c batch_size =
     (case c of IbcNone \<Rightarrow> 0 | IbcMax m \<Rightarrow> min m batch_size | IbcAll \<Rightarrow> batch_size)"

definition ibc_is_none :: "intra_batch_candidates \<Rightarrow> bool" where
  "ibc_is_none c \<longleftrightarrow> c = IbcNone"

section \<open>Experimental insert retry\<close>

record insert_retry =
  ir_max_retries :: nat
  ir_retry_if_candidates_shorter_than :: nat
  ir_saturate_on_last_attempt :: bool

definition should_saturate :: "insert_retry \<Rightarrow> nat \<Rightarrow> bool" where
  "should_saturate r attempt \<longleftrightarrow> ir_saturate_on_last_attempt r \<and> attempt = ir_max_retries r - 1"

definition should_retry :: "insert_retry \<Rightarrow> nat \<Rightarrow> nat \<Rightarrow> bool" where
  "should_retry r attempt num_candidates \<longleftrightarrow>
     attempt \<noteq> ir_max_retries r - 1 \<and> num_candidates < ir_retry_if_candidates_shorter_than r"

section \<open>Configuration\<close>

record config =
  cf_pruned_degree :: nat
  cf_max_degree :: nat
  cf_l_build :: nat
  cf_alpha :: f32
  cf_prune_kind :: prune_kind
  cf_max_occlusion_size :: nat
  cf_max_backedges :: nat
  cf_max_minibatch_par :: nat
  cf_intra_batch_candidates :: intra_batch_candidates
  cf_saturate_after_prune :: bool
  cf_experimental_insert_retry :: "insert_retry option"

definition MAX_OCCLUSION_SIZE :: nat where "MAX_OCCLUSION_SIZE = 750"
definition GRAPH_SLACK_FACTOR :: f32 where "GRAPH_SLACK_FACTOR = 0x3FA66666"
definition ALPHA :: f32 where "ALPHA = 0x3F99999A"
definition MAX_MINIBATCH_PARALLELISM :: nat where "MAX_MINIBATCH_PARALLELISM = 1"
definition INTRA_BATCH_CANDIDATES :: intra_batch_candidates where "INTRA_BATCH_CANDIDATES = IbcAll"

datatype max_kind = MaxU32 | MaxU16

definition max_kind_max :: "max_kind \<Rightarrow> nat" where
  "max_kind_max k = (case k of MaxU32 \<Rightarrow> 2 ^ 32 - 1 | MaxU16 \<Rightarrow> 2 ^ 16 - 1)"

datatype not_non_zero = NotNonZero nat max_kind

definition try_from_usize :: "max_kind \<Rightarrow> nat \<Rightarrow> not_non_zero + nat" where
  "try_from_usize k x =
     (if max_kind_max k < x then Inl (NotNonZero x k)
      else if x = 0 then Inl (NotNonZero x k)
      else Inr x)"

datatype config_error =
    Parameter string not_non_zero
  | SlackError f32
  | Degrees nat nat
  | Backedges nat nat
  | BackedgeRatio f32

definition non_zero_error :: "max_kind \<Rightarrow> string \<Rightarrow> nat \<Rightarrow> config_error + nat" where
  "non_zero_error k param val =
     (case try_from_usize k val of Inl err \<Rightarrow> Inl (Parameter param err) | Inr x \<Rightarrow> Inr x)"

datatype max_degree = MdValue nat | MdSlack f32 | MdSame

definition md_default_slack :: max_degree where
  "md_default_slack = MdSlack GRAPH_SLACK_FACTOR"

datatype backedge_spec = BsRatio f32 | BsAmount nat

record builder =
  bl_pruned_degree :: nat
  bl_max_degree :: max_degree
  bl_l_build :: nat
  bl_prune_kind :: prune_kind
  bl_alpha :: "f32 option"
  bl_max_occlusion_size :: "nat option"
  bl_backedge_spec :: "backedge_spec option"
  bl_max_minibatch_par :: "nat option"
  bl_intra_batch_candidates :: "intra_batch_candidates option"
  bl_saturate_after_prune :: "bool option"
  bl_insert_retry :: "insert_retry option"

definition builder_new :: "nat \<Rightarrow> max_degree \<Rightarrow> nat \<Rightarrow> prune_kind \<Rightarrow> builder" where
  "builder_new pd md l k = \<lparr>bl_pruned_degree = pd, bl_max_degree = md, bl_l_build = l,
     bl_prune_kind = k, bl_alpha = None, bl_max_occlusion_size = None, bl_backedge_spec = None,
     bl_max_minibatch_par = None, bl_intra_batch_candidates = None, bl_saturate_after_prune = None,
     bl_insert_retry = None\<rparr>"

definition builder_new_with ::
  "nat \<Rightarrow> max_degree \<Rightarrow> nat \<Rightarrow> prune_kind \<Rightarrow> (builder \<Rightarrow> builder) \<Rightarrow> builder" where
  "builder_new_with pd md l k f = f (builder_new pd md l k)"

definition builder_alpha :: "builder \<Rightarrow> f32 \<Rightarrow> builder" where
  "builder_alpha b a = b\<lparr>bl_alpha := Some a\<rparr>"

definition builder_l_build :: "builder \<Rightarrow> nat \<Rightarrow> builder" where
  "builder_l_build b size' = b\<lparr>bl_l_build := size'\<rparr>"

definition builder_max_occlusion_size :: "builder \<Rightarrow> nat \<Rightarrow> builder" where
  "builder_max_occlusion_size b size' = b\<lparr>bl_max_occlusion_size := Some size'\<rparr>"

definition builder_backedge_ratio :: "builder \<Rightarrow> f32 \<Rightarrow> builder" where
  "builder_backedge_ratio b ratio = b\<lparr>bl_backedge_spec := Some (BsRatio ratio)\<rparr>"

definition builder_max_backedges :: "builder \<Rightarrow> nat \<Rightarrow> builder" where
  "builder_max_backedges b max' = b\<lparr>bl_backedge_spec := Some (BsAmount max')\<rparr>"

definition builder_max_minibatch_par :: "builder \<Rightarrow> nat \<Rightarrow> builder" where
  "builder_max_minibatch_par b par = b\<lparr>bl_max_minibatch_par := Some par\<rparr>"

definition builder_intra_batch_candidates :: "builder \<Rightarrow> intra_batch_candidates \<Rightarrow> builder" where
  "builder_intra_batch_candidates b c = b\<lparr>bl_intra_batch_candidates := Some c\<rparr>"

definition builder_saturate_after_prune :: "builder \<Rightarrow> bool \<Rightarrow> builder" where
  "builder_saturate_after_prune b s = b\<lparr>bl_saturate_after_prune := Some s\<rparr>"

definition builder_insert_retry :: "builder \<Rightarrow> insert_retry \<Rightarrow> builder" where
  "builder_insert_retry b r = b\<lparr>bl_insert_retry := Some r\<rparr>"

definition resolve_max_degree :: "max_degree \<Rightarrow> nat \<Rightarrow> config_error + nat" where
  "resolve_max_degree md pruned_degree =
     (case md of
        MdValue m \<Rightarrow> non_zero_error MaxU32 ''max_degree'' m
      | MdSlack slack \<Rightarrow>
          if f32_lt slack f32_one \<or> \<not> f32_is_finite slack then Inl (SlackError slack)
          else non_zero_error MaxU32 ''max_degree (from slack)''
                 (f32_as_usize (f32_mul slack (f32_of_nat pruned_degree)))
      | MdSame \<Rightarrow> Inr pruned_degree)"

definition resolve_max_backedges :: "backedge_spec option \<Rightarrow> nat \<Rightarrow> config_error + nat" where
  "resolve_max_backedges spec pruned_degree =
     (case spec of
        Some (BsRatio ratio) \<Rightarrow>
          if \<not> f32_is_finite ratio \<or> f32_le ratio f32_zero \<or> f32_gt ratio f32_one
          then Inl (BackedgeRatio ratio)
          else non_zero_error MaxU32 ''backedge_ratio (from slack)''
                 (f32_as_usize (f32_ceil (f32_mul ratio (f32_of_nat pruned_degree))))
      | Some (BsAmount amount) \<Rightarrow> non_zero_error MaxU32 ''max_backedges'' amount
      | None \<Rightarrow> Inr pruned_degree)"

definition unwrap_or :: "'a option \<Rightarrow> 'a \<Rightarrow> 'a" where
  "unwrap_or x d = (case x of None \<Rightarrow> d | Some a \<Rightarrow> a)"

definition try_from_builder :: "builder \<Rightarrow> config_error + config" where
  "try_from_builder b =
     (let alpha = unwrap_or (bl_alpha b) ALPHA in
      bind_result (non_zero_error MaxU32 ''pruned_degree'' (bl_pruned_degree b)) (\<lambda>pruned_degree.
      bind_result (resolve_max_degree (bl_max_degree b) pruned_degree) (\<lambda>max_degree.
      if max_degree < pruned_degree then Inl (Degrees max_degree pruned_degree)
      else
      bind_result (non_zero_error MaxU32 ''l_build'' (bl_l_build b)) (\<lambda>l_build.
      bind_result (case bl_max_occlusion_size b of
                     Some m \<Rightarrow> non_zero_error MaxU16 ''max_occlusion_size'' m
                   | None \<Rightarrow> Inr MAX_OCCLUSION_SIZE) (\<lambda>max_occlusion_size.
      bind_result (resolve_max_backedges (bl_backedge_spec b) pruned_degree) (\<lambda>max_backedges.
      if pruned_degree < max_backedges then Inl (Backedges max_backedges pruned_degree)
      else
      bind_result (case bl_max_minibatch_par b of
                     Some par \<Rightarrow> non_zero_error MaxU32 ''max_minibatch_par'' par
                   | None \<Rightarrow> Inr MAX_MINIBATCH_PARALLELISM) (\<lambda>max_minibatch_par.
      Inr \<lparr>cf_pruned_degree = pruned_degree, cf_max_degree = max_degree, cf_l_build = l_build,
           cf_alpha = alpha, cf_prune_kind = bl_prune_kind b,
           cf_max_occlusion_size = max_occlusion_size, cf_max_backedges = max_backedges,
           cf_max_minibatch_par = max_minibatch_par,
           cf_intra_batch_candidates = unwrap_or (bl_intra_batch_candidates b) INTRA_BATCH_CANDIDATES,
           cf_saturate_after_prune = unwrap_or (bl_saturate_after_prune b) False,
           cf_experimental_insert_retry = bl_insert_retry b\<rparr>)))))))"

definition builder_build :: "builder \<Rightarrow> config_error + config" where
  "builder_build b = try_from_builder b"

section \<open>What a configuration guarantees\<close>

definition config_valid :: "config \<Rightarrow> bool" where
  "config_valid c \<longleftrightarrow>
     0 < cf_pruned_degree c \<and> cf_pruned_degree c \<le> cf_max_degree c \<and> cf_max_degree c < 2 ^ 32 \<and>
     0 < cf_l_build c \<and> cf_l_build c < 2 ^ 32 \<and>
     0 < cf_max_occlusion_size c \<and> cf_max_occlusion_size c < 2 ^ 16 \<and>
     0 < cf_max_backedges c \<and> cf_max_backedges c \<le> cf_pruned_degree c \<and>
     0 < cf_max_minibatch_par c \<and> cf_max_minibatch_par c < 2 ^ 32"

lemma non_zero_error_Inr:
  "non_zero_error k p v = Inr x \<longleftrightarrow> x = v \<and> 0 < v \<and> v \<le> max_kind_max k"
  by (auto simp: non_zero_error_def try_from_usize_def)

lemma non_zero_error_Inl:
  "non_zero_error k p v = Inl e \<longleftrightarrow> e = Parameter p (NotNonZero v k) \<and> (v = 0 \<or> max_kind_max k < v)"
  by (auto simp: non_zero_error_def try_from_usize_def)

lemma max_kind_max_simps [simp]: "max_kind_max MaxU32 = 2 ^ 32 - 1" "max_kind_max MaxU16 = 2 ^ 16 - 1"
  by (simp_all add: max_kind_max_def)

lemma resolve_max_degree_bounds:
  "resolve_max_degree md pd = Inr m \<Longrightarrow> 0 < pd \<Longrightarrow> pd < 2 ^ 32 \<Longrightarrow> 0 < m \<and> m < 2 ^ 32"
  by (auto simp: resolve_max_degree_def non_zero_error_Inr split: max_degree.splits if_splits)

lemma resolve_max_backedges_pos:
  "resolve_max_backedges s pd = Inr m \<Longrightarrow> 0 < pd \<Longrightarrow> 0 < m"
  by (auto simp: resolve_max_backedges_def non_zero_error_Inr
      split: option.splits backedge_spec.splits if_splits)

lemma try_from_builder_valid:
  assumes "try_from_builder b = Inr c"
  shows "config_valid c"
proof -
  from assms obtain md mo mb mp where
    pd: "0 < bl_pruned_degree b" "bl_pruned_degree b < 2 ^ 32" and
    md: "resolve_max_degree (bl_max_degree b) (bl_pruned_degree b) = Inr md" "bl_pruned_degree b \<le> md" and
    lb: "0 < bl_l_build b" "bl_l_build b < 2 ^ 32" and
    mo: "(case bl_max_occlusion_size b of
                     Some m \<Rightarrow> non_zero_error MaxU16 ''max_occlusion_size'' m
                   | None \<Rightarrow> Inr MAX_OCCLUSION_SIZE) = Inr mo" and
    mb: "resolve_max_backedges (bl_backedge_spec b) (bl_pruned_degree b) = Inr mb" "mb \<le> bl_pruned_degree b" and
    mp: "(case bl_max_minibatch_par b of
                     Some par \<Rightarrow> non_zero_error MaxU32 ''max_minibatch_par'' par
                   | None \<Rightarrow> Inr MAX_MINIBATCH_PARALLELISM) = Inr mp" and
    c: "cf_pruned_degree c = bl_pruned_degree b" "cf_max_degree c = md" "cf_l_build c = bl_l_build b"
      "cf_max_occlusion_size c = mo" "cf_max_backedges c = mb" "cf_max_minibatch_par c = mp"
    unfolding try_from_builder_def Let_def
    by (auto simp: bind_result_Inr non_zero_error_Inr not_less split: if_splits)
  have "0 < mo \<and> mo < 2 ^ 16"
    using mo by (auto simp: non_zero_error_Inr MAX_OCCLUSION_SIZE_def split: option.splits)
  moreover have "0 < mp \<and> mp < 2 ^ 32"
    using mp by (auto simp: non_zero_error_Inr MAX_MINIBATCH_PARALLELISM_def split: option.splits)
  ultimately show ?thesis
    using resolve_max_degree_bounds [OF md(1) pd] resolve_max_backedges_pos [OF mb(1) pd(1)] pd md(2) lb mb(2)
    unfolding config_valid_def c by simp
qed

lemma try_from_builder_fields:
  assumes "try_from_builder b = Inr c"
  shows "cf_pruned_degree c = bl_pruned_degree b" and "cf_l_build c = bl_l_build b"
    and "cf_prune_kind c = bl_prune_kind b"
    and "cf_alpha c = (case bl_alpha b of None \<Rightarrow> ALPHA | Some a \<Rightarrow> a)"
  using assms
  by (auto simp: try_from_builder_def Let_def bind_result_Inr non_zero_error_Inr unwrap_or_def split: if_splits)

lemma occluding_mask_grows:
  assumes "\<not> f32_sign a" and "f32_mag a < 0x48000000"
  shows "f32_lt a (f32_add a OCCLUDING_MASK)"
proof -
  let ?k = "f32_mag a" and ?m = "mag_val 0x3C23D70A"
  let ?r = "round_mag (mag_val ?k + ?m) 1"
  have m: "2 ^ 142 \<le> ?m" by (simp add: mag_val_def mag_shift_def)
  have mask: "f32_mag OCCLUDING_MASK = 0x3C23D70A" "\<not> f32_sign OCCLUDING_MASK"
    by (simp_all add: OCCLUDING_MASK_def f32_mag_def f32_sign_def)
  have fin: "\<not> f32_is_nan a" "\<not> f32_is_infinite a" "\<not> f32_is_nan OCCLUDING_MASK" "\<not> f32_is_infinite OCCLUDING_MASK"
    using assms(2) by (simp_all add: f32_is_nan_def f32_is_infinite_def mask F32_INF_MAG_def)
  have "f32_signed_val a + f32_signed_val OCCLUDING_MASK = int (mag_val ?k + ?m)"
    using assms(1) mask by (simp add: f32_signed_val_def)
  then have add: "f32_add a OCCLUDING_MASK = f32_mk False ?r"
    using fin m by (simp add: f32_add_def Let_def nat_int_add)
  have "mag_shift ?k \<le> 142" using assms(2) unfolding mag_shift_def by simp
  then have "2 ^ mag_shift ?k \<le> (2 :: nat) ^ 142" by (intro power_increasing) auto
  from order_trans [OF this m] have "mag_val (Suc ?k) * 1 \<le> mag_val ?k + ?m"
    unfolding mag_val_Suc mult_1_right by (rule add_left_mono)
  then have "Suc ?k \<le> ?r"
    by (intro round_mag_ge) (use assms(2) in \<open>auto simp: F32_INF_MAG_def\<close>)
  moreover have "?r \<le> F32_INF_MAG" by (rule round_mag_le_inf)
  moreover have "F32_INF_MAG < 2 ^ 31" by (simp add: F32_INF_MAG_def)
  ultimately show ?thesis
    using assms(1) fin by (auto simp: add f32_lt_def f32_is_nan_def f32_key_def)
qed

lemma occlude_factor_not_nan:
  assumes "\<not> f32_is_nan cur" and "\<not> f32_is_nan (f32_add a OCCLUDING_MASK)"
  shows "\<not> f32_is_nan (update_occlude_factor kind ik jk cur a)"
  using assms by (auto simp: update_occlude_factor_def f32_max_def f32_MAX_def f32_is_nan_def f32_mag_def
      F32_INF_MAG_def split: prune_kind.split)

section \<open>Properties\<close>




end
