(* ===== verification/Prune.thy ===== *)
theory Prune
  imports Neighbor Adjacency GraphConfig
begin

text \<open>
  Pruning a candidate list to a bounded degree: \<open>graph/internal/sorted_neighbors.rs\<close>,
  \<open>graph/internal/prune.rs\<close> (the Vamana robust prune) and \<open>occlude_list\<close> of \<open>graph/index.rs\<close>.

  Vectors and their distance are parameters. The round loop of \<open>robust_prune\<close> need not end for
  every alpha, so it is a partial function: \<open>None\<close> is a run that does not return. The \<open>u16\<close> fields
  of a state are numbers; going past their range is a panic, as in a debug build.
\<close>

section \<open>Sorted neighbors\<close>

text \<open>
  \<open>select_nth_unstable_by(position, fast_distance)\<close> reorders the slice; any reordering with the
  documented effect is allowed, so it is an argument. Sorting everything is one such function.
\<close>

definition sorted_neighbors_with ::
  "(nat \<Rightarrow> 'i nbr list \<Rightarrow> 'i nbr list) \<Rightarrow> 'i nbr list \<Rightarrow> nat \<Rightarrow> 'i nbr list" where
  "sorted_neighbors_with select_nth neighbors mx =
     (let neighbors =
        (if 1 \<le> min mx (length neighbors) then
           let position = min mx (length neighbors) - 1;
               neighbors = select_nth position neighbors
           in sort_by fast_distance (take position neighbors) @ drop position neighbors
         else neighbors)
      in take mx neighbors)"

definition select_nth_sort :: "nat \<Rightarrow> 'i nbr list \<Rightarrow> 'i nbr list" where
  "select_nth_sort position neighbors = sort_by fast_distance neighbors"

definition sorted_neighbors_new :: "'i nbr list \<Rightarrow> nat \<Rightarrow> 'i nbr list" where
  "sorted_neighbors_new = sorted_neighbors_with select_nth_sort"

definition map_in :: "'i nbr list \<Rightarrow> ('i \<Rightarrow> 'j) \<Rightarrow> 'j nbr list" where
  "map_in ns f = map (\<lambda>n. Neighbor (f (nbr_id n)) (nbr_distance n)) ns"

section \<open>Robust prune\<close>

record prune_state =
  st_occlude_factor :: f32
  st_last_checked :: nat
  st_neighbor :: nat

definition prune_state_default :: prune_state where
  "prune_state_default = \<lparr>st_occlude_factor = f32_zero, st_last_checked = 0, st_neighbor = 0\<rparr>"

text \<open>
  The inner loop of a candidate: compare it with the results from \<open>last_checked\<close> on. The result is
  the new \<open>last_checked\<close>, the new occlude factor and the states.
\<close>

function check_results ::
  "'v option nbr list \<Rightarrow> prune_kind \<Rightarrow> ('v \<Rightarrow> 'v \<Rightarrow> f32) \<Rightarrow> f32 \<Rightarrow> nat \<Rightarrow> 'v \<Rightarrow> f32 \<Rightarrow> nat \<Rightarrow>
   prune_state list \<Rightarrow> nat \<Rightarrow> f32 \<Rightarrow> (nat \<times> f32 \<times> prune_state list) partial" where
  "check_results cands kind dist current_alpha i neighbor neighbor_distance found
     states last_checked occlude_factor =
     (if last_checked \<noteq> found then
        bind_result (vec_get states last_checked) (\<lambda>s.
        let result_position = st_neighbor s in
        if 2 ^ 16 \<le> Suc last_checked then Inl ArithOverflow
        else
        let last_checked' = Suc last_checked in
        if i \<le> result_position then
          check_results cands kind dist current_alpha i neighbor neighbor_distance found
            (states[i := (states ! i)\<lparr>st_last_checked := last_checked'\<rparr>]) last_checked' occlude_factor
        else
          bind_result (vec_get cands result_position) (\<lambda>r.
          let distance = (case nbr_id r of Some v \<Rightarrow> dist neighbor v | None \<Rightarrow> f32_MAX);
              occlude_factor = update_occlude_factor kind neighbor_distance distance occlude_factor current_alpha
          in
          if f32_gt occlude_factor current_alpha then Inr (last_checked', occlude_factor, states)
          else check_results cands kind dist current_alpha i neighbor neighbor_distance found
                 states last_checked' occlude_factor))
      else Inr (last_checked, occlude_factor, states))"
  by pat_completeness auto
termination
  by (relation "measure (\<lambda>(cands, kind, dist, alpha, i, n, nd, found, states, last_checked, factor).
        2 ^ 16 - last_checked)") auto

declare check_results.simps [simp del]

text \<open>The body of the loop over the candidates, for candidate \<open>i\<close>.\<close>

definition prune_candidate ::
  "'v option nbr list \<Rightarrow> nat \<Rightarrow> prune_kind \<Rightarrow> ('v \<Rightarrow> 'v \<Rightarrow> f32) \<Rightarrow> f32 \<Rightarrow> nat \<Rightarrow> 'v option nbr \<Rightarrow>
   nat \<Rightarrow> prune_state list \<Rightarrow> (nat \<times> prune_state list) partial" where
  "prune_candidate cands degree kind dist current_alpha i neighbor found states =
     bind_result (vec_get states i) (\<lambda>s.
     if f32_gt (st_occlude_factor s) current_alpha then Inr (found, states)
     else
       case nbr_id neighbor of
         None \<Rightarrow> Inr (found, states[i := s\<lparr>st_occlude_factor := f32_MAX\<rparr>])
       | Some n \<Rightarrow>
           bind_result (check_results cands kind dist current_alpha i n (nbr_distance neighbor) found
               states (st_last_checked s) (st_occlude_factor s)) (\<lambda>(last_checked, occlude_factor, states).
           let state = (states ! i)\<lparr>st_last_checked := last_checked\<rparr> in
           if f32_gt occlude_factor current_alpha then
             Inr (found, states[i := state\<lparr>st_occlude_factor := occlude_factor\<rparr>])
           else
             let states = states[i := state\<lparr>st_occlude_factor := f32_MAX\<rparr>] in
             bind_result (vec_get states found) (\<lambda>t.
             Inr (Suc found, states[found := t\<lparr>st_neighbor := i mod 2 ^ 16\<rparr>]))))"

fun prune_pass ::
  "'v option nbr list \<Rightarrow> nat \<Rightarrow> prune_kind \<Rightarrow> ('v \<Rightarrow> 'v \<Rightarrow> f32) \<Rightarrow> f32 \<Rightarrow> nat \<Rightarrow> 'v option nbr list \<Rightarrow>
   nat \<Rightarrow> prune_state list \<Rightarrow> (nat \<times> prune_state list) partial" where
  "prune_pass cands degree kind dist current_alpha i [] found states = Inr (found, states)"
| "prune_pass cands degree kind dist current_alpha i (neighbor # rest) found states =
     (if degree \<le> found then Inr (found, states)
      else
        bind_result (prune_candidate cands degree kind dist current_alpha i neighbor found states)
          (\<lambda>(found, states). prune_pass cands degree kind dist current_alpha (Suc i) rest found states))"

partial_function (option) prune_rounds ::
  "'v option nbr list \<Rightarrow> nat \<Rightarrow> f32 \<Rightarrow> f32 \<Rightarrow> prune_kind \<Rightarrow> ('v \<Rightarrow> 'v \<Rightarrow> f32) \<Rightarrow> f32 \<Rightarrow> nat \<Rightarrow>
   prune_state list \<Rightarrow> (nat \<times> prune_state list) partial option" where
  "prune_rounds cands degree alpha increment_factor kind dist current_alpha found states =
     (if found < degree then
        (case prune_pass cands degree kind dist current_alpha 0 cands found states of
           Inl p \<Rightarrow> Some (Inl p)
         | Inr fs \<Rightarrow>
             if f32_eq current_alpha alpha then Some (Inr fs)
             else prune_rounds cands degree alpha increment_factor kind dist
                    (f32_min (f32_mul current_alpha increment_factor) alpha) (fst fs) (snd fs))
      else Some (Inr (found, states)))"

definition F32_1_2 :: f32 where "F32_1_2 = 0x3F99999A"

definition robust_prune ::
  "'v option nbr list \<Rightarrow> prune_state list \<Rightarrow> nat \<Rightarrow> f32 \<Rightarrow> prune_kind \<Rightarrow> ('v \<Rightarrow> 'v \<Rightarrow> f32) \<Rightarrow>
   (nat \<times> prune_state list) partial option" where
  "robust_prune cands states degree alpha kind dist =
     prune_rounds cands degree alpha (f32_min alpha F32_1_2) kind dist f32_one 0 states"

section \<open>Occlusion\<close>

record prune_options =
  po_force_saturate :: bool

text \<open>\<open>prune::Context\<close>: the sorted pool, the states and the output list.\<close>

record 'i prune_context =
  pc_pool :: "'i nbr list"
  pc_states :: "prune_state list"
  pc_neighbors :: "'i adjacency_list"

text \<open>\<open>zip(guard.iter_mut(), states.iter())\<close> writes the ids of the selected pool positions.\<close>

fun write_selected :: "'i nbr list \<Rightarrow> nat \<Rightarrow> prune_state list \<Rightarrow> 'i list partial" where
  "write_selected pool 0 states = Inr []"
| "write_selected pool (Suc n) [] = Inr []"
| "write_selected pool (Suc n) (s # states) =
     bind_result (vec_get pool (st_neighbor s)) (\<lambda>p.
     bind_result (write_selected pool n states) (\<lambda>ids. Inr (nbr_id p # ids)))"

fun saturate :: "('i list \<Rightarrow> 'i \<Rightarrow> bool) \<Rightarrow> nat \<Rightarrow> ('i \<Rightarrow> bool) \<Rightarrow> 'i nbr list \<Rightarrow> 'i adjacency_list \<Rightarrow> 'i adjacency_list" where
  "saturate contains degree exclude [] neighbors = neighbors"
| "saturate contains degree exclude (n # pool) neighbors =
     (if degree \<le> length (al_edges neighbors) then neighbors
      else saturate contains degree exclude pool
             (if \<not> exclude (nbr_id n) then snd (al_push contains neighbors (nbr_id n)) else neighbors))"

definition occlude_list ::
  "config \<Rightarrow> ('i list \<Rightarrow> 'i \<Rightarrow> bool) \<Rightarrow> 'i \<Rightarrow> ('v \<Rightarrow> 'v \<Rightarrow> f32) \<Rightarrow> 'i prune_context \<Rightarrow> ('i \<rightharpoonup> 'v) \<Rightarrow>
   ('i \<Rightarrow> bool) \<Rightarrow> prune_options \<Rightarrow> 'i prune_context partial option" where
  "occlude_list cfg contains dflt dist ctx view exclude options =
     (if 2 ^ 16 \<le> length (pc_pool ctx) then Some (Inl AssertFailed)
      else if pc_pool ctx = [] then Some (Inr (ctx\<lparr>pc_neighbors := al_clear (pc_neighbors ctx)\<rparr>))
      else
        let pool = pc_pool ctx;
            alpha = cf_alpha cfg;
            degree = cf_pruned_degree cfg;
            states = replicate (length pool) prune_state_default;
            cache = map_in pool (\<lambda>i. if exclude i then None else view i)
        in map_option (\<lambda>r.
             bind_result r (\<lambda>(found, states).
             bind_result (write_selected pool found states) (\<lambda>ids.
             \<comment> \<open>a release build: the uniqueness check of \<open>finish\<close> is compiled out\<close>
             let guard = al_resize dflt (pc_neighbors ctx) found;
                 guard = \<lparr>al_edges = ids @ drop (length ids) (al_edges guard)\<rparr>;
                 neighbors = al_truncate guard found;
                 neighbors =
                   (if po_force_saturate options \<or> (cf_saturate_after_prune cfg \<and> f32_gt alpha f32_one)
                    then saturate contains degree exclude pool neighbors else neighbors)
             in Inr (ctx\<lparr>pc_states := states, pc_neighbors := neighbors\<rparr>))))
           (robust_prune cache states degree alpha (cf_prune_kind cfg) dist))"

section \<open>The sorted pool\<close>

text \<open>What the standard library documents about \<open>select_nth_unstable_by\<close>.\<close>

locale select_nth =
  fixes select_nth :: "nat \<Rightarrow> 'i nbr list \<Rightarrow> 'i nbr list"
  assumes permutes: "mset (select_nth p ns) = mset ns"
    and partitions: "no_nan ns \<Longrightarrow> p < length ns \<Longrightarrow>
      (\<forall>m \<in> set (take p (select_nth p ns)). by_distance m (select_nth p ns ! p)) \<and>
      (\<forall>m \<in> set (drop (Suc p) (select_nth p ns)). by_distance (select_nth p ns ! p) m)"
begin

lemma length_select [simp]: "length (select_nth p ns) = length ns"
  using permutes [of p ns] by (metis size_mset)

lemma sorted_neighbors_with_spec:
  assumes "no_nan ns"
  shows "sorted_wrt by_distance (sorted_neighbors_with select_nth ns k)"
    and "length (sorted_neighbors_with select_nth ns k) = min k (length ns)"
    and "\<exists>rest. mset ns = mset (sorted_neighbors_with select_nth ns k) + rest \<and>
      (\<forall>m \<in> set (sorted_neighbors_with select_nth ns k). \<forall>r \<in># rest. by_distance m r)"
proof -
  let ?p = "min k (length ns) - 1"
  let ?s = "select_nth ?p ns"
  let ?res = "sorted_neighbors_with select_nth ns k"
  have "sorted_wrt by_distance ?res \<and> length ?res = min k (length ns) \<and>
    (\<exists>rest. mset ns = mset ?res + rest \<and> (\<forall>m \<in> set ?res. \<forall>r \<in># rest. by_distance m r))"
  proof (cases "1 \<le> min k (length ns)")
    case False
    then have "?res = []" by (cases ns) (auto simp: sorted_neighbors_with_def)
    with False show ?thesis by (cases ns) auto
  next
    case True
    then have p: "?p < length ns" "?p < k" "Suc ?p = min k (length ns)" by auto
    note part = partitions [OF assms p(1)]
    have nn: "no_nan (take ?p ?s)" "no_nan ?s"
    proof -
      show "no_nan ?s" using assms permutes [of ?p ns] by (metis no_nan_def set_mset_mset)
      then show "no_nan (take ?p ?s)" by (rule no_nan_subset) (rule set_take_subset)
    qed
    let ?l = "sort_by fast_distance (take ?p ?s)"
    have d: "drop ?p ?s = ?s ! ?p # drop (Suc ?p) ?s" using p(1) by (intro Cons_nth_drop_Suc [symmetric]) simp
    have "?res = take k (?l @ drop ?p ?s)" using True by (simp add: sorted_neighbors_with_def Let_def)
    also have "\<dots> = ?l @ ?s ! ?p # take (k - Suc ?p) (drop (Suc ?p) ?s)"
      unfolding d using p by (simp add: take_Cons' min_def)
    also have "take (k - Suc ?p) (drop (Suc ?p) ?s) = []"
      using p(3) by (auto simp: min_def split: if_splits)
    finally have res: "?res = ?l @ [?s ! ?p]" .
    have tr: "by_distance a c" if "by_distance a b" "by_distance b c" for a b c :: "'i nbr"
      using that by (simp add: by_distance_def)
    have "mset ns = mset ?res + mset (drop (Suc ?p) ?s)"
    proof -
      have "mset ns = mset (take ?p ?s @ drop ?p ?s)" using permutes [of ?p ns] by simp
      also have "\<dots> = mset ?res + mset (drop (Suc ?p) ?s)"
        unfolding res mset_append d by simp
      finally show ?thesis .
    qed
    moreover have "\<forall>m \<in> set ?res. by_distance m (?s ! ?p)"
      unfolding res using part by (auto simp: by_distance_def)
    then have "\<forall>m \<in> set ?res. \<forall>r \<in># mset (drop (Suc ?p) ?s). by_distance m r"
      unfolding set_mset_mset using part tr by blast
    moreover have "sorted_wrt by_distance ?res"
      unfolding res sorted_wrt_append using sorted_sort_by [OF nn(1)] part by auto
    moreover have "length ?res = min k (length ns)"
      unfolding res using p by simp
    ultimately show ?thesis by blast
  qed
  then show "sorted_wrt by_distance ?res" "length ?res = min k (length ns)"
    "\<exists>rest. mset ns = mset ?res + rest \<and> (\<forall>m \<in> set ?res. \<forall>r \<in># rest. by_distance m r)"
    by blast+
qed

end

interpretation by_sorting: select_nth select_nth_sort
proof
  fix p and ns :: "'a nbr list"
  show "mset (select_nth_sort p ns) = mset ns" by (simp add: select_nth_sort_def)
  assume nn: "no_nan ns" and p: "p < length ns"
  let ?s = "sort_by fast_distance ns"
  have "sorted_wrt by_distance (take p ?s @ ?s ! p # drop (Suc p) ?s)"
    using sorted_sort_by [OF nn] p by (simp add: id_take_nth_drop [symmetric])
  then show "(\<forall>m \<in> set (take p (select_nth_sort p ns)). by_distance m (select_nth_sort p ns ! p)) \<and>
      (\<forall>m \<in> set (drop (Suc p) (select_nth_sort p ns)). by_distance (select_nth_sort p ns ! p) m)"
    by (simp add: select_nth_sort_def sorted_wrt_append)
qed

section \<open>The pruning loop\<close>

definition selected :: "nat \<Rightarrow> prune_state list \<Rightarrow> nat list" where
  "selected found states = map st_neighbor (take found states)"

lemma length_selected [simp]: "found \<le> length states \<Longrightarrow> length (selected found states) = found"
  by (simp add: selected_def)

lemma selected_nth: "k < found \<Longrightarrow> found \<le> length states \<Longrightarrow> selected found states ! k = st_neighbor (states ! k)"
  by (simp add: selected_def)

lemma selected_update:
  "st_neighbor s = st_neighbor (states ! i) \<Longrightarrow> selected found (states[i := s]) = selected found states"
  unfolding selected_def
  by (rule nth_equalityI, simp, metis length_list_update length_map length_take map_nth min.strict_boundedE
      nth_list_update_eq nth_list_update_neq nth_map nth_take)

lemma selected_snoc:
  "found < length states \<Longrightarrow>
   selected (Suc found) (states[found := (states ! found)\<lparr>st_neighbor := i\<rparr>]) = selected found states @ [i]"
  by (simp add: selected_def take_Suc_conv_app_nth)

text \<open>
  The invariant of the loop over the candidates: the first \<open>found\<close> states name distinct
  candidates whose vector is available, and those carry the factor that excludes them.
\<close>

definition prune_inv :: "'v option nbr list \<Rightarrow> nat \<Rightarrow> prune_state list \<Rightarrow> bool" where
  "prune_inv cands found states \<longleftrightarrow>
     length states = length cands \<and> length cands < 2 ^ 16 \<and> found \<le> length cands \<and>
     distinct (selected found states) \<and>
     (\<forall>j \<in> set (selected found states). j < length cands \<and> nbr_id (cands ! j) \<noteq> None \<and>
        st_occlude_factor (states ! j) = f32_MAX) \<and>
     (\<forall>i < length cands. st_last_checked (states ! i) \<le> found)"

text \<open>How much candidate \<open>j\<close> occludes candidate \<open>i\<close> under the triangle rule.\<close>

definition occlusion :: "'v option nbr list \<Rightarrow> ('v \<Rightarrow> 'v \<Rightarrow> f32) \<Rightarrow> nat \<Rightarrow> nat \<Rightarrow> f32" where
  "occlusion cands dist i j =
     (let jk = (case nbr_id (cands ! i) of
                  Some v \<Rightarrow> (case nbr_id (cands ! j) of Some w \<Rightarrow> dist v w | None \<Rightarrow> f32_MAX)
                | None \<Rightarrow> f32_MAX)
      in if f32_eq jk f32_zero then f32_MAX else f32_div (nbr_distance (cands ! i)) jk)"

text \<open>
  The factor of a candidate against the results it was compared with: none exceeds it, and it is
  one of them or still the initial zero.
\<close>

definition factor_ok ::
  "'v option nbr list \<Rightarrow> ('v \<Rightarrow> 'v \<Rightarrow> f32) \<Rightarrow> nat list \<Rightarrow> nat \<Rightarrow> nat \<Rightarrow> f32 \<Rightarrow> bool" where
  "factor_ok cands dist sel i last_checked factor \<longleftrightarrow>
     \<not> f32_is_nan factor \<and>
     (\<forall>k < last_checked. sel ! k < i \<longrightarrow> \<not> f32_gt (occlusion cands dist i (sel ! k)) factor) \<and>
     (factor = f32_zero \<or> (\<exists>k < length sel. sel ! k < i \<and> occlusion cands dist i (sel ! k) = factor))"

lemma factor_ok_step:
  assumes "factor_ok cands dist sel i k factor" and "k < length sel" and "sel ! k < i"
    and "\<not> f32_gt factor f32_MAX" and "nbr_id (cands ! i) = Some v"
    and "nbr_id (cands ! (sel ! k)) = Some w"
  shows "factor_ok cands dist sel i (Suc k)
     (update_occlude_factor TriangleInequality (nbr_distance (cands ! i)) (dist v w) factor alpha)"
proof -
  let ?o = "occlusion cands dist i (sel ! k)"
  have nan: "\<not> f32_is_nan factor" using assms(1) by (simp add: factor_ok_def)
  have old: "\<forall>l < k. sel ! l < i \<longrightarrow> \<not> f32_gt (occlusion cands dist i (sel ! l)) factor"
    using assms(1) by (simp add: factor_ok_def)
  show ?thesis
  proof (cases "f32_eq (dist v w) f32_zero")
    case True
    then have o: "?o = f32_MAX" using assms(5,6) by (simp add: occlusion_def)
    have "\<not> f32_is_nan f32_MAX" by (simp add: f32_MAX_def f32_is_nan_def f32_mag_def F32_INF_MAG_def)
    moreover have "\<not> f32_gt x f32_MAX" if "\<not> f32_gt x factor" for x
      using that assms(4) nan by (auto simp: f32_order)
    ultimately show ?thesis
      using True old o assms(2,3) by (auto simp: factor_ok_def update_occlude_factor_def less_Suc_eq)
  next
    case False
    then have o: "?o = f32_div (nbr_distance (cands ! i)) (dist v w)"
      using assms(5,6) by (simp add: occlusion_def)
    let ?f = "f32_max factor ?o"
    have f: "\<not> f32_is_nan ?f" "\<not> f32_gt ?o ?f" "?f = factor \<or> ?f = ?o"
      "\<And>x. \<not> f32_gt x factor \<Longrightarrow> \<not> f32_gt x ?f"
      using nan by (auto simp: f32_max_def f32_order)
    have eq: "update_occlude_factor TriangleInequality (nbr_distance (cands ! i)) (dist v w) factor alpha = ?f"
      using False o by (simp add: update_occlude_factor_def)
    have "?f = f32_zero \<or> (\<exists>l < length sel. sel ! l < i \<and> occlusion cands dist i (sel ! l) = ?f)"
      using f(3) assms(1,2,3) by (auto simp: factor_ok_def)
    then show ?thesis
      unfolding factor_ok_def eq using f old by (auto simp: less_Suc_eq)
  qed
qed

text \<open>
  The inner loop returns, having compared the candidate with every result or found one that
  occludes it; only the candidate's own \<open>last_checked\<close> changes.
\<close>

lemma check_results_spec:
  assumes inv: "length states = length cands" "length cands < 2 ^ 16" "found \<le> length cands"
      "\<forall>j \<in> set (selected found states). j < length cands \<and> nbr_id (cands ! j) \<noteq> None"
    and i: "i < length cands" and lc: "lc \<le> found"
  shows "\<exists>lc' f' x. check_results cands kind dist alpha i v nd found states lc f
      = Inr (lc', f', states[i := (states ! i)\<lparr>st_last_checked := x\<rparr>]) \<and>
    lc' \<le> found \<and> (lc' = found \<or> f32_gt f' alpha) \<and>
    (kind = TriangleInequality \<longrightarrow> nbr_id (cands ! i) = Some v \<longrightarrow> nd = nbr_distance (cands ! i) \<longrightarrow>
     factor_ok cands dist (selected found states) i lc f \<longrightarrow>
     \<not> f32_gt f alpha \<longrightarrow> f32_lt alpha f32_MAX \<longrightarrow> factor_ok cands dist (selected found states) i lc' f')"
  using inv lc
proof (induction "found - lc" arbitrary: states lc f)
  case 0
  then have "lc = found" by simp
  then show ?case
    by (intro exI [of _ found] exI [of _ f] exI [of _ "st_last_checked (states ! i)"])
      (simp add: check_results.simps)
next
  case (Suc d)
  let ?sel = "selected found states"
  have lt: "lc < found" using Suc by simp
  let ?r = "st_neighbor (states ! lc)"
  have r: "?sel ! lc = ?r" using lt Suc.prems by (simp add: selected_nth)
  then have rin: "?r \<in> set ?sel" using lt Suc.prems by (metis length_selected nth_mem)
  have rc: "?r < length cands" "nbr_id (cands ! ?r) \<noteq> None" using Suc.prems(4) rin by blast+
  have small: "\<not> 2 ^ 16 \<le> Suc lc" using lt Suc.prems by simp
  have get: "vec_get states lc = Inr (states ! lc)" using lt Suc.prems by simp
  have d: "d = found - Suc lc" using Suc.hyps(2) by simp
  show ?case
  proof (cases "i \<le> ?r")
    case True
    let ?states = "states[i := (states ! i)\<lparr>st_last_checked := Suc lc\<rparr>]"
    have sel: "selected found ?states = ?sel" by (rule selected_update) simp
    have eq: "check_results cands kind dist alpha i v nd found states lc f
        = check_results cands kind dist alpha i v nd found ?states (Suc lc) f"
      using lt get small True by (subst check_results.simps) (simp add: Let_def)
    have "factor_ok cands dist ?sel i lc f \<longrightarrow> factor_ok cands dist ?sel i (Suc lc) f"
      using True r by (auto simp: factor_ok_def less_Suc_eq)
    moreover from Suc.hyps(1) [OF d, of ?states f] Suc.prems lt obtain lc' f' x where
      "check_results cands kind dist alpha i v nd found ?states (Suc lc) f
        = Inr (lc', f', ?states[i := (?states ! i)\<lparr>st_last_checked := x\<rparr>])"
      "lc' \<le> found" "lc' = found \<or> f32_gt f' alpha"
      "kind = TriangleInequality \<longrightarrow> nbr_id (cands ! i) = Some v \<longrightarrow> nd = nbr_distance (cands ! i) \<longrightarrow>
       factor_ok cands dist ?sel i (Suc lc) f \<longrightarrow>
       \<not> f32_gt f alpha \<longrightarrow> f32_lt alpha f32_MAX \<longrightarrow> factor_ok cands dist ?sel i lc' f'"
      unfolding sel by auto
    moreover have "?states[i := (?states ! i)\<lparr>st_last_checked := y\<rparr>]
        = states[i := (states ! i)\<lparr>st_last_checked := y\<rparr>]" for y
      using i Suc.prems(1) by simp
    ultimately show ?thesis unfolding eq by auto
  next
    case False
    obtain w where w: "nbr_id (cands ! ?r) = Some w" using rc by blast
    let ?f = "update_occlude_factor kind nd (dist v w) f alpha"
    have step: "factor_ok cands dist ?sel i (Suc lc) ?f"
      if "kind = TriangleInequality" "nbr_id (cands ! i) = Some v" "nd = nbr_distance (cands ! i)"
        "factor_ok cands dist ?sel i lc f" "\<not> f32_gt f alpha" "f32_lt alpha f32_MAX"
      using factor_ok_step [of cands dist ?sel i lc f v w alpha] that False r w lt Suc.prems
      by (auto simp: f32_order)
    show ?thesis
    proof (cases "f32_gt ?f alpha")
      case True
      then have "check_results cands kind dist alpha i v nd found states lc f = Inr (Suc lc, ?f, states)"
        using lt get small False rc w by (subst check_results.simps) (simp add: Let_def)
      with True lt step show ?thesis
        by (intro exI [of _ "Suc lc"] exI [of _ ?f] exI [of _ "st_last_checked (states ! i)"]) auto
    next
      case nf: False
      then have eq: "check_results cands kind dist alpha i v nd found states lc f
          = check_results cands kind dist alpha i v nd found states (Suc lc) ?f"
        using lt get small False rc w by (subst check_results.simps) (simp add: Let_def)
      from Suc.hyps(1) [OF d, of states ?f] Suc.prems lt nf step show ?thesis
        unfolding eq by auto
    qed
  qed
qed

text \<open>The triangle rule's invariant: unselected candidates have an honest factor, selected ones are
  not occluded by those selected before them.\<close>

definition triangle_inv ::
  "'v option nbr list \<Rightarrow> ('v \<Rightarrow> 'v \<Rightarrow> f32) \<Rightarrow> f32 \<Rightarrow> nat \<Rightarrow> prune_state list \<Rightarrow> bool" where
  "triangle_inv cands dist alpha found states \<longleftrightarrow>
     (\<forall>i < length cands. i \<notin> set (selected found states) \<longrightarrow> nbr_id (cands ! i) \<noteq> None \<longrightarrow>
        factor_ok cands dist (selected found states) i (st_last_checked (states ! i))
          (st_occlude_factor (states ! i))) \<and>
     (\<forall>k < found. \<forall>l < k. selected found states ! l < selected found states ! k \<longrightarrow>
        \<not> f32_gt (occlusion cands dist (selected found states ! k) (selected found states ! l)) alpha)"

lemma factor_ok_append:
  "factor_ok cands dist sel i lc f \<Longrightarrow> lc \<le> length sel \<Longrightarrow> factor_ok cands dist (sel @ ys) i lc f"
  unfolding factor_ok_def by (auto simp: nth_append split: if_splits)

lemma f32_MAX_not_nan [simp]: "\<not> f32_is_nan f32_MAX"
  by (simp add: f32_MAX_def f32_is_nan_def f32_mag_def F32_INF_MAG_def)

lemma f32_zero_not_nan [simp]: "\<not> f32_is_nan f32_zero"
  by (simp add: f32_zero_def f32_is_nan_def f32_mag_def)

lemma prune_inv_room:
  assumes "prune_inv cands found states" and "i < length cands" and "i \<notin> set (selected found states)"
  shows "found < length cands"
proof -
  have d: "distinct (i # selected found states)" "set (i # selected found states) \<subseteq> {..<length cands}"
    using assms by (auto simp: prune_inv_def)
  have "card (set (i # selected found states)) = Suc found"
    using d(1) assms(1) unfolding distinct_card [OF d(1)] by (simp add: prune_inv_def)
  with card_mono [OF _ d(2)] show ?thesis by simp
qed

text \<open>Changing fields of a state other than its \<open>neighbor\<close>, at a candidate that is not selected.\<close>

lemma prune_inv_update:
  assumes "prune_inv cands found states" and "i < length cands" and "i \<notin> set (selected found states)"
    and "st_neighbor s = st_neighbor (states ! i)" and "st_last_checked s \<le> found"
  shows "prune_inv cands found (states[i := s])"
  using assms unfolding prune_inv_def selected_update [OF assms(4)]
  by (auto simp: nth_list_update)

lemma triangle_inv_update:
  assumes "triangle_inv cands dist alpha found states" and "i < length states"
    and "st_neighbor s = st_neighbor (states ! i)"
    and "nbr_id (cands ! i) \<noteq> None \<Longrightarrow>
      factor_ok cands dist (selected found states) i (st_last_checked s) (st_occlude_factor s)"
  shows "triangle_inv cands dist alpha found (states[i := s])"
  using assms unfolding triangle_inv_def selected_update [OF assms(3)]
  by (auto simp: nth_list_update)

lemma promote_spec:
  assumes inv: "prune_inv cands found states" and i: "i < length cands"
    and new: "i \<notin> set (selected found states)" and some: "nbr_id (cands ! i) \<noteq> None"
    and max: "st_occlude_factor (states ! i) = f32_MAX"
  defines "states' \<equiv> states[found := (states ! found)\<lparr>st_neighbor := i mod 2 ^ 16\<rparr>]"
  shows "vec_get states found = Inr (states ! found)"
    and "selected (Suc found) states' = selected found states @ [i]"
    and "prune_inv cands (Suc found) states'"
    and "st_occlude_factor (states' ! j) = st_occlude_factor (states ! j)"
    and "st_last_checked (states' ! j) = st_last_checked (states ! j)"
proof -
  have room: "found < length cands" by (rule prune_inv_room [OF inv i new])
  have len: "length states = length cands" "length cands < 2 ^ 16" using inv by (simp_all add: prune_inv_def)
  have im: "i mod 2 ^ 16 = i" using i len by simp
  show "vec_get states found = Inr (states ! found)" using room len by simp
  show sel: "selected (Suc found) states' = selected found states @ [i]"
    unfolding states'_def im using room len by (intro selected_snoc) simp
  show f: "st_occlude_factor (states' ! j) = st_occlude_factor (states ! j)" for j
    unfolding states'_def using room len by (cases "j = found") (auto simp: nth_list_update)
  show l: "st_last_checked (states' ! j) = st_last_checked (states ! j)" for j
    unfolding states'_def using room len by (cases "j = found") (auto simp: nth_list_update)
  have "length states' = length cands" using len by (simp add: states'_def)
  then show "prune_inv cands (Suc found) states'"
    using inv room i new some max unfolding prune_inv_def sel f l by (auto intro: le_SucI)
qed

lemma prune_candidate_spec:
  assumes inv: "prune_inv cands found states" and i: "i < length cands" and alpha: "f32_lt cur f32_MAX"
  shows "\<exists>found' states'. prune_candidate cands degree kind dist cur i (cands ! i) found states = Inr (found', states') \<and>
    prune_inv cands found' states' \<and> found' \<le> Suc found \<and>
    (\<exists>ys. selected found' states' = selected found states @ ys) \<and>
    f32_gt (st_occlude_factor (states' ! i)) cur \<and>
    (\<forall>j < length cands. j \<noteq> i \<longrightarrow> st_occlude_factor (states' ! j) = st_occlude_factor (states ! j)) \<and>
    (found = 0 \<and> nbr_id (cands ! i) \<noteq> None \<and> \<not> f32_gt (st_occlude_factor (states ! i)) cur \<longrightarrow>
       selected found' states' = [i]) \<and>
    (nbr_id (cands ! i) = None \<longrightarrow> found' = found) \<and>
    (kind = TriangleInequality \<longrightarrow> \<not> f32_gt cur alpha \<longrightarrow> triangle_inv cands dist alpha found states \<longrightarrow>
       triangle_inv cands dist alpha found' states')"
proof -
  have len: "length states = length cands" using inv by (simp add: prune_inv_def)
  have get: "vec_get states i = Inr (states ! i)" using i len by simp
  let ?s = "states ! i" and ?sel = "selected found states"
  show ?thesis
  proof (cases "f32_gt (st_occlude_factor ?s) cur")
    case True
    with get have "prune_candidate cands degree kind dist cur i (cands ! i) found states = Inr (found, states)"
      by (simp add: prune_candidate_def)
    with True inv show ?thesis by (intro exI [of _ found] exI [of _ states]) auto
  next
    case low: False
    have new: "i \<notin> set ?sel"
      using inv low alpha by (auto simp: prune_inv_def)
    have lc: "st_last_checked ?s \<le> found" using inv i by (simp add: prune_inv_def)
    show ?thesis
    proof (cases "nbr_id (cands ! i)")
      case None
      let ?st = "states[i := ?s\<lparr>st_occlude_factor := f32_MAX\<rparr>]"
      have "prune_candidate cands degree kind dist cur i (cands ! i) found states = Inr (found, ?st)"
        using get low None by (simp add: prune_candidate_def)
      moreover have "prune_inv cands found ?st" by (rule prune_inv_update [OF inv i new]) (simp_all add: lc)
      moreover have "selected found ?st = ?sel" by (rule selected_update) simp
      moreover have "triangle_inv cands dist alpha found ?st" if "triangle_inv cands dist alpha found states"
        by (rule triangle_inv_update [OF that]) (use i len None in auto)
      ultimately show ?thesis
        using alpha None i len by (intro exI [of _ found] exI [of _ ?st]) auto
    next
      case (Some v)
      from check_results_spec [of states cands found i "st_last_checked ?s" kind dist cur v
          "nbr_distance (cands ! i)" "st_occlude_factor ?s"] inv i lc
      obtain lc' f' x where
        c: "check_results cands kind dist cur i v (nbr_distance (cands ! i)) found states
            (st_last_checked ?s) (st_occlude_factor ?s)
            = Inr (lc', f', states[i := ?s\<lparr>st_last_checked := x\<rparr>])"
          "lc' \<le> found" "lc' = found \<or> f32_gt f' cur"
          "kind = TriangleInequality \<longrightarrow> nbr_id (cands ! i) = Some v \<longrightarrow>
           factor_ok cands dist ?sel i (st_last_checked ?s) (st_occlude_factor ?s) \<longrightarrow>
           \<not> f32_gt (st_occlude_factor ?s) cur \<longrightarrow> f32_lt cur f32_MAX \<longrightarrow> factor_ok cands dist ?sel i lc' f'"
        by (auto simp: prune_inv_def)
      have tri: "factor_ok cands dist ?sel i lc' f'"
        if "kind = TriangleInequality" "triangle_inv cands dist alpha found states"
        using c(4) that Some low alpha i new by (auto simp: triangle_inv_def)
      have upd: "(states[i := ?s\<lparr>st_last_checked := x\<rparr>])[i := ((states[i := ?s\<lparr>st_last_checked := x\<rparr>]) ! i)
          \<lparr>st_last_checked := lc', st_occlude_factor := f\<rparr>] = states[i := ?s\<lparr>st_last_checked := lc', st_occlude_factor := f\<rparr>]" for f
        using i len by simp
      show ?thesis
      proof (cases "f32_gt f' cur")
        case True
        let ?st = "states[i := ?s\<lparr>st_last_checked := lc', st_occlude_factor := f'\<rparr>]"
        have "prune_candidate cands degree kind dist cur i (cands ! i) found states = Inr (found, ?st)"
          using get low Some c(1) True i len by (simp add: prune_candidate_def Let_def)
        moreover have "prune_inv cands found ?st" by (rule prune_inv_update [OF inv i new]) (simp_all add: c)
        moreover have "selected found ?st = ?sel" by (rule selected_update) simp
        moreover have "triangle_inv cands dist alpha found ?st"
          if "kind = TriangleInequality" "triangle_inv cands dist alpha found states"
          by (rule triangle_inv_update [OF that(2)]) (use i len tri that in auto)
        moreover have "found \<noteq> 0"
        proof
          assume "found = 0"
          then have "check_results cands kind dist cur i v (nbr_distance (cands ! i)) found states
            (st_last_checked ?s) (st_occlude_factor ?s) = Inr (0, st_occlude_factor ?s, states)"
            using lc by (simp add: check_results.simps)
          with c(1) True low show False by simp
        qed
        ultimately show ?thesis
          using True i len by (intro exI [of _ found] exI [of _ ?st]) auto
      next
        case False
        then have all: "lc' = found" using c(3) by blast
        let ?st = "states[i := ?s\<lparr>st_last_checked := lc', st_occlude_factor := f32_MAX\<rparr>]"
        have inv1: "prune_inv cands found ?st" by (rule prune_inv_update [OF inv i new]) (simp_all add: c)
        have sel1: "selected found ?st = ?sel" by (rule selected_update) simp
        let ?st2 = "?st[found := (?st ! found)\<lparr>st_neighbor := i mod 2 ^ 16\<rparr>]"
        have p: "vec_get ?st found = Inr (?st ! found)" "selected (Suc found) ?st2 = ?sel @ [i]"
            "prune_inv cands (Suc found) ?st2"
            "\<And>j. st_occlude_factor (?st2 ! j) = st_occlude_factor (?st ! j)"
            "\<And>j. st_last_checked (?st2 ! j) = st_last_checked (?st ! j)"
          using promote_spec [OF inv1 i] new Some i len by (simp_all add: sel1)
        have "prune_candidate cands degree kind dist cur i (cands ! i) found states = Inr (Suc found, ?st2)"
          using get low Some c(1) False i len p(1) by (simp add: prune_candidate_def Let_def)
        moreover have "triangle_inv cands dist alpha (Suc found) ?st2"
          if "kind = TriangleInequality" "\<not> f32_gt cur alpha" "triangle_inv cands dist alpha found states"
        proof -
          have ok: "factor_ok cands dist ?sel i found f'" using tri that all by blast
          have sl: "length ?sel = found" using inv by (simp add: prune_inv_def)
          have "\<not> f32_gt (occlusion cands dist i (?sel ! l)) alpha" if "l < found" "?sel ! l < i" for l
          proof -
            have "\<not> f32_is_nan f'" "\<not> f32_gt (occlusion cands dist i (?sel ! l)) f'"
              using ok that by (simp_all add: factor_ok_def)
            with False alpha \<open>\<not> f32_gt cur alpha\<close> show ?thesis by (auto simp: f32_order)
          qed
          moreover have "factor_ok cands dist (?sel @ [i]) j (st_last_checked (?st2 ! j)) (st_occlude_factor (?st2 ! j))"
            if "j < length cands" "j \<notin> set (?sel @ [i])" "nbr_id (cands ! j) \<noteq> None" for j
          proof -
            have "st_last_checked (?st2 ! j) = st_last_checked (states ! j)"
              "st_occlude_factor (?st2 ! j) = st_occlude_factor (states ! j)"
              using that p(4,5) by auto
            with that \<open>triangle_inv cands dist alpha found states\<close> inv sl show ?thesis
              by (auto simp: triangle_inv_def prune_inv_def intro!: factor_ok_append)
          qed
          ultimately show ?thesis
            using \<open>triangle_inv cands dist alpha found states\<close> sl unfolding triangle_inv_def p(2)
            by (auto simp: nth_append less_Suc_eq)
        qed
        ultimately show ?thesis
          using p alpha i len sel1 Some
          by (intro exI [of _ "Suc found"] exI [of _ ?st2]) (auto simp: selected_def)
      qed
    qed
  qed
qed

lemma prune_pass_spec:
  assumes "prune_inv cands found states" and "i \<le> length cands" and "found \<le> degree"
    and "f32_lt cur f32_MAX" and "\<forall>j < i. f32_gt (st_occlude_factor (states ! j)) cur"
  shows "\<exists>found' states'. prune_pass cands degree kind dist cur i (drop i cands) found states = Inr (found', states') \<and>
    prune_inv cands found' states' \<and> found' \<le> degree \<and>
    (\<exists>ys. selected found' states' = selected found states @ ys) \<and>
    (found' < degree \<longrightarrow> (\<forall>j < length cands. f32_gt (st_occlude_factor (states' ! j)) cur)) \<and>
    (\<forall>m. found = 0 \<longrightarrow> 0 < degree \<longrightarrow> i \<le> m \<longrightarrow> m < length cands \<longrightarrow> nbr_id (cands ! m) \<noteq> None \<longrightarrow>
       (\<forall>j. i \<le> j \<longrightarrow> j < m \<longrightarrow> nbr_id (cands ! j) = None) \<longrightarrow>
       \<not> f32_gt (st_occlude_factor (states ! m)) cur \<longrightarrow>
       (\<exists>ys. selected found' states' = m # ys)) \<and>
    (kind = TriangleInequality \<longrightarrow> \<not> f32_gt cur alpha \<longrightarrow> triangle_inv cands dist alpha found states \<longrightarrow>
       triangle_inv cands dist alpha found' states')"
  using assms
proof (induction "length cands - i" arbitrary: i found states)
  case 0
  then have "drop i cands = []" "i = length cands" by simp_all
  with 0 show ?case by (intro exI [of _ found] exI [of _ states]) auto
next
  case (Suc d)
  then have i: "i < length cands" and d: "d = length cands - Suc i" by simp_all
  have drop: "drop i cands = cands ! i # drop (Suc i) cands" using i by (simp add: Cons_nth_drop_Suc)
  show ?case
  proof (cases "degree \<le> found")
    case True
    then have "found = degree" using Suc.prems(3) by simp
    with Suc.prems show ?thesis
      unfolding drop by (intro exI [of _ found] exI [of _ states]) auto
  next
    case False
    from prune_candidate_spec [OF Suc.prems(1) i Suc.prems(4), of degree kind dist alpha] obtain f1 s1 where
      1: "prune_candidate cands degree kind dist cur i (cands ! i) found states = Inr (f1, s1)"
        "prune_inv cands f1 s1" "f1 \<le> Suc found" "\<exists>ys. selected f1 s1 = selected found states @ ys"
        "f32_gt (st_occlude_factor (s1 ! i)) cur"
        "\<forall>j < length cands. j \<noteq> i \<longrightarrow> st_occlude_factor (s1 ! j) = st_occlude_factor (states ! j)"
        "found = 0 \<and> nbr_id (cands ! i) \<noteq> None \<and> \<not> f32_gt (st_occlude_factor (states ! i)) cur \<longrightarrow>
           selected f1 s1 = [i]"
        "nbr_id (cands ! i) = None \<longrightarrow> f1 = found"
        "kind = TriangleInequality \<longrightarrow> \<not> f32_gt cur alpha \<longrightarrow> triangle_inv cands dist alpha found states \<longrightarrow>
           triangle_inv cands dist alpha f1 s1"
      by (elim exE conjE) (rule that, (assumption | rule exI)+)
    have "\<forall>j < Suc i. f32_gt (st_occlude_factor (s1 ! j)) cur"
      using 1(5,6) Suc.prems(5) i by (auto simp: less_Suc_eq)
    moreover have "f1 \<le> degree" using 1(3) False by simp
    ultimately obtain f2 s2 where
      2: "prune_pass cands degree kind dist cur (Suc i) (drop (Suc i) cands) f1 s1 = Inr (f2, s2)"
        "prune_inv cands f2 s2" "f2 \<le> degree" "\<exists>ys. selected f2 s2 = selected f1 s1 @ ys"
        "f2 < degree \<longrightarrow> (\<forall>j < length cands. f32_gt (st_occlude_factor (s2 ! j)) cur)"
        "\<forall>m. f1 = 0 \<longrightarrow> 0 < degree \<longrightarrow> Suc i \<le> m \<longrightarrow> m < length cands \<longrightarrow> nbr_id (cands ! m) \<noteq> None \<longrightarrow>
          (\<forall>j. Suc i \<le> j \<longrightarrow> j < m \<longrightarrow> nbr_id (cands ! j) = None) \<longrightarrow>
          \<not> f32_gt (st_occlude_factor (s1 ! m)) cur \<longrightarrow> (\<exists>ys. selected f2 s2 = m # ys)"
        "kind = TriangleInequality \<longrightarrow> \<not> f32_gt cur alpha \<longrightarrow> triangle_inv cands dist alpha f1 s1 \<longrightarrow>
          triangle_inv cands dist alpha f2 s2"
      using Suc.hyps(1) [OF d 1(2) _ _ Suc.prems(4)] i by (metis Suc_leI)
    have pass: "prune_pass cands degree kind dist cur i (drop i cands) found states = Inr (f2, s2)"
      unfolding drop using False 1(1) 2(1) by simp
    have app: "\<exists>ys. selected f2 s2 = selected found states @ ys" using 1(4) 2(4) by auto
    have first: "\<exists>ys. selected f2 s2 = m # ys"
      if "found = 0" "0 < degree" "i \<le> m" "m < length cands" "nbr_id (cands ! m) \<noteq> None"
        "\<forall>j. i \<le> j \<longrightarrow> j < m \<longrightarrow> nbr_id (cands ! j) = None"
        "\<not> f32_gt (st_occlude_factor (states ! m)) cur" for m
    proof (cases "m = i")
      case True
      then show ?thesis using 1(7) 2(4) that by auto
    next
      case False
      then have "f1 = 0" "Suc i \<le> m" "\<not> f32_gt (st_occlude_factor (s1 ! m)) cur"
        using that 1(6,8) by auto
      then show ?thesis using 2(6) that by auto
    qed
    have tri: "kind = TriangleInequality \<longrightarrow> \<not> f32_gt cur alpha \<longrightarrow> triangle_inv cands dist alpha found states \<longrightarrow>
          triangle_inv cands dist alpha f2 s2"
      using 1(9) 2(7) by blast
    show ?thesis
      using pass 2(2,3,5) app first tri by (intro exI [of _ f2] exI [of _ s2]) blast
  qed
qed

text \<open>Alpha grows from one to its target in finitely many rounds.\<close>

lemma next_alpha:
  assumes "f32_le f32_one cur" and "f32_le cur alpha" and "f32_lt alpha f32_MAX" and "\<not> f32_eq cur alpha"
  defines "new \<equiv> f32_min (f32_mul cur (f32_min alpha F32_1_2)) alpha"
  shows "f32_lt cur new" and "f32_le new alpha" and "f32_le f32_one new"
proof -
  have lt: "f32_lt cur alpha" using assms(2,4) by (auto simp: f32_order)
  have one: "f32_lt f32_one F32_1_2" "f32_is_finite F32_1_2"
    by (simp_all add: f32_one_def F32_1_2_def f32_lt_def f32_key_def f32_is_nan_def f32_is_finite_def
        f32_sign_def f32_mag_def F32_INF_MAG_def)
  have max: "f32_key f32_MAX = 2139095039"
    by (simp add: f32_MAX_def f32_key_def f32_sign_def f32_mag_def)
  have fin: "f32_is_finite x" if "f32_le f32_one x" "f32_lt x f32_MAX" for x
  proof -
    have "f32_key f32_one = 1065353216" by (simp add: f32_key_def f32_one_def f32_sign_def f32_mag_def)
    with that max show ?thesis
      by (auto simp: f32_is_finite_def f32_le_def f32_lt_def f32_key_def F32_INF_MAG_def split: if_splits)
  qed
  let ?inc = "f32_min alpha F32_1_2"
  have "f32_lt f32_one alpha" using assms(1) lt by (auto simp: f32_order)
  then have inc: "f32_lt f32_one ?inc" "f32_is_finite ?inc"
    using one fin [of alpha] assms(3) by (auto simp: f32_min_def f32_order)
  have "f32_lt cur f32_MAX" using lt assms(3) by (auto simp: f32_order)
  then have "f32_lt cur (f32_mul cur ?inc)"
    by (intro f32_mul_grows(1) fin inc assms(1))
  then show "f32_lt cur new" "f32_le new alpha" "f32_le f32_one new"
    using lt assms(1) by (auto simp: new_def f32_min_def f32_order)
qed

lemma prune_rounds_spec:
  assumes "prune_inv cands found states" and "found \<le> degree"
    and "f32_le f32_one cur" and "f32_le cur alpha" and "f32_lt alpha f32_MAX"
  shows "\<exists>found' states'. prune_rounds cands degree alpha (f32_min alpha F32_1_2) kind dist cur found states
      = Some (Inr (found', states')) \<and>
    prune_inv cands found' states' \<and> found' \<le> degree \<and>
    (\<exists>ys. selected found' states' = selected found states @ ys) \<and>
    (found' < degree \<longrightarrow> (\<forall>j < length cands. f32_gt (st_occlude_factor (states' ! j)) alpha)) \<and>
    (\<forall>m. found = 0 \<longrightarrow> 0 < degree \<longrightarrow> m < length cands \<longrightarrow> nbr_id (cands ! m) \<noteq> None \<longrightarrow>
       (\<forall>j. j < m \<longrightarrow> nbr_id (cands ! j) = None) \<longrightarrow>
       \<not> f32_gt (st_occlude_factor (states ! m)) cur \<longrightarrow>
       (\<exists>ys. selected found' states' = m # ys)) \<and>
    (kind = TriangleInequality \<longrightarrow> triangle_inv cands dist alpha found states \<longrightarrow>
       triangle_inv cands dist alpha found' states')"
  using assms
proof (induction "nat (f32_key alpha - f32_key cur)" arbitrary: cur found states rule: less_induct)
  case less
  show ?case
  proof (cases "found < degree")
    case False
    with less.prems show ?thesis
      by (subst prune_rounds.simps) auto
  next
    case lt: True
    have cur: "f32_lt cur f32_MAX" "\<not> f32_gt cur alpha"
      using less.prems(4,5) by (auto simp: f32_order)
    from prune_pass_spec [OF less.prems(1) _ less.prems(2) cur(1), of 0 kind dist alpha]
    obtain f1 s1 where
      1: "prune_pass cands degree kind dist cur 0 cands found states = Inr (f1, s1)"
        "prune_inv cands f1 s1" "f1 \<le> degree" "\<exists>ys. selected f1 s1 = selected found states @ ys"
        "f1 < degree \<longrightarrow> (\<forall>j < length cands. f32_gt (st_occlude_factor (s1 ! j)) cur)"
        "\<forall>m. found = 0 \<longrightarrow> 0 < degree \<longrightarrow> m < length cands \<longrightarrow> nbr_id (cands ! m) \<noteq> None \<longrightarrow>
          (\<forall>j. j < m \<longrightarrow> nbr_id (cands ! j) = None) \<longrightarrow>
          \<not> f32_gt (st_occlude_factor (states ! m)) cur \<longrightarrow> (\<exists>ys. selected f1 s1 = m # ys)"
        "kind = TriangleInequality \<longrightarrow> triangle_inv cands dist alpha found states \<longrightarrow>
          triangle_inv cands dist alpha f1 s1"
      using cur(2) by auto
    show ?thesis
    proof (cases "f32_eq cur alpha")
      case True
      then have "f32_gt x alpha" if "f32_gt x cur" for x using that by (auto simp: f32_order)
      moreover have "prune_rounds cands degree alpha (f32_min alpha F32_1_2) kind dist cur found states
          = Some (Inr (f1, s1))"
        using lt 1(1) True by (subst prune_rounds.simps) simp
      ultimately show ?thesis using 1 by (intro exI [of _ f1] exI [of _ s1]) blast
    next
      case False
      let ?new = "f32_min (f32_mul cur (f32_min alpha F32_1_2)) alpha"
      note nx = next_alpha [OF less.prems(3,4,5) False]
      have "nat (f32_key alpha - f32_key ?new) < nat (f32_key alpha - f32_key cur)"
        using nx less.prems(4) by (auto simp: f32_order)
      from less.hyps [OF this 1(2,3) nx(3,2) less.prems(5)] obtain f2 s2 where
        2: "prune_rounds cands degree alpha (f32_min alpha F32_1_2) kind dist ?new f1 s1 = Some (Inr (f2, s2))"
          "prune_inv cands f2 s2" "f2 \<le> degree" "\<exists>ys. selected f2 s2 = selected f1 s1 @ ys"
          "f2 < degree \<longrightarrow> (\<forall>j < length cands. f32_gt (st_occlude_factor (s2 ! j)) alpha)"
          "kind = TriangleInequality \<longrightarrow> triangle_inv cands dist alpha f1 s1 \<longrightarrow>
            triangle_inv cands dist alpha f2 s2"
        by blast
      have "prune_rounds cands degree alpha (f32_min alpha F32_1_2) kind dist cur found states = Some (Inr (f2, s2))"
        using lt 1(1) False 2(1) by (subst prune_rounds.simps) simp
      moreover have "\<exists>ys. selected f2 s2 = selected found states @ ys" using 1(4) 2(4) by auto
      moreover have "\<exists>ys. selected f2 s2 = m # ys" if "\<exists>ys. selected f1 s1 = m # ys" for m
        using that 2(4) by auto
      ultimately show ?thesis
        using 2(2,3,5) 1(6) 1(7) 2(6) by (intro exI [of _ f2] exI [of _ s2]) blast
    qed
  qed
qed

lemma prune_inv_init:
  assumes "length cands < 2 ^ 16"
  shows "prune_inv cands 0 (replicate (length cands) prune_state_default)"
    and "triangle_inv cands dist alpha 0 (replicate (length cands) prune_state_default)"
  using assms
  by (auto simp: prune_inv_def triangle_inv_def selected_def prune_state_default_def factor_ok_def)

lemma robust_prune_spec:
  assumes "length cands < 2 ^ 16" and "f32_le f32_one alpha" and "f32_lt alpha f32_MAX"
  obtains found states where
    "robust_prune cands (replicate (length cands) prune_state_default) degree alpha kind dist
      = Some (Inr (found, states))"
    and "prune_inv cands found states" and "found \<le> degree"
    and "found < degree \<Longrightarrow> \<forall>j < length cands. f32_gt (st_occlude_factor (states ! j)) alpha"
    and "\<And>m. 0 < degree \<Longrightarrow> m < length cands \<Longrightarrow> nbr_id (cands ! m) \<noteq> None \<Longrightarrow>
       \<forall>j < m. nbr_id (cands ! j) = None \<Longrightarrow> \<exists>ys. selected found states = m # ys"
    and "kind = TriangleInequality \<Longrightarrow> triangle_inv cands dist alpha found states"
proof -
  let ?init = "replicate (length cands) prune_state_default"
  have one: "\<not> f32_is_nan f32_one" using assms(2) by (simp add: f32_le_def)
  have "\<not> f32_gt (st_occlude_factor (?init ! m)) f32_one" if "m < length cands" for m
    using that by (simp add: prune_state_default_def f32_order f32_key_def f32_zero_def f32_one_def
        f32_sign_def f32_mag_def)
  with prune_rounds_spec [OF prune_inv_init(1) [OF assms(1)] _ f32_le_refl [OF one] assms(2,3), of degree kind dist]
    prune_inv_init(2) [OF assms(1), of dist alpha]
  show thesis
    unfolding robust_prune_def [symmetric] by (auto intro: that)
qed

section \<open>The pruned list\<close>

lemma write_selected_eq:
  "found \<le> length states \<Longrightarrow> \<forall>j \<in> set (selected found states). j < length pool \<Longrightarrow>
   write_selected pool found states = Inr (map (\<lambda>j. nbr_id (pool ! j)) (selected found states))"
  by (induction pool found states rule: write_selected.induct) (auto simp: selected_def)

context contains_simd
begin

lemma saturate_spec:
  assumes "length (al_edges ns) \<le> degree"
  shows "length (al_edges (saturate contains degree exclude pool ns)) \<le> degree"
    and "distinct (al_edges ns) \<Longrightarrow> distinct (al_edges (saturate contains degree exclude pool ns))"
    and "\<exists>ys. al_edges (saturate contains degree exclude pool ns) = al_edges ns @ ys \<and>
           set ys \<subseteq> {i \<in> nbr_id ` set pool. \<not> exclude i}"
    and "length (al_edges (saturate contains degree exclude pool ns)) < degree \<Longrightarrow>
           {i \<in> nbr_id ` set pool. \<not> exclude i} \<subseteq> set (al_edges (saturate contains degree exclude pool ns))"
proof -
  have "length (al_edges (saturate contains degree exclude pool ns)) \<le> degree \<and>
    (distinct (al_edges ns) \<longrightarrow> distinct (al_edges (saturate contains degree exclude pool ns))) \<and>
    (\<exists>ys. al_edges (saturate contains degree exclude pool ns) = al_edges ns @ ys \<and>
           set ys \<subseteq> {i \<in> nbr_id ` set pool. \<not> exclude i}) \<and>
    (length (al_edges (saturate contains degree exclude pool ns)) < degree \<longrightarrow>
           {i \<in> nbr_id ` set pool. \<not> exclude i} \<subseteq> set (al_edges (saturate contains degree exclude pool ns)))"
    using assms
  proof (induction pool arbitrary: ns)
    case (Cons p pool)
    show ?case
    proof (cases "degree \<le> length (al_edges ns)")
      case False
      let ?ns = "if \<not> exclude (nbr_id p) then snd (al_push contains ns (nbr_id p)) else ns"
      have len: "length (al_edges ?ns) \<le> degree"
        using False by (auto simp: push_edges)
      have eq: "saturate contains degree exclude (p # pool) ns = saturate contains degree exclude pool ?ns"
        using False by simp
      have e: "\<exists>ys. al_edges ?ns = al_edges ns @ ys \<and> set ys \<subseteq> {i. i = nbr_id p \<and> \<not> exclude i}"
        "distinct (al_edges ns) \<longrightarrow> distinct (al_edges ?ns)"
        "\<not> exclude (nbr_id p) \<longrightarrow> nbr_id p \<in> set (al_edges ?ns)"
        by (auto simp: push_edges)
      note IH = Cons.IH [OF len]
      from IH e(1) obtain ys zs where
        "al_edges (saturate contains degree exclude pool ?ns) = (al_edges ns @ ys) @ zs"
        "set ys \<subseteq> {i. i = nbr_id p \<and> \<not> exclude i}" "set zs \<subseteq> {i \<in> nbr_id ` set pool. \<not> exclude i}"
        by auto
      then have "\<exists>ys. al_edges (saturate contains degree exclude pool ?ns) = al_edges ns @ ys \<and>
          set ys \<subseteq> {i \<in> nbr_id ` set (p # pool). \<not> exclude i}"
        by (intro exI [of _ "ys @ zs"]) auto
      moreover have "set (al_edges ?ns) \<subseteq> set (al_edges (saturate contains degree exclude pool ?ns))"
        using IH by auto
      ultimately show ?thesis
        unfolding eq using IH e(2,3) by auto
    qed (use Cons.prems in auto)
  qed auto
  then show "length (al_edges (saturate contains degree exclude pool ns)) \<le> degree"
    and "distinct (al_edges ns) \<Longrightarrow> distinct (al_edges (saturate contains degree exclude pool ns))"
    and "\<exists>ys. al_edges (saturate contains degree exclude pool ns) = al_edges ns @ ys \<and>
           set ys \<subseteq> {i \<in> nbr_id ` set pool. \<not> exclude i}"
    and "length (al_edges (saturate contains degree exclude pool ns)) < degree \<Longrightarrow>
           {i \<in> nbr_id ` set pool. \<not> exclude i} \<subseteq> set (al_edges (saturate contains degree exclude pool ns))"
    by blast+
qed

lemma occlude_list_spec:
  assumes "length (pc_pool ctx) < 2 ^ 16"
    and "f32_le f32_one (cf_alpha cfg)" and "f32_lt (cf_alpha cfg) f32_MAX"
  obtains ctx' where
    "occlude_list cfg contains dflt dist ctx view exclude options = Some (Inr ctx')"
    and "pc_pool ctx' = pc_pool ctx"
    and "length (al_edges (pc_neighbors ctx')) \<le> cf_pruned_degree cfg"
    and "set (al_edges (pc_neighbors ctx')) \<subseteq> {i \<in> nbr_id ` set (pc_pool ctx). \<not> exclude i}"
    and "distinct (map nbr_id (pc_pool ctx)) \<Longrightarrow> distinct (al_edges (pc_neighbors ctx'))"
    and "po_force_saturate options \<Longrightarrow>
      length (al_edges (pc_neighbors ctx')) < cf_pruned_degree cfg \<Longrightarrow>
      set (al_edges (pc_neighbors ctx')) = {i \<in> nbr_id ` set (pc_pool ctx). \<not> exclude i}"
proof (cases "pc_pool ctx = []")
  case True
  then have "occlude_list cfg contains dflt dist ctx view exclude options
      = Some (Inr (ctx\<lparr>pc_neighbors := al_clear (pc_neighbors ctx)\<rparr>))"
    by (simp add: occlude_list_def)
  then show thesis by (rule that) (use True in \<open>simp_all add: al_clear_def\<close>)
next
  case False
  let ?pool = "pc_pool ctx" and ?degree = "cf_pruned_degree cfg"
  let ?cache = "map_in ?pool (\<lambda>i. if exclude i then None else view i)"
  have len: "length ?cache = length ?pool" by (simp add: map_in_def)
  have cache: "nbr_id (?cache ! j) = (if exclude (nbr_id (?pool ! j)) then None else view (nbr_id (?pool ! j)))"
    if "j < length ?pool" for j using that by (simp add: map_in_def)
  have lc: "length ?cache < 2 ^ 16" using assms(1) len by simp
  obtain found states where
    r: "robust_prune ?cache (replicate (length ?pool) prune_state_default) ?degree (cf_alpha cfg)
          (cf_prune_kind cfg) dist = Some (Inr (found, states))"
      "prune_inv ?cache found states" "found \<le> ?degree"
    by (rule robust_prune_spec [OF lc assms(2,3), of ?degree "cf_prune_kind cfg" dist, unfolded len])
  have inv: "found \<le> length states" "\<forall>j \<in> set (selected found states). j < length ?pool"
      "distinct (selected found states)" "length (selected found states) = found"
    using r(2) len by (auto simp: prune_inv_def)
  let ?ids = "map (\<lambda>j. nbr_id (?pool ! j)) (selected found states)"
  have w: "write_selected ?pool found states = Inr ?ids" by (rule write_selected_eq) (use inv in auto)
  have idlen: "length ?ids = found" using inv by simp
  define ns where "ns = \<lparr>al_edges = ?ids\<rparr>"
  have guard: "al_truncate \<lparr>al_edges = ?ids @ drop (length ?ids) (al_edges (al_resize dflt (pc_neighbors ctx) found))\<rparr> found = ns"
    using idlen by (simp add: al_truncate_def ns_def)
  have sub: "set (al_edges ns) \<subseteq> {i \<in> nbr_id ` set ?pool. \<not> exclude i}"
  proof
    fix i assume "i \<in> set (al_edges ns)"
    then obtain j where j: "j \<in> set (selected found states)" "i = nbr_id (?pool ! j)" by (auto simp: ns_def)
    then have "j < length ?pool" "nbr_id (?cache ! j) \<noteq> None"
      using r(2) len by (auto simp: prune_inv_def)
    with j cache show "i \<in> {i \<in> nbr_id ` set ?pool. \<not> exclude i}" by (auto split: if_splits)
  qed
  have dist': "distinct (al_edges ns)" if "distinct (map nbr_id ?pool)"
  proof -
    have "inj_on (\<lambda>j. nbr_id (?pool ! j)) (set (selected found states))"
    proof (rule inj_onI)
      fix x y assume "x \<in> set (selected found states)" "y \<in> set (selected found states)"
        and "nbr_id (?pool ! x) = nbr_id (?pool ! y)"
      with inv(2) nth_eq_iff_index_eq [OF that, of x y] show "x = y" by simp
    qed
    with inv(3) show ?thesis by (simp add: ns_def distinct_map)
  qed
  have lenns: "length (al_edges ns) \<le> ?degree" using idlen r(3) by (simp add: ns_def)
  let ?sat = "po_force_saturate options \<or> (cf_saturate_after_prune cfg \<and> f32_gt (cf_alpha cfg) f32_one)"
  let ?res = "if ?sat then saturate contains ?degree exclude ?pool ns else ns"
  have eq: "occlude_list cfg contains dflt dist ctx view exclude options
      = Some (Inr (ctx\<lparr>pc_states := states, pc_neighbors := ?res\<rparr>))"
    using assms(1) False r(1) w guard by (simp add: occlude_list_def Let_def)
  note sat = saturate_spec [OF lenns, of exclude ?pool]
  have resset: "set (al_edges ?res) \<subseteq> {i \<in> nbr_id ` set ?pool. \<not> exclude i}"
    using sat(3) sub by auto
  have full: "set (al_edges ?res) = {i \<in> nbr_id ` set ?pool. \<not> exclude i}"
    if "po_force_saturate options" "length (al_edges ?res) < ?degree"
  proof -
    have r: "?res = saturate contains ?degree exclude ?pool ns" using that(1) by simp
    show ?thesis
      by (rule subset_antisym [OF resset]) (unfold r, rule sat(4) [OF that(2) [unfolded r]])
  qed
  show thesis
  proof (rule that [OF eq])
    show "length (al_edges (pc_neighbors (ctx\<lparr>pc_states := states, pc_neighbors := ?res\<rparr>))) \<le> ?degree"
      using sat(1) lenns by simp
    show "set (al_edges (pc_neighbors (ctx\<lparr>pc_states := states, pc_neighbors := ?res\<rparr>)))
        \<subseteq> {i \<in> nbr_id ` set ?pool. \<not> exclude i}"
      using resset by simp
    show "distinct (al_edges (pc_neighbors (ctx\<lparr>pc_states := states, pc_neighbors := ?res\<rparr>)))"
      if "distinct (map nbr_id ?pool)" using sat(2) dist' that by simp
    show "set (al_edges (pc_neighbors (ctx\<lparr>pc_states := states, pc_neighbors := ?res\<rparr>)))
        = {i \<in> nbr_id ` set ?pool. \<not> exclude i}"
      if "po_force_saturate options"
        "length (al_edges (pc_neighbors (ctx\<lparr>pc_states := states, pc_neighbors := ?res\<rparr>))) < ?degree"
      using full that by simp
  qed simp
qed

end

text \<open>With a NaN alpha no round is the last one.\<close>

lemma prune_pass_unavailable:
  assumes "\<forall>c \<in> set rest. nbr_id c = None" and "i + length rest \<le> length states"
  shows "\<exists>states'. prune_pass cands degree kind dist cur i rest found states = Inr (found, states') \<and>
     length states' = length states"
  using assms
proof (induction rest arbitrary: i states)
  case (Cons c rest)
  have "\<exists>s. prune_candidate cands degree kind dist cur i c found states = Inr (found, s) \<and>
      length s = length states"
    using Cons.prems by (auto simp: prune_candidate_def)
  then obtain s where s: "prune_candidate cands degree kind dist cur i c found states = Inr (found, s)"
    "length s = length states" by blast
  with Cons.IH [of "Suc i" s] Cons.prems show ?case by auto
qed simp

lemma prune_rounds_nan:
  assumes "prune_rounds cands degree alpha inc kind dist cur found states = Some r"
    and "f32_is_nan alpha" and "\<forall>c \<in> set cands. nbr_id c = None" and "found < degree"
    and "length cands \<le> length states"
  shows False
proof -
  let ?P = "\<lambda>(cands :: 'a option nbr list) degree alpha inc kind dist cur found (states :: prune_state list)
    (r :: (nat \<times> prune_state list) partial).
    f32_is_nan alpha \<longrightarrow> (\<forall>c \<in> set cands. nbr_id c = None) \<longrightarrow> found < degree \<longrightarrow>
    length cands \<le> length states \<longrightarrow> False"
  have "?P cands degree alpha inc kind dist cur found states r"
  proof (rule prune_rounds.raw_induct [where P = ?P, OF _ assms(1)], intro impI)
    fix rec and cands :: "'a option nbr list" and degree alpha inc kind dist cur found
      and states :: "prune_state list" and r
    assume IH: "\<And>cands degree alpha inc kind dist cur found states r.
        rec cands degree alpha inc kind dist cur found states = Some r \<Longrightarrow>
        ?P cands degree alpha inc kind dist cur found states r"
      and run: "(if found < degree then
        (case prune_pass cands degree kind dist cur 0 cands found states of
           Inl p \<Rightarrow> Some (Inl p)
         | Inr fs \<Rightarrow>
             if f32_eq cur alpha then Some (Inr fs)
             else rec cands degree alpha inc kind dist
                    (f32_min (f32_mul cur inc) alpha) (fst fs) (snd fs))
      else Some (Inr (found, states))) = Some r"
      and a: "f32_is_nan alpha" "\<forall>c \<in> set cands. nbr_id c = None" "found < degree"
        "length cands \<le> length states"
    from prune_pass_unavailable [OF a(2), of 0 states cands degree kind dist cur found] a(4)
    obtain s where s: "prune_pass cands degree kind dist cur 0 cands found states = Inr (found, s)"
      "length s = length states" by auto
    have "rec cands degree alpha inc kind dist (f32_min (f32_mul cur inc) alpha) found s = Some r"
      using run a(1,3) s(1) by (simp add: f32_eq_def)
    from IH [OF this] a s(2) show False by simp
  qed
  with assms(2-5) show False by blast
qed

section \<open>Properties\<close>

lemma ALPHA_bounds: "f32_le f32_one ALPHA" "f32_lt ALPHA f32_MAX"
  by (simp_all add: f32_le_def f32_lt_def f32_key_def f32_is_nan_def f32_one_def f32_MAX_def ALPHA_def
      f32_sign_def f32_mag_def F32_INF_MAG_def)

text \<open>
  C28. \<open>SortedNeighbors::new\<close> keeps the closest candidates: whatever reordering
  \<open>select_nth_unstable_by\<close> chooses within its documented effect, the result is sorted by distance,
  has the requested length (or is the whole list), and no candidate that was dropped is closer than one
  that was kept.
\<close>

theorem sorted_neighbors_correct:
  assumes "select_nth select" and "no_nan ns"
  shows "sorted_wrt by_distance (sorted_neighbors_with select ns k) \<and>
     length (sorted_neighbors_with select ns k) = min k (length ns) \<and>
     (\<exists>rest. mset ns = mset (sorted_neighbors_with select ns k) + rest \<and>
        (\<forall>m \<in> set (sorted_neighbors_with select ns k). \<forall>r \<in># rest. by_distance m r))"
  using select_nth.sorted_neighbors_with_spec [OF assms] by blast

theorem sorted_neighbors_correct_witness:
  "sorted_wrt by_distance (sorted_neighbors_new [Neighbor (1 :: nat) 0x40000000, Neighbor 2 0x3F800000] 1) \<and>
   length (sorted_neighbors_new [Neighbor (1 :: nat) 0x40000000, Neighbor 2 0x3F800000] 1) = 1"
proof -
  have "no_nan [Neighbor (1 :: nat) 0x40000000, Neighbor 2 0x3F800000]"
    by (simp add: f32_is_nan_def f32_mag_def F32_INF_MAG_def)
  from sorted_neighbors_correct [OF by_sorting.select_nth_axioms this, of 1] show ?thesis
    by (simp add: sorted_neighbors_new_def)
qed

text \<open>
  C10. Robust prune returns for every finite alpha from one up to below \<open>f32::MAX\<close>, every distance
  function and both pruning rules: it never panics, selects at most \<open>degree\<close> candidates, each at most
  once and only candidates whose vector is available, and the nearest available candidate is always the
  first one selected.
\<close>

theorem robust_prune_correct:
  assumes "length cands < 2 ^ 16" and "f32_le f32_one alpha" and "f32_lt alpha f32_MAX"
  shows "\<exists>found states.
     robust_prune cands (replicate (length cands) prune_state_default) degree alpha kind dist
       = Some (Inr (found, states)) \<and>
     found \<le> degree \<and> length (selected found states) = found \<and> distinct (selected found states) \<and>
     (\<forall>j \<in> set (selected found states). j < length cands \<and> nbr_id (cands ! j) \<noteq> None) \<and>
     (\<forall>m < length cands. 0 < degree \<longrightarrow> nbr_id (cands ! m) \<noteq> None \<longrightarrow>
        (\<forall>j < m. nbr_id (cands ! j) = None) \<longrightarrow> hd (selected found states) = m \<and> 0 < found)"
proof -
  obtain found states where r:
    "robust_prune cands (replicate (length cands) prune_state_default) degree alpha kind dist
      = Some (Inr (found, states))" "prune_inv cands found states" "found \<le> degree"
    "\<And>m. 0 < degree \<Longrightarrow> m < length cands \<Longrightarrow> nbr_id (cands ! m) \<noteq> None \<Longrightarrow>
       \<forall>j < m. nbr_id (cands ! j) = None \<Longrightarrow> \<exists>ys. selected found states = m # ys"
    by (rule robust_prune_spec [OF assms, of degree kind dist]) blast
  have len: "length (selected found states) = found" using r(2) by (simp add: prune_inv_def)
  have "hd (selected found states) = m \<and> 0 < found"
    if "m < length cands" "0 < degree" "nbr_id (cands ! m) \<noteq> None" "\<forall>j < m. nbr_id (cands ! j) = None" for m
    using r(4) [OF that(2,1,3,4)] len by auto
  with r len show ?thesis
    by (intro exI [of _ found] exI [of _ states]) (auto simp: prune_inv_def)
qed

theorem robust_prune_correct_witness:
  "\<exists>found states. robust_prune [Neighbor None 0, Neighbor (Some (5 :: nat)) 0x3F800000]
     (replicate 2 prune_state_default) 3 ALPHA TriangleInequality (\<lambda>_ _. f32_one) = Some (Inr (found, states)) \<and>
     hd (selected found states) = 1"
proof -
  have "length [Neighbor None 0, Neighbor (Some (5 :: nat)) 0x3F800000] < 2 ^ 16" by simp
  from robust_prune_correct [OF this ALPHA_bounds, of 3 TriangleInequality "\<lambda>_ _. f32_one"] show ?thesis
    by (auto simp: less_Suc_eq numeral_2_eq_2)
qed

text \<open>
  C7. Under the triangle rule the selection is the one Vamana asks for. A selected candidate is not
  occluded, at the final alpha, by a nearer candidate selected before it; and when the degree is not
  used up, every available candidate that was left out is occluded by a nearer selected one: the ratio of
  its distances to the point and to that neighbor exceeds alpha, or the two coincide.
\<close>

theorem robust_prune_triangle:
  assumes "length cands < 2 ^ 16" and "f32_le f32_one alpha" and "f32_lt alpha f32_MAX"
  shows "\<exists>found states.
     robust_prune cands (replicate (length cands) prune_state_default) degree alpha TriangleInequality dist
       = Some (Inr (found, states)) \<and>
     (\<forall>k < found. \<forall>l < k. selected found states ! l < selected found states ! k \<longrightarrow>
        \<not> f32_gt (occlusion cands dist (selected found states ! k) (selected found states ! l)) alpha) \<and>
     (found < degree \<longrightarrow> (\<forall>i < length cands. nbr_id (cands ! i) \<noteq> None \<longrightarrow> i \<notin> set (selected found states) \<longrightarrow>
        (\<exists>j \<in> set (selected found states). j < i \<and> f32_gt (occlusion cands dist i j) alpha)))"
proof -
  obtain found states where r:
    "robust_prune cands (replicate (length cands) prune_state_default) degree alpha TriangleInequality dist
      = Some (Inr (found, states))" "prune_inv cands found states"
    "found < degree \<Longrightarrow> \<forall>j < length cands. f32_gt (st_occlude_factor (states ! j)) alpha"
    "triangle_inv cands dist alpha found states"
    by (rule robust_prune_spec [OF assms, of degree TriangleInequality dist]) blast
  have "\<exists>j \<in> set (selected found states). j < i \<and> f32_gt (occlusion cands dist i j) alpha"
    if "found < degree" "i < length cands" "nbr_id (cands ! i) \<noteq> None" "i \<notin> set (selected found states)" for i
  proof -
    have gt: "f32_gt (st_occlude_factor (states ! i)) alpha" using r(3) that by blast
    have "\<not> f32_gt f32_zero alpha"
      using assms(2) by (auto simp: f32_order f32_key_def f32_zero_def f32_one_def f32_sign_def f32_mag_def
          split: if_splits)
    with gt r(4) that obtain k where "k < length (selected found states)" "selected found states ! k < i"
      "occlusion cands dist i (selected found states ! k) = st_occlude_factor (states ! i)"
      by (auto simp: triangle_inv_def factor_ok_def)
    with gt show ?thesis by (intro bexI [of _ "selected found states ! k"]) auto
  qed
  with r show ?thesis
    by (intro exI [of _ found] exI [of _ states]) (auto simp: triangle_inv_def)
qed

theorem robust_prune_triangle_witness:
  "\<exists>found states. robust_prune [Neighbor (Some (5 :: nat)) f32_one, Neighbor (Some 6) f32_one]
     (replicate 2 prune_state_default) 3 ALPHA TriangleInequality (\<lambda>_ _. f32_zero) = Some (Inr (found, states))"
proof -
  have "length [Neighbor (Some (5 :: nat)) f32_one, Neighbor (Some 6) f32_one] < 2 ^ 16" by simp
  from robust_prune_triangle [OF this ALPHA_bounds, of 3 "\<lambda>_ _. f32_zero"] show ?thesis
    by (simp add: numeral_2_eq_2) blast
qed

text \<open>
  C38. The configuration does not check alpha, and the rounds of robust prune need not end: with a NaN
  alpha and no available candidate, a positive degree makes it loop forever.
\<close>

theorem robust_prune_nan_alpha:
  assumes "f32_is_nan alpha" and "\<forall>c \<in> set cands. nbr_id c = None" and "0 < degree"
  shows "robust_prune cands (replicate (length cands) prune_state_default) degree alpha kind dist = None"
proof (rule ccontr)
  assume "robust_prune cands (replicate (length cands) prune_state_default) degree alpha kind dist \<noteq> None"
  then obtain r where "prune_rounds cands degree alpha (f32_min alpha F32_1_2) kind dist f32_one 0
      (replicate (length cands) prune_state_default) = Some r"
    by (auto simp: robust_prune_def)
  from prune_rounds_nan [OF this assms] show False by simp
qed

theorem robust_prune_nan_alpha_witness:
  "robust_prune [Neighbor (None :: nat option) f32_one] (replicate 1 prune_state_default) 4 f32_NAN
     Occluding (\<lambda>_ _. f32_one) = None"
  using robust_prune_nan_alpha [of f32_NAN "[Neighbor (None :: nat option) f32_one]" 4 Occluding "\<lambda>_ _. f32_one"]
  by (simp add: f32_is_nan_def f32_NAN_def f32_mag_def F32_INF_MAG_def)

text \<open>
  C11. \<open>occlude_list\<close> on a pool that fits in a \<open>u16\<close> returns a neighbor list with at most
  \<open>pruned_degree\<close> entries, all of them from the pool and none of them excluded (so a vertex is never its
  own neighbor), without duplicates when the pool has none. A forced saturation that stays below the
  degree has taken every admissible id of the pool.
\<close>

theorem occlude_list_correct:
  assumes "length (pc_pool ctx) < 2 ^ 16"
    and "f32_le f32_one (cf_alpha cfg)" and "f32_lt (cf_alpha cfg) f32_MAX"
  shows "\<exists>ctx'. occlude_list cfg contains_simd_u32 dflt dist ctx view exclude options = Some (Inr ctx') \<and>
     length (al_edges (pc_neighbors ctx')) \<le> cf_pruned_degree cfg \<and>
     set (al_edges (pc_neighbors ctx')) \<subseteq> {i \<in> nbr_id ` set (pc_pool ctx). \<not> exclude i} \<and>
     (distinct (map nbr_id (pc_pool ctx)) \<longrightarrow> distinct (al_edges (pc_neighbors ctx'))) \<and>
     (po_force_saturate options \<longrightarrow> length (al_edges (pc_neighbors ctx')) < cf_pruned_degree cfg \<longrightarrow>
        set (al_edges (pc_neighbors ctx')) = {i \<in> nbr_id ` set (pc_pool ctx). \<not> exclude i})"
  by (rule simd_u32.occlude_list_spec [OF assms, of dflt dist view exclude options]) blast

definition sample_config :: config where
  "sample_config = \<lparr>cf_pruned_degree = 2, cf_max_degree = 3, cf_l_build = 5, cf_alpha = ALPHA,
     cf_prune_kind = TriangleInequality, cf_max_occlusion_size = 750, cf_max_backedges = 2,
     cf_max_minibatch_par = 1, cf_intra_batch_candidates = IbcAll, cf_saturate_after_prune = False,
     cf_experimental_insert_retry = None\<rparr>"

theorem occlude_list_correct_witness:
  "\<exists>ctx'. occlude_list sample_config contains_simd_u32 0 (\<lambda>_ _. f32_one)
       \<lparr>pc_pool = [Neighbor 3 f32_one, Neighbor 9 f32_one, Neighbor 4 f32_one], pc_states = [], pc_neighbors = al_new\<rparr>
       (\<lambda>i. Some ()) (\<lambda>i. i = 9) \<lparr>po_force_saturate = True\<rparr> = Some (Inr ctx') \<and>
     9 \<notin> set (al_edges (pc_neighbors ctx'))"
  using occlude_list_correct [of "\<lparr>pc_pool = [Neighbor 3 f32_one, Neighbor 9 f32_one, Neighbor 4 f32_one],
      pc_states = [], pc_neighbors = al_new\<rparr>" sample_config 0 "\<lambda>_ _. f32_one" "\<lambda>i. Some ()" "\<lambda>i. i = 9"
      "\<lparr>po_force_saturate = True\<rparr>"] ALPHA_bounds
  by (auto simp: sample_config_def)

end
