(* ===== verification/GraphSearch.thy ===== *)
theory GraphSearch
  imports NeighborQueue OutputBuffer
begin

text \<open>
  Graph search: the scratch space (\<open>graph/search/scratch.rs\<close>), the accessor interface
  (\<open>graph/glue.rs\<close>), the greedy beam search (\<open>search_internal\<close> in \<open>graph/index.rs\<close>) and the
  k-nearest-neighbor search on top of it (\<open>graph/search/knn_search.rs\<close>). The locales
  \<open>accessor_contract\<close> and \<open>graph_accessor\<close> say what an accessor promises; \<open>greedy_search\<close> and
  \<open>exact_search\<close> prove over them and over \<open>neighbor_queue\<close> that a search ends and is locally
  optimal: every vertex adjacent to a returned one has been evaluated, and is returned or no closer.
\<close>

section \<open>Errors\<close>

text \<open>A failed search: a panic, an error made with \<open>ANNError::message\<close>, or one of a provider.\<close>

datatype 'e ann_error =
    AnnPanic panic
  | AnnMessage string
  | AnnError 'e

type_synonym ('e, 'a) ann_result = "'e ann_error + 'a"

definition lift_panic :: "'a partial \<Rightarrow> ('e, 'a) ann_result" where
  "lift_panic r = (case r of Inl p \<Rightarrow> Inl (AnnPanic p) | Inr x \<Rightarrow> Inr x)"

lemma lift_panic_simps [simp]: "lift_panic (Inr x) = Inr x" "lift_panic (Inl p) = Inl (AnnPanic p)"
  by (simp_all add: lift_panic_def)

section \<open>Scratch space\<close>

record ('q, 'i) search_scratch =
  ss_best :: 'q
  ss_visited :: "'i set"
  ss_id_scratch :: "'i list"
  ss_beam_nodes :: "'i list"
  ss_range_frontier :: "'i list"
  ss_in_range :: "'i nbr list"
  ss_hops :: u32
  ss_cmps :: u32

datatype priority_queue_configuration =
    Fixed nat
  | Resizable nat

definition scratch_new :: "priority_queue_configuration \<Rightarrow> ('i npq, 'i) search_scratch" where
  "scratch_new nbest =
     \<lparr>ss_best = (case nbest of Fixed c \<Rightarrow> npq_new c
                            | Resizable c \<Rightarrow> npq_auto_resizable_with_search_param_l c),
      ss_visited = {}, ss_id_scratch = [], ss_beam_nodes = [], ss_range_frontier = [],
      ss_in_range = [], ss_hops = 0, ss_cmps = 0\<rparr>"

definition scratch_resize :: "('i npq, 'i) search_scratch \<Rightarrow> nat \<Rightarrow> ('i npq, 'i) search_scratch" where
  "scratch_resize s nbest = s\<lparr>ss_best := npq_reconfigure (ss_best s) nbest\<rparr>"

definition scratch_clear :: "('i npq, 'i) search_scratch \<Rightarrow> ('i npq, 'i) search_scratch" where
  "scratch_clear s = s\<lparr>ss_best := npq_clear (ss_best s), ss_visited := {}, ss_id_scratch := [],
     ss_beam_nodes := [], ss_in_range := [], ss_range_frontier := [], ss_hops := 0, ss_cmps := 0\<rparr>"

record search_scratch_params =
  sp_l_value :: nat
  sp_max_degree :: nat
  sp_num_frozen_pts :: nat

definition scratch_create :: "search_scratch_params \<Rightarrow> ('i npq, 'i) search_scratch" where
  "scratch_create p = scratch_new (Fixed (sp_l_value p + sp_num_frozen_pts p))"

definition scratch_modify ::
  "('i npq, 'i) search_scratch \<Rightarrow> search_scratch_params \<Rightarrow> ('i npq, 'i) search_scratch" where
  "scratch_modify s p =
     (let s = scratch_clear s in
      if pq_auto_resizable (ss_best s)
      then s\<lparr>ss_best := npq_new (sp_l_value p + sp_num_frozen_pts p)\<rparr>
      else s\<lparr>ss_best := npq_reconfigure (ss_best s) (sp_l_value p + sp_num_frozen_pts p)\<rparr>)"

text \<open>\<open>DiskANNIndex::search_scratch\<close> on a pool that may hold a scratch space of an earlier search.\<close>

definition search_scratch_of ::
  "('i npq, 'i) search_scratch option \<Rightarrow> nat \<Rightarrow> nat \<Rightarrow> nat \<Rightarrow> ('i npq, 'i) search_scratch" where
  "search_scratch_of pooled max_degree l additional =
     (let params = \<lparr>sp_l_value = l, sp_max_degree = max_degree, sp_num_frozen_pts = additional\<rparr>
      in case pooled of None \<Rightarrow> scratch_create params | Some s \<Rightarrow> scratch_modify s params)"

section \<open>Search records\<close>

text \<open>An implementation of \<open>SearchRecord\<close> is its \<open>record\<close> method.\<close>

type_synonym ('r, 'i) search_record = "'r \<Rightarrow> 'i nbr \<Rightarrow> u32 \<Rightarrow> u32 \<Rightarrow> 'r"

definition noop_record :: "(unit, 'i) search_record" where
  "noop_record r n hops cmps = ()"

definition visited_record :: "('i nbr list, 'i) search_record" where
  "visited_record visited n hops cmps = visited @ [n]"

record 'i recall_record =
  rr_groundtruth :: "'i list"
  rr_running_recall :: nat
  rr_hops :: "u32 list"
  rr_recall :: "nat list"

definition recall_record_new :: "'i list \<Rightarrow> 'i recall_record" where
  "recall_record_new groundtruth =
     \<lparr>rr_groundtruth = groundtruth, rr_running_recall = 0, rr_hops = [], rr_recall = []\<rparr>"

definition recall_record_push :: "'i recall_record \<Rightarrow> 'i nbr \<Rightarrow> u32 \<Rightarrow> 'i recall_record" where
  "recall_record_push r n hops =
     (let r = r\<lparr>rr_hops := rr_hops r @ [hops]\<rparr>;
          r = (if nbr_id n \<in> set (rr_groundtruth r)
               then r\<lparr>rr_running_recall := rr_running_recall r + 1\<rparr> else r)
      in r\<lparr>rr_recall := rr_recall r @ [rr_running_recall r]\<rparr>)"

definition recall_search_record :: "('i recall_record, 'i) search_record" where
  "recall_search_record r n hops cmps = recall_record_push r n hops"

section \<open>Accessors\<close>

text \<open>
  The trait \<open>SearchAccessor\<close> as the record of its methods on an accessor state \<open>'a\<close>. The
  callbacks of the source only collect, so \<open>start_point_distances\<close> and \<open>expand_beam\<close> return the
  neighbors they report, in order; \<open>expand_beam\<close> runs with the predicate \<open>NotInMut\<close> on the visited
  set, which it returns updated.
\<close>

record ('a, 'i, 'e) search_accessor =
  sa_starting_points :: "'a \<Rightarrow> ('e, 'i list) ann_result"
  sa_start_point_distances :: "'a \<Rightarrow> ('e, 'i nbr list \<times> 'a) ann_result"
  sa_expand_beam :: "'a \<Rightarrow> 'i list \<Rightarrow> 'i set \<Rightarrow> ('e, 'i nbr list \<times> 'i set \<times> 'a) ann_result"
  sa_terminate_early :: "'a \<Rightarrow> bool \<times> 'a"

definition not_in_eval :: "'i set \<Rightarrow> 'i \<Rightarrow> bool" where
  "not_in_eval visited item \<longleftrightarrow> item \<notin> visited"

definition not_in_eval_mut :: "'i set \<Rightarrow> 'i \<Rightarrow> bool \<times> 'i set" where
  "not_in_eval_mut visited item = (item \<notin> visited, insert item visited)"

definition is_not_start_point ::
  "('a, 'i, 'e) search_accessor \<Rightarrow> 'a \<Rightarrow> ('e, 'i \<Rightarrow> bool) ann_result" where
  "is_not_start_point A a =
     bind_result (sa_starting_points A a) (\<lambda>ids. let start = set ids in Inr (\<lambda>i. i \<notin> start))"

definition num_starting_points :: "('a, 'i, 'e) search_accessor \<Rightarrow> 'a \<Rightarrow> ('e, nat) ann_result" where
  "num_starting_points A a = bind_result (sa_starting_points A a) (\<lambda>ids. Inr (length ids))"

section \<open>The greedy beam search\<close>

record internal_search_stats =
  is_cmps :: u32
  is_hops :: u32
  is_range_search_second_round :: bool

record search_stats =
  st_cmps :: u32
  st_hops :: u32
  st_result_count :: u32
  st_range_search_second_round :: bool

definition stats_finish :: "internal_search_stats \<Rightarrow> u32 \<Rightarrow> search_stats" where
  "stats_finish s result_count = \<lparr>st_cmps = is_cmps s, st_hops = is_hops s,
     st_result_count = result_count, st_range_search_second_round = is_range_search_second_round s\<rparr>"

text \<open>The closure given to \<open>start_point_distances\<close>, for each start point.\<close>

fun add_start_points ::
  "('q, 'i) queue_ops \<Rightarrow> 'i nbr list \<Rightarrow> ('q, 'i) search_scratch \<Rightarrow> ('q, 'i) search_scratch partial" where
  "add_start_points Q [] s = Inr s"
| "add_start_points Q (n # ns) s =
     bind_result (qo_insert Q (ss_best s) n) (\<lambda>q.
     add_start_points Q ns
       (s\<lparr>ss_visited := insert (nbr_id n) (ss_visited s), ss_best := q, ss_cmps := ss_cmps s + 1\<rparr>))"

text \<open>The inner loop: at most \<open>n\<close> further nodes join the beam, which was cleared before.\<close>

fun take_beam ::
  "('q, 'i) queue_ops \<Rightarrow> ('r, 'i) search_record \<Rightarrow> nat \<Rightarrow> ('q, 'i) search_scratch \<Rightarrow> 'r \<Rightarrow>
   (('q, 'i) search_scratch \<times> 'r) partial" where
  "take_beam Q recorder 0 s r = Inr (s, r)"
| "take_beam Q recorder (Suc n) s r =
     bind_result (qo_closest_notvisited Q (ss_best s)) (\<lambda>(closest, q).
       let s = s\<lparr>ss_best := q\<rparr> in
       case closest of
         None \<Rightarrow> Inr (s, r)
       | Some c \<Rightarrow>
           take_beam Q recorder n (s\<lparr>ss_beam_nodes := ss_beam_nodes s @ [nbr_id c]\<rparr>)
             (recorder r c (ss_hops s) (ss_cmps s)))"

fun insert_all :: "('q, 'i) queue_ops \<Rightarrow> 'i nbr list \<Rightarrow> 'q \<Rightarrow> 'q partial" where
  "insert_all Q [] q = Inr q"
| "insert_all Q (n # ns) q = bind_result (qo_insert Q q n) (insert_all Q ns)"

text \<open>One iteration of the outer loop.\<close>

definition search_step ::
  "('a, 'i, 'e) search_accessor \<Rightarrow> ('q, 'i) queue_ops \<Rightarrow> ('r, 'i) search_record \<Rightarrow> nat \<Rightarrow>
   'a \<Rightarrow> ('q, 'i) search_scratch \<Rightarrow> 'r \<Rightarrow> ('e, 'a \<times> ('q, 'i) search_scratch \<times> 'r) ann_result" where
  "search_step A Q recorder beam_width a s r =
     bind_result (lift_panic (take_beam Q recorder beam_width (s\<lparr>ss_beam_nodes := []\<rparr>) r)) (\<lambda>(s, r).
     bind_result (sa_expand_beam A a (ss_beam_nodes s) (ss_visited s)) (\<lambda>(neighbors, visited, a).
     bind_result (lift_panic (insert_all Q neighbors (ss_best s))) (\<lambda>best.
     Inr (a, s\<lparr>ss_visited := visited, ss_best := best,
               ss_cmps := ss_cmps s + of_nat (length neighbors),
               ss_hops := ss_hops s + of_nat (length (ss_beam_nodes s))\<rparr>, r))))"

partial_function (option) search_loop ::
  "('a, 'i, 'e) search_accessor \<Rightarrow> ('q, 'i) queue_ops \<Rightarrow> ('r, 'i) search_record \<Rightarrow> nat \<Rightarrow>
   'a \<Rightarrow> ('q, 'i) search_scratch \<Rightarrow> 'r \<Rightarrow> ('e, 'a \<times> ('q, 'i) search_scratch \<times> 'r) ann_result option" where
  "search_loop A Q recorder beam_width a s r =
     (if \<not> qo_has_notvisited_node Q (ss_best s) then Some (Inr (a, s, r))
      else let (stop, a) = sa_terminate_early A a in
        if stop then Some (Inr (a, s, r))
        else case search_step A Q recorder beam_width a s r of
               Inl e \<Rightarrow> Some (Inl e)
             | Inr (a, s, r) \<Rightarrow> search_loop A Q recorder beam_width a s r)"

definition search_internal ::
  "('a, 'i, 'e) search_accessor \<Rightarrow> ('q, 'i) queue_ops \<Rightarrow> ('r, 'i) search_record \<Rightarrow> nat option \<Rightarrow>
   'a \<Rightarrow> ('q, 'i) search_scratch \<Rightarrow> 'r \<Rightarrow>
   ('e, internal_search_stats \<times> 'a \<times> ('q, 'i) search_scratch \<times> 'r) ann_result option" where
  "search_internal A Q recorder beam_width a s r =
     (let beam_width = (case beam_width of None \<Rightarrow> 1 | Some w \<Rightarrow> w);
          init = (if ss_visited s = {}
                  then bind_result (sa_start_point_distances A a) (\<lambda>(starts, a).
                       bind_result (lift_panic (add_start_points Q starts s)) (\<lambda>s. Inr (a, s)))
                  else Inr (a, s))
      in case init of
           Inl e \<Rightarrow> Some (Inl e)
         | Inr (a, s) \<Rightarrow>
             map_option (\<lambda>res. bind_result res (\<lambda>(a, s, r).
                 Inr (\<lparr>is_cmps = ss_cmps s, is_hops = ss_hops s, is_range_search_second_round = False\<rparr>, a, s, r)))
               (search_loop A Q recorder beam_width a s r))"

section \<open>The k-nearest-neighbor search\<close>

datatype knn_search_error = KnnBeamWidthZero | KnnLZero

record knn =
  knn_l_value :: nat
  knn_beam_width :: nat

definition knn_new :: "nat \<Rightarrow> nat option \<Rightarrow> knn_search_error + knn" where
  "knn_new l_value beam_width =
     (if l_value = 0 then Inl KnnLZero
      else case beam_width of
             Some bw \<Rightarrow> if bw = 0 then Inl KnnBeamWidthZero
                        else Inr \<lparr>knn_l_value = l_value, knn_beam_width = bw\<rparr>
           | None \<Rightarrow> Inr \<lparr>knn_l_value = l_value, knn_beam_width = 1\<rparr>)"

definition knn_new_default :: "nat \<Rightarrow> knn_search_error + knn" where
  "knn_new_default l_value = knn_new l_value None"

text \<open>
  The trait \<open>SearchPostProcess\<close>: the candidates go into an output buffer, and the number of
  results is returned.
\<close>

type_synonym ('a, 'i, 'o, 'e) post_process = "'a \<Rightarrow> 'i nbr list \<Rightarrow> 'o \<Rightarrow> ('e, nat \<times> 'a \<times> 'o) ann_result"

definition copy_ids :: "('o, 'i nbr) buffer_ops \<Rightarrow> ('a, 'i, 'o, 'e) post_process" where
  "copy_ids B a candidates out =
     bind_result (lift_panic (bo_extend B out candidates)) (\<lambda>(count, out). Inr (count, a, out))"

definition filter_start_points ::
  "('a, 'i, 'e) search_accessor \<Rightarrow> ('a, 'i, 'o, 'e) post_process \<Rightarrow> ('a, 'i, 'o, 'e) post_process" where
  "filter_start_points A next_step a candidates out =
     bind_result (is_not_start_point A a) (\<lambda>flt.
     next_step a (filter (\<lambda>n. flt (nbr_id n)) candidates) out)"

text \<open>
  \<open>RecordedKnn::search\<close>, of which \<open>Knn::search\<close> is the case with the empty record. The accessor that
  the strategy builds for the query is the argument \<open>mk\<close>.
\<close>

definition recorded_knn_search ::
  "knn \<Rightarrow> ('a, 'i, 'e) search_accessor \<Rightarrow> ('e, 'a) ann_result \<Rightarrow> ('i npq, 'i) search_scratch option \<Rightarrow> nat \<Rightarrow>
   ('a, 'i, 'o, 'e) post_process \<Rightarrow> ('r, 'i) search_record \<Rightarrow> 'r \<Rightarrow> 'o \<Rightarrow>
   ('e, search_stats \<times> 'o \<times> 'r) ann_result option" where
  "recorded_knn_search params A mk pooled max_degree processor recorder r out =
     (case bind_result mk (\<lambda>a. bind_result (num_starting_points A a) (\<lambda>k. Inr (a, k))) of
        Inl e \<Rightarrow> Some (Inl e)
      | Inr (a, num_start_ids) \<Rightarrow>
          map_option (\<lambda>res.
              bind_result res (\<lambda>(stats, a, s, r).
              bind_result (lift_panic (npq_iter (ss_best s))) (\<lambda>candidates.
              bind_result (processor a candidates out) (\<lambda>(result_count, a, out).
              Inr (stats_finish stats (of_nat result_count), out, r)))))
            (search_internal A npq_ops recorder (Some (knn_beam_width params)) a
               (search_scratch_of pooled max_degree (knn_l_value params) num_start_ids) r))"

definition knn_search ::
  "knn \<Rightarrow> ('a, 'i, 'e) search_accessor \<Rightarrow> ('e, 'a) ann_result \<Rightarrow> ('i npq, 'i) search_scratch option \<Rightarrow> nat \<Rightarrow>
   ('a, 'i, 'o, 'e) post_process \<Rightarrow> 'o \<Rightarrow> ('e, search_stats \<times> 'o) ann_result option" where
  "knn_search params A mk pooled max_degree processor out =
     map_option (\<lambda>res. bind_result res (\<lambda>(stats, out, r). Inr (stats, out)))
       (recorded_knn_search params A mk pooled max_degree processor noop_record () out)"

section \<open>Traversal of a queue\<close>

lemma distinct_submset:
  assumes "distinct ys" and "mset xs \<subseteq># mset ys"
  shows "distinct xs"
proof -
  from assms(2) obtain M where "mset ys = mset xs + M" by (metis subset_mset.add_diff_inverse)
  moreover obtain zs where "mset zs = M" by (metis ex_mset)
  ultimately have "mset ys = mset (xs @ zs)" by simp
  with assms(1) have "distinct (xs @ zs)" by (metis mset_eq_imp_distinct_iff)
  then show ?thesis by simp
qed

context neighbor_queue
begin

lemma insert_all_spec:
  "inv q \<Longrightarrow> \<exists>q'. insert_all Q ns q = Inr q' \<and> inv q' \<and>
     mset (entries q') \<subseteq># mset ns + mset (entries q) \<and> finished q' \<subseteq> finished q \<and>
     qo_search_l Q q' = qo_search_l Q q"
proof (induction ns arbitrary: q)
  case Nil
  then show ?case by simp
next
  case (Cons n ns)
  from insert_law [OF Cons.prems, of n] obtain q1 where q1: "qo_insert Q q n = Inr q1" "inv q1"
    "mset (entries q1) \<subseteq># add_mset n (mset (entries q))" "finished q1 \<subseteq> finished q"
    "qo_search_l Q q1 = qo_search_l Q q" by blast
  from Cons.IH [OF q1(2)] obtain q' where q': "insert_all Q ns q1 = Inr q'" "inv q'"
    "mset (entries q') \<subseteq># mset ns + mset (entries q1)" "finished q' \<subseteq> finished q1"
    "qo_search_l Q q' = qo_search_l Q q1" by blast
  have "mset (entries q') \<subseteq># mset ns + add_mset n (mset (entries q))"
    using q'(3) q1(3) by (meson subset_mset.add_left_mono subset_mset.order_trans)
  with q1 q' show ?case by auto
qed

lemma take_beam_spec:
  assumes "inv (ss_best s)"
  obtains q ys r' where "pending (ss_best s) = ys @ pending q" and "length ys = min n (length (pending (ss_best s)))"
    and "take_beam Q recorder n s r =
      Inr (s\<lparr>ss_best := q, ss_beam_nodes := ss_beam_nodes s @ map nbr_id ys\<rparr>, r')"
    and "r' = foldl (\<lambda>r c. recorder r c (ss_hops s) (ss_cmps s)) r ys"
    and "inv q" and "entries q = entries (ss_best s)" and "finished q \<subseteq> set ys \<union> finished (ss_best s)"
    and "qo_search_l Q q = qo_search_l Q (ss_best s)"
  using assms
proof (induction n arbitrary: s r thesis)
  case 0
  show ?case by (rule 0(1) [of "[]" "ss_best s" r]) (use 0(2) in simp_all)
next
  case (Suc n)
  show ?case
  proof (cases "pending (ss_best s)")
    case Nil
    have "s\<lparr>ss_best := ss_best s, ss_beam_nodes := ss_beam_nodes s @ []\<rparr> = s" by simp
    with closest_none_law [OF Suc.prems(2) Nil] Nil show ?thesis
      by (intro Suc.prems(1) [of "[]" "ss_best s" r]) (use Suc.prems(2) in \<open>simp_all add: Let_def\<close>)
  next
    case (Cons c cs)
    from closest_some_law [OF Suc.prems(2) Cons] obtain q1 where q1:
      "qo_closest_notvisited Q (ss_best s) = Inr (Some c, q1)" "inv q1" "pending q1 = cs"
      "entries q1 = entries (ss_best s)" "finished q1 \<subseteq> insert c (finished (ss_best s))"
      "qo_search_l Q q1 = qo_search_l Q (ss_best s)" by blast
    let ?s = "s\<lparr>ss_best := q1, ss_beam_nodes := ss_beam_nodes s @ [nbr_id c]\<rparr>"
    let ?r = "recorder r c (ss_hops s) (ss_cmps s)"
    obtain q ys r' where IH: "pending q1 = ys @ pending q" "length ys = min n (length (pending q1))"
      "take_beam Q recorder n ?s ?r = Inr (?s\<lparr>ss_best := q, ss_beam_nodes := ss_beam_nodes ?s @ map nbr_id ys\<rparr>, r')"
      "r' = foldl (\<lambda>r c. recorder r c (ss_hops ?s) (ss_cmps ?s)) ?r ys"
      "inv q" "entries q = entries q1" "finished q \<subseteq> set ys \<union> finished q1" "qo_search_l Q q = qo_search_l Q q1"
      by (rule Suc.IH [of ?s ?r]) (use q1 in simp_all)
    show ?thesis
      by (rule Suc.prems(1) [of "c # ys" q r']) (use IH q1 Cons in \<open>auto simp: Let_def\<close>)
  qed
qed

lemma add_start_points_spec:
  assumes "inv (ss_best s)"
  shows "\<exists>q. add_start_points Q ns s =
      Inr (s\<lparr>ss_visited := ss_visited s \<union> nbr_id ` set ns, ss_best := q,
             ss_cmps := ss_cmps s + of_nat (length ns)\<rparr>) \<and> insert_all Q ns (ss_best s) = Inr q"
  using assms
proof (induction ns arbitrary: s)
  case Nil
  then show ?case by simp
next
  case (Cons n ns)
  from insert_law [OF Cons.prems, of n] obtain q1 where q1: "qo_insert Q (ss_best s) n = Inr q1" "inv q1"
    by blast
  let ?s = "s\<lparr>ss_visited := insert (nbr_id n) (ss_visited s), ss_best := q1, ss_cmps := ss_cmps s + 1\<rparr>"
  from Cons.IH [of ?s] q1 obtain q where
    "add_start_points Q ns ?s = Inr (?s\<lparr>ss_visited := ss_visited ?s \<union> nbr_id ` set ns, ss_best := q,
             ss_cmps := ss_cmps ?s + of_nat (length ns)\<rparr>)" "insert_all Q ns q1 = Inr q" by auto
  with q1 show ?case by (intro exI [of _ q]) (simp add: add.assoc Un_commute)
qed

end

section \<open>The accessor contract\<close>

text \<open>
  What the trait documents of an accessor on a finite graph whose ids lie in \<open>U\<close>: the predicate decides
  what is reported, so nothing already visited is reported and nothing twice. Reported neighbors may be
  fewer than the graph has.
\<close>

locale accessor_contract =
  fixes A :: "('a, 'i, 'e) search_accessor" and ok :: "'a \<Rightarrow> bool" and U :: "'i set"
  assumes finite_ids: "finite U"
    and start_law: "ok a \<Longrightarrow> sa_start_point_distances A a = Inr (ns, a') \<Longrightarrow>
      ok a' \<and> distinct (map nbr_id ns) \<and> nbr_id ` set ns \<subseteq> U"
    and expand_law: "ok a \<Longrightarrow> sa_expand_beam A a ids visited = Inr (ns, visited', a') \<Longrightarrow>
      ok a' \<and> visited \<subseteq> visited' \<and> visited' \<subseteq> visited \<union> U \<and> distinct (map nbr_id ns) \<and>
      nbr_id ` set ns \<subseteq> visited' - visited"
    and stop_law: "ok a \<Longrightarrow> ok (snd (sa_terminate_early A a))"

text \<open>
  The invariant of a running search: the entries of the queue have pairwise different ids, and all of
  them have been visited.
\<close>

definition search_state_ok ::
  "('a \<Rightarrow> bool) \<Rightarrow> ('q \<Rightarrow> bool) \<Rightarrow> ('q \<Rightarrow> 'i nbr list) \<Rightarrow> 'i set \<Rightarrow> 'a \<Rightarrow> ('q, 'i) search_scratch \<Rightarrow> bool" where
  "search_state_ok ok I entries U a s \<longleftrightarrow> ok a \<and> I (ss_best s) \<and> ss_visited s \<subseteq> U \<and>
     distinct (map nbr_id (entries (ss_best s))) \<and> nbr_id ` set (entries (ss_best s)) \<subseteq> ss_visited s"

text \<open>The two interfaces a search stands on.\<close>

locale greedy_search =
  neighbor_queue Q inv entries pending finished + accessor_contract A ok U
  for Q :: "('q, 'i) queue_ops" and inv entries pending finished
    and A :: "('a, 'i, 'e) search_accessor" and ok U
begin

abbreviation search_ok :: "'a \<Rightarrow> ('q, 'i) search_scratch \<Rightarrow> bool" where
  "search_ok \<equiv> search_state_ok ok inv entries U"

lemma fresh_entries:
  assumes "distinct (map nbr_id es)" "distinct (map nbr_id ns)" "mset es' \<subseteq># mset ns + mset es"
    and "nbr_id ` set es \<subseteq> V" "nbr_id ` set ns \<subseteq> V' - V" "V \<subseteq> V'"
  shows "distinct (map nbr_id es')" and "nbr_id ` set es' \<subseteq> V'"
proof -
  have "set (map nbr_id ns) \<inter> set (map nbr_id es) = {}" using assms(4,5) by auto
  with assms(1,2) have "distinct (map nbr_id (ns @ es))" by simp
  moreover have sub: "mset es' \<subseteq># mset (ns @ es)" using assms(3) by simp
  then have "mset (map nbr_id es') \<subseteq># mset (map nbr_id (ns @ es))"
    unfolding mset_map by (rule image_mset_subseteq_mono)
  ultimately show "distinct (map nbr_id es')" by (rule distinct_submset)
  have "set es' \<subseteq> set ns \<union> set es" using set_mset_mono [OF sub] by auto
  with assms(4-6) show "nbr_id ` set es' \<subseteq> V'" by blast
qed

text \<open>One iteration, taken apart.\<close>

lemma search_step_cases:
  assumes "search_ok a s" and "pending (ss_best s) \<noteq> []" and "0 < bw"
  obtains (failed) e ids where "search_step A Q recorder bw a s r = Inl e"
      "sa_expand_beam A a ids (ss_visited s) = Inl e" "set ids \<subseteq> nbr_id ` set (entries (ss_best s))"
  | (stepped) ys q ns visited' a' q' s' r' where
      "search_step A Q recorder bw a s r = Inr (a', s', r')" "ys \<noteq> []"
      "pending (ss_best s) = ys @ pending q" "inv q" "entries q = entries (ss_best s)"
      "finished q \<subseteq> set ys \<union> finished (ss_best s)"
      "sa_expand_beam A a (map nbr_id ys) (ss_visited s) = Inr (ns, visited', a')"
      "insert_all Q ns q = Inr q'"
      "s' = s\<lparr>ss_beam_nodes := map nbr_id ys, ss_visited := visited', ss_best := q',
              ss_cmps := ss_cmps s + of_nat (length ns), ss_hops := ss_hops s + of_nat (length ys)\<rparr>"
      "r' = foldl (\<lambda>r c. recorder r c (ss_hops s) (ss_cmps s)) r ys" "search_ok a' s'"
      "qo_search_l Q q' = qo_search_l Q (ss_best s)" "finished q' \<subseteq> finished q"
proof -
  have inv: "ok a" "inv (ss_best s)" using assms(1) by (simp_all add: search_state_ok_def)
  let ?s = "s\<lparr>ss_beam_nodes := []\<rparr>"
  obtain q ys r' where b: "pending (ss_best s) = ys @ pending q" "length ys = min bw (length (pending (ss_best s)))"
    "take_beam Q recorder bw ?s r = Inr (?s\<lparr>ss_best := q, ss_beam_nodes := ss_beam_nodes ?s @ map nbr_id ys\<rparr>, r')"
    "r' = foldl (\<lambda>r c. recorder r c (ss_hops s) (ss_cmps s)) r ys"
    "inv q" "entries q = entries (ss_best s)" "finished q \<subseteq> set ys \<union> finished (ss_best s)"
    "qo_search_l Q q = qo_search_l Q (ss_best s)"
    by (rule take_beam_spec [of ?s bw recorder r]) (use inv in simp_all)
  have ys: "ys \<noteq> []" using b(2) assms(2,3) by (cases "pending (ss_best s)") auto
  show thesis
  proof (cases "sa_expand_beam A a (map nbr_id ys) (ss_visited s)")
    case (Inl e)
    have "set ys \<subseteq> set (entries (ss_best s))" using pending_law [OF inv(2)] b(1) by auto
    then have "set (map nbr_id ys) \<subseteq> nbr_id ` set (entries (ss_best s))" by auto
    moreover have "search_step A Q recorder bw a s r = Inl e" using b(3) Inl by (simp add: search_step_def)
    ultimately show ?thesis using Inl by (intro failed)
  next
    case (Inr res)
    obtain ns visited' a' where res: "res = (ns, visited', a')" by (cases res) auto
    note e = expand_law [OF inv(1) Inr [unfolded res]]
    from insert_all_spec [OF b(5), of ns] obtain q' where q': "insert_all Q ns q = Inr q'" "inv q'"
      "mset (entries q') \<subseteq># mset ns + mset (entries q)" "finished q' \<subseteq> finished q"
      "qo_search_l Q q' = qo_search_l Q q" by blast
    let ?t = "s\<lparr>ss_beam_nodes := map nbr_id ys, ss_visited := visited', ss_best := q',
              ss_cmps := ss_cmps s + of_nat (length ns), ss_hops := ss_hops s + of_nat (length ys)\<rparr>"
    have "search_step A Q recorder bw a s r = Inr (a', ?t, r')"
      using b(3) Inr res q'(1) by (simp add: search_step_def)
    moreover have "search_ok a' ?t"
    proof -
      have o: "distinct (map nbr_id (entries q))" "nbr_id ` set (entries q) \<subseteq> ss_visited s" "ss_visited s \<subseteq> U"
        using assms(1) unfolding search_state_ok_def b(6) by blast+
      have e': "distinct (map nbr_id ns)" "nbr_id ` set ns \<subseteq> visited' - ss_visited s"
        "ss_visited s \<subseteq> visited'" "visited' \<subseteq> U" "ok a'"
        using e o(3) by blast+
      from fresh_entries [OF o(1) e'(1) q'(3) o(2) e'(2,3)] e'(4,5) q'(2) show ?thesis
        by (simp add: search_state_ok_def)
    qed
    ultimately show ?thesis
      by (rule stepped [OF _ ys b(1,5,6,7) Inr [unfolded res] q'(1) refl b(4)])
        (simp_all only: q'(4,5) b(8))
  qed
qed

end

context greedy_search
begin

lemma search_step_measure:
  assumes "search_ok a s" and "pending (ss_best s) \<noteq> []" and "0 < bw"
    and "search_step A Q recorder bw a s r = Inr (a', s', r')"
  shows "((card (U - ss_visited s'), length (pending (ss_best s'))),
          (card (U - ss_visited s), length (pending (ss_best s)))) \<in> less_than <*lex*> less_than"
  using assms(1-3)
proof (cases rule: search_step_cases [where recorder = recorder and r = r])
  case (failed e)
  with assms(4) show ?thesis by simp
next
  case (stepped ys q ns visited' a'' q' s'' r'')
  have s'': "s' = s''" using stepped(1) assms(4) by simp
  have sel: "ss_visited s' = visited'" "ss_best s' = q'" by (simp_all add: s'' stepped(9))
  have ok: "ok a" using assms(1) by (simp add: search_state_ok_def)
  note e = expand_law [OF ok stepped(7)]
  show ?thesis
  proof (cases "visited' = ss_visited s")
    case True
    with e have "ns = []" by auto
    with stepped(2,3,8) True sel show ?thesis by simp
  next
    case False
    have "visited' \<subseteq> U" using stepped(11) sel s'' by (simp add: search_state_ok_def)
    with e False have "U - visited' \<subset> U - ss_visited s" by blast
    then have "card (U - visited') < card (U - ss_visited s)"
      by (intro psubset_card_mono finite_Diff finite_ids)
    with sel show ?thesis by simp
  qed
qed

text \<open>How a search that started well can end: failed inside the accessor, stopped early, or complete.\<close>

definition search_outcome ::
  "('a \<Rightarrow> ('q, 'i) search_scratch \<Rightarrow> 'r \<Rightarrow> bool) \<Rightarrow> ('e, 'a \<times> ('q, 'i) search_scratch \<times> 'r) ann_result option \<Rightarrow> bool" where
  "search_outcome P res \<longleftrightarrow> (case res of
     None \<Rightarrow> False
   | Some (Inl e) \<Rightarrow> (\<exists>a s r ids. search_ok a s \<and> P a s r \<and> set ids \<subseteq> nbr_id ` set (entries (ss_best s)) \<and>
       sa_expand_beam A a ids (ss_visited s) = Inl e)
   | Some (Inr (a, s, r)) \<Rightarrow> search_ok a s \<and> P a s r \<and>
       (pending (ss_best s) = [] \<or> (\<exists>a0. ok a0 \<and> fst (sa_terminate_early A a0))))"

lemma search_loop_outcome:
  assumes "search_ok a s" and "P a s r" and "0 < bw"
    and step: "\<forall>a s r a' s' r'. search_ok a s \<longrightarrow> P a s r \<longrightarrow> pending (ss_best s) \<noteq> [] \<longrightarrow>
      search_step A Q recorder bw a s r = Inr (a', s', r') \<longrightarrow> P a' s' r'"
    and stop: "\<forall>a s r. search_ok a s \<longrightarrow> P a s r \<longrightarrow> P (snd (sa_terminate_early A a)) s r"
  shows "search_outcome P (search_loop A Q recorder bw a s r)"
  using assms(1,2)
proof (induction "(card (U - ss_visited s), length (pending (ss_best s)))" arbitrary: a s r
    rule: wf_induct_rule [OF wf_lex_prod [OF wf_less_than wf_less_than]])
  case (1 s a r)
  have ok: "ok a" "inv (ss_best s)" using 1(2) by (simp_all add: search_state_ok_def)
  show ?case
  proof (cases "pending (ss_best s) = []")
    case True
    with ok(2) 1(2,3) show ?thesis
      by (subst search_loop.simps) (simp add: has_law search_outcome_def)
  next
    case False
    obtain st a1 where t: "sa_terminate_early A a = (st, a1)" by (cases "sa_terminate_early A a")
    have ok1: "search_ok a1 s" using stop_law [OF ok(1)] 1(2) t by (simp add: search_state_ok_def)
    have P1: "P a1 s r" using stop 1(2,3) t by (metis snd_conv)
    have loop: "search_loop A Q recorder bw a s r = (if st then Some (Inr (a1, s, r)) else
        case search_step A Q recorder bw a1 s r of Inl e \<Rightarrow> Some (Inl e)
        | Inr (a, s, r) \<Rightarrow> search_loop A Q recorder bw a s r)"
      using False by (subst search_loop.simps) (simp add: has_law [OF ok(2)] t)
    show ?thesis
    proof (cases st)
      case True
      moreover have "fst (sa_terminate_early A a)" using t True by simp
      ultimately show ?thesis using ok1 P1 ok(1) unfolding loop by (auto simp: search_outcome_def)
    next
      case nstop: False
      show ?thesis
      using ok1 False assms(3)
      proof (cases rule: search_step_cases [where recorder = recorder and r = r])
        case (failed e ids)
        with ok1 P1 nstop show ?thesis unfolding loop by (auto simp: search_outcome_def)
      next
        case (stepped ys q ns visited' a' q' s' r')
        have "search_outcome P (search_loop A Q recorder bw a' s' r')"
          using search_step_measure [OF ok1 False assms(3) stepped(1)] stepped(11)
            step [rule_format, OF ok1 P1 False stepped(1)]
          by (rule 1(1))
        with nstop stepped(1) show ?thesis unfolding loop by simp
      qed
    qed
  qed
qed

end

section \<open>Closest candidates\<close>

text \<open>
  \<open>kept l es r\<close>: the candidate \<open>r\<close> is in the list, or \<open>l\<close> members are at least as close, so that
  \<open>r\<close> is not missing among the best \<open>l\<close>.
\<close>

definition kept :: "nat \<Rightarrow> 'i nbr list \<Rightarrow> 'i nbr \<Rightarrow> bool" where
  "kept l es r \<longleftrightarrow> r \<in> set es \<or> l \<le> length (filter (\<lambda>m. by_distance m r) es)"

lemma by_distance_trans: "by_distance x y \<Longrightarrow> by_distance y z \<Longrightarrow> by_distance x z"
  by (simp add: by_distance_def)

lemma kept_best:
  assumes "sorted_wrt by_distance es" and "kept l es r"
  shows "r \<in> set (take l es) \<or> l \<le> length es \<and> (\<forall>m \<in> set (take l es). by_distance m r)"
proof (cases "r \<in> set es")
  case True
  then obtain k where k: "k < length es" "es ! k = r" by (auto simp: in_set_conv_nth)
  show ?thesis
  proof (cases "k < l")
    case True
    with k show ?thesis by (auto simp: in_set_conv_nth)
  next
    case False
    have "by_distance (es ! i) r" if "i < l" for i
      using sorted_wrt_nth_less [OF assms(1), of i k] that False k by auto
    with False k show ?thesis by (auto simp: in_set_conv_nth)
  qed
next
  case False
  with assms(2) have l: "l \<le> length (filter (\<lambda>m. by_distance m r) es)" by (simp add: kept_def)
  have "by_distance (es ! i) r" if i: "i < l" "i < length es" for i
  proof (rule ccontr)
    assume no: "\<not> by_distance (es ! i) r"
    have "\<not> by_distance (es ! j) r" if "i \<le> j" "j < length es" for j
      using no sorted_wrt_nth_less [OF assms(1), of i j] that by_distance_trans by (cases "i = j") auto
    then have "filter (\<lambda>m. by_distance m r) (drop i es) = []"
      by (auto simp: filter_empty_conv in_set_conv_nth)
    then have "filter (\<lambda>m. by_distance m r) es = filter (\<lambda>m. by_distance m r) (take i es)"
      by (metis append.right_neutral append_take_drop_id filter_append)
    then have "length (filter (\<lambda>m. by_distance m r) es) \<le> i"
      by (simp add: order_trans [OF length_filter_le])
    with l i show False by simp
  qed
  moreover have "l \<le> length es" using l length_filter_le le_trans by blast
  ultimately show ?thesis by (auto simp: in_set_conv_nth)
qed

context neighbor_queue
begin

lemma insert_kept:
  assumes inv: "inv q" and ins: "qo_insert Q q n = Inr q'"
    and "r = n \<and> \<not> f32_is_nan (nbr_distance n) \<or> kept (qo_search_l Q q) (entries q) r"
  shows "kept (qo_search_l Q q') (entries q') r"
proof (cases "f32_is_nan (nbr_distance n)")
  case True
  with nan_law [OF inv True] ins assms(3) show ?thesis by auto
next
  case nan: False
  let ?D = "add_mset n (mset (entries q)) - mset (entries q')"
  let ?le = "\<lambda>m. by_distance m r"
  from insert_law [OF inv, of n] ins have sub: "mset (entries q') \<subseteq># add_mset n (mset (entries q))"
    and l: "qo_search_l Q q' = qo_search_l Q q" by auto
  have all: "kept (qo_search_l Q q') (entries q') r" if "x \<in># ?D" "by_distance x r" for x
  proof -
    from best_law [OF inv ins nan that(1)] that(2)
    have "filter ?le (entries q') = entries q'" "qo_search_l Q q' \<le> length (entries q')"
      by (auto simp: filter_id_conv intro: by_distance_trans)
    then show ?thesis by (simp add: kept_def)
  qed
  show ?thesis
  proof (cases "\<exists>x \<in># ?D. by_distance x r")
    case True
    with all show ?thesis by blast
  next
    case False
    then have D: "filter_mset ?le ?D = {#}" by (intro multiset_eqI) (auto simp: not_in_iff)
    have eq: "add_mset n (mset (entries q)) = mset (entries q') + ?D" using sub by simp
    have in': "r \<in> set (entries q')" if "r \<in># add_mset n (mset (entries q))"
    proof -
      have "r \<notin># ?D" using False by (auto simp: by_distance_def)
      with that show ?thesis by (subst (asm) eq) auto
    qed
    consider "r \<in># add_mset n (mset (entries q))" | "qo_search_l Q q \<le> length (filter ?le (entries q))"
      using assms(3) by (auto simp: kept_def)
    then show ?thesis
    proof cases
      case 1
      with in' show ?thesis by (simp add: kept_def)
    next
      case 2
      have "filter_mset ?le (mset (entries q')) = filter_mset ?le (add_mset n (mset (entries q)))"
        unfolding arg_cong [OF eq, of "filter_mset ?le"] filter_union_mset D by simp
      then have "size (filter_mset ?le (mset (entries q))) \<le> size (filter_mset ?le (mset (entries q')))"
        by simp
      with 2 l show ?thesis by (simp add: kept_def mset_filter [symmetric] del: mset_filter)
    qed
  qed
qed

lemma insert_all_kept:
  assumes "inv q" and "insert_all Q ns q = Inr q'"
    and "r \<in> set ns \<and> \<not> f32_is_nan (nbr_distance r) \<or> kept (qo_search_l Q q) (entries q) r"
  shows "kept (qo_search_l Q q') (entries q') r"
  using assms
proof (induction ns arbitrary: q)
  case Nil
  then show ?case by simp
next
  case (Cons n ns)
  from insert_law [OF Cons.prems(1), of n] obtain q1 where q1: "qo_insert Q q n = Inr q1" "inv q1" by blast
  with Cons.prems(2) have rest: "insert_all Q ns q1 = Inr q'" by simp
  show ?case
    using Cons.prems(3) insert_kept [OF Cons.prems(1) q1(1), of r]
    by (intro Cons.IH [OF q1(2) rest]) auto
qed

end

section \<open>Local optimality\<close>

text \<open>
  An accessor that reports everything the graph \<open>nbrs\<close> has, at the distances \<open>dist\<close>, and does not
  ask to stop. A vertex without a distance is one that cannot be read (it was deleted, or its id is
  out of bounds).
\<close>

locale graph_accessor = accessor_contract A ok U
  for A :: "('a, 'i, 'e) search_accessor" and ok U +
  fixes starts :: "'i set" and nbrs :: "'i \<Rightarrow> 'i set" and dist :: "'i \<Rightarrow> f32 option"
  assumes points_exact: "ok a \<Longrightarrow> \<exists>ids. sa_starting_points A a = Inr ids \<and> set ids = starts"
    and start_exact: "ok a \<Longrightarrow> \<exists>ns a'. sa_start_point_distances A a = Inr (ns, a') \<and>
      nbr_id ` set ns = starts \<and> (\<forall>n \<in> set ns. dist (nbr_id n) = Some (nbr_distance n))"
    and expand_exact: "ok a \<Longrightarrow> set ids \<subseteq> dom dist \<Longrightarrow> \<exists>ns a'. sa_expand_beam A a ids visited =
        Inr (ns, visited \<union> (\<Union>i \<in> set ids. nbrs i), a') \<and>
      set ns = {Neighbor j d | j d. j \<in> (\<Union>i \<in> set ids. nbrs i) - visited \<and> dist j = Some d}"
    and no_stop: "ok a \<Longrightarrow> \<not> fst (sa_terminate_early A a)"

text \<open>
  What a search has explored: the start points and everything adjacent to a finished entry are visited,
  the entries carry their distances, and no visited vertex is missing among the best \<open>l\<close>.
\<close>

definition explored_state ::
  "('q, 'i) queue_ops \<Rightarrow> ('q \<Rightarrow> 'i nbr list) \<Rightarrow> ('q \<Rightarrow> 'i nbr set) \<Rightarrow> 'i set \<Rightarrow> ('i \<Rightarrow> 'i set) \<Rightarrow> ('i \<Rightarrow> f32 option) \<Rightarrow>
   nat \<Rightarrow> ('q, 'i) search_scratch \<Rightarrow> bool" where
  "explored_state Q entries finished starts nbrs dist l s \<longleftrightarrow>
     qo_search_l Q (ss_best s) = l \<and> starts \<subseteq> ss_visited s \<and>
     (\<forall>n \<in> finished (ss_best s). nbrs (nbr_id n) \<subseteq> ss_visited s) \<and>
     (\<forall>n \<in> set (entries (ss_best s)). dist (nbr_id n) = Some (nbr_distance n)) \<and>
     (\<forall>j \<in> ss_visited s. \<forall>d. dist j = Some d \<longrightarrow> \<not> f32_is_nan d \<longrightarrow> kept l (entries (ss_best s)) (Neighbor j d))"

locale exact_search = neighbor_queue Q inv entries pending finished + graph_accessor A ok U starts nbrs dist
  for Q :: "('q, 'i) queue_ops" and inv entries pending finished
    and A :: "('a, 'i, 'e) search_accessor" and ok U starts nbrs dist

sublocale exact_search \<subseteq> greedy_search Q inv entries pending finished A ok U
  by unfold_locales

context exact_search
begin

abbreviation explored :: "nat \<Rightarrow> ('q, 'i) search_scratch \<Rightarrow> bool" where
  "explored \<equiv> explored_state Q entries finished starts nbrs dist"

lemma explored_step:
  assumes ok: "search_ok a s" and ex: "explored l s" and ne: "pending (ss_best s) \<noteq> []" and bw: "0 < bw"
    and st: "search_step A Q recorder bw a s r = Inr (a', s', r')"
  shows "explored l s'"
  using ok ne bw
proof (cases rule: search_step_cases [where recorder = recorder and r = r])
  case (failed e)
  with st show ?thesis by simp
next
  case (stepped ys q ns visited' a'' q' s'' r'')
  have s'': "s' = s''" using stepped(1) st by simp
  have sel: "ss_visited s' = visited'" "ss_best s' = q'" by (simp_all add: s'' stepped(9))
  have oka: "ok a" using ok by (simp add: search_state_ok_def)
  let ?N = "\<Union>i \<in> set (map nbr_id ys). nbrs i"
  have "set ys \<subseteq> set (entries (ss_best s))"
    using pending_law [of "ss_best s"] ok stepped(3) by (auto simp: search_state_ok_def)
  then have "set (map nbr_id ys) \<subseteq> dom dist" using ex by (auto simp: explored_state_def)
  from expand_exact [OF oka this, of "ss_visited s"] stepped(7)
  have v: "visited' = ss_visited s \<union> ?N"
    and ns: "set ns = {Neighbor j d | j d. j \<in> ?N - ss_visited s \<and> dist j = Some d}" by auto
  from insert_all_spec [OF stepped(4), of ns] stepped(8)
  have sub: "mset (entries q') \<subseteq># mset ns + mset (entries q)" by auto
  have mem: "set (entries q') \<subseteq> set ns \<union> set (entries (ss_best s))"
    using set_mset_mono [OF sub] stepped(5) by auto
  have lq: "qo_search_l Q q = l"
    using stepped(8,12) insert_all_spec [OF stepped(4), of ns] ex by (auto simp: explored_state_def)
  have lq': "qo_search_l Q q' = l" using stepped(12) ex by (simp add: explored_state_def)
  have "kept l (entries q') (Neighbor j d)"
    if "j \<in> visited'" "dist j = Some d" "\<not> f32_is_nan d" for j d
  proof -
    have "Neighbor j d \<in> set ns \<and> \<not> f32_is_nan (nbr_distance (Neighbor j d)) \<or>
        kept (qo_search_l Q q) (entries q) (Neighbor j d)"
    proof (cases "j \<in> ss_visited s")
      case True
      with ex that(2,3) show ?thesis unfolding lq stepped(5) by (simp add: explored_state_def)
    next
      case False
      with that v have "Neighbor j d \<in> set ns" unfolding ns by blast
      with that(3) show ?thesis by simp
    qed
    from insert_all_kept [OF stepped(4,8) this] lq' show ?thesis by simp
  qed
  moreover have "nbrs (nbr_id n) \<subseteq> visited'" if "n \<in> finished q'" for n
  proof -
    from that stepped(6,13) have "n \<in> set ys \<or> n \<in> finished (ss_best s)" by blast
    then show ?thesis using ex by (auto simp: v explored_state_def)
  qed
  moreover have "dist (nbr_id n) = Some (nbr_distance n)" if "n \<in> set (entries q')" for n
  proof -
    from that mem have "n \<in> set ns \<or> n \<in> set (entries (ss_best s))" by blast
    then show ?thesis using ex by (auto simp: ns explored_state_def)
  qed
  moreover have "starts \<subseteq> visited'" using ex v by (auto simp: explored_state_def)
  ultimately show ?thesis unfolding explored_state_def sel lq' by blast
qed

lemma search_loop_explored:
  assumes "search_ok a s" and "explored l s" and "0 < bw"
  shows "\<exists>a' s' r'. search_loop A Q recorder bw a s r = Some (Inr (a', s', r')) \<and>
     search_ok a' s' \<and> explored l s' \<and> pending (ss_best s') = []"
proof -
  have "search_outcome (\<lambda>a s r. explored l s) (search_loop A Q recorder bw a s r)"
  proof (rule search_loop_outcome)
    show "\<forall>a s r a' s' r'. search_ok a s \<longrightarrow> explored l s \<longrightarrow> pending (ss_best s) \<noteq> [] \<longrightarrow>
      search_step A Q recorder bw a s r = Inr (a', s', r') \<longrightarrow> explored l s'"
      by (intro allI impI) (rule explored_step [OF _ _ _ assms(3)])
  qed (use assms in simp_all)
  note out = this
  show ?thesis
  proof (cases "search_loop A Q recorder bw a s r")
    case None
    with out show ?thesis by (simp add: search_outcome_def)
  next
    case (Some res)
    show ?thesis
    proof (cases res)
      case (Inl e)
      with out Some obtain a1 s1 ids where o: "search_ok a1 s1" "explored l s1"
        "set ids \<subseteq> nbr_id ` set (entries (ss_best s1))" "sa_expand_beam A a1 ids (ss_visited s1) = Inl e"
        by (auto simp: search_outcome_def)
      then have "ok a1" "set ids \<subseteq> dom dist" by (auto simp: search_state_ok_def explored_state_def)
      with expand_exact [of a1 ids "ss_visited s1"] o(4) show ?thesis by auto
    next
      case (Inr t)
      obtain a' s' r' where t: "t = (a', s', r')" by (cases t) auto
      with out Some Inr no_stop show ?thesis by (auto simp: search_outcome_def)
    qed
  qed
qed

lemma start_explored:
  assumes "ok a" and inv: "inv (ss_best s)" and "entries (ss_best s) = []" and "finished (ss_best s) = {}"
    and "ss_visited s = {}"
  obtains ns a1 s1 where "sa_start_point_distances A a = Inr (ns, a1)" and "add_start_points Q ns s = Inr s1"
    and "search_ok a1 s1" and "explored (qo_search_l Q (ss_best s)) s1"
proof -
  from start_exact [OF assms(1)] obtain ns a1 where st: "sa_start_point_distances A a = Inr (ns, a1)"
    "nbr_id ` set ns = starts" "\<forall>n \<in> set ns. dist (nbr_id n) = Some (nbr_distance n)" by blast
  note law = start_law [OF assms(1) st(1)]
  from add_start_points_spec [OF inv, of ns] obtain q where q: "add_start_points Q ns s =
      Inr (s\<lparr>ss_visited := ss_visited s \<union> nbr_id ` set ns, ss_best := q,
             ss_cmps := ss_cmps s + of_nat (length ns)\<rparr>)" "insert_all Q ns (ss_best s) = Inr q" by blast
  let ?s = "s\<lparr>ss_visited := ss_visited s \<union> nbr_id ` set ns, ss_best := q,
             ss_cmps := ss_cmps s + of_nat (length ns)\<rparr>"
  from insert_all_spec [OF inv, of ns] q(2) assms(3,4) have q': "inv q" "mset (entries q) \<subseteq># mset ns"
    "finished q = {}" "qo_search_l Q q = qo_search_l Q (ss_best s)" by auto
  have sub: "set (entries q) \<subseteq> set ns" using set_mset_mono [OF q'(2)] by simp
  have dist: "distinct (map nbr_id (entries q))"
  proof (rule distinct_submset)
    show "distinct (map nbr_id ns)" using law by blast
    show "mset (map nbr_id (entries q)) \<subseteq># mset (map nbr_id ns)"
      unfolding mset_map by (rule image_mset_subseteq_mono [OF q'(2)])
  qed
  have ok: "search_ok a1 ?s" using law q'(1) dist sub assms(5) by (auto simp: search_state_ok_def)
  have "explored (qo_search_l Q (ss_best s)) ?s"
  proof -
    have "kept (qo_search_l Q q) (entries q) (Neighbor j d)"
      if "j \<in> nbr_id ` set ns" "dist j = Some d" "\<not> f32_is_nan d" for j d
    proof -
      from that st(3) have "Neighbor j d \<in> set ns" by (auto simp: neighbor.expand)
      with that(3) show ?thesis by (intro insert_all_kept [OF inv q(2)]) simp
    qed
    with q' sub st(2,3) assms(5) show ?thesis by (auto simp: explored_state_def)
  qed
  with st(1) q(1) ok show thesis by (rule that)
qed

lemma search_internal_explored:
  assumes "ok a" and inv: "inv (ss_best s)" and "entries (ss_best s) = []" and "finished (ss_best s) = {}"
    and "ss_visited s = {}" and "0 < bw"
  shows "\<exists>stats a' s' r'. search_internal A Q recorder (Some bw) a s r = Some (Inr (stats, a', s', r')) \<and>
     search_ok a' s' \<and> explored (qo_search_l Q (ss_best s)) s' \<and> pending (ss_best s') = []"
proof -
  from assms(1-5) obtain ns a1 s1 where st: "sa_start_point_distances A a = Inr (ns, a1)"
    "add_start_points Q ns s = Inr s1" "search_ok a1 s1" "explored (qo_search_l Q (ss_best s)) s1"
    by (rule start_explored)
  from search_loop_explored [OF st(3,4) assms(6), of recorder r]
  obtain a' s' r' where "search_loop A Q recorder bw a1 s1 r = Some (Inr (a', s', r'))"
     "search_ok a' s'" "explored (qo_search_l Q (ss_best s)) s'" "pending (ss_best s') = []"
    by (elim exE conjE) (rule that)
  with st(1,2) assms(5) show ?thesis by (simp add: search_internal_def)
qed

text \<open>What a complete search returns: its best entries, closed under one more step of the graph.\<close>

lemma explored_result:
  assumes "search_ok a s" and "explored l s" and "pending (ss_best s) = []"
  shows "qo_iter Q (ss_best s) = Inr (take l (entries (ss_best s)))"
    and "sorted_wrt by_distance (take l (entries (ss_best s)))"
    and "distinct (map nbr_id (take l (entries (ss_best s))))"
    and "\<forall>n \<in> set (take l (entries (ss_best s))). dist (nbr_id n) = Some (nbr_distance n)"
    and "\<forall>j \<in> starts \<union> (\<Union>n \<in> set (take l (entries (ss_best s))). nbrs (nbr_id n)). \<forall>d.
      dist j = Some d \<longrightarrow> \<not> f32_is_nan d \<longrightarrow>
        Neighbor j d \<in> set (take l (entries (ss_best s))) \<or>
        length (take l (entries (ss_best s))) = l \<and>
        (\<forall>m \<in> set (take l (entries (ss_best s))). by_distance m (Neighbor j d))"
proof -
  let ?es = "entries (ss_best s)"
  have inv: "inv (ss_best s)" using assms(1) by (simp add: search_state_ok_def)
  have l: "qo_search_l Q (ss_best s) = l" using assms(2) by (simp add: explored_state_def)
  show "qo_iter Q (ss_best s) = Inr (take l ?es)" using iter_law [OF inv] l by simp
  show "sorted_wrt by_distance (take l ?es)" using sorted_law [OF inv] by (simp add: sorted_wrt_take)
  show "distinct (map nbr_id (take l ?es))" using assms(1) by (simp add: search_state_ok_def take_map [symmetric] distinct_take)
  show "\<forall>n \<in> set (take l ?es). dist (nbr_id n) = Some (nbr_distance n)"
    using assms(2) by (auto simp: explored_state_def dest: in_set_takeD)
  show "\<forall>j \<in> starts \<union> (\<Union>n \<in> set (take l ?es). nbrs (nbr_id n)). \<forall>d.
      dist j = Some d \<longrightarrow> \<not> f32_is_nan d \<longrightarrow>
        Neighbor j d \<in> set (take l ?es) \<or>
        length (take l ?es) = l \<and> (\<forall>m \<in> set (take l ?es). by_distance m (Neighbor j d))"
  proof (intro ballI allI impI)
    fix j d assume j: "j \<in> starts \<union> (\<Union>n \<in> set (take l ?es). nbrs (nbr_id n))"
      and d: "dist j = Some d" "\<not> f32_is_nan d"
    have "set (take l ?es) \<subseteq> finished (ss_best s)" using cover_law [OF inv] l assms(3) by simp
    with j assms(2) have "j \<in> ss_visited s" by (auto simp: explored_state_def)
    with d assms(2) have "kept l ?es (Neighbor j d)" by (simp add: explored_state_def)
    from kept_best [OF sorted_law [OF inv] this]
    show "Neighbor j d \<in> set (take l ?es) \<or>
        length (take l ?es) = l \<and> (\<forall>m \<in> set (take l ?es). by_distance m (Neighbor j d))" by auto
  qed
qed

end

section \<open>Recorded searches\<close>

context greedy_search
begin

definition recorded :: "('q, 'i) search_scratch \<Rightarrow> 'i nbr list \<Rightarrow> bool" where
  "recorded s r \<longleftrightarrow> finished (ss_best s) \<subseteq> set r \<and> ss_hops s = of_nat (length r)"

lemma foldl_visited_record: "foldl (\<lambda>r c. visited_record r c h k) r ys = r @ ys"
  by (induction ys arbitrary: r) (simp_all add: visited_record_def)

lemma search_loop_recorded:
  assumes "search_ok a s" and "recorded s r" and "0 < bw"
    and "search_loop A Q visited_record bw a s r = Some (Inr (a', s', r'))"
  shows "recorded s' r'"
proof -
  have step: "\<forall>a s r a' s' r'. search_ok a s \<longrightarrow> recorded s r \<longrightarrow> pending (ss_best s) \<noteq> [] \<longrightarrow>
      search_step A Q visited_record bw a s r = Inr (a', s', r') \<longrightarrow> recorded s' r'"
  proof (intro allI impI)
    fix a s r a' s' r'
    assume ok: "search_ok a s" and rec: "recorded s r" and ne: "pending (ss_best s) \<noteq> []"
      and st: "search_step A Q visited_record bw a s r = Inr (a', s', r')"
    from ok ne assms(3) show "recorded s' r'"
    proof (cases rule: search_step_cases [where recorder = visited_record and r = r])
      case (failed e)
      with st show ?thesis by simp
    next
      case (stepped ys q ns visited' a'' q' s'' r'')
      have eq: "s' = s''" "r' = r @ ys" using stepped(1,10) st by (simp_all add: foldl_visited_record)
      have sel: "ss_best s' = q'" "ss_hops s' = ss_hops s + of_nat (length ys)"
        by (simp_all add: eq stepped(9))
      have "finished q' \<subseteq> set ys \<union> finished (ss_best s)" using stepped(6,13) by blast
      with rec show ?thesis unfolding recorded_def sel eq(2) by auto
    qed
  qed
  have "search_outcome (\<lambda>a s r. recorded s r) (search_loop A Q visited_record bw a s r)"
    by (rule search_loop_outcome [OF assms(1) _ assms(3) step]) (use assms(2) in simp_all)
  with assms(4) show ?thesis by (simp add: search_outcome_def)
qed

end


context greedy_search
begin

lemma search_internal_recorded:
  assumes "ok a" and inv: "inv (ss_best s)" and "entries (ss_best s) = []" and "finished (ss_best s) = {}"
    and "ss_visited s = {}" and "ss_hops s = 0" and "0 < bw"
    and run: "search_internal A Q visited_record (Some bw) a s [] = Some (Inr (stats, a', s', r'))"
  shows "recorded s' r'" and "is_hops stats = ss_hops s'"
proof -
  from run assms(5) obtain ns a1 where st: "sa_start_point_distances A a = Inr (ns, a1)"
    by (cases "sa_start_point_distances A a") (auto simp: search_internal_def)
  from add_start_points_spec [OF inv, of ns] obtain q where q: "add_start_points Q ns s =
      Inr (s\<lparr>ss_visited := ss_visited s \<union> nbr_id ` set ns, ss_best := q,
             ss_cmps := ss_cmps s + of_nat (length ns)\<rparr>)" "insert_all Q ns (ss_best s) = Inr q" by blast
  let ?s = "s\<lparr>ss_visited := ss_visited s \<union> nbr_id ` set ns, ss_best := q,
             ss_cmps := ss_cmps s + of_nat (length ns)\<rparr>"
  from insert_all_spec [OF inv, of ns] q(2) assms(3,4) have q': "inv q" "mset (entries q) \<subseteq># mset ns + mset []"
    "finished q = {}" by auto
  note law = start_law [OF assms(1) st]
  have ok: "search_ok a1 ?s"
    using law q'(1) fresh_entries [OF _ _ q'(2), of "{}" "nbr_id ` set ns"] assms(5)
    by (simp add: search_state_ok_def)
  have rec: "recorded ?s []" using q'(3) assms(6) by (simp add: recorded_def)
  from run st q(1) assms(5) have "search_loop A Q visited_record bw a1 ?s [] = Some (Inr (a', s', r'))"
    and "is_hops stats = ss_hops s'"
    by (auto simp: search_internal_def bind_result_Inr)
  from search_loop_recorded [OF ok rec assms(7) this(1)] this(2)
  show "recorded s' r'" "is_hops stats = ss_hops s'" .
qed

end

section \<open>Scratch spaces and parameters\<close>

lemma search_scratch_of_eq: "search_scratch_of pooled md l k = scratch_new (Fixed (l + k))"
  by (cases pooled)
    (simp_all add: search_scratch_of_def scratch_create_def scratch_modify_def scratch_clear_def
      scratch_new_def npq_new_def npq_reconfigure_def npq_clear_def Let_def)

lemma npq_new_fresh:
  "0 < l \<Longrightarrow> npq_inv (npq_new l)" "npq_done (npq_new l) = {}" "qo_search_l npq_ops (npq_new l) = l"
  by (simp_all add: npq_inv_def npq_new_wf cursor_ok_prefix npq_done_def)
    (simp_all add: npq_new_def npq_ops_def)

lemma knn_new_pos:
  "knn_new l bw = Inr params \<Longrightarrow> knn_l_value params = l \<and> 0 < l \<and> 0 < knn_beam_width params"
  by (auto simp: knn_new_def split: if_splits option.splits)

text \<open>
  C29. A scratch space from the pool is as good as a new one: whatever an earlier search left in it, and
  whether its queue was fixed or resizable, \<open>modify\<close> makes it equal to a freshly created one.
\<close>

theorem search_scratch_reuse:
  "search_scratch_of (Some s) max_degree l additional = search_scratch_of None max_degree l additional"
  by (simp add: search_scratch_of_eq)

end
