(* ===== verification/InmemSearch.thy ===== *)
theory InmemSearch
  imports GraphSearch
begin

text \<open>
  Search over the in-memory provider (\<open>diskann-inmem/src/provider.rs\<close>): its accessor, which fills the
  accessor contract exactly, and its post-processor \<open>Translate\<close>. The interpretation \<open>inmem_knn\<close>
  carries the results of \<open>exact_search\<close> to the queue and accessor the program runs with.
\<close>

section \<open>The in-memory accessor\<close>

text \<open>
  \<open>SearchAccessor\<close> of the in-memory provider. What it reads of the store (adjacency lists, vectors)
  and the distance to the query are fields; the scratch list and the counters, which only serve
  integration tests, are not state that a call leaves behind.
\<close>

record ('v, 'e) inmem_accessor =
  ia_neighbors :: "u32 \<Rightarrow> ('e, u32 list) ann_result"
  ia_len :: nat
  ia_read :: "nat \<Rightarrow> 'v option"
  ia_evaluate :: "'v \<Rightarrow> ('e, f32) ann_result"
  ia_buffer_len :: nat
  ia_start_points :: "u32 \<times> u32"

definition inmem_starting_points :: "('v, 'e) inmem_accessor \<Rightarrow> u32 list" where
  "inmem_starting_points a =
     map of_nat [unat (fst (ia_start_points a)) ..< unat (snd (ia_start_points a))]"

definition inmem_read :: "('v, 'e) inmem_accessor \<Rightarrow> nat \<Rightarrow> 'v option" where
  "inmem_read a i = (if i < ia_len a then ia_read a i else None)"

fun inmem_start_distances ::
  "('v, 'e) inmem_accessor \<Rightarrow> u32 list \<Rightarrow> ('e, u32 nbr list) ann_result" where
  "inmem_start_distances a [] = Inr []"
| "inmem_start_distances a (p # ps) =
     (case inmem_read a (unat p) of
        Some point \<Rightarrow>
          bind_result (ia_evaluate a point) (\<lambda>d.
          bind_result (inmem_start_distances a ps) (\<lambda>ns. Inr (Neighbor p d # ns)))
      | None \<Rightarrow> Inl (AnnMessage ''could not retrieve start point''))"

text \<open>\<open>self.ids.retain(|i| pred.eval_mut(i) && self.reader.is_in_bounds(i))\<close>.\<close>

fun retain_unvisited :: "(u32 \<Rightarrow> bool) \<Rightarrow> u32 list \<Rightarrow> u32 set \<Rightarrow> u32 list \<times> u32 set" where
  "retain_unvisited in_bounds [] visited = ([], visited)"
| "retain_unvisited in_bounds (i # ids) visited =
     (let (fresh, visited) = not_in_eval_mut visited i;
          (kept, visited) = retain_unvisited in_bounds ids visited
      in (if fresh \<and> in_bounds i then i # kept else kept, visited))"

text \<open>\<open>expand_beam_inner\<close>: the processed prefix of the buffer; prefetching has no effect.\<close>

fun expand_beam_inner ::
  "('v, 'e) inmem_accessor \<Rightarrow> u32 list \<Rightarrow> ('e, u32 nbr list) ann_result" where
  "expand_beam_inner a [] = Inr []"
| "expand_beam_inner a (i # ids) =
     (case ia_read a (unat i) of
        Some data \<Rightarrow>
          bind_result (ia_evaluate a data) (\<lambda>d.
          bind_result (expand_beam_inner a ids) (\<lambda>ns. Inr (Neighbor i d # ns)))
      | None \<Rightarrow> expand_beam_inner a ids)"

fun inmem_expand_beam ::
  "('v, 'e) inmem_accessor \<Rightarrow> u32 list \<Rightarrow> u32 set \<Rightarrow> ('e, u32 nbr list \<times> u32 set) ann_result" where
  "inmem_expand_beam a [] visited = Inr ([], visited)"
| "inmem_expand_beam a (i # ids) visited =
     bind_result (ia_neighbors a i) (\<lambda>list.
     let (list, visited) = retain_unvisited (\<lambda>j. unat j < ia_len a) list visited in
     if ia_buffer_len a < length list then Inl (AnnPanic AssertFailed)
     else bind_result (expand_beam_inner a list) (\<lambda>ns.
          bind_result (inmem_expand_beam a ids visited) (\<lambda>(rest, visited).
          Inr (ns @ rest, visited))))"

definition inmem_ops :: "(('v, 'e) inmem_accessor, u32, 'e) search_accessor" where
  "inmem_ops =
     \<lparr>sa_starting_points = (\<lambda>a. Inr (inmem_starting_points a)),
      sa_start_point_distances = (\<lambda>a.
        bind_result (inmem_start_distances a (inmem_starting_points a)) (\<lambda>ns. Inr (ns, a))),
      sa_expand_beam = (\<lambda>a ids visited.
        bind_result (inmem_expand_beam a ids visited) (\<lambda>(ns, visited). Inr (ns, visited, a))),
      sa_terminate_early = (\<lambda>a. (False, a))\<rparr>"

text \<open>
  \<open>Translate::post_process\<close> of the in-memory provider: candidates get their external id and are
  pushed until the buffer is full.
\<close>

fun translate_loop ::
  "('o, 'm nbr) buffer_ops \<Rightarrow> (u32 \<Rightarrow> 'm option) \<Rightarrow> u32 nbr list \<Rightarrow> nat \<Rightarrow> 'o \<Rightarrow> (nat \<times> 'o) partial" where
  "translate_loop B to_external [] n out = Inr (n, out)"
| "translate_loop B to_external (c # candidates) n out =
     (case to_external (nbr_id c) of
        Some ext \<Rightarrow>
          bind_result (bo_push B out (Neighbor ext (nbr_distance c))) (\<lambda>(state, out).
          if is_available state then translate_loop B to_external candidates (n + 1) out
          else Inr (n, out))
      | None \<Rightarrow> translate_loop B to_external candidates n out)"

definition translate ::
  "('o, 'm nbr) buffer_ops \<Rightarrow> (u32 \<Rightarrow> 'm option) \<Rightarrow> ('a, u32, 'o, 'e) post_process" where
  "translate B to_external a candidates out =
     bind_result (lift_panic (translate_loop B to_external candidates 0 out)) (\<lambda>(n, out). Inr (n, a, out))"

section \<open>The in-memory accessor satisfies the contract\<close>

definition inmem_nbrs :: "('v, 'e) inmem_accessor \<Rightarrow> u32 \<Rightarrow> u32 set" where
  "inmem_nbrs a i = (case ia_neighbors a i of Inr list \<Rightarrow> set list | Inl e \<Rightarrow> {})"

definition inmem_dist :: "('v, 'e) inmem_accessor \<Rightarrow> u32 \<Rightarrow> f32 option" where
  "inmem_dist a j = (case inmem_read a (unat j) of
     Some v \<Rightarrow> (case ia_evaluate a v of Inr d \<Rightarrow> Some d | Inl e \<Rightarrow> None) | None \<Rightarrow> None)"

text \<open>
  A store in working order: the adjacency list of every slot can be read and fits the buffer, the
  distance function does not fail on what is stored, and the start points can be read.
\<close>

definition inmem_ok :: "('v, 'e) inmem_accessor \<Rightarrow> bool" where
  "inmem_ok a \<longleftrightarrow>
     (\<forall>i. unat i < ia_len a \<longrightarrow> (\<exists>list. ia_neighbors a i = Inr list \<and> length list \<le> ia_buffer_len a)) \<and>
     (\<forall>i v. ia_read a i = Some v \<longrightarrow> (\<exists>d. ia_evaluate a v = Inr d)) \<and>
     (\<forall>p \<in> set (inmem_starting_points a). inmem_read a (unat p) \<noteq> None)"

lemma retain_unvisited_spec:
  assumes "retain_unvisited p ids visited = (ids', visited')"
  shows "visited' = visited \<union> set ids" "distinct ids'" "set ids' = {i \<in> set ids - visited. p i}"
    and "length ids' \<le> length ids"
proof -
  have "visited' = visited \<union> set ids \<and> distinct ids' \<and> set ids' = {i \<in> set ids - visited. p i} \<and>
      length ids' \<le> length ids"
    using assms
  proof (induction ids arbitrary: visited ids' visited')
    case Nil
    then show ?case by simp
  next
    case (Cons i ids)
    obtain k v where r: "retain_unvisited p ids (insert i visited) = (k, v)" by fastforce
    note IH = Cons.IH [OF r]
    from Cons.prems r have "visited' = v" "ids' = (if i \<notin> visited \<and> p i then i # k else k)"
      by (simp_all add: not_in_eval_mut_def split: prod.splits)
    with IH show ?case by auto
  qed
  then show "visited' = visited \<union> set ids" "distinct ids'" "set ids' = {i \<in> set ids - visited. p i}"
    "length ids' \<le> length ids" by blast+
qed

lemma expand_beam_inner_spec:
  assumes "expand_beam_inner a ids = Inr ns" and "\<forall>i \<in> set ids. unat i < ia_len a"
  shows "set ns = {Neighbor j d | j d. j \<in> set ids \<and> inmem_dist a j = Some d}"
    and "distinct ids \<Longrightarrow> distinct (map nbr_id ns)"
proof -
  have "set ns = {Neighbor j d | j d. j \<in> set ids \<and> inmem_dist a j = Some d} \<and>
      (distinct ids \<longrightarrow> distinct (map nbr_id ns))"
    using assms
  proof (induction ids arbitrary: ns)
    case Nil
    then show ?case by simp
  next
    case (Cons i ids)
    show ?case
    proof (cases "ia_read a (unat i)")
      case None
      with Cons have "inmem_dist a i = None" by (simp add: inmem_dist_def inmem_read_def)
      with None Cons show ?thesis by auto
    next
      case (Some v)
      from Cons.prems(1) Some obtain d rest where d: "ia_evaluate a v = Inr d"
        "expand_beam_inner a ids = Inr rest" "ns = Neighbor i d # rest"
        by (auto simp: bind_result_def split: sum.splits)
      have id: "inmem_dist a i = Some d" using Some d Cons.prems(2) by (simp add: inmem_dist_def inmem_read_def)
      have IH: "set rest = {Neighbor j d | j d. j \<in> set ids \<and> inmem_dist a j = Some d}"
        "distinct ids \<Longrightarrow> distinct (map nbr_id rest)"
        using Cons.IH [OF d(2)] Cons.prems(2) by auto
      have "i \<notin> set (map nbr_id rest)" if "i \<notin> set ids" using that by (auto simp: IH(1))
      with IH id d(3) show ?thesis by auto
    qed
  qed
  then show "set ns = {Neighbor j d | j d. j \<in> set ids \<and> inmem_dist a j = Some d}"
    "distinct ids \<Longrightarrow> distinct (map nbr_id ns)" by blast+
qed

lemma inmem_dist_bounds: "inmem_dist a j = Some d \<Longrightarrow> unat j < ia_len a"
  by (auto simp: inmem_dist_def inmem_read_def split: if_splits)

lemma inmem_expand_beam_spec:
  assumes "inmem_expand_beam a ids visited = Inr (ns, visited')"
  shows "visited' = visited \<union> (\<Union>i \<in> set ids. inmem_nbrs a i)"
    and "set ns = {Neighbor j d | j d. j \<in> (\<Union>i \<in> set ids. inmem_nbrs a i) - visited \<and> inmem_dist a j = Some d}"
    and "distinct (map nbr_id ns)"
proof -
  have "visited' = visited \<union> (\<Union>i \<in> set ids. inmem_nbrs a i) \<and>
      set ns = {Neighbor j d | j d. j \<in> (\<Union>i \<in> set ids. inmem_nbrs a i) - visited \<and> inmem_dist a j = Some d} \<and>
      distinct (map nbr_id ns)"
    using assms
  proof (induction ids arbitrary: visited ns)
    case Nil
    then show ?case by simp
  next
    case (Cons i ids)
    from Cons.prems obtain list where l: "ia_neighbors a i = Inr list" by (auto simp: bind_result_def split: sum.splits)
    obtain k v where r: "retain_unvisited (\<lambda>j. unat j < ia_len a) list visited = (k, v)" by fastforce
    from Cons.prems l r obtain n1 n2 where n: "expand_beam_inner a k = Inr n1"
      "inmem_expand_beam a ids v = Inr (n2, visited')" "ns = n1 @ n2"
      by (auto simp: bind_result_def split: sum.splits if_splits)
    note R = retain_unvisited_spec [OF r]
    have nb: "inmem_nbrs a i = set list" by (simp add: inmem_nbrs_def l)
    have E1: "set n1 = {Neighbor j d | j d. j \<in> set list - visited \<and> inmem_dist a j = Some d}"
      and D1: "distinct (map nbr_id n1)"
      using expand_beam_inner_spec [OF n(1)] R(2,3) by (auto dest: inmem_dist_bounds)
    from Cons.IH [OF n(2)] have IH: "visited' = v \<union> (\<Union>i \<in> set ids. inmem_nbrs a i)"
      "set n2 = {Neighbor j d | j d. j \<in> (\<Union>i \<in> set ids. inmem_nbrs a i) - v \<and> inmem_dist a j = Some d}"
      "distinct (map nbr_id n2)" by blast+
    have "nbr_id ` set n1 \<inter> nbr_id ` set n2 = {}" unfolding E1 IH(2) R(1) by auto
    then have "distinct (map nbr_id ns)" using D1 IH(3) n(3) by simp
    moreover have "set ns = {Neighbor j d | j d. j \<in> (\<Union>i \<in> set (i # ids). inmem_nbrs a i) - visited \<and> inmem_dist a j = Some d}"
      unfolding n(3) set_append E1 IH(2) R(1) by (auto simp: nb)
    ultimately show ?case using IH(1) R(1) by (auto simp: nb)
  qed
  then show "visited' = visited \<union> (\<Union>i \<in> set ids. inmem_nbrs a i)"
    "set ns = {Neighbor j d | j d. j \<in> (\<Union>i \<in> set ids. inmem_nbrs a i) - visited \<and> inmem_dist a j = Some d}"
    "distinct (map nbr_id ns)" by blast+
qed

lemma inmem_expand_beam_total:
  assumes "inmem_ok a" and "\<forall>i \<in> set ids. unat i < ia_len a"
  shows "\<exists>ns visited'. inmem_expand_beam a ids visited = Inr (ns, visited')"
  using assms(2)
proof (induction ids arbitrary: visited)
  case Nil
  then show ?case by simp
next
  case (Cons i ids)
  from assms(1) Cons.prems obtain list where l: "ia_neighbors a i = Inr list" "length list \<le> ia_buffer_len a"
    by (auto simp: inmem_ok_def)
  obtain k v where r: "retain_unvisited (\<lambda>j. unat j < ia_len a) list visited = (k, v)" by fastforce
  have "\<exists>ns. expand_beam_inner a xs = Inr ns" for xs
  proof (induction xs)
    case (Cons x xs)
    show ?case
    proof (cases "ia_read a (unat x)")
      case (Some v)
      from assms(1) Some obtain d where "ia_evaluate a v = Inr d" unfolding inmem_ok_def by blast
      with Some Cons show ?thesis by auto
    qed (use Cons in simp)
  qed simp
  then obtain n1 where n1: "expand_beam_inner a k = Inr n1" by blast
  from Cons obtain n2 v' where "inmem_expand_beam a ids v = Inr (n2, v')" by fastforce
  moreover have "\<not> ia_buffer_len a < length k" using retain_unvisited_spec(4) [OF r] l(2) by simp
  ultimately show ?case using l(1) r n1 by simp
qed

lemma inmem_starting_points_distinct: "distinct (inmem_starting_points a)"
proof -
  have "inj_on (of_nat :: nat \<Rightarrow> u32) {..< 2 ^ 32}"
    by (rule inj_on_inverseI [of _ unat]) (simp add: unat_of_nat)
  moreover have "{unat (fst (ia_start_points a)) ..< unat (snd (ia_start_points a))} \<subseteq> {..< 2 ^ 32}"
    using unsigned_less [of "snd (ia_start_points a)"] by (auto intro: less_trans)
  ultimately show ?thesis by (simp add: inmem_starting_points_def distinct_map inj_on_subset)
qed

lemma inmem_start_distances_spec:
  assumes "inmem_start_distances a ps = Inr ns"
  shows "map nbr_id ns = ps" "\<forall>n \<in> set ns. inmem_dist a (nbr_id n) = Some (nbr_distance n)"
proof -
  have "map nbr_id ns = ps \<and> (\<forall>n \<in> set ns. inmem_dist a (nbr_id n) = Some (nbr_distance n))"
    using assms
  proof (induction ps arbitrary: ns)
    case (Cons p ps)
    from Cons.prems obtain v d rest where "inmem_read a (unat p) = Some v" "ia_evaluate a v = Inr d"
      "inmem_start_distances a ps = Inr rest" "ns = Neighbor p d # rest"
      by (auto simp: bind_result_def split: sum.splits option.splits)
    with Cons.IH show ?case by (auto simp: inmem_dist_def)
  qed simp
  then show "map nbr_id ns = ps" "\<forall>n \<in> set ns. inmem_dist a (nbr_id n) = Some (nbr_distance n)" by blast+
qed

lemma inmem_start_distances_total:
  assumes "inmem_ok a" and "set ps \<subseteq> set (inmem_starting_points a)"
  shows "\<exists>ns. inmem_start_distances a ps = Inr ns"
  using assms(2)
proof (induction ps)
  case (Cons p ps)
  from assms(1) Cons.prems obtain v d where "inmem_read a (unat p) = Some v" "ia_evaluate a v = Inr d"
    by (fastforce simp: inmem_ok_def inmem_read_def split: if_splits)
  with Cons show ?case by auto
qed simp

interpretation inmem: graph_accessor inmem_ops "\<lambda>a. a = a0 \<and> inmem_ok a0" UNIV
    "set (inmem_starting_points a0)" "inmem_nbrs a0" "inmem_dist a0" for a0 :: "('v, 'e) inmem_accessor"
proof
  show "finite (UNIV :: u32 set)" by simp
next
  fix a a' :: "('v, 'e) inmem_accessor" and ns ids visited visited'
  assume a: "a = a0 \<and> inmem_ok a0"
  show "(a' = a0 \<and> inmem_ok a0) \<and> distinct (map nbr_id ns) \<and> nbr_id ` set ns \<subseteq> UNIV"
    if "sa_start_point_distances inmem_ops a = Inr (ns, a')"
  proof -
    from that a have s: "inmem_start_distances a0 (inmem_starting_points a0) = Inr ns" "a' = a0"
      by (auto simp: inmem_ops_def bind_result_def split: sum.splits)
    have "distinct (map nbr_id ns)"
      unfolding inmem_start_distances_spec(1) [OF s(1)] by (rule inmem_starting_points_distinct)
    with a s(2) show ?thesis by simp
  qed
  show "(a' = a0 \<and> inmem_ok a0) \<and> visited \<subseteq> visited' \<and> visited' \<subseteq> visited \<union> UNIV \<and>
      distinct (map nbr_id ns) \<and> nbr_id ` set ns \<subseteq> visited' - visited"
    if "sa_expand_beam inmem_ops a ids visited = Inr (ns, visited', a')"
  proof -
    from that a have "inmem_expand_beam a0 ids visited = Inr (ns, visited')" "a' = a0"
      by (auto simp: inmem_ops_def bind_result_def split: sum.splits)
    with inmem_expand_beam_spec [OF this(1)] a show ?thesis by auto
  qed
  show "snd (sa_terminate_early inmem_ops a) = a0 \<and> inmem_ok a0" using a by (simp add: inmem_ops_def)
  show "\<exists>ids. sa_starting_points inmem_ops a = Inr ids \<and> set ids = set (inmem_starting_points a0)"
    using a by (simp add: inmem_ops_def)
  show "\<exists>ns a'. sa_start_point_distances inmem_ops a = Inr (ns, a') \<and>
      nbr_id ` set ns = set (inmem_starting_points a0) \<and>
      (\<forall>n \<in> set ns. inmem_dist a0 (nbr_id n) = Some (nbr_distance n))"
  proof -
    from inmem_start_distances_total [of a0 "inmem_starting_points a0"] a obtain ns
      where ns: "inmem_start_distances a0 (inmem_starting_points a0) = Inr ns" by auto
    from inmem_start_distances_spec [OF this] have "set (map nbr_id ns) = set (inmem_starting_points a0)" by simp
    with inmem_start_distances_spec(2) [OF ns] a ns show ?thesis by (simp add: inmem_ops_def)
  qed
  show "\<exists>ns a'. sa_expand_beam inmem_ops a ids visited =
        Inr (ns, visited \<union> (\<Union>i \<in> set ids. inmem_nbrs a0 i), a') \<and>
      set ns = {Neighbor j d | j d. j \<in> (\<Union>i \<in> set ids. inmem_nbrs a0 i) - visited \<and> inmem_dist a0 j = Some d}"
    if "set ids \<subseteq> dom (inmem_dist a0)"
  proof -
    have "\<forall>i \<in> set ids. unat i < ia_len a0" using that by (auto dest: inmem_dist_bounds)
    with inmem_expand_beam_total [of a0 ids visited] a obtain ns v where
      e: "inmem_expand_beam a0 ids visited = Inr (ns, v)" by auto
    from inmem_expand_beam_spec(1,2) [OF e] e a show ?thesis by (simp add: inmem_ops_def)
  qed
  show "\<not> fst (sa_terminate_early inmem_ops a)" by (simp add: inmem_ops_def)
qed

interpretation inmem_knn: exact_search npq_ops npq_inv npq_entries npq_pending npq_done
    inmem_ops "\<lambda>a. a = a0 \<and> inmem_ok a0" UNIV
    "set (inmem_starting_points a0)" "inmem_nbrs a0" "inmem_dist a0" for a0 :: "('v, 'e) inmem_accessor"
  by unfold_locales

abbreviation inmem_search_ok ::
  "('v, 'e) inmem_accessor \<Rightarrow> ('v, 'e) inmem_accessor \<Rightarrow> (u32 npq, u32) search_scratch \<Rightarrow> bool" where
  "inmem_search_ok a \<equiv> search_state_ok (\<lambda>b. b = a \<and> inmem_ok a) npq_inv npq_entries UNIV"

abbreviation inmem_explored :: "('v, 'e) inmem_accessor \<Rightarrow> nat \<Rightarrow> (u32 npq, u32) search_scratch \<Rightarrow> bool" where
  "inmem_explored a \<equiv> explored_state npq_ops npq_entries npq_done (set (inmem_starting_points a))
     (inmem_nbrs a) (inmem_dist a)"

text \<open>A search on the in-memory provider, with everything known about how it ends.\<close>

lemma inmem_search_internal:
  fixes a :: "('v, 'e) inmem_accessor"
  assumes "inmem_ok a" and "0 < l" and "0 < bw"
  obtains stats s r where
    "search_internal inmem_ops npq_ops recorder (Some bw) a (scratch_new (Fixed l)) r0 = Some (Inr (stats, a, s, r))"
    and "inmem_search_ok a a s" and "inmem_explored a l s" and "npq_pending (ss_best s) = []"
proof -
  have fresh: "ss_best (scratch_new (Fixed l)) = npq_new l" "ss_visited (scratch_new (Fixed l)) = {}"
    by (simp_all add: scratch_new_def)
  have "\<exists>stats a' s' r'.
      search_internal inmem_ops npq_ops recorder (Some bw) a (scratch_new (Fixed l)) r0 = Some (Inr (stats, a', s', r')) \<and>
      inmem_search_ok a a' s' \<and> inmem_explored a l s' \<and> npq_pending (ss_best s') = []"
    using inmem_knn.search_internal_explored [of a a "scratch_new (Fixed l)" bw recorder r0]
    unfolding fresh npq_new_fresh(3) using assms by (simp add: npq_new_fresh(1,2) npq_new_wf(3))
  then obtain stats a' s' r' where r:
      "search_internal inmem_ops npq_ops recorder (Some bw) a (scratch_new (Fixed l)) r0 = Some (Inr (stats, a', s', r'))"
      "inmem_search_ok a a' s'" "inmem_explored a l s'" "npq_pending (ss_best s') = []"
    by (elim exE conjE) (rule that)
  have "a' = a" using r(2) by (simp add: search_state_ok_def)
  with r show thesis by (intro that) simp_all
qed

lemma idd_push_room:
  assumes "length (idd_ids b) = length (idd_distances b)" and "idd_position b < idd_capacity b"
  obtains b' where "idd_push b n = Inr (if Suc (idd_position b) = idd_capacity b then Full else Available, b')"
    and "idd_position b' = Suc (idd_position b)" and "idd_capacity b' = idd_capacity b"
    and "length (idd_ids b') = length (idd_distances b')"
  using assms by (simp add: idd_push_def idd_capacity_def as_tuple_def Let_def)

lemma translate_loop_count:
  assumes "length (idd_ids b) = length (idd_distances b)" and "idd_position b < idd_capacity b"
  shows "\<exists>b'. translate_loop id_distance_ops to_external cs n b =
      Inr (n + min (length (filter (\<lambda>c. to_external (nbr_id c) \<noteq> None) cs)) (idd_capacity b - idd_position b - 1), b') \<and>
     idd_position b' = idd_position b +
       min (length (filter (\<lambda>c. to_external (nbr_id c) \<noteq> None) cs)) (idd_capacity b - idd_position b)"
  using assms
proof (induction cs arbitrary: n b)
  case Nil
  then show ?case by simp
next
  case (Cons c cs)
  show ?case
  proof (cases "to_external (nbr_id c)")
    case None
    with Cons show ?thesis by simp
  next
    case (Some ext)
    obtain b1 where b1: "idd_push b (Neighbor ext (nbr_distance c)) =
        Inr (if Suc (idd_position b) = idd_capacity b then Full else Available, b1)"
      "idd_position b1 = Suc (idd_position b)" "idd_capacity b1 = idd_capacity b"
      "length (idd_ids b1) = length (idd_distances b1)"
      by (rule idd_push_room [OF Cons.prems])
    show ?thesis
    proof (cases "Suc (idd_position b) = idd_capacity b")
      case True
      with Some b1 show ?thesis by (simp add: id_distance_ops_def is_available_def)
    next
      case False
      with Cons.prems(2) b1 have room: "idd_position b1 < idd_capacity b1" by simp
      from Cons.IH [OF b1(4) room, of "n + 1"] False Some b1 Cons.prems(2) show ?thesis
        by (auto simp: id_distance_ops_def is_available_def min_def)
    qed
  qed
qed

lemma inmem_search_recorded:
  fixes a :: "('v, 'e) inmem_accessor"
  assumes "inmem_ok a" and "0 < l" and "0 < bw"
    and run: "search_internal inmem_ops npq_ops visited_record (Some bw) a (scratch_new (Fixed l)) [] =
      Some (Inr (stats, a, s, r))"
  shows "npq_done (ss_best s) \<subseteq> set r" and "is_hops stats = of_nat (length r)"
proof -
  have fresh: "ss_best (scratch_new (Fixed l)) = npq_new l" "ss_visited (scratch_new (Fixed l)) = {}"
    "ss_hops (scratch_new (Fixed l)) = 0"
    by (simp_all add: scratch_new_def)
  have pre: "npq_inv (ss_best (scratch_new (Fixed l)))" "npq_entries (ss_best (scratch_new (Fixed l))) = []"
    "npq_done (ss_best (scratch_new (Fixed l))) = {}"
    unfolding fresh using assms(2) by (simp_all add: npq_new_fresh(1,2) npq_new_wf(3))
  have "inmem_knn.recorded s r" "is_hops stats = ss_hops s"
    using inmem_knn.search_internal_recorded [OF _ pre fresh(2,3) assms(3) run, of a] assms(1) by simp_all
  then show "npq_done (ss_best s) \<subseteq> set r" "is_hops stats = of_nat (length r)"
    by (simp_all add: inmem_knn.recorded_def)
qed

text \<open>The search, run to its end with all its laws, as the recorded k-nearest-neighbor search returns it.\<close>

lemma recorded_knn_search_inmem:
  fixes a :: "('v, 'e) inmem_accessor"
  assumes ok: "inmem_ok a" and kn: "knn_new l bw = Inr params"
  defines "l' \<equiv> l + length (inmem_starting_points a)"
  obtains stats s r where
    "recorded_knn_search params inmem_ops (Inr a) pooled md processor recorder r0 out =
       Some (bind_result (processor a (take l' (npq_entries (ss_best s))) out) (\<lambda>(k, a, out).
         Inr (stats_finish stats (of_nat k), out, r)))"
    and "search_internal inmem_ops npq_ops recorder (Some (knn_beam_width params)) a (scratch_new (Fixed l')) r0
       = Some (Inr (stats, a, s, r))"
    and "inmem_search_ok a a s" and "inmem_explored a l' s" and "npq_pending (ss_best s) = []"
proof -
  note p = knn_new_pos [OF kn]
  have pos: "0 < l'" "0 < knn_beam_width params" using p by (simp_all add: l'_def)
  obtain stats s r where r: "search_internal inmem_ops npq_ops recorder (Some (knn_beam_width params)) a
        (scratch_new (Fixed l')) r0 = Some (Inr (stats, a, s, r))"
    "inmem_search_ok a a s" "inmem_explored a l' s" "npq_pending (ss_best s) = []"
    by (rule inmem_search_internal [OF ok pos])
  have "npq_wf (ss_best s)" "pq_search_param_l (ss_best s) = l'"
    using r(2,3) by (simp_all add: search_state_ok_def npq_inv_def explored_state_def npq_ops_def)
  then have iter: "npq_iter (ss_best s) = Inr (take l' (npq_entries (ss_best s)))" by (simp add: npq_iter_eq)
  have num: "num_starting_points inmem_ops a = Inr (length (inmem_starting_points a))"
    by (simp add: num_starting_points_def inmem_ops_def)
  have "recorded_knn_search params inmem_ops (Inr a) pooled md processor recorder r0 out =
       Some (bind_result (processor a (take l' (npq_entries (ss_best s))) out) (\<lambda>(k, a, out).
         Inr (stats_finish stats (of_nat k), out, r)))"
    using p r(1) iter num by (simp add: recorded_knn_search_def search_scratch_of_eq l'_def)
  with r show thesis by (intro that)
qed

section \<open>Properties\<close>

text \<open>
  C4. The k-nearest-neighbor search over the in-memory provider returns, whatever scratch space it takes
  from the pool, and its result is locally optimal. The result is sorted by distance, has no id twice and
  at most \<open>l\<close> entries beyond the start points, every entry with its own distance. Every start point and
  every graph neighbor of a returned vertex that can be read is itself returned, or the result list is
  full and no entry of it is farther.
\<close>

theorem knn_search_locally_optimal:
  fixes a :: "('v, 'e) inmem_accessor"
  assumes "inmem_ok a" and "knn_new l bw = Inr params"
  shows "\<exists>stats res. knn_search params inmem_ops (Inr a) pooled md (copy_ids vec_ops) [] = Some (Inr (stats, res)) \<and>
     st_result_count stats = of_nat (length res) \<and>
     sorted_wrt by_distance res \<and> distinct (map nbr_id res) \<and>
     length res \<le> l + length (inmem_starting_points a) \<and>
     (\<forall>n \<in> set res. inmem_dist a (nbr_id n) = Some (nbr_distance n)) \<and>
     (\<forall>j \<in> set (inmem_starting_points a) \<union> (\<Union>n \<in> set res. inmem_nbrs a (nbr_id n)). \<forall>d.
        inmem_dist a j = Some d \<longrightarrow> \<not> f32_is_nan d \<longrightarrow>
        Neighbor j d \<in> set res \<or>
        length res = l + length (inmem_starting_points a) \<and> (\<forall>m \<in> set res. by_distance m (Neighbor j d)))"
proof -
  obtain stats s r where run: "recorded_knn_search params inmem_ops (Inr a) pooled md (copy_ids vec_ops) noop_record () [] =
       Some (bind_result (copy_ids vec_ops a (take (l + length (inmem_starting_points a)) (npq_entries (ss_best s))) [])
         (\<lambda>(k, a, out). Inr (stats_finish stats (of_nat k), out, r)))"
    and s: "inmem_search_ok a a s" "inmem_explored a (l + length (inmem_starting_points a)) s" "npq_pending (ss_best s) = []"
    by (rule recorded_knn_search_inmem [OF assms])
  let ?res = "take (l + length (inmem_starting_points a)) (npq_entries (ss_best s))"
  have "knn_search params inmem_ops (Inr a) pooled md (copy_ids vec_ops) [] =
      Some (Inr (stats_finish stats (of_nat (length ?res)), ?res))"
    unfolding knn_search_def run by (simp add: copy_ids_def vec_ops_def)
  moreover note inmem_knn.explored_result(2-5) [OF s]
  ultimately show ?thesis
    by (intro exI [of _ "stats_finish stats (of_nat (length ?res))"] exI [of _ ?res] conjI)
      (simp_all add: stats_finish_def)
qed

definition sample_accessor :: "(nat, unit) inmem_accessor" where
  "sample_accessor = \<lparr>ia_neighbors = (\<lambda>i. Inr [0, 1]), ia_len = 3, ia_read = Some,
     ia_evaluate = (\<lambda>v. Inr f32_one), ia_buffer_len = 2, ia_start_points = (2, 3)\<rparr>"

lemma sample_accessor_ok: "inmem_ok sample_accessor" "inmem_starting_points sample_accessor = [2]"
  by (simp_all add: inmem_ok_def sample_accessor_def inmem_starting_points_def inmem_read_def upt_rec)

theorem knn_search_locally_optimal_witness:
  "\<exists>stats res. knn_search \<lparr>knn_l_value = 5, knn_beam_width = 1\<rparr> inmem_ops (Inr sample_accessor) None 4
      (copy_ids vec_ops) [] = Some (Inr (stats, res)) \<and> distinct (map nbr_id res) \<and> length res \<le> 6"
  using knn_search_locally_optimal [OF sample_accessor_ok(1), of 5 None "\<lparr>knn_l_value = 5, knn_beam_width = 1\<rparr>" None 4]
  by (auto simp: knn_new_def sample_accessor_ok(2))

text \<open>
  C23. A search recorded with \<open>VisitedSearchRecord\<close>, as insertion uses it, has every vertex it returns in
  the record, because none is returned that was not expanded; and the hop count it reports is the length
  of the record.
\<close>

theorem recorded_knn_search_covers:
  fixes a :: "('v, 'e) inmem_accessor"
  assumes "inmem_ok a" and "knn_new l bw = Inr params"
  shows "\<exists>stats res visited. recorded_knn_search params inmem_ops (Inr a) pooled md (copy_ids vec_ops)
      visited_record [] [] = Some (Inr (stats, res, visited)) \<and>
     set res \<subseteq> set visited \<and> st_hops stats = of_nat (length visited)"
proof -
  let ?l = "l + length (inmem_starting_points a)"
  obtain stats s r where run: "recorded_knn_search params inmem_ops (Inr a) pooled md (copy_ids vec_ops) visited_record [] [] =
       Some (bind_result (copy_ids vec_ops a (take ?l (npq_entries (ss_best s))) [])
         (\<lambda>(k, a, out). Inr (stats_finish stats (of_nat k), out, r)))"
    and i: "search_internal inmem_ops npq_ops visited_record (Some (knn_beam_width params)) a (scratch_new (Fixed ?l)) []
       = Some (Inr (stats, a, s, r))"
    and s: "inmem_search_ok a a s" "inmem_explored a ?l s" "npq_pending (ss_best s) = []"
    by (rule recorded_knn_search_inmem [OF assms])
  have "0 < ?l" "0 < knn_beam_width params" using knn_new_pos [OF assms(2)] by simp_all
  note rec = inmem_search_recorded [OF assms(1) this i]
  have "set (take (qo_search_l npq_ops (ss_best s)) (npq_entries (ss_best s))) \<subseteq> npq_done (ss_best s)"
    using npq.cover_law [of "ss_best s"] s(1,3) by (simp add: search_state_ok_def)
  with rec s(2) run show ?thesis
    by (auto simp: copy_ids_def vec_ops_def stats_finish_def explored_state_def)
qed

theorem recorded_knn_search_covers_witness:
  "\<exists>stats res visited. recorded_knn_search \<lparr>knn_l_value = 5, knn_beam_width = 2\<rparr> inmem_ops (Inr sample_accessor) None 4
      (copy_ids vec_ops) visited_record [] [] = Some (Inr (stats, res, visited)) \<and> set res \<subseteq> set visited"
  using recorded_knn_search_covers [OF sample_accessor_ok(1), of 5 "Some 2" "\<lparr>knn_l_value = 5, knn_beam_width = 2\<rparr>" None 4]
  by (auto simp: knn_new_def)

text \<open>
  C32. The in-memory provider's post-processor \<open>Translate\<close> miscounts a full buffer. With room for at least
  one result it stores as many translated candidates as fit, but its count leaves out the one that fills
  the buffer, because \<open>push\<close> already answers \<open>Full\<close> for it: a search that finds \<open>k\<close> results for a
  buffer of \<open>k\<close> slots reports \<open>k - 1\<close>.
\<close>

theorem translate_count:
  assumes "length (idd_ids b) = length (idd_distances b)" and "idd_position b < idd_capacity b"
    and "found = length (filter (\<lambda>c. to_external (nbr_id c) \<noteq> None) candidates)"
    and "room = idd_capacity b - idd_position b"
  shows "\<exists>b'. translate id_distance_ops to_external a candidates b = Inr (min found (room - 1), a, b') \<and>
     idd_position b' = idd_position b + min found room"
  using translate_loop_count [OF assms(1,2), of to_external candidates 0] assms(3,4)
  by (auto simp: translate_def)

theorem translate_count_witness:
  "\<exists>b'. translate id_distance_ops Some () [Neighbor 7 f32_one, Neighbor 8 f32_one]
       \<lparr>idd_ids = [0, 0], idd_distances = [0, 0], idd_position = 0\<rparr> = Inr (1, (), b') \<and> idd_position b' = 2"
  using translate_count [of "\<lparr>idd_ids = [0, 0], idd_distances = [0, 0], idd_position = 0\<rparr>" 2 Some
      "[Neighbor 7 f32_one, Neighbor 8 f32_one]" 2 "()"]
  by (simp add: idd_capacity_def numeral_2_eq_2)

end
