(* ===== verification/SearchModes.thy ===== *)
theory SearchModes
  imports InmemSearch
begin

text \<open>
  The two searches that go on after the greedy search: range search
  (\<open>diskann/src/graph/search/range_search.rs\<close>), which expands everything within a radius, and paged
  search (\<open>diskann/src/graph/search/paged.rs\<close>), which resumes one traversal page by page.
\<close>

section \<open>Range search parameters\<close>

datatype range_search_error =
    RangeBeamWidthZero
  | RangeLZero
  | StartingListSlackValueError
  | RangeSearchSlackValueError
  | InnerRadiusValueError
  | MaxReturnedLessThanInitialL

record range_params =
  rg_max_returned :: "nat option"
  rg_starting_l :: nat
  rg_beam_width :: nat
  rg_radius :: f32
  rg_inner_radius :: "f32 option"
  rg_initial_slack :: f32
  rg_range_slack :: f32

record range_builder =
  rb_max_returned :: "nat option"
  rb_starting_l :: nat
  rb_beam_width :: "nat option"
  rb_radius :: f32
  rb_inner_radius :: "f32 option"
  rb_initial_slack :: f32
  rb_range_slack :: f32

definition range_builder_of :: "nat \<Rightarrow> f32 \<Rightarrow> range_builder" where
  "range_builder_of starting_l radius = \<lparr>rb_max_returned = None, rb_starting_l = starting_l,
     rb_beam_width = None, rb_radius = radius, rb_inner_radius = None,
     rb_initial_slack = f32_one, rb_range_slack = f32_one\<rparr>"

definition validate_and_create ::
  "nat option \<Rightarrow> nat \<Rightarrow> nat option \<Rightarrow> f32 \<Rightarrow> f32 option \<Rightarrow> f32 \<Rightarrow> f32 \<Rightarrow> range_search_error + range_params" where
  "validate_and_create max_returned starting_l beam_width radius inner_radius initial_slack range_slack =
     (let bw = (case beam_width of None \<Rightarrow> 1 | Some w \<Rightarrow> w) in
      if bw = 0 then Inl RangeBeamWidthZero
      else if starting_l = 0 then Inl RangeLZero
      else if (case max_returned of Some m \<Rightarrow> m < starting_l | None \<Rightarrow> False)
      then Inl MaxReturnedLessThanInitialL
      else if \<not> (f32_le f32_zero initial_slack \<and> f32_le initial_slack f32_one)
      then Inl StartingListSlackValueError
      else if f32_lt range_slack f32_one then Inl RangeSearchSlackValueError
      else if (case inner_radius of Some inner \<Rightarrow> f32_gt inner radius | None \<Rightarrow> False)
      then Inl InnerRadiusValueError
      else Inr \<lparr>rg_max_returned = max_returned, rg_starting_l = starting_l, rg_beam_width = bw,
        rg_radius = radius, rg_inner_radius = inner_radius, rg_initial_slack = initial_slack,
        rg_range_slack = range_slack\<rparr>)"

definition range_build :: "range_builder \<Rightarrow> range_search_error + range_params" where
  "range_build b = validate_and_create (rb_max_returned b) (rb_starting_l b) (rb_beam_width b)
     (rb_radius b) (rb_inner_radius b) (rb_initial_slack b) (rb_range_slack b)"

definition range_new :: "nat \<Rightarrow> f32 \<Rightarrow> range_search_error + range_params" where
  "range_new starting_l radius = range_build (range_builder_of starting_l radius)"

definition to_knn :: "range_params \<Rightarrow> knn" where
  "to_knn p = \<lparr>knn_l_value = rg_starting_l p, knn_beam_width = rg_beam_width p\<rparr>"

section \<open>Range search\<close>

text \<open>\<open>max_returned\<close> without a bound is \<open>usize::MAX\<close>, which no vector reaches.\<close>

definition below_max :: "nat option \<Rightarrow> nat \<Rightarrow> bool" where
  "below_max max_returned n \<longleftrightarrow> (case max_returned of None \<Rightarrow> True | Some m \<Rightarrow> n < m)"

text \<open>The loop over the neighbors of an expansion.\<close>

fun range_collect ::
  "f32 \<Rightarrow> nat option \<Rightarrow> 'i nbr list \<Rightarrow> 'i nbr list \<Rightarrow> 'i list \<Rightarrow> 'i nbr list \<times> 'i list" where
  "range_collect limit max_returned [] in_range frontier = (in_range, frontier)"
| "range_collect limit max_returned (n # ns) in_range frontier =
     (if f32_le (nbr_distance n) limit \<and> below_max max_returned (length in_range)
      then range_collect limit max_returned ns (in_range @ [n]) (frontier @ [nbr_id n])
      else range_collect limit max_returned ns in_range frontier)"

partial_function (option) range_loop ::
  "('a, 'i, 'e) search_accessor \<Rightarrow> range_params \<Rightarrow> 'a \<Rightarrow> ('q, 'i) search_scratch \<Rightarrow>
   ('e, 'a \<times> ('q, 'i) search_scratch) ann_result option" where
  "range_loop A p a s =
     (if ss_range_frontier s = [] \<or> \<not> below_max (rg_max_returned p) (length (ss_in_range s))
      then Some (Inr (a, s))
      else
        let beam = take (rg_beam_width p) (ss_range_frontier s);
            frontier = drop (rg_beam_width p) (ss_range_frontier s)
        in case sa_expand_beam A a beam (ss_visited s) of
             Inl e \<Rightarrow> Some (Inl e)
           | Inr (neighbors, visited, a) \<Rightarrow>
               let (in_range, frontier) = range_collect (f32_mul (rg_radius p) (rg_range_slack p))
                     (rg_max_returned p) neighbors (ss_in_range s) frontier
               in range_loop A p a
                    (s\<lparr>ss_beam_nodes := beam, ss_visited := visited, ss_in_range := in_range,
                       ss_range_frontier := frontier,
                       ss_cmps := ss_cmps s + of_nat (length neighbors),
                       ss_hops := ss_hops s + of_nat (length beam)\<rparr>))"

definition range_search_internal ::
  "('a, 'i, 'e) search_accessor \<Rightarrow> range_params \<Rightarrow> 'a \<Rightarrow> ('q, 'i) search_scratch \<Rightarrow>
   ('e, internal_search_stats \<times> 'a \<times> ('q, 'i) search_scratch) ann_result option" where
  "range_search_internal A p a s =
     map_option (\<lambda>res. bind_result res (\<lambda>(a, s).
         Inr (\<lparr>is_cmps = ss_cmps s, is_hops = ss_hops s, is_range_search_second_round = True\<rparr>, a, s)))
       (range_loop A p a
          (s\<lparr>ss_range_frontier := ss_range_frontier s @ map nbr_id (ss_in_range s)\<rparr>))"

text \<open>The predicate given to \<open>DistanceFiltered\<close>.\<close>

definition within_radii :: "range_params \<Rightarrow> f32 \<Rightarrow> bool" where
  "within_radii p d \<longleftrightarrow>
     (case rg_inner_radius p of Some ir \<Rightarrow> \<not> f32_le d ir | None \<Rightarrow> True) \<and> f32_le d (rg_radius p)"

text \<open>What follows the first round: the scratch space is reseeded with the points in range.\<close>

definition range_reseed :: "range_params \<Rightarrow> 'i nbr list \<Rightarrow> ('q, 'i) search_scratch \<Rightarrow> ('q, 'i) search_scratch" where
  "range_reseed p best s =
     (let in_range = filter (\<lambda>n. f32_le (nbr_distance n) (rg_radius p)) (take (rg_starting_l p) best)
      in s\<lparr>ss_visited := nbr_id ` set in_range, ss_in_range := in_range\<rparr>)"

definition second_round :: "range_params \<Rightarrow> nat \<Rightarrow> bool" where
  "second_round p n \<longleftrightarrow>
     f32_as_usize (f32_mul (f32_of_nat (rg_starting_l p)) (rg_initial_slack p)) \<le> n \<and>
     below_max (rg_max_returned p) n"

definition range_search ::
  "range_params \<Rightarrow> ('a, 'i, 'e) search_accessor \<Rightarrow> ('e, 'a) ann_result \<Rightarrow> ('i npq, 'i) search_scratch option \<Rightarrow> nat \<Rightarrow>
   (('o, 'i nbr) buffer_ops \<Rightarrow> ('a, 'i, 'o, 'e) post_process) \<Rightarrow> ('o, 'i nbr) buffer_ops \<Rightarrow> 'o \<Rightarrow>
   ('e, search_stats \<times> 'o) ann_result option" where
  "range_search p A mk pooled max_degree processor B out =
     (case bind_result mk (\<lambda>a. bind_result (num_starting_points A a) (\<lambda>k. Inr (a, k))) of
        Inl e \<Rightarrow> Some (Inl e)
      | Inr (a, num_start_ids) \<Rightarrow>
          Option.bind (search_internal A npq_ops noop_record (Some (rg_beam_width p)) a
              (search_scratch_of pooled max_degree (rg_starting_l p) num_start_ids) ()) (\<lambda>res.
          case bind_result res (\<lambda>(initial_stats, a, s, r).
               bind_result (lift_panic (npq_iter (ss_best s))) (\<lambda>best.
               Inr (initial_stats, a, range_reseed p best s))) of
            Inl e \<Rightarrow> Some (Inl e)
          | Inr (initial_stats, a, s) \<Rightarrow>
              map_option (\<lambda>res.
                  bind_result res (\<lambda>(stats, a, s).
                  bind_result (processor (distance_filtered_ops B (within_radii p)) a (ss_in_range s) out)
                    (\<lambda>(result_count, a, out).
                    Inr (\<lparr>st_cmps = is_cmps stats, st_hops = is_hops stats,
                          st_result_count = of_nat result_count,
                          st_range_search_second_round = is_range_search_second_round stats\<rparr>, out))))
                (if second_round p (length (ss_in_range s)) then
                   map_option (\<lambda>res. bind_result res (\<lambda>(range_stats, a, s).
                       Inr (\<lparr>is_cmps = is_cmps initial_stats,
                             is_hops = is_hops initial_stats + is_hops range_stats,
                             is_range_search_second_round = True\<rparr>, a, s)))
                     (range_search_internal A p a s)
                 else Some (Inr (initial_stats, a, s)))))"

section \<open>Paged search\<close>

record ('a, 'i) paged_search =
  pg_scratch :: "('i npq, 'i) search_scratch"
  pg_computed_result :: "'i nbr list"
  pg_next_result_index :: nat
  pg_search_param_l :: nat
  pg_accessor :: 'a

text \<open>
  \<open>paged_search_with_init_ids\<close>; \<open>dflt\<close> is \<open>Neighbor::default()\<close>, with which the result cache is filled.
\<close>

definition paged_search_with_init_ids ::
  "'i nbr \<Rightarrow> ('a, 'i, 'e) search_accessor \<Rightarrow> ('e, 'a) ann_result \<Rightarrow> nat \<Rightarrow> 'i list option \<Rightarrow>
   ('e, ('a, 'i) paged_search) ann_result" where
  "paged_search_with_init_ids dflt A mk l_value init_ids =
     bind_result mk (\<lambda>a.
     bind_result (sa_starting_points A a) (\<lambda>start_ids.
     let num_start_points = length start_ids;
         init_ids = (case init_ids of Some ids \<Rightarrow> ids | None \<Rightarrow> start_ids);
         s = scratch_new (Resizable (l_value + num_start_points));
         s = s\<lparr>ss_visited := ss_visited s \<union> set init_ids\<rparr>
     in bind_result (sa_expand_beam A a init_ids (ss_visited s)) (\<lambda>(neighbors, visited, a).
        bind_result (lift_panic (insert_all npq_ops neighbors (ss_best s))) (\<lambda>best.
        Inr \<lparr>pg_scratch = s\<lparr>ss_visited := visited, ss_best := best\<rparr>,
             pg_computed_result = replicate l_value dflt, pg_next_result_index = l_value,
             pg_search_param_l = l_value, pg_accessor = a\<rparr>))))"

definition paged_search_new ::
  "'i nbr \<Rightarrow> ('a, 'i, 'e) search_accessor \<Rightarrow> ('e, 'a) ann_result \<Rightarrow> nat \<Rightarrow> ('e, ('a, 'i) paged_search) ann_result" where
  "paged_search_new dflt A mk l_value = paged_search_with_init_ids dflt A mk l_value None"

text \<open>The loop of \<open>filter_search_candidates\<close>.\<close>

fun filter_search_candidates ::
  "'i list \<Rightarrow> nat \<Rightarrow> 'i nbr list \<Rightarrow> 'i nbr list \<Rightarrow> nat \<Rightarrow> 'i nbr list \<times> nat" where
  "filter_search_candidates start_points page_size [] candidates considered = (candidates, considered)"
| "filter_search_candidates start_points page_size (n # ns) candidates considered =
     (if nbr_id n \<notin> set start_points then
        if page_size \<le> Suc (length candidates) then (candidates @ [n], Suc considered)
        else filter_search_candidates start_points page_size ns (candidates @ [n]) (Suc considered)
      else filter_search_candidates start_points page_size ns candidates (Suc considered))"

text \<open>The part of \<open>next_page\<close> after the search was resumed.\<close>

definition finish_page ::
  "nat \<Rightarrow> 'i nbr list \<Rightarrow> 'i list \<Rightarrow> 'i nbr list \<Rightarrow> ('a, 'i) paged_search \<Rightarrow> 'i nbr list \<times> ('a, 'i) paged_search" where
  "finish_page k result start_points best p =
     (let (candidates, considered) = filter_search_candidates start_points k best [] 0;
          s = pg_scratch p;
          s = s\<lparr>ss_best := npq_drain_best (ss_best s) considered\<rparr>;
          leftover = min (k - length result) (length candidates)
      in (result @ take leftover candidates,
          p\<lparr>pg_scratch := s, pg_computed_result := candidates, pg_next_result_index := leftover\<rparr>))"

definition next_page ::
  "('a, 'i, 'e) search_accessor \<Rightarrow> ('a, 'i) paged_search \<Rightarrow> nat \<Rightarrow>
   ('e, 'i nbr list \<times> ('a, 'i) paged_search) ann_result option" where
  "next_page A p k =
     (if pg_search_param_l p < k then
        Some (Inl (AnnMessage ''k should be less than or equal to search_param_l''))
      else if k = 0 then Some (Inl (AnnMessage ''k should be greater than 0''))
      else
        let available = length (pg_computed_result p) - pg_next_result_index p;
            from_cache = min k available;
            result = take from_cache (drop (pg_next_result_index p) (pg_computed_result p));
            p = p\<lparr>pg_next_result_index := pg_next_result_index p + from_cache\<rparr>
        in if 0 < from_cache \<and> length result = k then Some (Inr (result, p))
           else map_option (\<lambda>res.
                  bind_result res (\<lambda>(stats, a, s, r).
                  bind_result (sa_starting_points A a) (\<lambda>start_points.
                  bind_result (lift_panic (npq_iter (ss_best s))) (\<lambda>best.
                  Inr (finish_page k result start_points best (p\<lparr>pg_scratch := s, pg_accessor := a\<rparr>))))))
                (search_internal A npq_ops noop_record None (pg_accessor p) (pg_scratch p) ()))"

section \<open>Pages do not overlap\<close>

lemma filter_search_candidates_spec:
  assumes "filter_search_candidates starts k ns acc t = (cands, t')"
  shows "\<exists>m. t' = t + m \<and> cands = acc @ filter (\<lambda>n. nbr_id n \<notin> set starts) (take m ns)"
    and "length acc < k \<Longrightarrow> length cands \<le> k"
proof -
  have "(\<exists>m. t' = t + m \<and> cands = acc @ filter (\<lambda>n. nbr_id n \<notin> set starts) (take m ns)) \<and>
      (length acc < k \<longrightarrow> length cands \<le> k)"
    using assms
  proof (induction ns arbitrary: acc t)
    case Nil
    then show ?case by (intro conjI exI [of _ 0]) auto
  next
    case (Cons n ns)
    show ?case
    proof (cases "nbr_id n \<in> set starts")
      case True
      with Cons.prems have "filter_search_candidates starts k ns acc (Suc t) = (cands, t')" by simp
      from Cons.IH [OF this] obtain m where
        "t' = Suc t + m" "cands = acc @ filter (\<lambda>n. nbr_id n \<notin> set starts) (take m ns)"
        "length acc < k \<longrightarrow> length cands \<le> k" by blast
      with True show ?thesis by (intro conjI exI [of _ "Suc m"]) simp_all
    next
      case False
      show ?thesis
      proof (cases "k \<le> Suc (length acc)")
        case True
        with False Cons.prems show ?thesis by (intro conjI exI [of _ 1]) auto
      next
        case long: False
        with False Cons.prems have "filter_search_candidates starts k ns (acc @ [n]) (Suc t) = (cands, t')" by simp
        from Cons.IH [OF this] obtain m where
          "t' = Suc t + m" "cands = (acc @ [n]) @ filter (\<lambda>n. nbr_id n \<notin> set starts) (take m ns)"
          "length (acc @ [n]) < k \<longrightarrow> length cands \<le> k" by blast
        with False long show ?thesis by (intro conjI exI [of _ "Suc m"]) simp_all
      qed
    qed
  qed
  then show "\<exists>m. t' = t + m \<and> cands = acc @ filter (\<lambda>n. nbr_id n \<notin> set starts) (take m ns)"
    "length acc < k \<Longrightarrow> length cands \<le> k" by blast+
qed

lemma npq_drain_best_inv:
  assumes "npq_inv q"
  shows "npq_inv (npq_drain_best q n)"
    and "qo_search_l npq_ops (npq_drain_best q n) = qo_search_l npq_ops q"
proof -
  have sel: "pq_cursor (npq_drain_best q n) = 0" "pq_auto_resizable (npq_drain_best q n) = pq_auto_resizable q"
    "pq_capacity (npq_drain_best q n) = pq_capacity q" "pq_search_param_l (npq_drain_best q n) = pq_search_param_l q"
    by (simp_all add: npq_drain_best_def Let_def)
  show "npq_inv (npq_drain_best q n)"
    using assms npq_drain_best_wf [of q n] by (simp add: npq_inv_def sel npq_prefix_ok_def)
  show "qo_search_l npq_ops (npq_drain_best q n) = qo_search_l npq_ops q"
    by (simp add: npq_ops_def sel)
qed

text \<open>
  Between pages: the ids in \<open>E\<close> (those handed out, and the initial ones) are visited and not in the
  queue, every entry can be read, and the cache is used up.
\<close>

definition unseen :: "('i \<Rightarrow> f32 option) \<Rightarrow> 'i set \<Rightarrow> ('i npq, 'i) search_scratch \<Rightarrow> bool" where
  "unseen dist E s \<longleftrightarrow> E \<subseteq> ss_visited s \<and> E \<inter> nbr_id ` set (npq_entries (ss_best s)) = {} \<and>
     nbr_id ` set (npq_entries (ss_best s)) \<subseteq> dom dist"

definition paged_ok ::
  "('a \<Rightarrow> bool) \<Rightarrow> 'i set \<Rightarrow> ('i \<Rightarrow> f32 option) \<Rightarrow> 'i set \<Rightarrow> nat \<Rightarrow> ('a, 'i) paged_search \<Rightarrow> bool" where
  "paged_ok ok U dist E l p \<longleftrightarrow>
     search_state_ok ok npq_inv npq_entries U (pg_accessor p) (pg_scratch p) \<and>
     unseen dist E (pg_scratch p) \<and>
     length (pg_computed_result p) \<le> pg_next_result_index p \<and> pg_search_param_l p = l"

locale paged_traversal = graph_accessor A ok U starts nbrs dist
  for A :: "('a, 'i, 'e) search_accessor" and ok U starts nbrs dist

sublocale paged_traversal \<subseteq> exact_search npq_ops npq_inv npq_entries npq_pending npq_done A ok U starts nbrs dist
  by unfold_locales

context paged_traversal
begin

lemma unseen_insert:
  assumes "unseen dist E s" and "npq_inv q" and "insert_all npq_ops ns q = Inr q'"
    and "npq_entries q = npq_entries (ss_best s)" and "ss_visited s \<subseteq> V"
    and "nbr_id ` set ns \<inter> ss_visited s = {}" and "nbr_id ` set ns \<subseteq> dom dist"
  shows "unseen dist E (s\<lparr>ss_best := q', ss_visited := V\<rparr>)"
proof -
  from insert_all_spec [OF assms(2), of ns] assms(3)
  have "mset (npq_entries q') \<subseteq># mset ns + mset (npq_entries q)" by auto
  from set_mset_mono [OF this] have "set (npq_entries q') \<subseteq> set ns \<union> set (npq_entries (ss_best s))"
    using assms(4) by auto
  then have "nbr_id ` set (npq_entries q') \<subseteq> nbr_id ` set ns \<union> nbr_id ` set (npq_entries (ss_best s))" by blast
  note sub = this
  have un: "E \<subseteq> ss_visited s" "E \<inter> nbr_id ` set (npq_entries (ss_best s)) = {}"
    "nbr_id ` set (npq_entries (ss_best s)) \<subseteq> dom dist" using assms(1) by (simp_all only: unseen_def)
  have "E \<inter> nbr_id ` set (npq_entries q') = {}" using sub un(1,2) assms(6) by blast
  moreover have "nbr_id ` set (npq_entries q') \<subseteq> dom dist"
    by (rule subset_trans [OF sub]) (rule Un_least [OF assms(7) un(3)])
  moreover have "E \<subseteq> V" using un(1) assms(5) by (rule subset_trans)
  ultimately show ?thesis by (simp add: unseen_def)
qed

lemma unseen_step:
  assumes ok: "search_ok a s" and ex: "unseen dist E s" and ne: "npq_pending (ss_best s) \<noteq> []" and bw: "0 < bw"
    and st: "search_step A npq_ops recorder bw a s r = Inr (a', s', r')"
  shows "unseen dist E s'"
  using ok ne bw
proof (cases rule: search_step_cases [where recorder = recorder and r = r])
  case (failed e)
  with st show ?thesis by simp
next
  case (stepped ys q ns visited' a'' q' s'' r'')
  have s'': "s' = s''" using stepped(1) st by simp
  have oka: "ok a" using ok by (simp add: search_state_ok_def)
  note law = expand_law [OF oka stepped(7)]
  have "set ys \<subseteq> set (npq_entries (ss_best s))"
    using pending_law [of "ss_best s"] ok stepped(3) by (auto simp: search_state_ok_def)
  then have "set (map nbr_id ys) \<subseteq> nbr_id ` set (npq_entries (ss_best s))" by auto
  also have "\<dots> \<subseteq> dom dist" using ex by (simp only: unseen_def)
  finally have "set (map nbr_id ys) \<subseteq> dom dist" .
  from expand_exact [OF oka this, of "ss_visited s"] stepped(7) have "nbr_id ` set ns \<subseteq> dom dist" by auto
  with law have "unseen dist E (s\<lparr>ss_best := q', ss_visited := visited'\<rparr>)"
    by (intro unseen_insert [OF ex stepped(4,8,5)]) auto
  then show ?thesis unfolding s'' stepped(9) by (simp add: unseen_def)
qed

lemma search_loop_unseen:
  assumes "search_ok a s" and "unseen dist E s" and "0 < bw"
  shows "\<exists>a' s' r'. search_loop A npq_ops recorder bw a s r = Some (Inr (a', s', r')) \<and>
     search_ok a' s' \<and> unseen dist E s'"
proof -
  have step: "\<forall>a s r a' s' r'. search_ok a s \<longrightarrow> unseen dist E s \<longrightarrow> npq_pending (ss_best s) \<noteq> [] \<longrightarrow>
      search_step A npq_ops recorder bw a s r = Inr (a', s', r') \<longrightarrow> unseen dist E s'"
    by (intro allI impI) (rule unseen_step [OF _ _ _ assms(3)])
  have out: "search_outcome (\<lambda>a s r. unseen dist E s) (search_loop A npq_ops recorder bw a s r)"
    by (rule search_loop_outcome) (use assms step in simp_all)
  show ?thesis
  proof (cases "search_loop A npq_ops recorder bw a s r")
    case None
    with out show ?thesis by (simp add: search_outcome_def)
  next
    case (Some res)
    show ?thesis
    proof (cases res)
      case (Inl e)
      with out Some obtain a1 s1 ids where o: "search_ok a1 s1" "unseen dist E s1"
        "set ids \<subseteq> nbr_id ` set (npq_entries (ss_best s1))" "sa_expand_beam A a1 ids (ss_visited s1) = Inl e"
        by (auto simp: search_outcome_def)
      have "ok a1" using o(1) by (simp add: search_state_ok_def)
      moreover have "nbr_id ` set (npq_entries (ss_best s1)) \<subseteq> dom dist" using o(2) by (simp only: unseen_def)
      then have "set ids \<subseteq> dom dist" by (rule subset_trans [OF o(3)])
      ultimately show ?thesis using expand_exact [of a1 ids "ss_visited s1"] o(4) by auto
    next
      case (Inr t)
      obtain a' s' r' where t: "t = (a', s', r')" by (cases t) auto
      with out Some Inr show ?thesis by (auto simp: search_outcome_def)
    qed
  qed
qed

lemma search_internal_unseen:
  assumes ok: "search_ok a s" and un: "unseen dist E s"
  shows "\<exists>stats a' s' r'. search_internal A npq_ops recorder None a s r = Some (Inr (stats, a', s', r')) \<and>
     search_ok a' s' \<and> unseen dist E s'"
proof -
  have "\<exists>a1 s1. (if ss_visited s = {}
      then bind_result (sa_start_point_distances A a) (\<lambda>(starts, a).
           bind_result (lift_panic (add_start_points npq_ops starts s)) (\<lambda>s. Inr (a, s)))
      else Inr (a, s)) = Inr (a1, s1) \<and> search_ok a1 s1 \<and> unseen dist E s1"
  proof (cases "ss_visited s = {}")
    case False
    with assms show ?thesis by simp
  next
    case True
    have oka: "ok a" and inv: "npq_inv (ss_best s)" and none: "npq_entries (ss_best s) = []"
      using ok True by (auto simp: search_state_ok_def)
    from start_exact [OF oka] obtain ns a1 where st: "sa_start_point_distances A a = Inr (ns, a1)"
      "\<forall>n \<in> set ns. dist (nbr_id n) = Some (nbr_distance n)" by blast
    note law = start_law [OF oka st(1)]
    from add_start_points_spec [OF inv, of ns] obtain q where q: "add_start_points npq_ops ns s =
      Inr (s\<lparr>ss_visited := ss_visited s \<union> nbr_id ` set ns, ss_best := q,
             ss_cmps := ss_cmps s + of_nat (length ns)\<rparr>)" "insert_all npq_ops ns (ss_best s) = Inr q" by blast
    let ?s = "s\<lparr>ss_visited := ss_visited s \<union> nbr_id ` set ns, ss_best := q, ss_cmps := ss_cmps s + of_nat (length ns)\<rparr>"
    have "npq_inv q" "mset (npq_entries q) \<subseteq># mset ns + mset []"
      using insert_all_spec [OF inv, of ns] q(2) none by auto
    note fr = fresh_entries [OF _ _ this(2), of "{}" "nbr_id ` set ns"] this(1)
    have "search_ok a1 ?s" using law fr True by (simp add: search_state_ok_def)
    moreover have "nbr_id ` set ns \<subseteq> dom dist" using st(2) by auto
    then have "unseen dist E (s\<lparr>ss_best := q, ss_visited := nbr_id ` set ns\<rparr>)"
      using True by (intro unseen_insert [OF un inv q(2)]) auto
    then have "unseen dist E ?s" using True by (simp add: unseen_def)
    ultimately show ?thesis using True st(1) q(1) by simp
  qed
  then obtain a1 s1 where i: "(if ss_visited s = {}
      then bind_result (sa_start_point_distances A a) (\<lambda>(starts, a).
           bind_result (lift_panic (add_start_points npq_ops starts s)) (\<lambda>s. Inr (a, s)))
      else Inr (a, s)) = Inr (a1, s1)" and ok1: "search_ok a1 s1" "unseen dist E s1"
    by (elim exE conjE) (rule that)
  from search_loop_unseen [OF ok1, of 1 recorder r] obtain a' s' r' where
    "search_loop A npq_ops recorder 1 a1 s1 r = Some (Inr (a', s', r'))" "search_ok a' s'" "unseen dist E s'"
    by auto
  with i show ?thesis by (simp add: search_internal_def)
qed

end

text \<open>A sequence of calls of \<open>next_page\<close>.\<close>

fun next_pages ::
  "('a, 'i, 'e) search_accessor \<Rightarrow> ('a, 'i) paged_search \<Rightarrow> nat list \<Rightarrow>
   ('e, 'i nbr list list \<times> ('a, 'i) paged_search) ann_result option" where
  "next_pages A p [] = Some (Inr ([], p))"
| "next_pages A p (k # ks) =
     Option.bind (next_page A p k) (\<lambda>r. case r of
       Inl e \<Rightarrow> Some (Inl e)
     | Inr (page, p) \<Rightarrow>
         map_option (\<lambda>r. bind_result r (\<lambda>(pages, p). Inr (page # pages, p))) (next_pages A p ks))"

lemma distinct_take_drop:
  assumes "distinct (map f xs)"
  shows "f ` set (take m xs) \<inter> f ` set (drop m xs) = {}" and "distinct (map f (take m xs))"
    and "distinct (map f (drop m xs))"
proof -
  have "distinct (map f (take m xs @ drop m xs))" using assms by simp
  then show "f ` set (take m xs) \<inter> f ` set (drop m xs) = {}" "distinct (map f (take m xs))"
    "distinct (map f (drop m xs))" unfolding map_append distinct_append by simp_all
qed

context paged_traversal
begin

text \<open>A page is the front of the queue without the start points, which are dropped with it.\<close>

lemma finish_page_spec:
  assumes ok: "search_ok a s" and un: "unseen dist E s" and k: "0 < k" and starts: "set start_ids = starts"
    and p: "pg_scratch p = s" "pg_accessor p = a" "pg_search_param_l p = l"
    and fin: "finish_page k [] start_ids (take L (npq_entries (ss_best s))) p = (page, p')"
  shows "paged_ok ok U dist (E \<union> nbr_id ` set page) l p'" and "sorted_wrt by_distance page"
    and "distinct (map nbr_id page)" and "length page \<le> k" and "nbr_id ` set page \<inter> (E \<union> starts) = {}"
proof -
  let ?es = "npq_entries (ss_best s)"
  let ?flt = "filter (\<lambda>n. nbr_id n \<notin> set start_ids)"
  obtain cands t where f: "filter_search_candidates start_ids k (take L ?es) [] 0 = (cands, t)" by fastforce
  from filter_search_candidates_spec [OF f] k obtain m where m: "t = m"
    "cands = ?flt (take m (take L ?es))" and len: "length cands \<le> k" by auto
  let ?s = "s\<lparr>ss_best := npq_drain_best (ss_best s) m\<rparr>"
  have page: "page = cands" and p': "p' = p\<lparr>pg_scratch := ?s, pg_computed_result := cands,
      pg_next_result_index := length cands\<rparr>"
    using fin len f p(1) by (auto simp: finish_page_def m(1) Let_def)
  have inv: "npq_inv (ss_best s)" and dist_es: "distinct (map nbr_id ?es)"
    and vis: "nbr_id ` set ?es \<subseteq> ss_visited s" and rest: "ok a" "ss_visited s \<subseteq> U"
    using ok by (simp_all add: search_state_ok_def)
  have es': "npq_entries (npq_drain_best (ss_best s) m) = drop m ?es"
    using inv by (simp add: npq_inv_def npq_drain_best_entries)
  have "take m (take L ?es) = take L (take m ?es)" by (simp add: min.commute)
  then have pre: "set page \<subseteq> set (take m ?es)" unfolding page m(2)
    using set_take_subset [of L "take m ?es"] by auto
  note td = distinct_take_drop [OF dist_es, of m]
  have un': "E \<subseteq> ss_visited s" "E \<inter> nbr_id ` set ?es = {}" "nbr_id ` set ?es \<subseteq> dom dist"
    using un by (simp_all only: unseen_def)
  have sub: "nbr_id ` set page \<subseteq> nbr_id ` set ?es" using pre set_take_subset by fast
  have sub': "nbr_id ` set (drop m ?es) \<subseteq> nbr_id ` set ?es" using set_drop_subset by fast
  show "sorted_wrt by_distance page"
    unfolding page m(2) using sorted_law [OF inv] by (intro sorted_wrt_filter sorted_wrt_take)
  show "distinct (map nbr_id page)"
    unfolding page m(2) take_take using distinct_take_drop(2) [OF dist_es] by (intro distinct_map_filter)
  show "length page \<le> k" unfolding page by (rule len)
  have "nbr_id ` set page \<inter> starts = {}" unfolding page m(2) starts [symmetric] by auto
  moreover have "nbr_id ` set page \<inter> E = {}" using sub un'(2) by blast
  ultimately show "nbr_id ` set page \<inter> (E \<union> starts) = {}" by blast
  have "search_ok a ?s"
    using npq_drain_best_inv(1) [OF inv, of m] rest td(3) subset_trans [OF sub' vis]
    by (simp add: search_state_ok_def es')
  moreover have "unseen dist (E \<union> nbr_id ` set page) ?s"
  proof -
    have "(E \<union> nbr_id ` set page) \<inter> nbr_id ` set (drop m ?es) = {}"
      using td(1) pre sub' un'(2) by blast
    moreover have "E \<union> nbr_id ` set page \<subseteq> ss_visited s" using un'(1) sub vis by blast
    ultimately show ?thesis using subset_trans [OF sub' un'(3)] by (simp add: unseen_def es')
  qed
  ultimately show "paged_ok ok U dist (E \<union> nbr_id ` set page) l p'"
    using p by (simp add: paged_ok_def p')
qed

lemma next_page_spec:
  assumes ok: "paged_ok ok U dist E l p" and k: "0 < k" "k \<le> l"
  obtains page p' where "next_page A p k = Some (Inr (page, p'))"
    and "paged_ok ok U dist (E \<union> nbr_id ` set page) l p'" and "sorted_wrt by_distance page"
    and "distinct (map nbr_id page)" and "length page \<le> k" and "nbr_id ` set page \<inter> (E \<union> starts) = {}"
proof -
  have p: "search_ok (pg_accessor p) (pg_scratch p)" "unseen dist E (pg_scratch p)"
    "length (pg_computed_result p) \<le> pg_next_result_index p" "pg_search_param_l p = l"
    using ok by (simp_all add: paged_ok_def)
  from search_internal_unseen [OF p(1,2), of noop_record "()"] obtain stats a s r where
    run: "search_internal A npq_ops noop_record None (pg_accessor p) (pg_scratch p) () = Some (Inr (stats, a, s, r))"
      "search_ok a s" "unseen dist E s" by (elim exE conjE) (rule that)
  have "ok a" "npq_inv (ss_best s)" using run(2) by (simp_all add: search_state_ok_def)
  from points_exact [OF this(1)] obtain ids where ids: "sa_starting_points A a = Inr ids" "set ids = starts" by blast
  from iter_law [OF \<open>npq_inv (ss_best s)\<close>] have iter: "npq_iter (ss_best s) =
      Inr (take (qo_search_l npq_ops (ss_best s)) (npq_entries (ss_best s)))" by (simp add: npq_ops_def)
  let ?p = "p\<lparr>pg_next_result_index := pg_next_result_index p, pg_scratch := s, pg_accessor := a\<rparr>"
  obtain page p' where fin: "finish_page k [] ids
      (take (qo_search_l npq_ops (ss_best s)) (npq_entries (ss_best s))) ?p = (page, p')" by fastforce
  have "next_page A p k = Some (Inr (page, p'))"
    using k p(3,4) run(1) ids(1) iter fin by (simp add: next_page_def)
  then show thesis
    by (rule that) (rule finish_page_spec [OF run(2,3) k(1) ids(2) _ _ _ fin], simp_all add: p(4))+
qed

lemma next_pages_spec:
  assumes "paged_ok ok U dist E l p" and "\<forall>k \<in> set ks. 0 < k \<and> k \<le> l"
  shows "\<exists>pages p'. next_pages A p ks = Some (Inr (pages, p')) \<and>
     list_all2 (\<lambda>k page. length page \<le> k \<and> sorted_wrt by_distance page) ks pages \<and>
     distinct (map nbr_id (concat pages)) \<and> nbr_id ` set (concat pages) \<inter> (E \<union> starts) = {}"
  using assms
proof (induction ks arbitrary: E p)
  case Nil
  then show ?case by simp
next
  case (Cons k ks)
  obtain page p1 where r: "next_page A p k = Some (Inr (page, p1))"
    "paged_ok ok U dist (E \<union> nbr_id ` set page) l p1" "sorted_wrt by_distance page"
    "distinct (map nbr_id page)" "length page \<le> k" "nbr_id ` set page \<inter> (E \<union> starts) = {}"
    by (rule next_page_spec [OF Cons.prems(1), of k]) (use Cons.prems(2) in simp_all)
  from Cons.IH [OF r(2)] Cons.prems(2) obtain pages p' where r':
    "next_pages A p1 ks = Some (Inr (pages, p'))"
    "list_all2 (\<lambda>k page. length page \<le> k \<and> sorted_wrt by_distance page) ks pages"
    "distinct (map nbr_id (concat pages))"
    "nbr_id ` set (concat pages) \<inter> ((E \<union> nbr_id ` set page) \<union> starts) = {}" by auto
  have split: "nbr_id ` set (concat (page # pages)) = nbr_id ` set page \<union> nbr_id ` set (concat pages)"
    by (simp only: concat.simps set_append image_Un)
  have "nbr_id ` set page \<inter> nbr_id ` set (concat pages) = {}" using r'(4) by blast
  with r(4) r'(3) have "distinct (map nbr_id (concat (page # pages)))"
    by (simp only: concat.simps map_append distinct_append set_map)
  moreover have "nbr_id ` set (concat (page # pages)) \<inter> (E \<union> starts) = {}"
    unfolding split using r(6) r'(4) by blast
  ultimately show ?case using r(1,3,5) r'(1,2) by simp
qed

text \<open>The search that is set up: nothing has been handed out, and the initial ids are visited.\<close>

lemma paged_search_ok:
  assumes "ok a" and "0 < l" and init: "ids = (case init_ids of Some ids \<Rightarrow> ids | None \<Rightarrow> start_ids)"
    and "set ids \<subseteq> dom dist" and "set ids \<subseteq> U" and "sa_starting_points A a = Inr start_ids"
  shows "\<exists>p. paged_search_with_init_ids dflt A (Inr a) l init_ids = Inr p \<and> paged_ok ok U dist (set ids) l p"
proof -
  let ?q = "npq_auto_resizable_with_search_param_l (l + length start_ids) :: 'i npq"
  let ?s = "(scratch_new (Resizable (l + length start_ids)) :: ('i npq, 'i) search_scratch)"
  have q: "npq_inv ?q" "npq_entries ?q = []" "ss_best ?s = ?q" "ss_visited ?s = {}"
    by (simp_all add: npq_inv_def npq_auto_resizable_wf cursor_ok_prefix scratch_new_def)
      (simp_all add: npq_auto_resizable_with_search_param_l_def)
  from expand_exact [OF assms(1,4), of "set ids"] obtain ns v a' where e: "sa_expand_beam A a ids (set ids) = Inr (ns, v, a')"
    and ns: "nbr_id ` set ns \<subseteq> dom dist" by fastforce
  note law = expand_law [OF assms(1) e]
  from insert_all_spec [OF q(1), of ns] q(2) obtain q' where q': "insert_all npq_ops ns ?q = Inr q'" "npq_inv q'"
    "mset (npq_entries q') \<subseteq># mset ns + mset []" by auto
  note fr = fresh_entries [OF _ _ q'(3), of "set ids" v]
  let ?t = "?s\<lparr>ss_visited := v, ss_best := q'\<rparr>"
  have "search_ok a' ?t" using law q'(2) fr assms(5) by (auto simp: search_state_ok_def)
  moreover have "unseen dist (set ids) ?t"
  proof -
    have "unseen dist (set ids) (?s\<lparr>ss_visited := set ids\<rparr>)" using q by (simp add: unseen_def)
    moreover have "nbr_id ` set ns \<inter> set ids = {}" "set ids \<subseteq> v" using law by blast+
    ultimately have "unseen dist (set ids) (?s\<lparr>ss_visited := set ids, ss_best := q', ss_visited := v\<rparr>)"
      using q by (intro unseen_insert [OF _ q(1) q'(1) _ _ _ ns]) simp_all
    then show ?thesis by (simp add: unseen_def)
  qed
  ultimately show ?thesis
    using e q'(1) q(3,4) assms(6) init by (simp add: paged_search_with_init_ids_def paged_ok_def)
qed

end

section \<open>Range search explores the radius\<close>

lemma below_max_mono: "below_max m n' \<Longrightarrow> n \<le> n' \<Longrightarrow> below_max m n"
  by (auto simp: below_max_def split: option.splits)

lemma range_collect_spec:
  assumes "range_collect limit m ns ins fr = (ins', fr')"
  obtains ys where "ins' = ins @ ys" and "fr' = fr @ map nbr_id ys" and "mset ys \<subseteq># mset ns"
    and "\<forall>n \<in> set ns. f32_le (nbr_distance n) limit \<longrightarrow> n \<in> set ys \<or> \<not> below_max m (length ins')"
    and "\<forall>n \<in> set ys. f32_le (nbr_distance n) limit"
  using assms
proof (induction ns arbitrary: ins fr thesis)
  case Nil
  show ?case by (rule Nil(1) [of "[]"]) (use Nil(2) in simp_all)
next
  case (Cons n ns)
  show ?case
  proof (cases "f32_le (nbr_distance n) limit \<and> below_max m (length ins)")
    case True
    with Cons.prems(2) have "range_collect limit m ns (ins @ [n]) (fr @ [nbr_id n]) = (ins', fr')" by simp
    from Cons.IH [OF _ this] obtain ys where ys: "ins' = (ins @ [n]) @ ys" "fr' = (fr @ [nbr_id n]) @ map nbr_id ys"
      "mset ys \<subseteq># mset ns" "\<forall>n \<in> set ns. f32_le (nbr_distance n) limit \<longrightarrow> n \<in> set ys \<or> \<not> below_max m (length ins')"
      "\<forall>n \<in> set ys. f32_le (nbr_distance n) limit" by blast
    show ?thesis by (rule Cons.prems(1) [of "n # ys"]) (use ys True in auto)
  next
    case False
    with Cons.prems(2) have "range_collect limit m ns ins fr = (ins', fr')" by simp
    from Cons.IH [OF _ this] obtain ys where ys: "ins' = ins @ ys" "fr' = fr @ map nbr_id ys"
      "mset ys \<subseteq># mset ns" "\<forall>n \<in> set ns. f32_le (nbr_distance n) limit \<longrightarrow> n \<in> set ys \<or> \<not> below_max m (length ins')"
      "\<forall>n \<in> set ys. f32_le (nbr_distance n) limit" by blast
    have "below_max m (length ins') \<Longrightarrow> \<not> f32_le (nbr_distance n) limit"
      using False ys(1) below_max_mono [of m "length ins'" "length ins"] by auto
    with ys show ?thesis
      by (intro Cons.prems(1) [of ys]) (auto intro: subset_mset.order_trans)
  qed
qed

text \<open>
  The state of the second round. What was reported within the limit is in range, what is in range waits
  in the frontier or has been expanded, and the hop counter has counted the expanded ones.
\<close>

definition range_ok ::
  "('a \<Rightarrow> bool) \<Rightarrow> 'i set \<Rightarrow> ('i \<Rightarrow> 'i set) \<Rightarrow> ('i \<Rightarrow> f32 option) \<Rightarrow> range_params \<Rightarrow> u32 \<Rightarrow> 'a \<Rightarrow> ('q, 'i) search_scratch \<Rightarrow> bool" where
  "range_ok ok U nbrs dist p h a s \<longleftrightarrow>
     ok a \<and> ss_visited s \<subseteq> U \<and> distinct (map nbr_id (ss_in_range s)) \<and>
     nbr_id ` set (ss_in_range s) \<subseteq> ss_visited s \<and>
     (\<forall>n \<in> set (ss_in_range s). dist (nbr_id n) = Some (nbr_distance n)) \<and>
     set (ss_range_frontier s) \<subseteq> nbr_id ` set (ss_in_range s) \<and>
     (\<forall>n \<in> set (ss_in_range s). nbr_id n \<in> set (ss_range_frontier s) \<or> nbrs (nbr_id n) \<subseteq> ss_visited s) \<and>
     (\<forall>j \<in> ss_visited s. \<forall>d. dist j = Some d \<longrightarrow> f32_le d (f32_mul (rg_radius p) (rg_range_slack p)) \<longrightarrow>
        Neighbor j d \<in> set (ss_in_range s) \<or> \<not> below_max (rg_max_returned p) (length (ss_in_range s))) \<and>
     ss_hops s + of_nat (length (ss_range_frontier s)) = h + of_nat (length (ss_in_range s))"

lemma range_ok_frontier:
  assumes "range_ok ok U nbrs dist p h a s" and "set xs \<subseteq> set (ss_range_frontier s)"
  shows "set xs \<subseteq> dom dist"
proof -
  have "set (ss_range_frontier s) \<subseteq> nbr_id ` set (ss_in_range s)" using assms(1) by (simp add: range_ok_def)
  moreover have "\<forall>n \<in> set (ss_in_range s). dist (nbr_id n) = Some (nbr_distance n)"
    using assms(1) by (simp add: range_ok_def)
  then have "nbr_id ` set (ss_in_range s) \<subseteq> dom dist" by auto
  ultimately show ?thesis using assms(2) by (meson subset_trans)
qed

context graph_accessor
begin

lemma range_step:
  fixes s :: "('q, 'i) search_scratch"
  assumes ok: "range_ok ok U nbrs dist p h a s"
    and beam: "beam = take (rg_beam_width p) (ss_range_frontier s)"
    and e: "sa_expand_beam A a beam (ss_visited s) = Inr (ns, v, a')"
    and c: "range_collect (f32_mul (rg_radius p) (rg_range_slack p)) (rg_max_returned p) ns (ss_in_range s)
        (drop (rg_beam_width p) (ss_range_frontier s)) = (ins, fr)"
  shows "range_ok ok U nbrs dist p h a' (s\<lparr>ss_beam_nodes := beam, ss_visited := v, ss_in_range := ins,
      ss_range_frontier := fr, ss_cmps := x, ss_hops := ss_hops s + of_nat (length beam)\<rparr>)"
proof -
  let ?lim = "f32_mul (rg_radius p) (rg_range_slack p)"
  let ?F = "ss_range_frontier s" and ?I = "ss_in_range s"
  note k = ok [unfolded range_ok_def]
  have oka: "ok a" using k by simp
  have bF: "set beam \<subseteq> set ?F" unfolding beam by (rule set_take_subset)
  from expand_exact [OF oka range_ok_frontier [OF ok bF], of "ss_visited s"] e have v: "v = ss_visited s \<union> (\<Union>i \<in> set beam. nbrs i)"
    and ns: "set ns = {Neighbor j d | j d. j \<in> (\<Union>i \<in> set beam. nbrs i) - ss_visited s \<and> dist j = Some d}" by auto
  note law = expand_law [OF oka e]
  obtain ys where ys: "ins = ?I @ ys" "fr = drop (rg_beam_width p) ?F @ map nbr_id ys" "mset ys \<subseteq># mset ns"
    "\<forall>n \<in> set ns. f32_le (nbr_distance n) ?lim \<longrightarrow> n \<in> set ys \<or> \<not> below_max (rg_max_returned p) (length ins)"
    "\<forall>n \<in> set ys. f32_le (nbr_distance n) ?lim"
    by (rule range_collect_spec [OF c])
  have ysns: "set ys \<subseteq> set ns" using set_mset_mono [OF ys(3)] by simp
  have dys: "distinct (map nbr_id ys)"
    by (rule distinct_submset [of "map nbr_id ns"]) (use law ys(3) in \<open>simp_all add: image_mset_subseteq_mono\<close>)
  have new: "nbr_id ` set ys \<subseteq> v - ss_visited s" using ysns law by blast
  have split: "set ?F = set beam \<union> set (drop (rg_beam_width p) ?F)"
    unfolding beam by (metis append_take_drop_id set_append)
  have 1: "distinct (map nbr_id ins)" using k dys new unfolding ys(1) by fastforce
  have 2: "nbr_id ` set ins \<subseteq> v" using k new v unfolding ys(1) by auto
  have 3: "\<forall>n \<in> set ins. dist (nbr_id n) = Some (nbr_distance n)" using k ysns ns unfolding ys(1) by fastforce
  have 4: "set fr \<subseteq> nbr_id ` set ins" using k split unfolding ys(1,2) by auto
  have 5: "\<forall>n \<in> set ins. nbr_id n \<in> set fr \<or> nbrs (nbr_id n) \<subseteq> v"
  proof
    fix n assume "n \<in> set ins"
    then consider "n \<in> set ys" | "n \<in> set ?I" unfolding ys(1) by auto
    then show "nbr_id n \<in> set fr \<or> nbrs (nbr_id n) \<subseteq> v"
    proof cases
      case 1
      then show ?thesis unfolding ys(2) by simp
    next
      case 2
      with k have "nbr_id n \<in> set ?F \<or> nbrs (nbr_id n) \<subseteq> ss_visited s" by blast
      then show ?thesis unfolding split ys(2) v by auto
    qed
  qed
  have 6: "Neighbor j d \<in> set ins \<or> \<not> below_max (rg_max_returned p) (length ins)"
    if "j \<in> v" "dist j = Some d" "f32_le d ?lim" for j d
  proof (cases "j \<in> ss_visited s")
    case True
    with k that have "Neighbor j d \<in> set ?I \<or> \<not> below_max (rg_max_returned p) (length ?I)" by blast
    with below_max_mono [of "rg_max_returned p" "length ins" "length ?I"] show ?thesis unfolding ys(1) by auto
  next
    case False
    with that v have "Neighbor j d \<in> set ns" unfolding ns by blast
    with ys(4) that(3) show ?thesis unfolding ys(1) by fastforce
  qed
  have 7: "ss_hops s + of_nat (length beam) + of_nat (length fr) = h + of_nat (length ins)"
  proof -
    have "length ?F = length beam + length (drop (rg_beam_width p) ?F)"
      unfolding beam by (metis append_take_drop_id length_append)
    then have "(of_nat (length ?F) :: u32) = of_nat (length beam) + of_nat (length (drop (rg_beam_width p) ?F))"
      by (metis of_nat_add)
    moreover have "ss_hops s + of_nat (length ?F) = h + of_nat (length ?I)" using k by simp
    ultimately show ?thesis unfolding ys(1,2) by (simp add: add.assoc [symmetric])
  qed
  have 8: "ok a'" "v \<subseteq> U" using law k by blast+
  show ?thesis unfolding range_ok_def using 1 2 3 4 5 6 7 8 by simp
qed

lemma range_loop_spec:
  assumes "range_ok ok U nbrs dist p h a s" and bw: "0 < rg_beam_width p"
  shows "\<exists>a' s'. range_loop A p a s = Some (Inr (a', s')) \<and> range_ok ok U nbrs dist p h a' s' \<and>
     (ss_range_frontier s' = [] \<or> \<not> below_max (rg_max_returned p) (length (ss_in_range s'))) \<and>
     (\<exists>ys. ss_in_range s' = ss_in_range s @ ys)"
  using assms(1)
proof (induction "(card (U - ss_visited s), length (ss_range_frontier s))" arbitrary: a s
    rule: wf_induct_rule [OF wf_lex_prod [OF wf_less_than wf_less_than]])
  case (1 s a)
  show ?case
  proof (cases "ss_range_frontier s = [] \<or> \<not> below_max (rg_max_returned p) (length (ss_in_range s))")
    case True
    with 1(2) show ?thesis by (subst range_loop.simps) simp
  next
    case False
    let ?beam = "take (rg_beam_width p) (ss_range_frontier s)"
    have oka: "ok a" and vis: "ss_visited s \<subseteq> U" using 1(2) by (simp_all add: range_ok_def)
    have "set ?beam \<subseteq> set (ss_range_frontier s)" by (rule set_take_subset)
    from expand_exact [OF oka range_ok_frontier [OF 1(2) this], of "ss_visited s"] obtain ns v a' where
      e: "sa_expand_beam A a ?beam (ss_visited s) = Inr (ns, v, a')" by blast
    obtain ins fr where c: "range_collect (f32_mul (rg_radius p) (rg_range_slack p)) (rg_max_returned p) ns
        (ss_in_range s) (drop (rg_beam_width p) (ss_range_frontier s)) = (ins, fr)" by fastforce
    let ?s = "s\<lparr>ss_beam_nodes := ?beam, ss_visited := v, ss_in_range := ins, ss_range_frontier := fr,
        ss_cmps := ss_cmps s + of_nat (length ns), ss_hops := ss_hops s + of_nat (length ?beam)\<rparr>"
    have loop: "range_loop A p a s = range_loop A p a' ?s"
      using False e c by (subst range_loop.simps) (simp add: Let_def)
    note ok' = range_step [OF 1(2) refl e c, of "ss_cmps s + of_nat (length ns)"]
    note law = expand_law [OF oka e]
    have less: "((card (U - ss_visited ?s), length (ss_range_frontier ?s)),
        (card (U - ss_visited s), length (ss_range_frontier s))) \<in> less_than <*lex*> less_than"
    proof (cases "v = ss_visited s")
      case True
      with law have "ns = []" by auto
      with c have "fr = drop (rg_beam_width p) (ss_range_frontier s)" by simp
      with True bw False show ?thesis by auto
    next
      case False
      with law vis have "U - v \<subset> U - ss_visited s" by blast
      then have "card (U - v) < card (U - ss_visited s)" by (intro psubset_card_mono finite_Diff finite_ids)
      then show ?thesis by simp
    qed
    obtain ys where "ins = ss_in_range s @ ys" by (rule range_collect_spec [OF c])
    with 1(1) [OF less ok'] show ?thesis unfolding loop by auto
  qed
qed

end

section \<open>Searches over the in-memory provider\<close>

text \<open>The greedy search leaves the range frontier alone.\<close>

lemma take_beam_frontier:
  "take_beam Q recorder n s r = Inr (s', r') \<Longrightarrow> ss_range_frontier s' = ss_range_frontier s"
proof (induction n arbitrary: s r)
  case 0
  then show ?case by simp
next
  case (Suc n)
  then show ?case by (fastforce simp: bind_result_Inr Let_def split: option.splits)
qed

lemma add_start_points_frontier:
  "add_start_points Q ns s = Inr s' \<Longrightarrow> ss_range_frontier s' = ss_range_frontier s"
  by (induction ns arbitrary: s) (fastforce simp: bind_result_Inr)+

lemma search_step_frontier:
  assumes "search_step A Q recorder bw a s r = Inr (a', s', r')"
  shows "ss_range_frontier s' = ss_range_frontier s"
proof -
  from assms obtain s1 r1 where tb: "take_beam Q recorder bw (s\<lparr>ss_beam_nodes := []\<rparr>) r = Inr (s1, r1)"
    by (cases "take_beam Q recorder bw (s\<lparr>ss_beam_nodes := []\<rparr>) r") (auto simp: search_step_def)
  from assms [unfolded search_step_def tb] have "ss_range_frontier s' = ss_range_frontier s1"
    by (auto simp: bind_result_Inr)
  with take_beam_frontier [OF tb] show ?thesis by simp
qed

lemma search_loop_frontier:
  fixes A :: "('a, 'i, 'e) search_accessor" and Q :: "('q, 'i) queue_ops" and recorder :: "('r, 'i) search_record"
  assumes "search_loop A Q recorder bw a s r = Some (Inr (a', s', r'))"
  shows "ss_range_frontier s' = ss_range_frontier s"
proof -
  let ?P = "\<lambda>(A :: ('a, 'i, 'e) search_accessor) (Q :: ('q, 'i) queue_ops) (recorder :: ('r, 'i) search_record)
      (bw :: nat) (a :: 'a) (s :: ('q, 'i) search_scratch) (r :: 'r)
      (res :: ('e, 'a \<times> ('q, 'i) search_scratch \<times> 'r) ann_result).
      \<forall>a' s' r'. res = Inr (a', s', r') \<longrightarrow> ss_range_frontier s' = ss_range_frontier s"
  have "?P A Q recorder bw a s r (Inr (a', s', r'))"
  proof (rule search_loop.raw_induct [where P = ?P, OF _ assms])
    fix loop and A :: "('a, 'i, 'e) search_accessor" and Q :: "('q, 'i) queue_ops" and recorder :: "('r, 'i) search_record"
      and bw a s r res
    assume IH: "\<And>A Q recorder bw a s r res. loop A Q recorder bw a s r = Some res \<Longrightarrow> ?P A Q recorder bw a s r res"
      and run: "(if \<not> qo_has_notvisited_node Q (ss_best s) then Some (Inr (a, s, r))
      else let (stop, a) = sa_terminate_early A a in
        if stop then Some (Inr (a, s, r))
        else case search_step A Q recorder bw a s r of
               Inl e \<Rightarrow> Some (Inl e)
             | Inr (a, s, r) \<Rightarrow> loop A Q recorder bw a s r) = Some res"
    obtain st a1 where t: "sa_terminate_early A a = (st, a1)" by fastforce
    show "?P A Q recorder bw a s r res"
    proof (cases "search_step A Q recorder bw a1 s r")
      case (Inl e)
      with run t show ?thesis by (auto split: if_splits)
    next
      case (Inr x)
      obtain a2 s2 r2 where x: "x = (a2, s2, r2)" by (cases x) auto
      from search_step_frontier [OF Inr [unfolded x]] IH [of A Q recorder bw a2 s2 r2 res] run t Inr x show ?thesis
        by (auto split: if_splits sum.splits)
    qed
  qed
  then show ?thesis by simp
qed

lemma lift_panic_Inr: "lift_panic r = Inr x \<longleftrightarrow> r = Inr x"
  by (cases r) simp_all

lemma search_internal_frame:
  assumes "search_internal A Q recorder bw a s r = Some (Inr (stats, a', s', r'))"
  shows "ss_range_frontier s' = ss_range_frontier s" and "is_hops stats = ss_hops s'" and "is_cmps stats = ss_cmps s'"
proof -
  have "\<exists>a1 s1 w. search_loop A Q recorder w a1 s1 r = Some (Inr (a', s', r')) \<and>
      ss_range_frontier s1 = ss_range_frontier s \<and> is_hops stats = ss_hops s' \<and> is_cmps stats = ss_cmps s'"
  proof (cases "ss_visited s = {}")
    case True
    with assms show ?thesis
      by (fastforce simp: search_internal_def Let_def bind_result_Inr lift_panic_Inr split: sum.splits
          dest: add_start_points_frontier)
  next
    case False
    with assms have "search_loop A Q recorder (case bw of None \<Rightarrow> 1 | Some w \<Rightarrow> w) a s r = Some (Inr (a', s', r')) \<and>
        is_hops stats = ss_hops s' \<and> is_cmps stats = ss_cmps s'"
      by (auto simp: search_internal_def Let_def bind_result_Inr)
    then show ?thesis by blast
  qed
  then obtain a1 s1 w where l: "search_loop A Q recorder w a1 s1 r = Some (Inr (a', s', r'))"
    and f: "ss_range_frontier s1 = ss_range_frontier s"
    and st: "is_hops stats = ss_hops s'" "is_cmps stats = ss_cmps s'"
    by blast
  from search_loop_frontier [OF l] f st show "ss_range_frontier s' = ss_range_frontier s"
    "is_hops stats = ss_hops s'" "is_cmps stats = ss_cmps s'" by simp_all
qed

interpretation inmem_paged: paged_traversal inmem_ops "\<lambda>a. a = a0 \<and> inmem_ok a0" UNIV
    "set (inmem_starting_points a0)" "inmem_nbrs a0" "inmem_dist a0" for a0 :: "('v, 'e) inmem_accessor"
  by unfold_locales

lemma inmem_dist_dom: "inmem_ok a \<Longrightarrow> inmem_read a (unat i) \<noteq> None \<Longrightarrow> i \<in> dom (inmem_dist a)"
proof -
  assume ok: "inmem_ok a" and "inmem_read a (unat i) \<noteq> None"
  then obtain v where v: "inmem_read a (unat i) = Some v" by blast
  then have "ia_read a (unat i) = Some v" by (simp add: inmem_read_def split: if_splits)
  with ok obtain d where "ia_evaluate a v = Inr d" unfolding inmem_ok_def by blast
  with v show ?thesis by (auto simp: inmem_dist_def)
qed

text \<open>The first round of a range search, up to the reseeded scratch space.\<close>

lemma range_first_round:
  fixes a :: "('v, 'e) inmem_accessor"
  assumes ok: "inmem_ok a" and pos: "0 < rg_starting_l p" "0 < rg_beam_width p"
  obtains st1 s1 best where
    "search_internal inmem_ops npq_ops noop_record (Some (rg_beam_width p)) a
       (scratch_new (Fixed (rg_starting_l p + length (inmem_starting_points a)))) () = Some (Inr (st1, a, s1, ()))"
    and "npq_iter (ss_best s1) = Inr best" and "is_hops st1 = ss_hops s1"
    and "range_ok (\<lambda>b. b = a \<and> inmem_ok a) UNIV (inmem_nbrs a) (inmem_dist a) p (ss_hops s1) a
      ((range_reseed p best s1)\<lparr>ss_range_frontier := map nbr_id (ss_in_range (range_reseed p best s1))\<rparr>)"
    and "\<forall>n \<in> set (ss_in_range (range_reseed p best s1)). f32_le (nbr_distance n) (rg_radius p)"
    and "ss_range_frontier (range_reseed p best s1) = []"
proof -
  let ?l = "rg_starting_l p + length (inmem_starting_points a)"
  have l: "0 < ?l" using pos(1) by simp
  obtain st1 s1 r where run: "search_internal inmem_ops npq_ops noop_record (Some (rg_beam_width p)) a
       (scratch_new (Fixed ?l)) () = Some (Inr (st1, a, s1, r))"
    and s1: "inmem_search_ok a a s1" "inmem_explored a ?l s1" "npq_pending (ss_best s1) = []"
    by (rule inmem_search_internal [OF ok l pos(2)])
  note frame = search_internal_frame [OF run]
  note res = inmem_knn.explored_result [OF s1]
  let ?best = "take ?l (npq_entries (ss_best s1))"
  have iter: "npq_iter (ss_best s1) = Inr ?best" using res(1) by (simp add: npq_ops_def)
  define ins where "ins = filter (\<lambda>n. f32_le (nbr_distance n) (rg_radius p)) (take (rg_starting_l p) ?best)"
  have sub: "set ins \<subseteq> set ?best"
    unfolding ins_def by (rule order_trans [OF filter_is_subset set_take_subset])
  have dist: "distinct (map nbr_id ins)"
    unfolding ins_def using distinct_take_drop(2) [OF res(3)] by (intro distinct_map_filter)
  have eq: "ss_in_range (range_reseed p ?best s1) = ins" "ss_visited (range_reseed p ?best s1) = nbr_id ` set ins"
    "ss_hops (range_reseed p ?best s1) = ss_hops s1" "ss_range_frontier (range_reseed p ?best s1) = []"
    using frame(1) by (simp_all add: range_reseed_def Let_def scratch_new_def ins_def)
  have d: "\<forall>n \<in> set ins. inmem_dist a (nbr_id n) = Some (nbr_distance n)" using res(4) sub by blast
  have "Neighbor j d \<in> set ins" if "j \<in> nbr_id ` set ins" "inmem_dist a j = Some d" for j d
  proof -
    from that(1) obtain n where n: "n \<in> set ins" "nbr_id n = j" by blast
    with d that(2) have "nbr_distance n = d" by fastforce
    with n(2) have "Neighbor j d = n" by (metis neighbor.collapse)
    with n(1) show ?thesis by (simp only:)
  qed
  then have "range_ok (\<lambda>b. b = a \<and> inmem_ok a) UNIV (inmem_nbrs a) (inmem_dist a) p (ss_hops s1) a
      ((range_reseed p ?best s1)\<lparr>ss_range_frontier := map nbr_id (ss_in_range (range_reseed p ?best s1))\<rparr>)"
    using ok dist d unfolding range_ok_def by (simp add: eq)
  moreover have "\<forall>n \<in> set ins. f32_le (nbr_distance n) (rg_radius p)" by (simp add: ins_def)
  ultimately show thesis using run iter frame(2) eq by (intro that [of st1 s1 ?best]) simp_all
qed

lemma range_build_pos:
  "range_build b = Inr p \<Longrightarrow> 0 < rg_starting_l p \<and> 0 < rg_beam_width p"
  by (auto simp: range_build_def validate_and_create_def Let_def split: if_splits option.splits)

text \<open>Both rounds, with all that is known of the state the results are taken from.\<close>

lemma range_search_run:
  fixes a :: "('v, 'e) inmem_accessor"
  assumes ok: "inmem_ok a" and pos: "0 < rg_starting_l p" "0 < rg_beam_width p"
  obtains st1 s1 best and s :: "(u32 npq, u32) search_scratch" where
    "search_internal inmem_ops npq_ops noop_record (Some (rg_beam_width p)) a
       (scratch_new (Fixed (rg_starting_l p + length (inmem_starting_points a)))) () = Some (Inr (st1, a, s1, ()))"
    and "npq_iter (ss_best s1) = Inr best"
    and "range_search p inmem_ops (Inr a) pooled md copy_ids vec_ops [] =
      Some (Inr (\<lparr>st_cmps = is_cmps st1,
        st_hops = (if second_round p (length (ss_in_range (range_reseed p best s1)))
          then is_hops st1 + ss_hops s else is_hops st1),
        st_result_count = of_nat (length (filter (\<lambda>n. within_radii p (nbr_distance n)) (ss_in_range s))),
        st_range_search_second_round =
          (second_round p (length (ss_in_range (range_reseed p best s1))) \<or> is_range_search_second_round st1)\<rparr>,
        filter (\<lambda>n. within_radii p (nbr_distance n)) (ss_in_range s)))"
    and "range_ok (\<lambda>b. b = a \<and> inmem_ok a) UNIV (inmem_nbrs a) (inmem_dist a) p (is_hops st1) a s"
    and "second_round p (length (ss_in_range (range_reseed p best s1))) \<Longrightarrow>
      ss_range_frontier s = [] \<or> \<not> below_max (rg_max_returned p) (length (ss_in_range s))"
    and "set (ss_in_range (range_reseed p best s1)) \<subseteq> set (ss_in_range s)"
proof -
  obtain st1 s1 best where f:
    "search_internal inmem_ops npq_ops noop_record (Some (rg_beam_width p)) a
       (scratch_new (Fixed (rg_starting_l p + length (inmem_starting_points a)))) () = Some (Inr (st1, a, s1, ()))"
    "npq_iter (ss_best s1) = Inr best" "is_hops st1 = ss_hops s1"
    "range_ok (\<lambda>b. b = a \<and> inmem_ok a) UNIV (inmem_nbrs a) (inmem_dist a) p (ss_hops s1) a
      ((range_reseed p best s1)\<lparr>ss_range_frontier := map nbr_id (ss_in_range (range_reseed p best s1))\<rparr>)"
    "ss_range_frontier (range_reseed p best s1) = []"
    by (rule range_first_round [OF assms])
  let ?s = "range_reseed p best s1"
  let ?t = "?s\<lparr>ss_range_frontier := map nbr_id (ss_in_range ?s)\<rparr>"
  have num: "num_starting_points inmem_ops a = Inr (length (inmem_starting_points a))"
    by (simp add: num_starting_points_def inmem_ops_def)
  show thesis
  proof (cases "second_round p (length (ss_in_range ?s))")
    case True
    from inmem.range_loop_spec [OF f(4) pos(2)] obtain a' s where r: "range_loop inmem_ops p a ?t = Some (Inr (a', s))"
      "range_ok (\<lambda>b. b = a \<and> inmem_ok a) UNIV (inmem_nbrs a) (inmem_dist a) p (ss_hops s1) a' s"
      "ss_range_frontier s = [] \<or> \<not> below_max (rg_max_returned p) (length (ss_in_range s))"
      "\<exists>ys. ss_in_range s = ss_in_range ?t @ ys" by (elim exE conjE) (rule that, assumption+, blast)
    have a': "a' = a" using r(2) by (simp add: range_ok_def)
    have "set (ss_in_range ?s) \<subseteq> set (ss_in_range s)" using r(4) by auto
    moreover have "range_search_internal inmem_ops p a ?s =
        Some (Inr (\<lparr>is_cmps = ss_cmps s, is_hops = ss_hops s, is_range_search_second_round = True\<rparr>, a, s))"
      using r(1) f(5) a' by (simp add: range_search_internal_def)
    ultimately show ?thesis
      using f(1-3) r(2,3) num True a'
      by (intro that [of st1 s1 best s])
        (simp_all add: range_search_def search_scratch_of_eq copy_ids_def distance_filtered_ops_def df_extend_def vec_ops_def)
  next
    case False
    have "is_range_search_second_round st1 = is_range_search_second_round st1" ..
    with f num False show ?thesis
      by (intro that [of st1 s1 best ?t])
        (simp_all add: range_search_def search_scratch_of_eq copy_ids_def distance_filtered_ops_def df_extend_def vec_ops_def)
  qed
qed

lemma range_okD:
  assumes "range_ok ok U nbrs dist p h a s"
  shows "distinct (map nbr_id (ss_in_range s))"
    and "\<forall>n \<in> set (ss_in_range s). dist (nbr_id n) = Some (nbr_distance n)"
    and "\<forall>n \<in> set (ss_in_range s). nbr_id n \<in> set (ss_range_frontier s) \<or> nbrs (nbr_id n) \<subseteq> ss_visited s"
    and "\<forall>j \<in> ss_visited s. \<forall>d. dist j = Some d \<longrightarrow> f32_le d (f32_mul (rg_radius p) (rg_range_slack p)) \<longrightarrow>
        Neighbor j d \<in> set (ss_in_range s) \<or> \<not> below_max (rg_max_returned p) (length (ss_in_range s))"
    and "ss_hops s + of_nat (length (ss_range_frontier s)) = h + of_nat (length (ss_in_range s))"
proof -
  note k = assms [unfolded range_ok_def, THEN conjunct2, THEN conjunct2]
  note k4 = k [THEN conjunct2, THEN conjunct2]
  note k6 = k4 [THEN conjunct2, THEN conjunct2]
  show "distinct (map nbr_id (ss_in_range s))" by (rule k [THEN conjunct1])
  show "\<forall>n \<in> set (ss_in_range s). dist (nbr_id n) = Some (nbr_distance n)" by (rule k4 [THEN conjunct1])
  show "\<forall>n \<in> set (ss_in_range s). nbr_id n \<in> set (ss_range_frontier s) \<or> nbrs (nbr_id n) \<subseteq> ss_visited s"
    by (rule k6 [THEN conjunct1])
  show "\<forall>j \<in> ss_visited s. \<forall>d. dist j = Some d \<longrightarrow> f32_le d (f32_mul (rg_radius p) (rg_range_slack p)) \<longrightarrow>
        Neighbor j d \<in> set (ss_in_range s) \<or> \<not> below_max (rg_max_returned p) (length (ss_in_range s))"
    by (rule k6 [THEN conjunct2, THEN conjunct1])
  show "ss_hops s + of_nat (length (ss_range_frontier s)) = h + of_nat (length (ss_in_range s))"
    by (rule k6 [THEN conjunct2, THEN conjunct2])
qed

section \<open>Properties\<close>

text \<open>
  C5. Range search over the in-memory provider returns. Its results are exactly within the two radii,
  carry their own distances and contain no id twice, and the result count is their number. When the
  second round runs without a bound on the number of results and the slack does not shrink the radius,
  the result is closed: every graph neighbor of a result that lies within the radii is a result.
\<close>

theorem range_search_correct:
  fixes a :: "('v, 'e) inmem_accessor"
  assumes "inmem_ok a" and "range_build b = Inr p"
  shows "\<exists>stats out. range_search p inmem_ops (Inr a) pooled md copy_ids vec_ops [] = Some (Inr (stats, out)) \<and>
     st_result_count stats = of_nat (length out) \<and> distinct (map nbr_id out) \<and>
     (\<forall>n \<in> set out. inmem_dist a (nbr_id n) = Some (nbr_distance n) \<and> within_radii p (nbr_distance n)) \<and>
     (st_range_search_second_round stats \<and> rg_max_returned p = None \<and>
      f32_le (rg_radius p) (f32_mul (rg_radius p) (rg_range_slack p)) \<longrightarrow>
        (\<forall>n \<in> set out. \<forall>j \<in> inmem_nbrs a (nbr_id n). \<forall>d. inmem_dist a j = Some d \<longrightarrow> within_radii p d \<longrightarrow>
           Neighbor j d \<in> set out))"
proof -
  have pos: "0 < rg_starting_l p" "0 < rg_beam_width p" using range_build_pos [OF assms(2)] by simp_all
  obtain st1 s1 best and s :: "(u32 npq, u32) search_scratch" where r:
    "search_internal inmem_ops npq_ops noop_record (Some (rg_beam_width p)) a
       (scratch_new (Fixed (rg_starting_l p + length (inmem_starting_points a)))) () = Some (Inr (st1, a, s1, ()))"
    "range_search p inmem_ops (Inr a) pooled md copy_ids vec_ops [] =
      Some (Inr (\<lparr>st_cmps = is_cmps st1,
        st_hops = (if second_round p (length (ss_in_range (range_reseed p best s1)))
          then is_hops st1 + ss_hops s else is_hops st1),
        st_result_count = of_nat (length (filter (\<lambda>n. within_radii p (nbr_distance n)) (ss_in_range s))),
        st_range_search_second_round =
          (second_round p (length (ss_in_range (range_reseed p best s1))) \<or> is_range_search_second_round st1)\<rparr>,
        filter (\<lambda>n. within_radii p (nbr_distance n)) (ss_in_range s)))"
    "range_ok (\<lambda>b. b = a \<and> inmem_ok a) UNIV (inmem_nbrs a) (inmem_dist a) p (is_hops st1) a s"
    "second_round p (length (ss_in_range (range_reseed p best s1))) \<Longrightarrow>
      ss_range_frontier s = [] \<or> \<not> below_max (rg_max_returned p) (length (ss_in_range s))"
    by (rule range_search_run [OF assms(1) pos, of pooled md]) (rule that, assumption+)
  let ?out = "filter (\<lambda>n. within_radii p (nbr_distance n)) (ss_in_range s)"
  let ?second = "second_round p (length (ss_in_range (range_reseed p best s1)))"
  have st1: "\<not> is_range_search_second_round st1"
    using r(1) by (auto simp: search_internal_def Let_def bind_result_Inr split: if_splits sum.splits)
  note k = range_okD [OF r(3)]
  have closed: "Neighbor j d \<in> set ?out"
    if "?second" "rg_max_returned p = None" "f32_le (rg_radius p) (f32_mul (rg_radius p) (rg_range_slack p))"
      "n \<in> set ?out" "j \<in> inmem_nbrs a (nbr_id n)" "inmem_dist a j = Some d" "within_radii p d" for n j d
  proof -
    have fr: "ss_range_frontier s = []" using r(4) that(1,2) by (auto simp: below_max_def)
    have "n \<in> set (ss_in_range s)" using that(4) by simp
    with k(3) fr that(5) have "j \<in> ss_visited s" by fastforce
    moreover have "f32_le d (f32_mul (rg_radius p) (rg_range_slack p))"
      using that(3,7) by (auto simp: within_radii_def f32_order)
    ultimately have "Neighbor j d \<in> set (ss_in_range s)" using k(4) that(2,6) by (auto simp: below_max_def)
    with that(7) show ?thesis by simp
  qed
  let ?stats = "\<lparr>st_cmps = is_cmps st1, st_hops = (if ?second then is_hops st1 + ss_hops s else is_hops st1),
        st_result_count = of_nat (length ?out),
        st_range_search_second_round = (?second \<or> is_range_search_second_round st1)\<rparr>"
  have 1: "distinct (map nbr_id ?out)" using k(1) by (rule distinct_map_filter)
  have 2: "\<forall>n \<in> set ?out. inmem_dist a (nbr_id n) = Some (nbr_distance n) \<and> within_radii p (nbr_distance n)"
    using k(2) by simp
  have 3: "?second" if "st_range_search_second_round ?stats" using that st1 by simp
  show ?thesis
    by (intro exI [of _ ?stats] exI [of _ ?out] conjI r(2) 1 2 impI ballI allI) (simp, elim conjE, rule closed [OF 3])
qed

definition sample_range :: range_builder where
  "sample_range = range_builder_of 5 f32_one"

definition sample_range_params :: range_params where
  "sample_range_params = \<lparr>rg_max_returned = None, rg_starting_l = 5, rg_beam_width = 1, rg_radius = f32_one,
     rg_inner_radius = None, rg_initial_slack = f32_one, rg_range_slack = f32_one\<rparr>"

lemma sample_range_build: "range_build sample_range = Inr sample_range_params"
  by (simp add: sample_range_def sample_range_params_def range_builder_of_def range_build_def
      validate_and_create_def f32_eval f32_one_def f32_zero_def F32_INF_MAG_def)

theorem range_search_correct_witness:
  "\<exists>stats out. range_search sample_range_params inmem_ops (Inr sample_accessor) None 4 copy_ids vec_ops [] =
      Some (Inr (stats, out)) \<and> distinct (map nbr_id out)"
  using range_search_correct [OF sample_accessor_ok(1) sample_range_build, of None 4] by blast



text \<open>
  C6. Paged search over the in-memory provider never repeats itself: any sequence of page requests
  between one and \<open>l\<close> returns pages that are each sorted by distance and no longer than asked for, and no
  id occurs twice in all of them together. No page contains a start point, and none contains an initial
  id either: those given as \<open>init_ids\<close> are marked visited and never put into the queue.
\<close>

theorem paged_search_pages:
  fixes a :: "('v, 'e) inmem_accessor"
  assumes "inmem_ok a" and "0 < l"
    and "ids = (case init_ids of Some ids \<Rightarrow> ids | None \<Rightarrow> inmem_starting_points a)"
    and "\<forall>i \<in> set ids. inmem_read a (unat i) \<noteq> None" and "\<forall>k \<in> set ks. 0 < k \<and> k \<le> l"
  shows "\<exists>p pages p'. paged_search_with_init_ids dflt inmem_ops (Inr a) l init_ids = Inr p \<and>
     next_pages inmem_ops p ks = Some (Inr (pages, p')) \<and>
     list_all2 (\<lambda>k page. length page \<le> k \<and> sorted_wrt by_distance page) ks pages \<and>
     distinct (map nbr_id (concat pages)) \<and>
     nbr_id ` set (concat pages) \<inter> (set ids \<union> set (inmem_starting_points a)) = {}"
proof -
  have dom: "set ids \<subseteq> dom (inmem_dist a)" using assms(4) inmem_dist_dom [OF assms(1)] by (auto simp del: domIff)
  have "sa_starting_points inmem_ops a = Inr (inmem_starting_points a)" by (simp add: inmem_ops_def)
  from inmem_paged.paged_search_ok [OF _ assms(2,3) dom subset_UNIV this, of dflt] assms(1)
  obtain p where p: "paged_search_with_init_ids dflt inmem_ops (Inr a) l init_ids = Inr p"
    "paged_ok (\<lambda>b. b = a \<and> inmem_ok a) UNIV (inmem_dist a) (set ids) l p" by auto
  from inmem_paged.next_pages_spec [OF p(2) assms(5)] p(1) show ?thesis by blast
qed

theorem paged_search_pages_witness:
  "\<exists>p pages p'. paged_search_with_init_ids (Neighbor 0 0) inmem_ops (Inr sample_accessor) 5 (Some [2]) = Inr p \<and>
     next_pages inmem_ops p [1, 2] = Some (Inr (pages, p')) \<and> distinct (map nbr_id (concat pages)) \<and>
     2 \<notin> nbr_id ` set (concat pages)"
proof -
  have "\<forall>i \<in> set [2 :: u32]. inmem_read sample_accessor (unat i) \<noteq> None"
    by (simp add: inmem_read_def sample_accessor_def)
  from paged_search_pages [OF sample_accessor_ok(1), of 5 "[2]" "Some [2]" "[1, 2]" "Neighbor 0 0"] this
  show ?thesis by (simp, elim exE conjE) blast
qed

end
