(* ===== verification/InmemBuffer.thy ===== *)
theory InmemBuffer
  imports Prelude F32 Adjacency
begin

text \<open>
  The storage of the in-memory provider at the level of bytes: sizes (\<open>diskann-inmem/src/num.rs\<close>),
  the row store \<open>Buffer\<close> with its \<open>RawSlice\<close>s (\<open>diskann-inmem/src/buffer.rs\<close>) and the adjacency
  lists \<open>Neighbors\<close> kept in one (\<open>diskann-inmem/src/neighbors.rs\<close>).

  A buffer is its allocation, a list of bytes; a raw slice is an offset and a length. The source reads and
  writes through pointers without checks; here an access outside of the allocation is \<open>IndexOutOfBounds\<close>,
  and the lemmas show that none happens. The locks of \<open>Neighbors\<close> only order the operations, each of
  which holds its lock throughout, so each is one function on the state.
\<close>

unbundle bit_operations_syntax

section \<open>Sizes\<close>

definition ISIZE_MAX :: nat where "ISIZE_MAX = 2 ^ 63 - 1"

definition bytes_checked_add :: "nat \<Rightarrow> nat \<Rightarrow> nat option" where
  "bytes_checked_add a b = (if a + b \<le> USIZE_MAX then Some (a + b) else None)"

definition bytes_checked_mul :: "nat \<Rightarrow> nat \<Rightarrow> nat option" where
  "bytes_checked_mul a b = (if a * b \<le> USIZE_MAX then Some (a * b) else None)"

definition next_multiple_of :: "nat \<Rightarrow> nat \<Rightarrow> nat" where
  "next_multiple_of a b = (a + b - 1) div b * b"

definition bytes_checked_next_multiple_of :: "nat \<Rightarrow> nat \<Rightarrow> nat option" where
  "bytes_checked_next_multiple_of a b =
     (if b = 0 then None else if next_multiple_of a b \<le> USIZE_MAX then Some (next_multiple_of a b) else None)"

section \<open>Buffers\<close>

record buffer =
  bf_mem :: "u8 list"
  bf_stride :: nat
  bf_entries :: nat

datatype buffer_error = BufferError

text \<open>\<open>Layout::from_size_align\<close> accepts a size that, rounded up to the alignment, is at most \<open>isize::MAX\<close>.\<close>

definition buffer_new :: "nat \<Rightarrow> nat \<Rightarrow> nat \<Rightarrow> buffer_error + buffer" where
  "buffer_new entries bytes_per_entry align =
     (case bytes_checked_mul bytes_per_entry entries of
        None \<Rightarrow> Inl BufferError
      | Some bytes \<Rightarrow>
          if next_multiple_of bytes align \<le> ISIZE_MAX then
            Inr \<lparr>bf_mem = replicate bytes 0, bf_stride = bytes_per_entry, bf_entries = entries\<rparr>
          else Inl BufferError)"

record raw_slice =
  rs_ptr :: nat
  rs_len :: nat

definition buffer_get_unchecked :: "buffer \<Rightarrow> nat \<Rightarrow> raw_slice" where
  "buffer_get_unchecked b i = \<lparr>rs_ptr = bf_stride b * i, rs_len = bf_stride b\<rparr>"

definition raw_truncate :: "raw_slice \<Rightarrow> nat \<Rightarrow> raw_slice" where
  "raw_truncate s n = \<lparr>rs_ptr = rs_ptr s, rs_len = min (rs_len s) n\<rparr>"

definition raw_split :: "raw_slice \<Rightarrow> nat \<Rightarrow> raw_slice \<times> raw_slice" where
  "raw_split s n =
     (let m = min (rs_len s) n in
      (\<lparr>rs_ptr = rs_ptr s, rs_len = m\<rparr>, \<lparr>rs_ptr = rs_ptr s + m, rs_len = rs_len s - m\<rparr>))"

text \<open>Reading and writing bytes of the allocation.\<close>

definition mem_read :: "u8 list \<Rightarrow> nat \<Rightarrow> nat \<Rightarrow> u8 list partial" where
  "mem_read m p n = (if p + n \<le> length m then Inr (take n (drop p m)) else Inl IndexOutOfBounds)"

definition mem_write :: "u8 list \<Rightarrow> nat \<Rightarrow> u8 list \<Rightarrow> u8 list partial" where
  "mem_write m p bs =
     (if p + length bs \<le> length m then Inr (take p m @ bs @ drop (p + length bs) m) else Inl IndexOutOfBounds)"

text \<open>A \<open>u32\<close> in memory, least significant byte first.\<close>

definition u32_to_bytes :: "u32 \<Rightarrow> u8 list" where
  "u32_to_bytes w = [ucast w, ucast (drop_bit 8 w), ucast (drop_bit 16 w), ucast (drop_bit 24 w)]"

fun u32_from_bytes :: "u8 list \<Rightarrow> u32" where
  "u32_from_bytes [] = 0"
| "u32_from_bytes (b # bs) = ucast b OR push_bit 8 (u32_from_bytes bs)"

fun u32s_from_bytes :: "u8 list \<Rightarrow> u32 list" where
  "u32s_from_bytes (a # b # c # d # bs) = u32_from_bytes [a, b, c, d] # u32s_from_bytes bs"
| "u32s_from_bytes bs = []"

definition u32s_to_bytes :: "u32 list \<Rightarrow> u8 list" where
  "u32s_to_bytes ws = concat (map u32_to_bytes ws)"

section \<open>Adjacency lists in a buffer\<close>

definition LOCK_GRANULARITY :: nat where "LOCK_GRANULARITY = 16"

definition lock_index :: "u32 \<Rightarrow> nat" where
  "lock_index i = unat i div LOCK_GRANULARITY"

record neighbors =
  nb_neighbors :: buffer
  nb_locks :: nat

datatype neighbors_error = NbOverflow u32 | NbAllocationFailed buffer_error

text \<open>\<open>ID_SIZE\<close> is \<open>size_of::<u32>()\<close>.\<close>

definition ID_SIZE :: nat where "ID_SIZE = 4"

definition neighbors_new :: "u32 \<Rightarrow> u32 \<Rightarrow> neighbors_error + neighbors" where
  "neighbors_new entries max_length =
     (case Option.bind (bytes_checked_add (unat max_length) 1) (\<lambda>len. bytes_checked_mul len ID_SIZE) of
        None \<Rightarrow> Inl (NbOverflow max_length)
      | Some bytes \<Rightarrow>
          (case buffer_new (unat entries) bytes 128 of
             Inl e \<Rightarrow> Inl (NbAllocationFailed e)
           | Inr b \<Rightarrow> Inr \<lparr>nb_neighbors = b, nb_locks = (unat entries + LOCK_GRANULARITY - 1) div LOCK_GRANULARITY\<rparr>))"

definition nb_max_length :: "neighbors \<Rightarrow> nat" where
  "nb_max_length nb = (bf_stride (nb_neighbors nb) - ID_SIZE) div ID_SIZE"

definition nb_max_length_u32 :: "neighbors \<Rightarrow> u32" where
  "nb_max_length_u32 nb = of_nat (nb_max_length nb)"

definition nb_entries :: "neighbors \<Rightarrow> u32" where
  "nb_entries nb = of_nat (bf_entries (nb_neighbors nb))"

datatype nb_error =
    NbPanic panic
  | NbOutOfBounds u32
  | NbTooLong nat u32

definition nb_check :: "neighbors \<Rightarrow> u32 \<Rightarrow> nb_error + unit" where
  "nb_check nb i = (if nb_entries nb \<le> i then Inl (NbOutOfBounds i) else Inr ())"

definition nb_partial :: "'a partial \<Rightarrow> nb_error + 'a" where
  "nb_partial r = (case r of Inl p \<Rightarrow> Inl (NbPanic p) | Inr a \<Rightarrow> Inr a)"

text \<open>The lock guarding list \<open>i\<close>; a missing one would be an access out of bounds.\<close>

definition nb_acquire :: "neighbors \<Rightarrow> u32 \<Rightarrow> nb_error + unit" where
  "nb_acquire nb i = (if lock_index i < nb_locks nb then Inr () else Inl (NbPanic IndexOutOfBounds))"

definition nb_get :: "neighbors \<Rightarrow> u32 \<Rightarrow> nb_error + u32 adjacency_list" where
  "nb_get nb i =
     bind_result (nb_check nb i) (\<lambda>_.
     bind_result (nb_acquire nb i) (\<lambda>_.
     let (prefix, rest) = raw_split (buffer_get_unchecked (nb_neighbors nb) (unat i)) ID_SIZE in
     bind_result (nb_partial (mem_read (bf_mem (nb_neighbors nb)) (rs_ptr prefix) ID_SIZE)) (\<lambda>stored.
     let len = unat (min (u32_from_bytes stored) (nb_max_length_u32 nb)) in
     bind_result (nb_partial (mem_read (bf_mem (nb_neighbors nb)) (rs_ptr rest) (len * ID_SIZE))) (\<lambda>bytes.
     Inr \<lparr>al_edges = u32s_from_bytes bytes\<rparr>))))"

record nb_lock =
  lk_ptr :: nat
  lk_capacity :: nat

definition nb_lock_unchecked :: "neighbors \<Rightarrow> u32 \<Rightarrow> nb_error + nb_lock" where
  "nb_lock_unchecked nb i =
     bind_result (nb_acquire nb i) (\<lambda>_.
     Inr \<lparr>lk_ptr = rs_ptr (buffer_get_unchecked (nb_neighbors nb) (unat i)), lk_capacity = nb_max_length nb\<rparr>)"

definition nb_lock_list :: "neighbors \<Rightarrow> u32 \<Rightarrow> nb_error + nb_lock" where
  "nb_lock_list nb i = bind_result (nb_check nb i) (\<lambda>_. nb_lock_unchecked nb i)"

definition lock_len :: "neighbors \<Rightarrow> nb_lock \<Rightarrow> nb_error + nat" where
  "lock_len nb l =
     bind_result (nb_partial (mem_read (bf_mem (nb_neighbors nb)) (lk_ptr l) ID_SIZE)) (\<lambda>stored.
     Inr (min (unat (u32_from_bytes stored)) (lk_capacity l)))"

text \<open>Copy the ids to the positions from \<open>start\<close> on, then write the new length in front.\<close>

definition lock_write :: "neighbors \<Rightarrow> nb_lock \<Rightarrow> nat \<Rightarrow> u32 list \<Rightarrow> nat \<Rightarrow> nb_error + neighbors" where
  "lock_write nb l start ns len =
     bind_result (nb_partial (mem_write (bf_mem (nb_neighbors nb)) (lk_ptr l + (start + 1) * ID_SIZE)
       (u32s_to_bytes ns))) (\<lambda>m.
     bind_result (nb_partial (mem_write m (lk_ptr l) (u32_to_bytes (of_nat len)))) (\<lambda>m.
     Inr (nb\<lparr>nb_neighbors := (nb_neighbors nb)\<lparr>bf_mem := m\<rparr>\<rparr>)))"

definition lock_append :: "neighbors \<Rightarrow> nb_lock \<Rightarrow> u32 list \<Rightarrow> nb_error + neighbors" where
  "lock_append nb l ns =
     bind_result (lock_len nb l) (\<lambda>len.
     let newlen = min (len + length ns) USIZE_MAX in
     if lk_capacity l < newlen then Inl (NbTooLong newlen (of_nat (lk_capacity l)))
     else lock_write nb l len ns newlen)"

definition lock_write_unchecked :: "neighbors \<Rightarrow> nb_lock \<Rightarrow> u32 list \<Rightarrow> nb_error + neighbors" where
  "lock_write_unchecked nb l ns = lock_write nb l 0 ns (length ns)"

definition nb_set :: "neighbors \<Rightarrow> u32 \<Rightarrow> u32 list \<Rightarrow> nb_error + neighbors" where
  "nb_set nb i ns =
     bind_result (nb_check nb i) (\<lambda>_.
     if nb_max_length nb < length ns then Inl (NbTooLong (length ns) (nb_max_length_u32 nb))
     else bind_result (nb_lock_unchecked nb i) (\<lambda>l. lock_write_unchecked nb l ns))"

section \<open>Bytes and words\<close>

lemma length_u32_to_bytes [simp]: "length (u32_to_bytes w) = 4"
  by (simp add: u32_to_bytes_def)

lemma u32_from_to_bytes [simp]: "u32_from_bytes (u32_to_bytes w) = w"
proof (rule bit_word_eqI)
  fix n
  assume "n < LENGTH(32)"
  then consider "n < 8" | "8 \<le> n" "n < 16" | "16 \<le> n" "n < 24" | "24 \<le> n" "n < 32" by force
  then show "bit (u32_from_bytes (u32_to_bytes w)) n = bit w n"
    by cases (auto simp: u32_to_bytes_def bit_or_iff bit_push_bit_iff bit_ucast_iff bit_drop_bit_eq)
qed

lemma u32s_from_bytes_append:
  assumes "length xs = 4"
  shows "u32s_from_bytes (xs @ ys) = u32_from_bytes xs # u32s_from_bytes ys"
proof -
  obtain a b c d where "xs = [a, b, c, d]"
    using assms by (auto simp: length_Suc_conv eval_nat_numeral)
  then show ?thesis by simp
qed

lemma length_u32s_to_bytes [simp]: "length (u32s_to_bytes ws) = 4 * length ws"
  by (induction ws) (simp_all add: u32s_to_bytes_def)

lemma u32s_to_bytes_simps [simp]:
  "u32s_to_bytes [] = []" "u32s_to_bytes (w # ws) = u32_to_bytes w @ u32s_to_bytes ws"
  "u32s_to_bytes (xs @ ys) = u32s_to_bytes xs @ u32s_to_bytes ys"
  by (simp_all add: u32s_to_bytes_def)

lemma u32s_from_to_bytes [simp]: "u32s_from_bytes (u32s_to_bytes ws) = ws"
  by (induction ws) (simp_all add: u32s_from_bytes_append)

section \<open>Memory\<close>

lemma mem_write_eq:
  "p + length bs \<le> length m \<Longrightarrow> mem_write m p bs = Inr (take p m @ bs @ drop (p + length bs) m)"
  by (simp add: mem_write_def)

lemma mem_write_length: "mem_write m p bs = Inr m' \<Longrightarrow> length m' = length m"
  by (auto simp: mem_write_def split: if_splits)

lemma mem_read_same: "mem_write m p bs = Inr m' \<Longrightarrow> mem_read m' p (length bs) = Inr bs"
  by (auto simp: mem_write_def mem_read_def split: if_splits)

lemma mem_read_frame:
  assumes "mem_write m p bs = Inr m'" and "q + n \<le> p \<or> p + length bs \<le> q"
  shows "mem_read m' q n = mem_read m q n"
proof -
  have m': "m' = take p m @ bs @ drop (p + length bs) m" "p + length bs \<le> length m"
    using assms(1) by (auto simp: mem_write_def split: if_splits)
  have "take n (drop q m') = take n (drop q m)" if "q + n \<le> length m"
    using assms(2)
  proof
    assume "q + n \<le> p"
    with m' show ?thesis by (simp add: drop_take min_absorb1)
  next
    assume "p + length bs \<le> q"
    with m' show ?thesis by simp
  qed
  moreover have "length m' = length m" using m' by simp
  ultimately show ?thesis by (simp add: mem_read_def)
qed

lemma mem_read_append:
  assumes "mem_read m p a = Inr x" and "mem_read m (p + a) b = Inr y"
  shows "mem_read m p (a + b) = Inr (x @ y)"
  using assms by (auto simp: mem_read_def take_add ac_simps split: if_splits)

lemma mem_read_length: "mem_read m p n = Inr bs \<Longrightarrow> length bs = n"
  by (auto simp: mem_read_def split: if_splits)

lemma mem_read_total: "p + n \<le> length m \<Longrightarrow> \<exists>bs. mem_read m p n = Inr bs"
  by (simp add: mem_read_def)

section \<open>Lists are kept\<close>

text \<open>The stored length of list \<open>i\<close>, and the invariant of the storage: rows of \<open>cap + 1\<close> words.\<close>

definition nb_stored :: "neighbors \<Rightarrow> nat \<Rightarrow> nat" where
  "nb_stored nb i =
     (case mem_read (bf_mem (nb_neighbors nb)) (bf_stride (nb_neighbors nb) * i) 4 of
        Inr bs \<Rightarrow> unat (u32_from_bytes bs) | Inl e \<Rightarrow> 0)"

definition nb_ok :: "nat \<Rightarrow> nat \<Rightarrow> neighbors \<Rightarrow> bool" where
  "nb_ok entries cap nb \<longleftrightarrow> entries < 2 ^ 32 \<and> cap < 2 ^ 32 \<and>
     bf_entries (nb_neighbors nb) = entries \<and> bf_stride (nb_neighbors nb) = 4 * (cap + 1) \<and>
     length (bf_mem (nb_neighbors nb)) = 4 * (cap + 1) * entries \<and>
     (entries + 15) div 16 \<le> nb_locks nb \<and> (\<forall>i < entries. nb_stored nb i \<le> cap)"

definition nb_list :: "neighbors \<Rightarrow> u32 \<Rightarrow> u32 list" where
  "nb_list nb i = (case nb_get nb i of Inr l \<Rightarrow> al_edges l | Inl e \<Rightarrow> [])"

lemma row_in_bounds:
  assumes "i < (entries :: nat)"
  shows "(4 * (cap + 1)) * i + 4 * (cap + 1) \<le> 4 * (cap + 1) * entries"
proof -
  have "(4 * (cap + 1)) * (i + 1) \<le> (4 * (cap + 1)) * entries" using assms by (intro mult_le_mono2) simp
  then show ?thesis by simp
qed

lemma nb_sizes:
  assumes "nb_ok entries cap nb"
  shows "nb_max_length nb = cap" and "unat (nb_max_length_u32 nb) = cap"
    and "nb_entries nb \<le> i \<longleftrightarrow> entries \<le> unat i" and "unat i < entries \<Longrightarrow> nb_acquire nb i = Inr ()"
proof -
  note ok = assms [unfolded nb_ok_def]
  show m: "nb_max_length nb = cap" using ok by (simp add: nb_max_length_def ID_SIZE_def)
  show "unat (nb_max_length_u32 nb) = cap"
    using ok m by (simp add: nb_max_length_u32_def unat_of_nat take_bit_nat_def)
  show "nb_entries nb \<le> i \<longleftrightarrow> entries \<le> unat i"
    using ok by (simp add: nb_entries_def word_le_nat_alt unat_of_nat take_bit_nat_def)
  show "nb_acquire nb i = Inr ()" if "unat i < entries"
  proof -
    have "unat i div 16 < (entries + 15) div 16" using that by linarith
    then show ?thesis using ok by (simp add: nb_acquire_def lock_index_def LOCK_GRANULARITY_def)
  qed
qed

lemma nb_get_eq:
  assumes "nb_ok entries cap nb" and "unat i < entries"
  shows "\<exists>bytes. mem_read (bf_mem (nb_neighbors nb)) (4 * (cap + 1) * unat i + 4) (4 * nb_stored nb (unat i)) = Inr bytes \<and>
     nb_get nb i = Inr \<lparr>al_edges = u32s_from_bytes bytes\<rparr>"
proof -
  note ok = assms(1) [unfolded nb_ok_def]
  let ?m = "bf_mem (nb_neighbors nb)" and ?p = "4 * (cap + 1) * unat i"
  have row: "?p + 4 * (cap + 1) \<le> length ?m" using row_in_bounds [OF assms(2), of cap] ok by simp
  then obtain st where st: "mem_read ?m ?p 4 = Inr st" using mem_read_total [of ?p 4 ?m] by auto
  have stored: "nb_stored nb (unat i) = unat (u32_from_bytes st)" using st ok by (simp add: nb_stored_def)
  moreover have "nb_stored nb (unat i) \<le> cap" using ok assms(2) by simp
  ultimately have len: "unat (min (u32_from_bytes st) (nb_max_length_u32 nb)) = nb_stored nb (unat i)"
    using nb_sizes(2) [OF assms(1)] by (simp add: min_def word_le_nat_alt)
  have "?p + 4 + 4 * nb_stored nb (unat i) \<le> length ?m" using row \<open>nb_stored nb (unat i) \<le> cap\<close> by simp
  then obtain bytes where bytes: "mem_read ?m (?p + 4) (4 * nb_stored nb (unat i)) = Inr bytes"
    using mem_read_total [of "?p + 4" "4 * nb_stored nb (unat i)" ?m] by auto
  have chk: "nb_check nb i = Inr ()" using nb_sizes(3) [OF assms(1), of i] assms(2) by (simp add: nb_check_def)
  have "nb_get nb i = Inr \<lparr>al_edges = u32s_from_bytes bytes\<rparr>"
    using chk nb_sizes(4) [OF assms] st bytes len ok
    by (simp add: nb_get_def raw_split_def buffer_get_unchecked_def ID_SIZE_def nb_partial_def Let_def mult.commute)
  with bytes show ?thesis by blast
qed

lemma nb_get_list:
  "nb_ok entries cap nb \<Longrightarrow> unat i < entries \<Longrightarrow> nb_get nb i = Inr \<lparr>al_edges = nb_list nb i\<rparr>"
  using nb_get_eq [of entries cap nb i] by (auto simp: nb_list_def)

lemma nb_get_out: "nb_ok entries cap nb \<Longrightarrow> entries \<le> unat i \<Longrightarrow> nb_get nb i = Inl (NbOutOfBounds i)"
  using nb_sizes(3) [of entries cap nb i] by (simp add: nb_get_def nb_check_def)

text \<open>A write into row \<open>i\<close>: the ids from position \<open>start\<close> on, then the length.\<close>

lemma lock_write_spec:
  assumes ok: "nb_ok entries cap nb" and i: "i < entries" and fits: "start + length ns \<le> cap"
    and len: "len \<le> cap" and l: "lk_ptr l = 4 * (cap + 1) * i"
  obtains nb' where "lock_write nb l start ns len = Inr nb'"
    and "mem_read (bf_mem (nb_neighbors nb')) (4 * (cap + 1) * i) 4 = Inr (u32_to_bytes (of_nat len))"
    and "mem_read (bf_mem (nb_neighbors nb')) (4 * (cap + 1) * i + 4 + 4 * start) (4 * length ns) = Inr (u32s_to_bytes ns)"
    and "mem_read (bf_mem (nb_neighbors nb')) (4 * (cap + 1) * i + 4) (4 * start) =
         mem_read (bf_mem (nb_neighbors nb)) (4 * (cap + 1) * i + 4) (4 * start)"
    and "\<And>j off n. j \<noteq> i \<Longrightarrow> off + n \<le> 4 * (cap + 1) \<Longrightarrow>
      mem_read (bf_mem (nb_neighbors nb')) (4 * (cap + 1) * j + off) n =
      mem_read (bf_mem (nb_neighbors nb)) (4 * (cap + 1) * j + off) n"
    and "nb_ok entries cap nb'"
proof -
  note k = ok [unfolded nb_ok_def]
  let ?m = "bf_mem (nb_neighbors nb)" and ?r = "4 * (cap + 1)"
  let ?p = "?r * i"
  have row: "?p + ?r \<le> length ?m" using row_in_bounds [OF i, of cap] k by simp
  have "?p + (start + 1) * 4 + length (u32s_to_bytes ns) \<le> length ?m" using row fits by simp
  then obtain m1 where w1: "mem_write ?m (?p + (start + 1) * 4) (u32s_to_bytes ns) = Inr m1"
    by (simp add: mem_write_eq)
  have "?p + length (u32_to_bytes (of_nat len)) \<le> length m1" using row mem_write_length [OF w1] by simp
  then obtain m2 where w2: "mem_write m1 ?p (u32_to_bytes (of_nat len)) = Inr m2" by (simp add: mem_write_eq)
  let ?nb = "nb\<lparr>nb_neighbors := (nb_neighbors nb)\<lparr>bf_mem := m2\<rparr>\<rparr>"
  have run: "lock_write nb l start ns len = Inr ?nb"
    using w1 w2 by (simp add: lock_write_def l ID_SIZE_def nb_partial_def)
  have pre: "mem_read m2 ?p 4 = Inr (u32_to_bytes (of_nat len))" using mem_read_same [OF w2] by simp
  have "mem_read m2 (?p + 4 + 4 * start) (4 * length ns) = mem_read m1 (?p + 4 + 4 * start) (4 * length ns)"
    by (rule mem_read_frame [OF w2]) simp
  then have new: "mem_read m2 (?p + 4 + 4 * start) (4 * length ns) = Inr (u32s_to_bytes ns)"
    using mem_read_same [OF w1] by (simp add: algebra_simps)
  have "mem_read m2 (?p + 4) (4 * start) = mem_read m1 (?p + 4) (4 * start)"
    by (rule mem_read_frame [OF w2]) simp
  then have old: "mem_read m2 (?p + 4) (4 * start) = mem_read ?m (?p + 4) (4 * start)"
    using mem_read_frame [OF w1, of "?p + 4" "4 * start"] by simp
  have other: "mem_read m2 (?r * j + off) n = mem_read ?m (?r * j + off) n" if "j \<noteq> i" "off + n \<le> ?r" for j off n
  proof -
    have "?r * j + ?r \<le> ?p \<or> ?p + ?r \<le> ?r * j"
    proof (cases "j < i")
      case True
      then have "?r * (j + 1) \<le> ?p" by (intro mult_le_mono2) simp
      then show ?thesis by simp
    next
      case False
      with that(1) have "?r * (i + 1) \<le> ?r * j" by (intro mult_le_mono2) simp
      then show ?thesis by simp
    qed
    then have d: "?r * j + off + n \<le> ?p \<or> ?p + ?r \<le> ?r * j + off" using that(2) by linarith
    then have "mem_read m2 (?r * j + off) n = mem_read m1 (?r * j + off) n"
      by (intro mem_read_frame [OF w2]) auto
    also have "\<dots> = mem_read ?m (?r * j + off) n"
      by (rule mem_read_frame [OF w1]) (use d fits in auto)
    finally show ?thesis .
  qed
  have "nb_stored ?nb j \<le> cap" if "j < entries" for j
  proof (cases "j = i")
    case True
    then show ?thesis using pre k len by (simp add: nb_stored_def unat_of_nat take_bit_nat_def)
  next
    case False
    from other [OF False, of 0 4] have "nb_stored ?nb j = nb_stored nb j" using k by (simp add: nb_stored_def)
    then show ?thesis using k that by simp
  qed
  moreover have "length m2 = length ?m" using mem_write_length [OF w1] mem_write_length [OF w2] by simp
  ultimately have "nb_ok entries cap ?nb" using k by (simp add: nb_ok_def)
  with run pre new old other show thesis by (intro that [of ?nb]) simp_all
qed

lemma nb_list_from:
  assumes "nb_ok entries cap nb" and "unat i < entries"
    and "mem_read (bf_mem (nb_neighbors nb)) (4 * (cap + 1) * unat i) 4 = Inr (u32_to_bytes (of_nat len))"
    and "mem_read (bf_mem (nb_neighbors nb)) (4 * (cap + 1) * unat i + 4) (4 * len) = Inr bytes" and "len \<le> cap"
  shows "nb_list nb i = u32s_from_bytes bytes"
proof -
  have "nb_stored nb (unat i) = len"
    using assms(1,3,5) by (simp add: nb_stored_def nb_ok_def unat_of_nat take_bit_nat_def)
  with nb_get_eq [OF assms(1,2)] assms(4) show ?thesis by (auto simp: nb_list_def)
qed

lemma nb_list_same:
  assumes "nb_ok entries cap nb" and "nb_ok entries cap nb'"
    and "\<And>off n. off + n \<le> 4 * (cap + 1) \<Longrightarrow> mem_read (bf_mem (nb_neighbors nb')) (4 * (cap + 1) * unat j + off) n =
      mem_read (bf_mem (nb_neighbors nb)) (4 * (cap + 1) * unat j + off) n"
  shows "nb_list nb' j = nb_list nb j"
proof (cases "unat j < entries")
  case True
  have st: "nb_stored nb' (unat j) = nb_stored nb (unat j)"
    using assms(3) [of 0 4] assms(1,2) by (simp add: nb_stored_def nb_ok_def)
  moreover have "nb_stored nb (unat j) \<le> cap" using assms(1) True by (simp add: nb_ok_def)
  ultimately have "mem_read (bf_mem (nb_neighbors nb')) (4 * (cap + 1) * unat j + 4) (4 * nb_stored nb (unat j)) =
      mem_read (bf_mem (nb_neighbors nb)) (4 * (cap + 1) * unat j + 4) (4 * nb_stored nb (unat j))"
    by (intro assms(3)) simp
  with nb_get_eq [OF assms(1) True] nb_get_eq [OF assms(2) True] st show ?thesis by (auto simp: nb_list_def)
next
  case False
  then show ?thesis using nb_get_out [OF assms(1)] nb_get_out [OF assms(2)] by (simp add: nb_list_def)
qed

text \<open>What is set is read back, and nothing else changes.\<close>

lemma nb_set_spec:
  assumes "nb_ok entries cap nb" and "unat i < entries" and "length ns \<le> cap"
  obtains nb' where "nb_set nb i ns = Inr nb'" and "nb_ok entries cap nb'" and "nb_list nb' = (nb_list nb)(i := ns)"
proof -
  note sz = nb_sizes [OF assms(1)]
  let ?l = "\<lparr>lk_ptr = 4 * (cap + 1) * unat i, lk_capacity = cap\<rparr>"
  have fits: "0 + length ns \<le> cap" using assms(3) by simp
  obtain nb' where w: "lock_write nb ?l 0 ns (length ns) = Inr nb'"
    "mem_read (bf_mem (nb_neighbors nb')) (4 * (cap + 1) * unat i) 4 = Inr (u32_to_bytes (of_nat (length ns)))"
    "mem_read (bf_mem (nb_neighbors nb')) (4 * (cap + 1) * unat i + 4 + 4 * 0) (4 * length ns) = Inr (u32s_to_bytes ns)"
    "\<And>j off n. j \<noteq> unat i \<Longrightarrow> off + n \<le> 4 * (cap + 1) \<Longrightarrow>
      mem_read (bf_mem (nb_neighbors nb')) (4 * (cap + 1) * j + off) n =
      mem_read (bf_mem (nb_neighbors nb)) (4 * (cap + 1) * j + off) n"
    "nb_ok entries cap nb'"
    by (rule lock_write_spec [OF assms(1,2) fits assms(3), of ?l]) (simp, rule that, assumption+)
  have "nb_set nb i ns = Inr nb'"
    using assms sz w(1)
    by (simp add: nb_set_def nb_check_def nb_lock_unchecked_def lock_write_unchecked_def buffer_get_unchecked_def
        nb_ok_def not_le)
  moreover have "nb_list nb' j = ((nb_list nb)(i := ns)) j" for j
  proof (cases "j = i")
    case True
    have "nb_list nb' i = u32s_from_bytes (u32s_to_bytes ns)"
      by (rule nb_list_from [OF w(5) assms(2) w(2) _ assms(3)]) (use w(3) in simp)
    with True show ?thesis by simp
  next
    case False
    then have "unat j \<noteq> unat i" by (simp add: word_unat_eq_iff)
    with False show ?thesis using nb_list_same [OF assms(1) w(5)] w(4) by simp
  qed
  ultimately show thesis using w(5) by (intro that) auto
qed

lemma length_u32s_from_bytes: "length (u32s_from_bytes bs) = length bs div 4"
  by (induction bs rule: u32s_from_bytes.induct) simp_all

lemma nb_list_length:
  assumes "nb_ok entries cap nb"
  shows "length (nb_list nb i) \<le> cap"
proof (cases "unat i < entries")
  case True
  from nb_get_eq [OF assms True] obtain bytes where
    "mem_read (bf_mem (nb_neighbors nb)) (4 * (cap + 1) * unat i + 4) (4 * nb_stored nb (unat i)) = Inr bytes"
    "nb_list nb i = u32s_from_bytes bytes" by (auto simp: nb_list_def)
  then have "length (nb_list nb i) = nb_stored nb (unat i)"
    using mem_read_length length_u32s_from_bytes by fastforce
  then show ?thesis using assms True by (simp add: nb_ok_def)
next
  case False
  then show ?thesis using nb_get_out [OF assms] by (simp add: nb_list_def)
qed

lemma lock_append_spec:
  assumes "nb_ok entries cap nb" and "unat i < entries" and "nb_lock_list nb i = Inr l"
  shows "lock_len nb l = Inr (length (nb_list nb i))" and "lk_capacity l = cap" and "length (nb_list nb i) \<le> cap"
    and "length (nb_list nb i) + length ns \<le> cap \<Longrightarrow>
      \<exists>nb'. lock_append nb l ns = Inr nb' \<and> nb_ok entries cap nb' \<and> nb_list nb' = (nb_list nb)(i := nb_list nb i @ ns)"
proof -
  note sz = nb_sizes [OF assms(1)]
  have l: "l = \<lparr>lk_ptr = 4 * (cap + 1) * unat i, lk_capacity = cap\<rparr>"
    using assms sz by (auto simp: nb_lock_list_def nb_check_def nb_lock_unchecked_def buffer_get_unchecked_def nb_ok_def)
  then show cap: "lk_capacity l = cap" by simp
  from nb_get_eq [OF assms(1,2)] obtain bytes where
    b: "mem_read (bf_mem (nb_neighbors nb)) (4 * (cap + 1) * unat i + 4) (4 * nb_stored nb (unat i)) = Inr bytes"
    "nb_list nb i = u32s_from_bytes bytes" by (auto simp: nb_list_def)
  have n: "length (nb_list nb i) = nb_stored nb (unat i)" using b mem_read_length [OF b(1)] length_u32s_from_bytes by simp
  show le: "length (nb_list nb i) \<le> cap" by (rule nb_list_length [OF assms(1)])
  have row: "4 * (cap + 1) * unat i + 4 * (cap + 1) \<le> length (bf_mem (nb_neighbors nb))"
    using row_in_bounds [OF assms(2), of cap] assms(1) by (simp add: nb_ok_def)
  then obtain st where st: "mem_read (bf_mem (nb_neighbors nb)) (4 * (cap + 1) * unat i) 4 = Inr st"
    using mem_read_total [of "4 * (cap + 1) * unat i" 4 "bf_mem (nb_neighbors nb)"] by auto
  then have "nb_stored nb (unat i) = unat (u32_from_bytes st)" using assms(1) by (simp add: nb_stored_def nb_ok_def)
  with st n le show len: "lock_len nb l = Inr (length (nb_list nb i))"
    by (simp add: lock_len_def l nb_partial_def ID_SIZE_def)
  show "\<exists>nb'. lock_append nb l ns = Inr nb' \<and> nb_ok entries cap nb' \<and> nb_list nb' = (nb_list nb)(i := nb_list nb i @ ns)"
    if fits: "length (nb_list nb i) + length ns \<le> cap"
  proof -
    let ?n = "length (nb_list nb i)"
    have sat: "min (?n + length ns) USIZE_MAX = ?n + length ns"
      using fits assms(1) by (simp add: nb_ok_def USIZE_MAX_def)
    obtain nb' where w: "lock_write nb l ?n ns (?n + length ns) = Inr nb'"
      "mem_read (bf_mem (nb_neighbors nb')) (4 * (cap + 1) * unat i) 4 = Inr (u32_to_bytes (of_nat (?n + length ns)))"
      "mem_read (bf_mem (nb_neighbors nb')) (4 * (cap + 1) * unat i + 4 + 4 * ?n) (4 * length ns) = Inr (u32s_to_bytes ns)"
      "mem_read (bf_mem (nb_neighbors nb')) (4 * (cap + 1) * unat i + 4) (4 * ?n) =
         mem_read (bf_mem (nb_neighbors nb)) (4 * (cap + 1) * unat i + 4) (4 * ?n)"
      "\<And>j off n. j \<noteq> unat i \<Longrightarrow> off + n \<le> 4 * (cap + 1) \<Longrightarrow>
        mem_read (bf_mem (nb_neighbors nb')) (4 * (cap + 1) * j + off) n =
        mem_read (bf_mem (nb_neighbors nb)) (4 * (cap + 1) * j + off) n"
      "nb_ok entries cap nb'"
      by (rule lock_write_spec [OF assms(1,2) fits fits, of l]) (simp add: l, rule that, assumption+)
    have "lock_append nb l ns = Inr nb'" using len cap fits sat w(1) by (simp add: lock_append_def)
    moreover have "nb_list nb' j = ((nb_list nb)(i := nb_list nb i @ ns)) j" for j
    proof (cases "j = i")
      case True
      have "mem_read (bf_mem (nb_neighbors nb')) (4 * (cap + 1) * unat i + 4) (4 * ?n + 4 * length ns) = Inr (bytes @ u32s_to_bytes ns)"
        using mem_read_append [OF _ w(3)] w(4) b(1) n by simp
      then have "nb_list nb' i = u32s_from_bytes (bytes @ u32s_to_bytes ns)"
        by (intro nb_list_from [OF w(6) assms(2) w(2) _ fits]) (simp add: algebra_simps)
      moreover have "u32s_from_bytes (bs @ u32s_to_bytes ns) = u32s_from_bytes bs @ ns" if "length bs mod 4 = 0" for bs
        using that by (induction bs rule: u32s_from_bytes.induct) simp_all
      ultimately show ?thesis using True b(2) mem_read_length [OF b(1)] by simp
    next
      case False
      then have "unat j \<noteq> unat i" by (simp add: word_unat_eq_iff)
      with False show ?thesis using nb_list_same [OF assms(1) w(6)] w(5) by simp
    qed
    ultimately show ?thesis using w(6) by auto
  qed
qed

lemma u32_less: "unat (w :: u32) < 4294967296"
  using unsigned_less [where ?'a = nat, of w] by simp

lemma neighbors_new_ok:
  assumes "neighbors_new entries cap = Inr nb"
  shows "nb_ok (unat entries) (unat cap) nb" and "nb_list nb i = []"
proof -
  have fits: "unat cap + 1 \<le> USIZE_MAX" "(unat cap + 1) * 4 \<le> USIZE_MAX"
    using u32_less [of cap] by (simp_all add: USIZE_MAX_def)
  from assms have nb: "nb_neighbors nb = \<lparr>bf_mem = replicate ((unat cap + 1) * 4 * unat entries) 0,
      bf_stride = (unat cap + 1) * 4, bf_entries = unat entries\<rparr>"
    "nb_locks nb = (unat entries + 15) div 16"
    using fits
    by (auto simp: neighbors_new_def bytes_checked_add_def bytes_checked_mul_def buffer_new_def ID_SIZE_def
        LOCK_GRANULARITY_def split: option.splits if_splits)
  have z: "nb_stored nb j = 0" if "j < unat entries" for j
  proof -
    have "(4 * (unat cap + 1)) * j + 4 * (unat cap + 1) \<le> 4 * (unat cap + 1) * unat entries"
      by (rule row_in_bounds [OF that])
    then have "mem_read (bf_mem (nb_neighbors nb)) (bf_stride (nb_neighbors nb) * j) 4 = Inr (replicate 4 0)"
      by (simp add: nb mem_read_def min_def mult.commute)
    then show ?thesis by (simp add: nb_stored_def numeral_eq_Suc)
  qed
  then show ok: "nb_ok (unat entries) (unat cap) nb"
    using u32_less [of entries] u32_less [of cap] nb by (simp add: nb_ok_def mult.commute)
  show "nb_list nb i = []"
  proof (cases "unat i < unat entries")
    case True
    from nb_get_eq [OF ok True] z [OF True] show ?thesis by (auto simp: nb_list_def mem_read_def split: if_splits)
  next
    case False
    then show ?thesis using nb_get_out [OF ok] by (simp add: nb_list_def)
  qed
qed

section \<open>The storage is a table of lists\<close>

text \<open>
  The two writing operations, as callers issue them: \<open>Neighbors::set\<close>, and \<open>Neighbors::lock\<close> followed by
  \<open>Lock::append\<close>. Against them, a table of lists with the same bounds.
\<close>

datatype nb_op = NbSet u32 "u32 list" | NbAppend u32 "u32 list"

fun nb_apply :: "neighbors \<Rightarrow> nb_op \<Rightarrow> nb_error + neighbors" where
  "nb_apply nb (NbSet i ns) = nb_set nb i ns"
| "nb_apply nb (NbAppend i ns) = bind_result (nb_lock_list nb i) (\<lambda>l. lock_append nb l ns)"

fun nb_run :: "neighbors \<Rightarrow> nb_op list \<Rightarrow> nb_error option list \<times> neighbors" where
  "nb_run nb [] = ([], nb)"
| "nb_run nb (op # ops) =
     (case nb_apply nb op of
        Inl e \<Rightarrow> (let (es, nb') = nb_run nb ops in (Some e # es, nb'))
      | Inr nb' \<Rightarrow> (let (es, nb') = nb_run nb' ops in (None # es, nb')))"

definition table_write :: "u32 \<Rightarrow> u32 \<Rightarrow> (u32 \<Rightarrow> u32 list) \<Rightarrow> u32 \<Rightarrow> u32 list \<Rightarrow> nb_error option \<times> (u32 \<Rightarrow> u32 list)" where
  "table_write entries cap G i ns =
     (if entries \<le> i then (Some (NbOutOfBounds i), G)
      else if unat cap < length ns then (Some (NbTooLong (min (length ns) USIZE_MAX) cap), G)
      else (None, G(i := ns)))"

fun table_run :: "u32 \<Rightarrow> u32 \<Rightarrow> (u32 \<Rightarrow> u32 list) \<Rightarrow> nb_op list \<Rightarrow> nb_error option list \<times> (u32 \<Rightarrow> u32 list)" where
  "table_run entries cap G [] = ([], G)"
| "table_run entries cap G (NbSet i ns # ops) =
     (let (e, G) = table_write entries cap G i ns; (es, G) = table_run entries cap G ops in (e # es, G))"
| "table_run entries cap G (NbAppend i ns # ops) =
     (let (e, G) = table_write entries cap G i (G i @ ns); (es, G) = table_run entries cap G ops in (e # es, G))"

fun op_fits :: "nb_op \<Rightarrow> bool" where
  "op_fits (NbSet i ns) \<longleftrightarrow> length ns \<le> USIZE_MAX"
| "op_fits (NbAppend i ns) \<longleftrightarrow> length ns \<le> USIZE_MAX"

fun op_target :: "(u32 \<Rightarrow> u32 list) \<Rightarrow> nb_op \<Rightarrow> u32 \<times> u32 list" where
  "op_target G (NbSet i ns) = (i, ns)"
| "op_target G (NbAppend i ns) = (i, G i @ ns)"

lemma nb_apply_refines:
  assumes ok: "nb_ok (unat entries) (unat cap) nb" and "op_fits op" and t: "op_target (nb_list nb) op = (i, ns)"
  shows "case table_write entries cap (nb_list nb) i ns of
      (None, G) \<Rightarrow> \<exists>nb'. nb_apply nb op = Inr nb' \<and> nb_ok (unat entries) (unat cap) nb' \<and> nb_list nb' = G
    | (Some e, G) \<Rightarrow> nb_apply nb op = Inl e \<and> G = nb_list nb"
proof (cases "unat i < unat entries")
  case False
  then have "nb_check nb i = Inl (NbOutOfBounds i)" using nb_sizes(3) [OF ok, of i] by (simp add: nb_check_def)
  moreover have "entries \<le> i" using False by (simp add: word_le_nat_alt)
  ultimately show ?thesis using t by (cases op) (simp_all add: table_write_def nb_set_def nb_lock_list_def)
next
  case True
  then have chk: "nb_check nb i = Inr ()" and lt: "\<not> entries \<le> i"
    using nb_sizes(3) [OF ok, of i] by (simp_all add: nb_check_def word_le_nat_alt)
  have c32: "nb_max_length_u32 nb = cap" using nb_sizes(2) [OF ok] by (simp add: word_unat_eq_iff)
  show ?thesis
  proof (cases op)
    case (NbSet j ms)
    with t have [simp]: "j = i" "ms = ns" by auto
    show ?thesis
    proof (cases "length ns \<le> unat cap")
      case fits: True
      obtain nb' where "nb_set nb i ns = Inr nb'" "nb_ok (unat entries) (unat cap) nb'"
        "nb_list nb' = (nb_list nb)(i := ns)" by (rule nb_set_spec [OF ok True fits])
      with fits lt show ?thesis by (auto simp: NbSet table_write_def)
    next
      case False
      with chk lt c32 nb_sizes(1) [OF ok] assms(2) show ?thesis
        by (simp add: NbSet table_write_def nb_set_def)
    qed
  next
    case (NbAppend j ms)
    with t have [simp]: "j = i" and ns: "ns = nb_list nb i @ ms" by auto
    obtain l where l: "nb_lock_list nb i = Inr l"
      using chk nb_sizes(4) [OF ok True] by (simp add: nb_lock_list_def nb_lock_unchecked_def)
    note sp = lock_append_spec [OF ok True l]
    show ?thesis
    proof (cases "length ns \<le> unat cap")
      case fits: True
      with sp(4) [of ms] ns lt l show ?thesis by (auto simp: NbAppend table_write_def)
    next
      case False
      then have "unat cap < min (length ns) USIZE_MAX" using u32_less [of cap] by (simp add: USIZE_MAX_def)
      with False lt l sp(1,2) ns show ?thesis by (simp add: NbAppend table_write_def lock_append_def)
    qed
  qed
qed

lemma table_run_target:
  "op_target G op = (i, ns) \<Longrightarrow> table_run entries cap G (op # ops) =
     (let (e, G) = table_write entries cap G i ns; (es, G) = table_run entries cap G ops in (e # es, G))"
  by (cases op) simp_all

lemma nb_run_refines:
  "nb_ok (unat entries) (unat cap) nb \<Longrightarrow> list_all op_fits ops \<Longrightarrow>
     \<exists>nb'. nb_run nb ops = (fst (table_run entries cap (nb_list nb) ops), nb') \<and>
       nb_ok (unat entries) (unat cap) nb' \<and> nb_list nb' = snd (table_run entries cap (nb_list nb) ops)"
proof (induction ops arbitrary: nb)
  case (Cons op ops)
  obtain i ns where t: "op_target (nb_list nb) op = (i, ns)" by fastforce
  have fits: "op_fits op" using Cons.prems by simp
  note ref = nb_apply_refines [OF Cons.prems(1) fits t] and unf = table_run_target [OF t]
  show ?case
  proof (cases "fst (table_write entries cap (nb_list nb) i ns)")
    case None
    then obtain G where w: "table_write entries cap (nb_list nb) i ns = (None, G)" by (cases "table_write entries cap (nb_list nb) i ns") auto
    with ref obtain nb1 where "nb_apply nb op = Inr nb1" "nb_ok (unat entries) (unat cap) nb1" "nb_list nb1 = G" by auto
    with Cons.IH [of nb1] Cons.prems w unf show ?thesis by (auto simp: split_beta)
  next
    case (Some e)
    then obtain G where w: "table_write entries cap (nb_list nb) i ns = (Some e, G)" by (cases "table_write entries cap (nb_list nb) i ns") auto
    with ref have "nb_apply nb op = Inl e" "G = nb_list nb" by auto
    with Cons.IH [of nb] Cons.prems w unf show ?thesis by (auto simp: split_beta)
  qed
qed simp

text \<open>
  C12. The adjacency storage is a table of bounded lists: after any sequence of \<open>set\<close> and \<open>append\<close> calls on a
  freshly allocated storage, every call has reported success, \<open>OutOfBounds\<close> or \<open>TooLong\<close> as a plain table of
  lists would, and \<open>get\<close> reads back from the bytes exactly the list the table holds, with no access outside
  of the allocation.
\<close>

theorem neighbors_roundtrip:
  assumes "neighbors_new entries cap = Inr nb" and "list_all op_fits ops"
  shows "\<exists>nb' G. nb_run nb ops = (fst (table_run entries cap (\<lambda>_. []) ops), nb') \<and>
    G = snd (table_run entries cap (\<lambda>_. []) ops) \<and>
    nb_get nb' i = (if i < entries then Inr \<lparr>al_edges = G i\<rparr> else Inl (NbOutOfBounds i)) \<and>
    (\<forall>j. length (G j) \<le> unat cap)"
proof -
  have "nb_list nb = (\<lambda>_. [])" using neighbors_new_ok(2) [OF assms(1)] by auto
  with nb_run_refines [OF neighbors_new_ok(1) [OF assms(1)] assms(2)] obtain nb' where
    run: "nb_run nb ops = (fst (table_run entries cap (\<lambda>_. []) ops), nb')"
    and ok: "nb_ok (unat entries) (unat cap) nb'" and G: "nb_list nb' = snd (table_run entries cap (\<lambda>_. []) ops)"
    by auto
  have "nb_get nb' i = (if i < entries then Inr \<lparr>al_edges = nb_list nb' i\<rparr> else Inl (NbOutOfBounds i))"
    using nb_get_list [OF ok, of i] nb_get_out [OF ok, of i] by (simp add: word_less_nat_alt)
  moreover have "length (nb_list nb' j) \<le> unat cap" for j by (rule nb_list_length [OF ok])
  ultimately show ?thesis using run G by auto
qed

theorem neighbors_roundtrip_witness:
  "\<exists>nb nb' G. neighbors_new 3 2 = Inr nb \<and>
     nb_run nb [NbSet 1 [7, 300], NbAppend 2 [5], NbAppend 1 [9], NbSet 3 []] =
       ([None, None, Some (NbTooLong 3 2), Some (NbOutOfBounds 3)], nb') \<and>
     nb_get nb' 1 = Inr \<lparr>al_edges = [7, 300]\<rparr>"
proof -
  let ?ops = "[NbSet 1 [7, 300], NbAppend 2 [5], NbAppend 1 [9], NbSet 3 []]"
  obtain nb where nb: "neighbors_new 3 2 = Inr nb"
    by (simp add: neighbors_new_def buffer_new_def bytes_checked_add_def bytes_checked_mul_def ID_SIZE_def
        USIZE_MAX_def ISIZE_MAX_def next_multiple_of_def)
  have fits: "list_all op_fits ?ops" by (simp add: USIZE_MAX_def)
  from neighbors_roundtrip [OF nb fits, of 1] nb show ?thesis
    by (auto simp: table_write_def USIZE_MAX_def word_le_nat_alt word_less_nat_alt simp del: nb_run.simps)
qed

end
