(* ===== verification/IdMap.thy ===== *)
theory IdMap
  imports Prelude
begin

text \<open>
  The bidirectional map between external ids and internal slots of the in-memory provider
  (\<open>diskann-inmem/src/ids.rs\<close>).

  \<open>DashMap\<close> is a package the map is built on: it is the record \<open>dashmap\<close> of the operations the code calls,
  a parameter of the definitions, and \<open>dashmap_laws\<close> says that it is a map. The backward direction is the
  sharded array of the source. The locks order the operations, each of which is one function on the state.
\<close>

section \<open>The map\<close>

record ('m, 'k) dashmap =
  dm_new :: 'm
  dm_get :: "'m \<Rightarrow> 'k \<Rightarrow> u32 option"
  dm_insert :: "'m \<Rightarrow> 'k \<Rightarrow> u32 \<Rightarrow> 'm"
  dm_remove :: "'m \<Rightarrow> 'k \<Rightarrow> 'm"

definition dashmap_laws :: "('m, 'k) dashmap \<Rightarrow> bool" where
  "dashmap_laws D \<longleftrightarrow> (\<forall>k. dm_get D (dm_new D) k = None) \<and>
     (\<forall>m k v. dm_get D (dm_insert D m k v) = (dm_get D m)(k \<mapsto> v)) \<and>
     (\<forall>m k. dm_get D (dm_remove D m k) = (dm_get D m)(k := None))"

definition SHARD_SIZE :: nat where "SHARD_SIZE = 1024"

record ('m, 'k) id_map =
  im_forward :: 'm
  im_backward :: "'k option list list"
  im_capacity :: nat

definition id_map_new :: "('m, 'k) dashmap \<Rightarrow> nat \<Rightarrow> ('m, 'k) id_map" where
  "id_map_new D capacity =
     \<lparr>im_forward = dm_new D,
      im_backward = replicate ((capacity + SHARD_SIZE - 1) div SHARD_SIZE) (replicate SHARD_SIZE None),
      im_capacity = capacity\<rparr>"

definition id_shard :: "u32 \<Rightarrow> nat \<times> nat" where
  "id_shard i = (unat i div SHARD_SIZE, unat i mod SHARD_SIZE)"

datatype insert_error =
    IdOutOfBounds
  | ExternalExists
  | InternalExists

text \<open>An index out of the range of a \<open>Vec\<close> or a shard is a panic, so the result has three cases.\<close>

definition id_map_insert ::
  "('m, 'k) dashmap \<Rightarrow> ('m, 'k) id_map \<Rightarrow> 'k \<Rightarrow> u32 \<Rightarrow> (insert_error + ('m, 'k) id_map) partial" where
  "id_map_insert D t external internal =
     (if im_capacity t \<le> unat internal then Inr (Inl IdOutOfBounds)
      else let (outer, inner) = id_shard internal in
      case dm_get D (im_forward t) external of
        Some _ \<Rightarrow> Inr (Inl ExternalExists)
      | None \<Rightarrow>
          bind_result (vec_get (im_backward t) outer) (\<lambda>shard.
          bind_result (vec_get shard inner) (\<lambda>slot.
          if slot \<noteq> None then Inr (Inl InternalExists)
          else bind_result (vec_set shard inner (Some external)) (\<lambda>shard.
               bind_result (vec_set (im_backward t) outer shard) (\<lambda>backward.
               Inr (Inr (t\<lparr>im_backward := backward, im_forward := dm_insert D (im_forward t) external internal\<rparr>)))))))"

definition contains_external :: "('m, 'k) dashmap \<Rightarrow> ('m, 'k) id_map \<Rightarrow> 'k \<Rightarrow> bool" where
  "contains_external D t external \<longleftrightarrow> dm_get D (im_forward t) external \<noteq> None"

definition to_internal :: "('m, 'k) dashmap \<Rightarrow> ('m, 'k) id_map \<Rightarrow> 'k \<Rightarrow> u32 option" where
  "to_internal D t external = dm_get D (im_forward t) external"

definition to_external :: "('m, 'k) id_map \<Rightarrow> u32 \<Rightarrow> 'k option partial" where
  "to_external t internal =
     (if im_capacity t \<le> unat internal then Inr None
      else let (outer, inner) = id_shard internal in
           bind_result (vec_get (im_backward t) outer) (\<lambda>shard. vec_get shard inner))"

text \<open>A handle to a mapping that exists: its key, its internal id, and the place of the reverse entry.\<close>

record 'k id_entry =
  en_external :: 'k
  en_internal :: u32
  en_shard :: nat
  en_entry :: nat

definition occupied_entry ::
  "('m, 'k) dashmap \<Rightarrow> ('m, 'k) id_map \<Rightarrow> 'k \<Rightarrow> 'k id_entry option partial" where
  "occupied_entry D t external =
     (case dm_get D (im_forward t) external of
        None \<Rightarrow> Inr None
      | Some internal \<Rightarrow>
          let (outer, inner) = id_shard internal in
          bind_result (vec_get (im_backward t) outer) (\<lambda>backward.
          bind_result (vec_get backward inner) (\<lambda>slot.
          if slot = None then Inl AssertFailed
          else Inr (Some \<lparr>en_external = external, en_internal = internal, en_shard = outer, en_entry = inner\<rparr>))))"

definition entry_delete ::
  "('m, 'k) dashmap \<Rightarrow> ('m, 'k) id_map \<Rightarrow> 'k id_entry \<Rightarrow> ('m, 'k) id_map partial" where
  "entry_delete D t e =
     bind_result (vec_get (im_backward t) (en_shard e)) (\<lambda>shard.
     bind_result (vec_set shard (en_entry e) None) (\<lambda>shard.
     bind_result (vec_set (im_backward t) (en_shard e) shard) (\<lambda>backward.
     Inr (t\<lparr>im_forward := dm_remove D (im_forward t) (en_external e), im_backward := backward\<rparr>))))"

section \<open>The two directions agree\<close>

definition backward_slot :: "('m, 'k) id_map \<Rightarrow> u32 \<Rightarrow> 'k option" where
  "backward_slot t i = im_backward t ! fst (id_shard i) ! snd (id_shard i)"

definition id_map_ok :: "('m, 'k) dashmap \<Rightarrow> ('m, 'k) id_map \<Rightarrow> bool" where
  "id_map_ok D t \<longleftrightarrow>
     length (im_backward t) = (im_capacity t + SHARD_SIZE - 1) div SHARD_SIZE \<and>
     (\<forall>shard \<in> set (im_backward t). length shard = SHARD_SIZE) \<and>
     (\<forall>k i. dm_get D (im_forward t) k = Some i \<longleftrightarrow> unat i < im_capacity t \<and> backward_slot t i = Some k)"

lemma shard_in_range:
  assumes "id_map_ok D t" and "unat i < im_capacity t"
  shows "fst (id_shard i) < length (im_backward t)"
    and "snd (id_shard i) < length (im_backward t ! fst (id_shard i))"
proof -
  have "unat i div 1024 < (im_capacity t + 1023) div 1024" using assms(2) by linarith
  then show "fst (id_shard i) < length (im_backward t)"
    using assms(1) by (simp add: id_map_ok_def id_shard_def SHARD_SIZE_def)
  then have "im_backward t ! fst (id_shard i) \<in> set (im_backward t)" by simp
  then show "snd (id_shard i) < length (im_backward t ! fst (id_shard i))"
    using assms(1) by (simp add: id_map_ok_def id_shard_def SHARD_SIZE_def)
qed

lemma id_shard_inj: "id_shard i = id_shard j \<longleftrightarrow> i = j"
  unfolding id_shard_def by (metis Pair_inject div_mod_decomp word_unat_eq_iff)

text \<open>Changing one reverse entry.\<close>

definition backward_upd :: "('m, 'k) id_map \<Rightarrow> u32 \<Rightarrow> 'k option \<Rightarrow> 'k option list list" where
  "backward_upd t i x = (let (outer, inner) = id_shard i in
     (im_backward t)[outer := (im_backward t ! outer)[inner := x]])"

lemma backward_upd_slot:
  assumes "id_map_ok D t" and "unat i < im_capacity t" and "unat j < im_capacity t"
  shows "backward_slot (t\<lparr>im_backward := backward_upd t i x, im_forward := f\<rparr>) j = (if j = i then x else backward_slot t j)"
  using shard_in_range [OF assms(1,2)] shard_in_range [OF assms(1,3)] id_shard_inj [of i j]
  by (auto simp: backward_slot_def backward_upd_def split_beta nth_list_update prod_eq_iff split: if_splits)

lemma backward_upd_shape:
  assumes "id_map_ok D t"
  shows "length (backward_upd t i x) = length (im_backward t)"
    and "shard \<in> set (backward_upd t i x) \<Longrightarrow> length shard = SHARD_SIZE"
proof -
  show "length (backward_upd t i x) = length (im_backward t)" by (simp add: backward_upd_def split_beta)
  let ?o = "fst (id_shard i)"
  assume "shard \<in> set (backward_upd t i x)"
  then consider "shard \<in> set (im_backward t)" | "?o < length (im_backward t)" "length shard = length (im_backward t ! ?o)"
    by (cases "?o < length (im_backward t)")
      (auto simp: backward_upd_def split_beta list_update_beyond in_set_conv_nth nth_list_update split: if_splits)
  then show "length shard = SHARD_SIZE" using assms by cases (auto simp: id_map_ok_def)
qed

lemma id_map_ok_upd:
  assumes "id_map_ok D t" and "unat i < im_capacity t"
    and "\<And>k j. dm_get D f k = Some j \<longleftrightarrow> unat j < im_capacity t \<and> (if j = i then x else backward_slot t j) = Some k"
  shows "id_map_ok D (t\<lparr>im_backward := backward_upd t i x, im_forward := f\<rparr>)"
  unfolding id_map_ok_def
  using assms(1) assms(3) backward_upd_shape [OF assms(1)] backward_upd_slot [OF assms(1,2)]
  by (auto simp: id_map_ok_def)

lemma id_map_new_ok: "dashmap_laws D \<Longrightarrow> id_map_ok D (id_map_new D cap)"
proof -
  assume "dashmap_laws D"
  moreover have "backward_slot (id_map_new D cap) i = None" if "unat i < cap" for i
  proof -
    have "unat i div 1024 < (cap + 1023) div 1024" using that by linarith
    then show ?thesis by (simp add: backward_slot_def id_map_new_def id_shard_def SHARD_SIZE_def)
  qed
  ultimately show ?thesis by (auto simp: id_map_ok_def dashmap_laws_def id_map_new_def)
qed

lemma to_external_ok:
  "id_map_ok D t \<Longrightarrow> to_external t i = Inr (if unat i < im_capacity t then backward_slot t i else None)"
  using shard_in_range [of D t i] by (auto simp: to_external_def backward_slot_def split_beta)

lemma id_map_insert_ok:
  assumes "dashmap_laws D" and "id_map_ok D t"
  shows "id_map_insert D t k i = Inr (
     if im_capacity t \<le> unat i then Inl IdOutOfBounds
     else if dm_get D (im_forward t) k \<noteq> None then Inl ExternalExists
     else if backward_slot t i \<noteq> None then Inl InternalExists
     else Inr (t\<lparr>im_backward := backward_upd t i (Some k), im_forward := dm_insert D (im_forward t) k i\<rparr>))"
  using shard_in_range [OF assms(2), of i]
  by (auto simp: id_map_insert_def backward_slot_def backward_upd_def split_beta split: option.split)

lemma occupied_entry_ok:
  assumes "dashmap_laws D" and "id_map_ok D t"
  shows "occupied_entry D t k = Inr (map_option (\<lambda>i. \<lparr>en_external = k, en_internal = i,
     en_shard = fst (id_shard i), en_entry = snd (id_shard i)\<rparr>) (dm_get D (im_forward t) k))"
proof (cases "dm_get D (im_forward t) k")
  case (Some i)
  then have i: "unat i < im_capacity t" "backward_slot t i = Some k" using assms(2) by (auto simp: id_map_ok_def)
  with shard_in_range [OF assms(2), of i] Some show ?thesis
    by (simp add: occupied_entry_def backward_slot_def split_beta)
qed (simp add: occupied_entry_def)

lemma entry_delete_ok:
  assumes "dashmap_laws D" and "id_map_ok D t" and "dm_get D (im_forward t) k = Some i"
  shows "entry_delete D t \<lparr>en_external = k, en_internal = i, en_shard = fst (id_shard i), en_entry = snd (id_shard i)\<rparr> =
     Inr (t\<lparr>im_backward := backward_upd t i None, im_forward := dm_remove D (im_forward t) k\<rparr>)"
    and "id_map_ok D (t\<lparr>im_backward := backward_upd t i None, im_forward := dm_remove D (im_forward t) k\<rparr>)"
proof -
  have i: "unat i < im_capacity t" "backward_slot t i = Some k" using assms(2,3) by (auto simp: id_map_ok_def)
  with shard_in_range [OF assms(2), of i]
  show "entry_delete D t \<lparr>en_external = k, en_internal = i, en_shard = fst (id_shard i), en_entry = snd (id_shard i)\<rparr> =
     Inr (t\<lparr>im_backward := backward_upd t i None, im_forward := dm_remove D (im_forward t) k\<rparr>)"
    by (simp add: entry_delete_def backward_upd_def split_beta)
  have uniq: "j = i \<or> \<not> (unat j < im_capacity t \<and> backward_slot t j = Some k)" for j
    using assms(2,3) unfolding id_map_ok_def by (metis option.inject)
  have fwd: "dm_get D (dm_remove D (im_forward t) k) = (dm_get D (im_forward t))(k := None)"
    using assms(1) by (simp add: dashmap_laws_def)
  have iff: "dm_get D (im_forward t) k' = Some j \<longleftrightarrow> unat j < im_capacity t \<and> backward_slot t j = Some k'" for k' j
    using assms(2) by (simp add: id_map_ok_def)
  have "dm_get D (dm_remove D (im_forward t) k) k' = Some j \<longleftrightarrow>
      unat j < im_capacity t \<and> (if j = i then None else backward_slot t j) = Some k'" for k' j
    using iff [of k' j] uniq [of j] i unfolding fwd by (cases "k' = k"; cases "j = i") auto
  then show "id_map_ok D (t\<lparr>im_backward := backward_upd t i None, im_forward := dm_remove D (im_forward t) k\<rparr>)"
    by (rule id_map_ok_upd [OF assms(2) i(1)])
qed

lemma id_map_insert_keeps:
  assumes "dashmap_laws D" and "id_map_ok D t" and "id_map_insert D t k i = Inr (Inr t')"
  shows "id_map_ok D t'" and "dm_get D (im_forward t') = (dm_get D (im_forward t))(k \<mapsto> i)"
    and "im_capacity t' = im_capacity t"
proof -
  note ins = assms(3) [unfolded id_map_insert_ok [OF assms(1,2)]]
  from ins have i: "unat i < im_capacity t" "dm_get D (im_forward t) k = None" "backward_slot t i = None"
    and t': "t' = t\<lparr>im_backward := backward_upd t i (Some k), im_forward := dm_insert D (im_forward t) k i\<rparr>"
    by (auto split: if_splits)
  show "dm_get D (im_forward t') = (dm_get D (im_forward t))(k \<mapsto> i)" using assms(1) t' by (simp add: dashmap_laws_def)
  show "im_capacity t' = im_capacity t" using t' by simp
  have none: "\<not> (unat j < im_capacity t \<and> backward_slot t j = Some k)" for j
    using i(2) assms(2) unfolding id_map_ok_def by (metis option.distinct(1))
  have iff: "dm_get D (im_forward t) k' = Some j \<longleftrightarrow> unat j < im_capacity t \<and> backward_slot t j = Some k'" for k' j
    using assms(2) by (simp add: id_map_ok_def)
  have fwd: "dm_get D (dm_insert D (im_forward t) k i) = (dm_get D (im_forward t))(k \<mapsto> i)"
    using assms(1) by (simp add: dashmap_laws_def)
  have "dm_get D (dm_insert D (im_forward t) k i) k' = Some j \<longleftrightarrow>
      unat j < im_capacity t \<and> (if j = i then Some k else backward_slot t j) = Some k'" for k' j
    using iff [of k' j] none [of j] i unfolding fwd by (cases "k' = k"; cases "j = i") auto
  then show "id_map_ok D t'" unfolding t' by (rule id_map_ok_upd [OF assms(2) i(1)])
qed

section \<open>The map as a bijection\<close>

datatype 'k id_op = IdInsert 'k u32 | IdDelete 'k

fun id_apply :: "('m, 'k) dashmap \<Rightarrow> ('m, 'k) id_map \<Rightarrow> 'k id_op \<Rightarrow> ('m, 'k) id_map partial" where
  "id_apply D t (IdInsert k i) = bind_result (id_map_insert D t k i) (\<lambda>r.
     case r of Inl e \<Rightarrow> Inr t | Inr t' \<Rightarrow> Inr t')"
| "id_apply D t (IdDelete k) = bind_result (occupied_entry D t k) (\<lambda>r.
     case r of None \<Rightarrow> Inr t | Some e \<Rightarrow> entry_delete D t e)"

fun id_run :: "('m, 'k) dashmap \<Rightarrow> ('m, 'k) id_map \<Rightarrow> 'k id_op list \<Rightarrow> ('m, 'k) id_map partial" where
  "id_run D t [] = Inr t"
| "id_run D t (op # ops) = bind_result (id_apply D t op) (\<lambda>t. id_run D t ops)"

text \<open>Against it, a plain map that refuses what would not stay a bijection.\<close>

fun bijection_apply :: "nat \<Rightarrow> ('k \<rightharpoonup> u32) \<Rightarrow> 'k id_op \<Rightarrow> ('k \<rightharpoonup> u32)" where
  "bijection_apply cap m (IdInsert k i) =
     (if unat i < cap \<and> k \<notin> dom m \<and> i \<notin> ran m then m(k \<mapsto> i) else m)"
| "bijection_apply cap m (IdDelete k) = m(k := None)"

lemma id_apply_refines:
  assumes "dashmap_laws D" and "id_map_ok D t"
  shows "\<exists>t'. id_apply D t op = Inr t' \<and> id_map_ok D t' \<and> im_capacity t' = im_capacity t \<and>
     dm_get D (im_forward t') = bijection_apply (im_capacity t) (dm_get D (im_forward t)) op"
proof (cases op)
  case (IdInsert k i)
  have ran: "i \<in> ran (dm_get D (im_forward t)) \<longleftrightarrow> backward_slot t i \<noteq> None" if "unat i < im_capacity t"
    using assms(2) that by (auto simp: id_map_ok_def ran_def)
  show ?thesis
  proof (cases "\<exists>t'. id_map_insert D t k i = Inr (Inr t')")
    case True
    then obtain t' where t': "id_map_insert D t k i = Inr (Inr t')" by blast
    from t' have "unat i < im_capacity t" "dm_get D (im_forward t) k = None" "backward_slot t i = None"
      unfolding id_map_insert_ok [OF assms] by (auto split: if_splits)
    with id_map_insert_keeps [OF assms t'] t' IdInsert ran show ?thesis by auto
  next
    case False
    with id_map_insert_ok [OF assms, of k i] ran obtain e where "id_map_insert D t k i = Inr (Inl e)"
      "\<not> (unat i < im_capacity t \<and> k \<notin> dom (dm_get D (im_forward t)) \<and> i \<notin> ran (dm_get D (im_forward t)))"
      by (auto split: if_splits)
    with IdInsert assms(2) show ?thesis by auto
  qed
next
  case (IdDelete k)
  show ?thesis
  proof (cases "dm_get D (im_forward t) k")
    case None
    with IdDelete assms(2) occupied_entry_ok [OF assms, of k] show ?thesis by (simp add: fun_upd_idem)
  next
    case (Some i)
    with IdDelete occupied_entry_ok [OF assms, of k] entry_delete_ok [OF assms Some] assms(1) show ?thesis
      by (simp add: dashmap_laws_def)
  qed
qed

lemma id_run_refines:
  assumes "dashmap_laws D" and "id_map_ok D t"
  shows "\<exists>t'. id_run D t ops = Inr t' \<and> id_map_ok D t' \<and> im_capacity t' = im_capacity t \<and>
     dm_get D (im_forward t') = foldl (bijection_apply (im_capacity t)) (dm_get D (im_forward t)) ops"
  using assms(2)
proof (induction ops arbitrary: t)
  case (Cons op ops)
  from id_apply_refines [OF assms(1) Cons.prems, of op] obtain t1 where t1: "id_apply D t op = Inr t1" "id_map_ok D t1"
    "im_capacity t1 = im_capacity t" "dm_get D (im_forward t1) = bijection_apply (im_capacity t) (dm_get D (im_forward t)) op"
    by blast
  with Cons.IH [OF t1(2)] show ?case by simp
qed simp

text \<open>
  C20. The id map stays a bijection between the external ids and the slots in use, in both directions: after
  any sequence of insertions and deletions, whether they succeed or are refused, looking an external id up
  gives a slot exactly when that slot gives the external id back. A slot out of bounds, an external id or a
  slot that is taken is refused and changes nothing; no shard is accessed out of range and the assertion of
  \<open>occupied_entry\<close> never fails.
\<close>

theorem id_map_bijection:
  assumes "dashmap_laws D"
  shows "\<exists>t. id_run D (id_map_new D cap) ops = Inr t \<and>
     to_internal D t = foldl (bijection_apply cap) Map.empty ops \<and>
     (\<forall>k i. to_internal D t k = Some i \<longleftrightarrow> to_external t i = Inr (Some k)) \<and>
     (\<forall>i. \<exists>x. to_external t i = Inr x)"
proof -
  have new: "im_capacity (id_map_new D cap) = cap" "dm_get D (im_forward (id_map_new D cap)) = Map.empty"
    using assms by (auto simp: id_map_new_def dashmap_laws_def)
  from id_run_refines [OF assms id_map_new_ok [OF assms], of cap ops] obtain t where
    t: "id_run D (id_map_new D cap) ops = Inr t" "id_map_ok D t"
      "dm_get D (im_forward t) = foldl (bijection_apply cap) Map.empty ops"
    unfolding new by blast
  have "to_internal D t k = Some i \<longleftrightarrow> to_external t i = Inr (Some k)" for k i
    using t(2) unfolding to_external_ok [OF t(2)] by (auto simp: id_map_ok_def to_internal_def)
  with t to_external_ok [OF t(2)] show ?thesis by (auto simp: to_internal_def)
qed

definition map_dashmap :: "('k \<rightharpoonup> u32, 'k) dashmap" where
  "map_dashmap = \<lparr>dm_new = Map.empty, dm_get = (\<lambda>m. m), dm_insert = (\<lambda>m k v. m(k \<mapsto> v)), dm_remove = (\<lambda>m k. m(k := None))\<rparr>"

lemma map_dashmap_laws: "dashmap_laws map_dashmap"
  by (simp add: dashmap_laws_def map_dashmap_def)

theorem id_map_bijection_witness:
  "\<exists>t. id_run map_dashmap (id_map_new map_dashmap 3)
       [IdInsert ''a'' 0, IdInsert ''b'' 0, IdInsert ''b'' 2, IdDelete ''a'', IdInsert ''c'' 0] = Inr t \<and>
     to_internal map_dashmap t ''b'' = Some 2 \<and> to_external t 0 = Inr (Some ''c'')"
proof -
  let ?ops = "[IdInsert ''a'' 0, IdInsert ''b'' 0, IdInsert ''b'' 2, IdDelete ''a'', IdInsert ''c'' 0]"
  have "foldl (bijection_apply 3) Map.empty ?ops = [''b'' \<mapsto> 2, ''c'' \<mapsto> (0 :: u32)]"
    by (auto simp: fun_eq_iff ran_def)
  with id_map_bijection [OF map_dashmap_laws, of 3 ?ops] obtain t where
    t: "id_run map_dashmap (id_map_new map_dashmap 3) ?ops = Inr t"
      "to_internal map_dashmap t = [''b'' \<mapsto> 2, ''c'' \<mapsto> 0]"
      "to_internal map_dashmap t ''c'' = Some 0 \<longleftrightarrow> to_external t 0 = Inr (Some ''c'')"
    by metis
  then have "to_external t 0 = Inr (Some ''c'')" "to_internal map_dashmap t ''b'' = Some 2" by simp_all
  with t(1) show ?thesis by blast
qed

end
