(* ===== verification/Runs.thy ===== *)
theory Runs
  imports GraphSearch
begin

text \<open>
  Operations of the index change the data provider and can fail in between. A \<open>run\<close> is such an
  operation: on a provider state it does not return (\<open>None\<close>), or returns a value or an error together
  with the state it leaves behind. The error type is \<open>ANNError\<close> or the ranked error of a fallible
  provider call (\<open>diskann/src/error/ranked.rs\<close>), which tells transient errors from hard ones.

  \<open>total_run P m E Q\<close> is total correctness: started in a state that satisfies \<open>P\<close> the operation
  returns, with \<open>Q\<close> of its value and state, or \<open>E\<close> of its error and state.
\<close>

section \<open>Operations on a provider\<close>

type_synonym ('g, 'f, 'a) run = "'g \<Rightarrow> (('f + 'a) \<times> 'g) option"

definition return_run :: "'a \<Rightarrow> ('g, 'f, 'a) run" where
  "return_run a = (\<lambda>g. Some (Inr a, g))"

definition fail_run :: "'f \<Rightarrow> ('g, 'f, 'a) run" where
  "fail_run e = (\<lambda>g. Some (Inl e, g))"

definition bind_run :: "('g, 'f, 'a) run \<Rightarrow> ('a \<Rightarrow> ('g, 'f, 'b) run) \<Rightarrow> ('g, 'f, 'b) run" where
  "bind_run m k = (\<lambda>g. case m g of
     None \<Rightarrow> None
   | Some (Inl e, g') \<Rightarrow> Some (Inl e, g')
   | Some (Inr a, g') \<Rightarrow> k a g')"

definition get_run :: "('g, 'f, 'g) run" where
  "get_run = (\<lambda>g. Some (Inr g, g))"

definition put_run :: "'g \<Rightarrow> ('g, 'f, unit) run" where
  "put_run g = (\<lambda>_. Some (Inr (), g))"

text \<open>A computation that leaves the provider alone, as part of a run.\<close>

definition of_result :: "'f + 'a \<Rightarrow> ('g, 'f, 'a) run" where
  "of_result r = (\<lambda>g. Some (r, g))"

definition of_option :: "('f + 'a) option \<Rightarrow> ('g, 'f, 'a) run" where
  "of_option r = (\<lambda>g. map_option (\<lambda>x. (x, g)) r)"

definition map_error :: "('f \<Rightarrow> 'h) \<Rightarrow> ('g, 'f, 'a) run \<Rightarrow> ('g, 'h, 'a) run" where
  "map_error f m = (\<lambda>g. map_option (\<lambda>(r, g'). (map_sum f id r, g')) (m g))"

text \<open>Rust drops what a scope owns when the scope is left, by an error as well.\<close>

definition dropping :: "('g \<Rightarrow> 'g) \<Rightarrow> ('g, 'f, 'a) run \<Rightarrow> ('g, 'f, 'a) run" where
  "dropping f m = (\<lambda>g. map_option (\<lambda>(r, g'). (r, f g')) (m g))"

fun each_run :: "('x \<Rightarrow> ('g, 'f, unit) run) \<Rightarrow> 'x list \<Rightarrow> ('g, 'f, unit) run" where
  "each_run f [] = return_run ()"
| "each_run f (x # xs) = bind_run (f x) (\<lambda>_. each_run f xs)"

lemma bind_run_of_option [simp]: "bind_run (of_option (Some (Inr a))) k = k a"
  by (simp add: bind_run_def of_option_def)

section \<open>Ranked errors\<close>

text \<open>
  A transient error is carried as the hard error its \<open>escalate\<close> makes of it.
\<close>

datatype 'e ranked_error =
    Transient "'e ann_error"
  | Hard "'e ann_error"

definition allow_transient :: "('g, 'e ranked_error, 'a) run \<Rightarrow> ('g, 'e ann_error, 'a option) run" where
  "allow_transient m = (\<lambda>g. case m g of
     None \<Rightarrow> None
   | Some (Inr v, g') \<Rightarrow> Some (Inr (Some v), g')
   | Some (Inl (Transient e), g') \<Rightarrow> Some (Inr None, g')
   | Some (Inl (Hard e), g') \<Rightarrow> Some (Inl e, g'))"

definition escalate :: "('g, 'e ranked_error, 'a) run \<Rightarrow> ('g, 'e ann_error, 'a) run" where
  "escalate m = (\<lambda>g. case m g of
     None \<Rightarrow> None
   | Some (Inr v, g') \<Rightarrow> Some (Inr v, g')
   | Some (Inl (Transient e), g') \<Rightarrow> Some (Inl e, g')
   | Some (Inl (Hard e), g') \<Rightarrow> Some (Inl e, g'))"

section \<open>Total correctness\<close>

definition total_run ::
  "('g \<Rightarrow> bool) \<Rightarrow> ('g, 'f, 'a) run \<Rightarrow> ('f \<Rightarrow> 'g \<Rightarrow> bool) \<Rightarrow> ('a \<Rightarrow> 'g \<Rightarrow> bool) \<Rightarrow> bool" where
  "total_run P m E Q \<longleftrightarrow> (\<forall>g. P g \<longrightarrow> (\<exists>r g'. m g = Some (r, g') \<and>
     (case r of Inl e \<Rightarrow> E e g' | Inr a \<Rightarrow> Q a g')))"

lemma total_runI:
  "(\<And>g. P g \<Longrightarrow> \<exists>r g'. m g = Some (r, g') \<and> (case r of Inl e \<Rightarrow> E e g' | Inr a \<Rightarrow> Q a g')) \<Longrightarrow>
   total_run P m E Q"
  by (simp add: total_run_def)

lemma total_runE:
  assumes "total_run P m E Q" and "P g"
  obtains (failed) e g' where "m g = Some (Inl e, g')" and "E e g'"
    | (returned) a g' where "m g = Some (Inr a, g')" and "Q a g'"
proof -
  from assms obtain r g' where r: "m g = Some (r, g')" "case r of Inl e \<Rightarrow> E e g' | Inr a \<Rightarrow> Q a g'"
    by (auto simp: total_run_def)
  show thesis by (cases r) (use r failed returned in auto)
qed

lemma total_run_weaken:
  assumes "total_run P m E Q" and "\<And>g. P' g \<Longrightarrow> P g" and "\<And>e g. E e g \<Longrightarrow> E' e g"
    and "\<And>a g. Q a g \<Longrightarrow> Q' a g"
  shows "total_run P' m E' Q'"
proof (rule total_runI)
  fix g
  assume "P' g"
  then have "P g" by (rule assms(2))
  with assms(1) show "\<exists>r g'. m g = Some (r, g') \<and> (case r of Inl e \<Rightarrow> E' e g' | Inr a \<Rightarrow> Q' a g')"
    by (cases rule: total_runE) (auto dest: assms(3,4))
qed

lemma total_run_pre: "total_run P m E Q \<Longrightarrow> (\<And>g. P' g \<Longrightarrow> P g) \<Longrightarrow> total_run P' m E Q"
  by (simp add: total_run_def)

lemma total_run_post: "total_run P m E Q \<Longrightarrow> (\<And>a g. Q a g \<Longrightarrow> Q' a g) \<Longrightarrow> total_run P m E Q'"
  by (erule total_run_weaken) simp_all

text \<open>A hypothesis about the start state may be fixed before the run.\<close>

lemma total_run_fix: "(\<And>g0. P g0 \<Longrightarrow> total_run (\<lambda>g. g = g0) m E Q) \<Longrightarrow> total_run P m E Q"
  by (simp add: total_run_def)

lemma total_run_dropping:
  assumes "total_run P m E Q" and "\<And>e g. E e g \<Longrightarrow> E e (f g)" and "\<And>a g. Q a g \<Longrightarrow> Q a (f g)"
  shows "total_run P (dropping f m) E Q"
proof (rule total_runI)
  fix g
  assume "P g"
  with assms(1) show "\<exists>r g'. dropping f m g = Some (r, g') \<and> (case r of Inl e \<Rightarrow> E e g' | Inr a \<Rightarrow> Q a g')"
    by (cases rule: total_runE) (auto simp: dropping_def assms(2,3))
qed

lemma total_run_return: "(\<And>g. P g \<Longrightarrow> Q a g) \<Longrightarrow> total_run P (return_run a) E Q"
  by (simp add: total_run_def return_run_def)

lemma total_run_fail: "(\<And>g. P g \<Longrightarrow> E e g) \<Longrightarrow> total_run P (fail_run e) E Q"
  by (simp add: total_run_def fail_run_def)

lemma total_run_bind:
  assumes "total_run P m E R" and "\<And>a. total_run (R a) (k a) E Q"
  shows "total_run P (bind_run m k) E Q"
proof (rule total_runI)
  fix g
  assume "P g"
  with assms(1) show "\<exists>r g'. bind_run m k g = Some (r, g') \<and> (case r of Inl e \<Rightarrow> E e g' | Inr a \<Rightarrow> Q a g')"
  proof (cases rule: total_runE)
    case (failed e g')
    then show ?thesis by (simp add: bind_run_def)
  next
    case (returned a g')
    from assms(2) [of a] returned(2) show ?thesis
      by (cases rule: total_runE) (simp_all add: bind_run_def returned(1))
  qed
qed

lemma total_run_bind_pair:
  assumes "total_run P m E (\<lambda>(a, b). R a b)" and "\<And>a b. total_run (R a b) (k a b) E Q"
  shows "total_run P (bind_run m (\<lambda>(a, b). k a b)) E Q"
  using assms(1) by (rule total_run_bind) (use assms(2) in \<open>simp add: split_beta\<close>)

lemma total_run_of_result:
  "(\<And>g e. P g \<Longrightarrow> r = Inl e \<Longrightarrow> E e g) \<Longrightarrow> (\<And>g a. P g \<Longrightarrow> r = Inr a \<Longrightarrow> Q a g) \<Longrightarrow>
   total_run P (of_result r) E Q"
  by (cases r) (simp_all add: total_run_def of_result_def)

lemma total_run_bind_result:
  assumes "\<And>e g. P g \<Longrightarrow> r = Inl e \<Longrightarrow> E e g" and "\<And>a. r = Inr a \<Longrightarrow> total_run P (k a) E Q"
  shows "total_run P (bind_run (of_result r) k) E Q"
  using assms by (cases r) (simp_all add: total_run_def bind_run_def of_result_def)

lemma total_run_of_option:
  assumes "x = Some r" and "\<And>g e. P g \<Longrightarrow> r = Inl e \<Longrightarrow> E e g" and "\<And>g a. P g \<Longrightarrow> r = Inr a \<Longrightarrow> Q a g"
  shows "total_run P (of_option x) E Q"
  using assms by (cases r) (simp_all add: total_run_def of_option_def)

lemma total_run_map_error:
  assumes "total_run P m (\<lambda>e. E (f e)) Q"
  shows "total_run P (map_error f m) E Q"
proof (rule total_runI)
  fix g
  assume "P g"
  with assms show "\<exists>r g'. map_error f m g = Some (r, g') \<and> (case r of Inl e \<Rightarrow> E e g' | Inr a \<Rightarrow> Q a g')"
    by (cases rule: total_runE) (simp_all add: map_error_def)
qed

lemma total_run_allow_transient:
  assumes "total_run P m (\<lambda>e g. case e of Transient _ \<Rightarrow> Q None g | Hard e \<Rightarrow> E e g) (\<lambda>v. Q (Some v))"
  shows "total_run P (allow_transient m) E Q"
proof (rule total_runI)
  fix g
  assume "P g"
  with assms show "\<exists>r g'. allow_transient m g = Some (r, g') \<and> (case r of Inl e \<Rightarrow> E e g' | Inr a \<Rightarrow> Q a g')"
    by (cases rule: total_runE) (simp_all add: allow_transient_def split: ranked_error.splits)
qed

lemma total_run_escalate:
  assumes "total_run P m (\<lambda>e. case e of Transient e \<Rightarrow> E e | Hard e \<Rightarrow> E e) Q"
  shows "total_run P (escalate m) E Q"
proof (rule total_runI)
  fix g
  assume "P g"
  with assms show "\<exists>r g'. escalate m g = Some (r, g') \<and> (case r of Inl e \<Rightarrow> E e g' | Inr a \<Rightarrow> Q a g')"
    by (cases rule: total_runE) (simp_all add: escalate_def split: ranked_error.splits)
qed

lemma total_run_each:
  assumes "\<And>x. x \<in> set xs \<Longrightarrow> total_run P (f x) E (\<lambda>_. P)"
  shows "total_run P (each_run f xs) E (\<lambda>_. P)"
  using assms
proof (induction xs)
  case Nil
  then show ?case by (simp add: total_run_return)
next
  case (Cons x xs)
  then show ?case by (auto intro: total_run_bind)
qed

end
