(* ===== verification/Epoch.thy ===== *)
theory Epoch
  imports Prelude
begin

text \<open>
  Epoch-based reclamation (\<open>diskann-inmem/src/epoch.rs\<close>): the registry of guards, the epoch counter and
  the four queues of retired ids. \<open>SegQueue\<close> is a package the registry is built on: it is the record
  \<open>seg_queue\<close> of the operations the code calls, and \<open>seg_queue_laws\<close> says that it is a queue.

  The operations here are those of one thread that is not interrupted; then the epoch that \<open>guard_inner\<close>
  reads again is the one it read first. The theory of the concurrent protocol splits them into their
  atomic steps.
\<close>

section \<open>The registry\<close>

record 'q seg_queue =
  sq_new :: 'q
  sq_push :: "'q \<Rightarrow> u32 \<Rightarrow> 'q"
  sq_pop :: "'q \<Rightarrow> (u32 \<times> 'q) option"
  sq_len :: "'q \<Rightarrow> nat"

definition seg_queue_laws :: "'q seg_queue \<Rightarrow> ('q \<Rightarrow> u32 list) \<Rightarrow> bool" where
  "seg_queue_laws Q items \<longleftrightarrow> items (sq_new Q) = [] \<and>
     (\<forall>q i. items (sq_push Q q i) = items q @ [i]) \<and>
     (\<forall>q. case sq_pop Q q of None \<Rightarrow> items q = [] | Some (i, q') \<Rightarrow> items q = i # items q') \<and>
     (\<forall>q. sq_len Q q = length (items q))"

record 'q registry =
  rg_guards :: "u64 list"
  rg_hint :: u64
  rg_epoch :: u64
  rg_drain :: bool   \<comment> \<open>the mutex \<open>drain\<close> is held\<close>
  rg_retiring :: "'q list"

definition DEFAULT_GUARD_SLOTS :: nat where "DEFAULT_GUARD_SLOTS = 256"

definition queue_index :: "u64 \<Rightarrow> nat" where
  "queue_index epoch = unat epoch mod 4"

definition last_queue :: "u64 \<Rightarrow> nat" where
  "last_queue epoch = queue_index (epoch - 2)"

definition registry_with_capacity :: "'q seg_queue \<Rightarrow> nat \<Rightarrow> 'q registry" where
  "registry_with_capacity Q capacity =
     \<lparr>rg_guards = replicate capacity 0, rg_hint = 0, rg_epoch = 1, rg_drain = False,
      rg_retiring = replicate 4 (sq_new Q)\<rparr>"

record guard =
  gd_slot :: nat
  gd_retire :: nat

text \<open>The slots in the order \<open>guard_inner\<close> tries them.\<close>

definition guard_order :: "u64 \<Rightarrow> nat \<Rightarrow> nat list" where
  "guard_order hint nguards = map (\<lambda>i. unat (hint + of_nat i) mod nguards) [0..<nguards]"

definition registry_guard :: "'q registry \<Rightarrow> guard option \<times> 'q registry" where
  "registry_guard r =
     (let epoch = rg_epoch r;
          hint = rg_hint r;
          r = r\<lparr>rg_hint := hint + 1\<rparr>
      in case List.find (\<lambda>slot. rg_guards r ! slot = 0) (guard_order hint (length (rg_guards r))) of
           None \<Rightarrow> (None, r)
         | Some slot \<Rightarrow> (Some \<lparr>gd_slot = slot, gd_retire = queue_index epoch\<rparr>,
                         r\<lparr>rg_guards := (rg_guards r)[slot := epoch]\<rparr>))"

fun guard_min :: "u64 list \<Rightarrow> u64 \<Rightarrow> u64" where
  "guard_min [] mn = mn"
| "guard_min (guarded # guards) mn = guard_min guards (if guarded \<noteq> 0 then min mn guarded else mn)"

definition can_advance :: "'q registry \<Rightarrow> bool \<times> u64" where
  "can_advance r =
     (let current = rg_epoch r; mn = guard_min (rg_guards r) current in (mn = current, mn))"

text \<open>Success holds the mutex \<open>drain\<close> until the \<open>Drain\<close> is dropped.\<close>

definition try_advance :: "'q registry \<Rightarrow> (nat option \<times> 'q registry) partial" where
  "try_advance r =
     (if rg_drain r then Inr (None, r)
      else let (can_advance, current) = can_advance r in
           if current = - 1 then Inl AssertFailed
           else if can_advance then
             Inr (Some (last_queue current), r\<lparr>rg_epoch := rg_epoch r + 1, rg_drain := True\<rparr>)
           else Inr (None, r))"

definition guard_retire :: "'q seg_queue \<Rightarrow> 'q registry \<Rightarrow> guard \<Rightarrow> u32 \<Rightarrow> 'q registry" where
  "guard_retire Q r g i =
     r\<lparr>rg_retiring := (rg_retiring r)[gd_retire g := sq_push Q (rg_retiring r ! gd_retire g) i]\<rparr>"

definition epoch_guard_drop :: "'q registry \<Rightarrow> guard \<Rightarrow> 'q registry" where
  "epoch_guard_drop r g = r\<lparr>rg_guards := (rg_guards r)[gd_slot g := 0]\<rparr>"

definition drain_pop :: "'q seg_queue \<Rightarrow> 'q registry \<Rightarrow> nat \<Rightarrow> u32 option \<times> 'q registry" where
  "drain_pop Q r queue =
     (case sq_pop Q (rg_retiring r ! queue) of
        None \<Rightarrow> (None, r)
      | Some (i, q) \<Rightarrow> (Some i, r\<lparr>rg_retiring := (rg_retiring r)[queue := q]\<rparr>))"

definition drain_len :: "'q seg_queue \<Rightarrow> 'q registry \<Rightarrow> nat \<Rightarrow> nat" where
  "drain_len Q r queue = sq_len Q (rg_retiring r ! queue)"

definition drain_drop :: "'q registry \<Rightarrow> 'q registry" where
  "drain_drop r = r\<lparr>rg_drain := False\<rparr>"

section \<open>The invariant of the registry\<close>

definition registry_ok :: "nat \<Rightarrow> 'q registry \<Rightarrow> bool" where
  "registry_ok n r \<longleftrightarrow> length (rg_guards r) = n \<and> 0 < n \<and> length (rg_retiring r) = 4 \<and> rg_epoch r \<noteq> 0 \<and>
     (\<forall>e \<in> set (rg_guards r). e = 0 \<or> e = rg_epoch r \<or> e = rg_epoch r - 1)"

text \<open>The ids that wait in the queues.\<close>

definition retired :: "('q \<Rightarrow> u32 list) \<Rightarrow> 'q registry \<Rightarrow> u32 list" where
  "retired items r = concat (map items (rg_retiring r))"

lemma seg_pop_empty: "seg_queue_laws Q items \<Longrightarrow> items q = [] \<Longrightarrow> sq_pop Q q = None"
  by (cases "sq_pop Q q") (auto simp: seg_queue_laws_def dest!: spec [of _ q])

lemma seg_pop_items:
  assumes "seg_queue_laws Q items" and "items q = i # is"
  obtains q' where "sq_pop Q q = Some (i, q')" and "items q' = is"
proof -
  have "case sq_pop Q q of None \<Rightarrow> items q = [] | Some (j, q') \<Rightarrow> items q = j # items q'"
    using assms(1) by (simp add: seg_queue_laws_def)
  with assms(2) that show thesis by (auto split: option.splits)
qed

lemma queue_index_less [simp]: "queue_index e < 4"
  by (simp add: queue_index_def)

lemma last_queue_less [simp]: "last_queue e < 4"
  by (simp add: last_queue_def)

lemma registry_with_capacity_ok:
  "0 < n \<Longrightarrow> registry_ok n (registry_with_capacity Q n)"
  "seg_queue_laws Q items \<Longrightarrow> retired items (registry_with_capacity Q n) = []"
  by (auto simp: registry_ok_def registry_with_capacity_def retired_def seg_queue_laws_def numeral_eq_Suc)

text \<open>The first slots of the order cover all of them, wherever the hint starts.\<close>

lemma guard_order_set:
  assumes "0 < n" and "n < 2 ^ 64"
  shows "set (guard_order hint n) \<subseteq> {..< n}"
  using assms by (auto simp: guard_order_def)

lemma registry_guard_spec:
  assumes "registry_ok n r" and "registry_guard r = (g, r')"
  shows "registry_ok n r'" and "rg_epoch r' = rg_epoch r" and "rg_retiring r' = rg_retiring r"
    and "rg_drain r' = rg_drain r"
    and "case g of None \<Rightarrow> rg_guards r' = rg_guards r
         | Some g \<Rightarrow> gd_slot g < n \<and> rg_guards r ! gd_slot g = 0 \<and> gd_retire g = queue_index (rg_epoch r) \<and>
             rg_guards r' = (rg_guards r)[gd_slot g := rg_epoch r]"
proof -
  note ok = assms(1) [unfolded registry_ok_def]
  have len: "length (rg_guards r) = n" "0 < n" using ok by simp_all
  let ?f = "List.find (\<lambda>slot. rg_guards r ! slot = 0) (guard_order (rg_hint r) n)"
  have "rg_epoch r' = rg_epoch r \<and> rg_retiring r' = rg_retiring r \<and> rg_drain r' = rg_drain r \<and>
      (case g of None \<Rightarrow> rg_guards r' = rg_guards r
         | Some g \<Rightarrow> gd_slot g < n \<and> rg_guards r ! gd_slot g = 0 \<and> gd_retire g = queue_index (rg_epoch r) \<and>
             rg_guards r' = (rg_guards r)[gd_slot g := rg_epoch r])"
  proof (cases ?f)
    case None
    with assms(2) len show ?thesis by (auto simp: registry_guard_def Let_def)
  next
    case (Some slot)
    then have "slot \<in> set (guard_order (rg_hint r) n)" "rg_guards r ! slot = 0" by (auto simp: find_Some_iff)
    then have "slot < n" using len(2) by (auto simp: guard_order_def)
    with Some assms(2) len \<open>rg_guards r ! slot = 0\<close> show ?thesis by (auto simp: registry_guard_def Let_def)
  qed
  then show "rg_epoch r' = rg_epoch r" "rg_retiring r' = rg_retiring r" "rg_drain r' = rg_drain r"
    and g: "case g of None \<Rightarrow> rg_guards r' = rg_guards r
         | Some g \<Rightarrow> gd_slot g < n \<and> rg_guards r ! gd_slot g = 0 \<and> gd_retire g = queue_index (rg_epoch r) \<and>
             rg_guards r' = (rg_guards r)[gd_slot g := rg_epoch r]" by blast+
  then show "registry_ok n r'"
    using ok set_update_subset_insert [of "rg_guards r"] by (fastforce simp: registry_ok_def split: option.splits)
qed

lemma guard_min_le: "guard_min gs mn \<le> mn" "e \<in> set gs \<Longrightarrow> e \<noteq> 0 \<Longrightarrow> guard_min gs mn \<le> e"
proof -
  show le: "guard_min gs mn \<le> mn" for gs mn
    by (induction gs mn rule: guard_min.induct) (auto intro: order_trans)
  show "e \<in> set gs \<Longrightarrow> e \<noteq> 0 \<Longrightarrow> guard_min gs mn \<le> e"
  proof (induction gs mn rule: guard_min.induct)
    case (2 g gs mn)
    then show ?case using le [of gs "min mn g"] by (auto intro: order_trans)
  qed simp
qed

lemma guard_min_idle: "(\<And>e. e \<in> set gs \<Longrightarrow> e = 0 \<or> e = mn) \<Longrightarrow> guard_min gs mn = mn"
proof (induction gs)
  case (Cons e gs)
  then have "e = 0 \<or> e = mn" "guard_min gs mn = mn" by simp_all
  then show ?case by auto
qed simp

text \<open>
  The epoch advances exactly when no guard of the previous epoch is left, and then no guard of an epoch
  before the new one's predecessor exists.
\<close>

lemma can_advance_iff:
  assumes "registry_ok n r" and "rg_epoch r \<noteq> - 1"
  shows "fst (can_advance r) \<longleftrightarrow> (\<forall>e \<in> set (rg_guards r). e = 0 \<or> e = rg_epoch r)"
    and "snd (can_advance r) \<noteq> - 1"
proof -
  note ok = assms(1) [unfolded registry_ok_def]
  have less: "rg_epoch r - 1 < rg_epoch r"
  proof -
    have pos: "unat (rg_epoch r) \<noteq> 0" using ok by (simp add: unat_eq_zero)
    then have "unat (rg_epoch r - 1) = unat (rg_epoch r) - 1" by (simp add: unat_sub_if_size)
    with pos show ?thesis by (simp add: word_less_nat_alt)
  qed
  show "fst (can_advance r) \<longleftrightarrow> (\<forall>e \<in> set (rg_guards r). e = 0 \<or> e = rg_epoch r)"
  proof
    assume "fst (can_advance r)"
    then have mn: "guard_min (rg_guards r) (rg_epoch r) = rg_epoch r" by (simp add: can_advance_def Let_def)
    show "\<forall>e \<in> set (rg_guards r). e = 0 \<or> e = rg_epoch r"
    proof
      fix e
      assume e: "e \<in> set (rg_guards r)"
      from guard_min_le(2) [OF e, of "rg_epoch r"] mn have "e \<noteq> 0 \<Longrightarrow> rg_epoch r \<le> e" by simp
      with ok e less show "e = 0 \<or> e = rg_epoch r" by force
    qed
  next
    assume "\<forall>e \<in> set (rg_guards r). e = 0 \<or> e = rg_epoch r"
    then show "fst (can_advance r)" by (simp add: can_advance_def Let_def guard_min_idle)
  qed
  have "snd (can_advance r) \<le> rg_epoch r" by (simp add: can_advance_def Let_def guard_min_le(1))
  moreover have "rg_epoch r < - 1" using assms(2) by (simp add: order.not_eq_order_implies_strict)
  ultimately show "snd (can_advance r) \<noteq> - 1" by force
qed

lemma try_advance_spec:
  assumes "registry_ok n r" and "rg_epoch r \<noteq> - 1" and "\<not> rg_drain r"
  shows "try_advance r = Inr (if \<forall>e \<in> set (rg_guards r). e = 0 \<or> e = rg_epoch r
      then (Some (last_queue (rg_epoch r)), r\<lparr>rg_epoch := rg_epoch r + 1, rg_drain := True\<rparr>) else (None, r))"
    and "\<forall>e \<in> set (rg_guards r). e = 0 \<or> e = rg_epoch r \<Longrightarrow>
      registry_ok n (r\<lparr>rg_epoch := rg_epoch r + 1, rg_drain := True\<rparr>)"
proof -
  note ca = can_advance_iff [OF assms(1,2)]
  have "snd (can_advance r) = rg_epoch r" if "fst (can_advance r)"
    using that by (simp add: can_advance_def Let_def)
  with ca assms(3) show "try_advance r = Inr (if \<forall>e \<in> set (rg_guards r). e = 0 \<or> e = rg_epoch r
      then (Some (last_queue (rg_epoch r)), r\<lparr>rg_epoch := rg_epoch r + 1, rg_drain := True\<rparr>) else (None, r))"
    by (auto simp: try_advance_def split_beta)
  have "rg_epoch r + 1 \<noteq> 0" using assms(2) by (metis add_diff_cancel_right' diff_0)
  then show "\<forall>e \<in> set (rg_guards r). e = 0 \<or> e = rg_epoch r \<Longrightarrow>
      registry_ok n (r\<lparr>rg_epoch := rg_epoch r + 1, rg_drain := True\<rparr>)"
    using assms(1) by (auto simp: registry_ok_def)
qed

lemma epoch_guard_drop_ok: "registry_ok n r \<Longrightarrow> registry_ok n (epoch_guard_drop r g)"
  using set_update_subset_insert [of "rg_guards r" "gd_slot g" 0]
  by (fastforce simp: registry_ok_def epoch_guard_drop_def)

lemma guard_retire_ok: "registry_ok n (guard_retire Q r g i) = registry_ok n r"
  by (simp add: registry_ok_def guard_retire_def)

lemma retired_update:
  assumes "k < length (rg_retiring r)"
  shows "mset (retired items (r\<lparr>rg_retiring := (rg_retiring r)[k := q]\<rparr>)) + mset (items (rg_retiring r ! k)) =
     mset (retired items r) + mset (items q)"
proof -
  have "rg_retiring r = take k (rg_retiring r) @ rg_retiring r ! k # drop (Suc k) (rg_retiring r)"
    using assms by (rule id_take_nth_drop)
  then have "mset (retired items r) = mset (concat (map items (take k (rg_retiring r)))) + mset (items (rg_retiring r ! k)) +
      mset (concat (map items (drop (Suc k) (rg_retiring r))))"
    unfolding retired_def by (metis (no_types, lifting) concat.simps(2) concat_append list.simps(9) map_append mset_append union_assoc)
  moreover have "(rg_retiring r)[k := q] = take k (rg_retiring r) @ q # drop (Suc k) (rg_retiring r)"
    using assms by (rule upd_conv_take_nth_drop)
  ultimately show ?thesis by (simp add: retired_def ac_simps)
qed

lemma queue_index_add: "queue_index (e + of_nat k) = (queue_index e + k) mod 4"
proof -
  have "unat (e + of_nat k) = (unat e + k) mod 2 ^ 64" by (simp add: unat_word_ariths unat_of_nat take_bit_nat_def mod_simps)
  moreover have "x mod 2 ^ 64 mod 4 = x mod (4 :: nat)" for x by (rule mod_mod_cancel) simp
  ultimately show ?thesis by (simp add: queue_index_def mod_simps)
qed

lemma queue_index_next: "queue_index (e + 1) = (queue_index e + 1) mod 4"
  using queue_index_add [of e 1] by simp

lemma last_queue_eq: "last_queue e = (queue_index e + 2) mod 4"
proof -
  have "queue_index e = (queue_index (e - 2) + 2) mod 4" using queue_index_add [of "e - 2" 2] by simp
  moreover have "queue_index (e - 2) < 4" by simp
  ultimately show ?thesis unfolding last_queue_def by presburger
qed

lemma guard_retire_retired:
  assumes "seg_queue_laws Q items" and "gd_retire g < length (rg_retiring r)"
  shows "mset (retired items (guard_retire Q r g i)) = add_mset i (mset (retired items r))"
  using retired_update [OF assms(2), of items "sq_push Q (rg_retiring r ! gd_retire g) i"] assms(1)
  by (simp add: guard_retire_def seg_queue_laws_def)

end
