(* ===== verification/Store.thy ===== *)
theory Store
  imports Runs InmemBuffer Epoch
begin

text \<open>
  The concurrent data and graph store of the in-memory provider: slot tags (\<open>diskann-inmem/src/tag.rs\<close>), the
  freelist (\<open>diskann-inmem/src/freelist.rs\<close>) and the store itself (\<open>diskann-inmem/src/store.rs\<close>).

  Every operation is a run on the state of the store whose error is a panic. \<open>ArrayQueue\<close>, the bounded
  queue of the freelist, is a package: the record \<open>array_queue\<close> with \<open>array_queue_laws\<close>.
\<close>

section \<open>Tags\<close>

abbreviation (input) FROZEN :: u8 where "FROZEN \<equiv> 255"
abbreviation (input) PUBLISHED :: u8 where "PUBLISHED \<equiv> 254"
abbreviation (input) AVAILABLE :: u8 where "AVAILABLE \<equiv> 0"
abbreviation (input) OWNED :: u8 where "OWNED \<equiv> 1"
abbreviation (input) RETIRING :: u8 where "RETIRING \<equiv> 2"

definition is_reserved :: "u8 \<Rightarrow> bool" where
  "is_reserved tag \<longleftrightarrow> tag \<le> RETIRING \<or> tag = FROZEN"

definition can_read :: "u8 \<Rightarrow> bool" where
  "can_read tag \<longleftrightarrow> PUBLISHED \<le> tag"

section \<open>The freelist\<close>

record 'a array_queue =
  aq_new :: "nat \<Rightarrow> 'a"
  aq_push :: "'a \<Rightarrow> u32 \<Rightarrow> bool \<times> 'a"
  aq_pop :: "'a \<Rightarrow> u32 option \<times> 'a"

definition array_queue_laws :: "'a array_queue \<Rightarrow> ('a \<Rightarrow> u32 list) \<Rightarrow> bool" where
  "array_queue_laws A items \<longleftrightarrow> (\<forall>n. items (aq_new A n) = []) \<and>
     (\<forall>q i. case aq_push A q i of (True, q') \<Rightarrow> items q' = items q @ [i] | (False, q') \<Rightarrow> items q' = items q) \<and>
     (\<forall>q. case aq_pop A q of (None, q') \<Rightarrow> items q = [] \<and> items q' = [] | (Some i, q') \<Rightarrow> items q = i # items q')"

definition SCAN_SIZE :: u32 where "SCAN_SIZE = 256"

record 'a freelist =
  fl_recycled :: 'a
  fl_max :: u32
  fl_next :: u32
  fl_scan_bucket :: u32

definition freelist_new :: "'a array_queue \<Rightarrow> u32 \<Rightarrow> nat \<Rightarrow> 'a freelist" where
  "freelist_new A mx recycled =
     \<lparr>fl_recycled = aq_new A recycled, fl_max = mx, fl_next = 0, fl_scan_bucket = 0\<rparr>"

datatype free_id = Found u32 | ScanNeeded

definition freelist_pop :: "'a array_queue \<Rightarrow> 'a freelist \<Rightarrow> free_id \<times> 'a freelist" where
  "freelist_pop A f =
     (case aq_pop A (fl_recycled f) of
        (Some i, q) \<Rightarrow> (Found i, f\<lparr>fl_recycled := q\<rparr>)
      | (None, q) \<Rightarrow>
          if fl_next f < fl_max f then (Found (fl_next f), f\<lparr>fl_recycled := q, fl_next := fl_next f + 1\<rparr>)
          else (ScanNeeded, f\<lparr>fl_recycled := q\<rparr>))"

definition freelist_pop_recycled :: "'a array_queue \<Rightarrow> 'a freelist \<Rightarrow> u32 option \<times> 'a freelist" where
  "freelist_pop_recycled A f = (let (i, q) = aq_pop A (fl_recycled f) in (i, f\<lparr>fl_recycled := q\<rparr>))"

text \<open>\<open>scan\<close>: the range of ids to look at, and \<open>Scan\<close> as the list of its ids.\<close>

definition freelist_scan :: "'a freelist \<Rightarrow> (u32 \<times> u32) \<times> 'a freelist" where
  "freelist_scan f =
     (if fl_max f = 0 then ((0, 0), f)
      else let num_buckets = of_nat ((unat (fl_max f) + unat SCAN_SIZE - 1) div unat SCAN_SIZE);
               bucket = fl_scan_bucket f mod num_buckets;
               start = bucket * SCAN_SIZE;
               stop = (if unat start + unat SCAN_SIZE < 2 ^ 32 then min (start + SCAN_SIZE) (fl_max f) else fl_max f)
           in ((start, stop), f\<lparr>fl_scan_bucket := fl_scan_bucket f + 1\<rparr>))"

definition scan_ids :: "u32 \<times> u32 \<Rightarrow> u32 list" where
  "scan_ids rng = map of_nat [unat (fst rng) ..< unat (snd rng)]"

definition freelist_push :: "'a array_queue \<Rightarrow> 'a freelist \<Rightarrow> u32 \<Rightarrow> bool \<times> 'a freelist" where
  "freelist_push A f i =
     (if i < fl_max f then let (pushed, q) = aq_push A (fl_recycled f) i in (pushed, f\<lparr>fl_recycled := q\<rparr>)
      else (False, f))"

section \<open>The store\<close>

record store_config =
  sc_entries :: nat
  sc_bytes :: nat
  sc_max_neighbors :: nat
  sc_epoch_guard_slots :: nat
  sc_freelist_recycle_capacity :: nat

definition store_config_new :: "nat \<Rightarrow> nat \<Rightarrow> nat \<Rightarrow> store_config" where
  "store_config_new entries bytes max_neighbors =
     \<lparr>sc_entries = entries, sc_bytes = bytes, sc_max_neighbors = max_neighbors,
      sc_epoch_guard_slots = DEFAULT_GUARD_SLOTS, sc_freelist_recycle_capacity = 1024\<rparr>"

definition set_epoch_guard_slots :: "store_config \<Rightarrow> nat \<Rightarrow> store_config" where
  "set_epoch_guard_slots c slots = c\<lparr>sc_epoch_guard_slots := slots\<rparr>"

definition set_freelist_recycle_capacity :: "store_config \<Rightarrow> nat \<Rightarrow> store_config" where
  "set_freelist_recycle_capacity c capacity = c\<lparr>sc_freelist_recycle_capacity := capacity\<rparr>"

record ('a, 'q) store =
  so_buffer :: buffer
  so_unpadded :: nat
  so_unfrozen :: nat
  so_tags :: "u8 list"
  so_freelist :: "'a freelist"
  so_registry :: "'q registry"
  so_neighbors :: neighbors

definition TAG_SIZE :: nat where "TAG_SIZE = 1"

definition RETRY_LIMIT :: nat where "RETRY_LIMIT = 20"

type_synonym ('a, 'q, 'x) store_run = "(('a, 'q) store, panic, 'x) run"

text \<open>The packages the store is built on.\<close>

record ('a, 'q) store_deps =
  dp_array_queue :: "'a array_queue"
  dp_seg_queue :: "'q seg_queue"

subsection \<open>Tags and their mirrors\<close>

text \<open>Where the tag byte and the data of slot \<open>i\<close> are.\<close>

definition data_unchecked :: "('a, 'q) store \<Rightarrow> nat \<Rightarrow> raw_slice \<times> raw_slice" where
  "data_unchecked s i =
     (let (data, mirror) = raw_split (raw_truncate (buffer_get_unchecked (so_buffer s) i) (so_unpadded s))
            (so_unpadded s - TAG_SIZE)
      in (mirror, data))"

definition tag_load :: "nat \<Rightarrow> ('a, 'q, u8) store_run" where
  "tag_load i = bind_run get_run (\<lambda>s. of_result (vec_get (so_tags s) i))"

definition tag_store :: "nat \<Rightarrow> u8 \<Rightarrow> ('a, 'q, unit) store_run" where
  "tag_store i tag =
     bind_run get_run (\<lambda>s. bind_run (of_result (vec_set (so_tags s) i tag)) (\<lambda>tags. put_run (s\<lparr>so_tags := tags\<rparr>)))"

definition tag_compare_exchange :: "nat \<Rightarrow> u8 \<Rightarrow> u8 \<Rightarrow> ('a, 'q, bool) store_run" where
  "tag_compare_exchange i current new =
     bind_run (tag_load i) (\<lambda>tag.
     if tag = current then bind_run (tag_store i new) (\<lambda>_. return_run True) else return_run False)"

definition buffer_write :: "nat \<Rightarrow> u8 list \<Rightarrow> ('a, 'q, unit) store_run" where
  "buffer_write p bs =
     bind_run get_run (\<lambda>s. bind_run (of_result (mem_write (bf_mem (so_buffer s)) p bs)) (\<lambda>m.
       put_run (s\<lparr>so_buffer := (so_buffer s)\<lparr>bf_mem := m\<rparr>\<rparr>)))"

definition mirror_load :: "nat \<Rightarrow> ('a, 'q, u8) store_run" where
  "mirror_load i =
     bind_run get_run (\<lambda>s. bind_run (of_result (mem_read (bf_mem (so_buffer s)) (rs_ptr (fst (data_unchecked s i))) 1)) (\<lambda>bs.
       return_run (hd bs)))"

definition mirror_store :: "nat \<Rightarrow> u8 \<Rightarrow> ('a, 'q, unit) store_run" where
  "mirror_store i tag = bind_run get_run (\<lambda>s. buffer_write (rs_ptr (fst (data_unchecked s i))) [tag])"

subsection \<open>Slots\<close>

record slot =
  sl_slot :: u32
  sl_data :: raw_slice

definition try_acquire :: "u32 \<Rightarrow> ('a, 'q, slot option) store_run" where
  "try_acquire i =
     bind_run (tag_load (unat i)) (\<lambda>tag.
     if tag \<noteq> AVAILABLE then return_run None
     else bind_run (tag_compare_exchange (unat i) AVAILABLE OWNED) (\<lambda>claimed.
          bind_run get_run (\<lambda>s.
          return_run (if claimed then Some \<lparr>sl_slot = i, sl_data = snd (data_unchecked s (unat i))\<rparr> else None))))"

definition store_slot :: "u32 \<Rightarrow> ('a, 'q, slot option) store_run" where
  "store_slot i =
     bind_run get_run (\<lambda>s. if unat i < length (so_tags s) then try_acquire i else return_run None)"

text \<open>Overwriting the whole slice of a slot; \<open>copy_from_slice\<close> panics when the lengths differ.\<close>

definition slot_copy_from_slice :: "slot \<Rightarrow> u8 list \<Rightarrow> ('a, 'q, unit) store_run" where
  "slot_copy_from_slice l bs =
     (if length bs = rs_len (sl_data l) then buffer_write (rs_ptr (sl_data l)) bs else fail_run AssertFailed)"

definition slot_set_tags :: "slot \<Rightarrow> u8 \<Rightarrow> ('a, 'q, unit) store_run" where
  "slot_set_tags l tag = bind_run (mirror_store (unat (sl_slot l)) tag) (\<lambda>_. tag_store (unat (sl_slot l)) tag)"

definition slot_freeze :: "slot \<Rightarrow> ('a, 'q, unit) store_run" where
  "slot_freeze l = slot_set_tags l FROZEN"

definition slot_publish :: "slot \<Rightarrow> ('a, 'q, u32) store_run" where
  "slot_publish l = bind_run (slot_set_tags l PUBLISHED) (\<lambda>_. return_run (sl_slot l))"

definition slot_drop :: "slot \<Rightarrow> ('a, 'q, unit) store_run" where
  "slot_drop l = slot_set_tags l AVAILABLE"

subsection \<open>Creation\<close>

datatype store_error =
    MismatchedFrozenPointDim nat nat
  | NeedFrozenPoint
  | TooManyEntries nat nat
  | TooManyNeighbors nat
  | StoreBufferError buffer_error
  | StoreNeighborsError neighbors_error

fun fill_frozen :: "u32 \<Rightarrow> u8 list list \<Rightarrow> ('a, 'q, unit) store_run" where
  "fill_frozen i [] = return_run ()"
| "fill_frozen i (row # rows) =
     bind_run (store_slot i) (\<lambda>slot. case slot of
       None \<Rightarrow> fail_run AssertFailed
     | Some l \<Rightarrow>
         bind_run (slot_copy_from_slice l row) (\<lambda>_.
         bind_run (slot_freeze l) (\<lambda>_. fill_frozen (i + 1) rows)))"

text \<open>The matrix \<open>init\<close> is its number of columns and its rows.\<close>

definition store_new ::
  "('a, 'q) store_deps \<Rightarrow> store_config \<Rightarrow> nat \<Rightarrow> u8 list list \<Rightarrow> (store_error + ('a, 'q) store) partial option" where
  "store_new P config ncols init =
     (let entries = sc_entries config; bytes = sc_bytes config; frozen = length init in
      if ncols \<noteq> bytes then Some (Inr (Inl (MismatchedFrozenPointDim ncols bytes)))
      else if frozen = 0 then Some (Inr (Inl NeedFrozenPoint))
      else case bytes_checked_add bytes TAG_SIZE of
        None \<Rightarrow> Some (Inl AssertFailed)
      | Some unpadded \<Rightarrow>
      (case bytes_checked_next_multiple_of unpadded (64 div 2) of
        None \<Rightarrow> Some (Inl AssertFailed)
      | Some padded_bytes \<Rightarrow>
      if 2 ^ 32 \<le> entries \<or> 2 ^ 32 \<le> frozen \<or> 2 ^ 32 \<le> entries + frozen then
        Some (Inr (Inl (TooManyEntries entries frozen)))
      else if 2 ^ 32 \<le> sc_max_neighbors config then Some (Inr (Inl (TooManyNeighbors (sc_max_neighbors config))))
      else case buffer_new (entries + frozen) padded_bytes 128 of
        Inl e \<Rightarrow> Some (Inr (Inl (StoreBufferError e)))
      | Inr buf \<Rightarrow>
      (case neighbors_new (of_nat (entries + frozen)) (of_nat (sc_max_neighbors config)) of
        Inl e \<Rightarrow> Some (Inr (Inl (StoreNeighborsError e)))
      | Inr nbs \<Rightarrow>
          let me = \<lparr>so_buffer = buf, so_unpadded = unpadded, so_unfrozen = entries,
                so_tags = replicate (entries + frozen) AVAILABLE,
                so_freelist = freelist_new (dp_array_queue P) (of_nat entries) (sc_freelist_recycle_capacity config),
                so_registry = registry_with_capacity (dp_seg_queue P) (sc_epoch_guard_slots config),
                so_neighbors = nbs\<rparr>
          in map_option (\<lambda>(r, me). case r of Inl p \<Rightarrow> Inl p | Inr _ \<Rightarrow> Inr (Inr me))
               (fill_frozen (of_nat entries) init me))))"

definition store_frozen :: "('a, 'q) store \<Rightarrow> u32 \<times> u32" where
  "store_frozen s = (of_nat (so_unfrozen s), of_nat (bf_entries (so_buffer s)))"

definition store_bytes :: "('a, 'q) store \<Rightarrow> nat" where
  "store_bytes s = so_unpadded s"

definition store_max_degree :: "('a, 'q) store \<Rightarrow> nat" where
  "store_max_degree s = nb_max_length (so_neighbors s)"

subsection \<open>Reclaiming\<close>

definition release_mirror :: "nat \<Rightarrow> ('a, 'q, unit) store_run" where
  "release_mirror i = bind_run (mirror_load i) (\<lambda>tag.
     if tag = RETIRING then mirror_store i AVAILABLE else fail_run AssertFailed)"

definition release_tag :: "nat \<Rightarrow> ('a, 'q, unit) store_run" where
  "release_tag i = bind_run (tag_load i) (\<lambda>tag.
     if tag = RETIRING then tag_store i AVAILABLE else fail_run AssertFailed)"

definition push_free :: "('a, 'q) store_deps \<Rightarrow> u32 \<Rightarrow> ('a, 'q, unit) store_run" where
  "push_free P i = bind_run get_run (\<lambda>s.
     put_run (s\<lparr>so_freelist := snd (freelist_push (dp_array_queue P) (so_freelist s) i)\<rparr>))"

definition reclaim :: "('a, 'q) store_deps \<Rightarrow> u32 \<Rightarrow> ('a, 'q, unit) store_run" where
  "reclaim P i =
     bind_run get_run (\<lambda>s.
     if bf_entries (so_buffer s) \<le> unat i then fail_run AssertFailed
     else bind_run (release_mirror (unat i)) (\<lambda>_.
          bind_run (release_tag (unat i)) (\<lambda>_. push_free P i)))"

partial_function (option) drain_loop :: "('a, 'q) store_deps \<Rightarrow> nat \<Rightarrow> ('a, 'q, unit) store_run" where
  "drain_loop P queue s =
     (case drain_pop (dp_seg_queue P) (so_registry s) queue of
        (None, r) \<Rightarrow> Some (Inr (), s\<lparr>so_registry := r\<rparr>)
      | (Some i, r) \<Rightarrow> Option.bind (reclaim P i (s\<lparr>so_registry := r\<rparr>)) (\<lambda>(x, s).
          case x of Inl p \<Rightarrow> Some (Inl p, s) | Inr _ \<Rightarrow> drain_loop P queue s))"

definition try_drain :: "('a, 'q) store_deps \<Rightarrow> ('a, 'q, nat option) store_run" where
  "try_drain P =
     bind_run get_run (\<lambda>s.
     bind_run (of_result (try_advance (so_registry s))) (\<lambda>(drain, r).
     bind_run (put_run (s\<lparr>so_registry := r\<rparr>)) (\<lambda>_.
     case drain of
       None \<Rightarrow> return_run None
     | Some queue \<Rightarrow>
         dropping (\<lambda>s. s\<lparr>so_registry := drain_drop (so_registry s)\<rparr>)
           (bind_run (drain_loop P queue) (\<lambda>_.
            return_run (Some (drain_len (dp_seg_queue P) r queue)))))))"

subsection \<open>Acquiring\<close>

fun scan_chunk :: "('a, 'q) store_deps \<Rightarrow> u32 list \<Rightarrow> slot option \<Rightarrow> ('a, 'q, slot option) store_run" where
  "scan_chunk P [] acquired = return_run acquired"
| "scan_chunk P (i # chunk) acquired =
     bind_run (tag_load (unat i)) (\<lambda>tag.
     bind_run
       (if tag = AVAILABLE then
          if acquired = None then try_acquire i
          else bind_run (push_free P i) (\<lambda>_. return_run acquired)
        else return_run acquired) (\<lambda>acquired.
     scan_chunk P chunk acquired))"

definition pop_recycled_slot :: "('a, 'q) store_deps \<Rightarrow> ('a, 'q, slot option) store_run" where
  "pop_recycled_slot P =
     bind_run get_run (\<lambda>s.
     let (i, f) = freelist_pop_recycled (dp_array_queue P) (so_freelist s) in
     bind_run (put_run (s\<lparr>so_freelist := f\<rparr>)) (\<lambda>_.
     case i of None \<Rightarrow> return_run None | Some i \<Rightarrow> store_slot i))"

partial_function (option) scan_loop :: "('a, 'q) store_deps \<Rightarrow> nat \<Rightarrow> nat \<Rightarrow> ('a, 'q, slot option) store_run" where
  "scan_loop P remaining chunks s =
     (if remaining = 0 then Some (Inr None, s)
      else let (rng, f) = freelist_scan (so_freelist s);
               remaining = remaining - length (scan_ids rng)
           in Option.bind (scan_chunk P (scan_ids rng) None (s\<lparr>so_freelist := f\<rparr>)) (\<lambda>(r, s). case r of
                Inl p \<Rightarrow> Some (Inl p, s)
              | Inr (Some l) \<Rightarrow> Some (Inr (Some l), s)
              | Inr None \<Rightarrow>
                  if chunks + 1 = 4 then
                    Option.bind (pop_recycled_slot P s) (\<lambda>(r, s). case r of
                      Inl p \<Rightarrow> Some (Inl p, s)
                    | Inr (Some l) \<Rightarrow> Some (Inr (Some l), s)
                    | Inr None \<Rightarrow> scan_loop P remaining 0 s)
                  else scan_loop P remaining (chunks + 1) s))"

definition scan_acquire :: "('a, 'q) store_deps \<Rightarrow> ('a, 'q, slot option) store_run" where
  "scan_acquire P = bind_run get_run (\<lambda>s. scan_loop P ((so_unfrozen s + RETRY_LIMIT - 1) div RETRY_LIMIT) 0)"

fun acquire_loop :: "('a, 'q) store_deps \<Rightarrow> nat \<Rightarrow> ('a, 'q, slot option) store_run" where
  "acquire_loop P 0 = return_run None"
| "acquire_loop P (Suc n) =
     bind_run get_run (\<lambda>s.
     let (i, f) = freelist_pop (dp_array_queue P) (so_freelist s) in
     bind_run (put_run (s\<lparr>so_freelist := f\<rparr>)) (\<lambda>_.
     case i of
       Found i \<Rightarrow> bind_run (store_slot i) (\<lambda>slot. case slot of
           Some l \<Rightarrow> return_run (Some l) | None \<Rightarrow> acquire_loop P n)
     | ScanNeeded \<Rightarrow> bind_run (scan_acquire P) (\<lambda>slot. case slot of
           Some l \<Rightarrow> return_run (Some l)
         | None \<Rightarrow> bind_run (try_drain P) (\<lambda>_. acquire_loop P n))))"

definition store_acquire :: "('a, 'q) store_deps \<Rightarrow> ('a, 'q, slot option) store_run" where
  "store_acquire P = acquire_loop P RETRY_LIMIT"

subsection \<open>Retiring\<close>

datatype retire_error =
    RetireOutOfBounds
  | SlotIsReserved u8
  | GuardUnavailable
  | CouldNotClaimSlot

definition store_guard :: "('a, 'q, guard option) store_run" where
  "store_guard = bind_run get_run (\<lambda>s. let (g, r) = registry_guard (so_registry s) in
     bind_run (put_run (s\<lparr>so_registry := r\<rparr>)) (\<lambda>_. return_run g))"

definition store_guard_drop :: "guard \<Rightarrow> ('a, 'q) store \<Rightarrow> ('a, 'q) store" where
  "store_guard_drop g s = s\<lparr>so_registry := epoch_guard_drop (so_registry s) g\<rparr>"

definition store_retire :: "('a, 'q) store_deps \<Rightarrow> nat \<Rightarrow> ('a, 'q, retire_error + unit) store_run" where
  "store_retire P i =
     bind_run get_run (\<lambda>s.
     if length (so_tags s) \<le> i then return_run (Inl RetireOutOfBounds)
     else bind_run (tag_load i) (\<lambda>current.
     if is_reserved current then return_run (Inl (SlotIsReserved current))
     else bind_run store_guard (\<lambda>guard. case guard of
       None \<Rightarrow> return_run (Inl GuardUnavailable)
     | Some g \<Rightarrow> dropping (store_guard_drop g) (
         bind_run (tag_compare_exchange i current RETIRING) (\<lambda>claimed.
         if claimed then
           bind_run (mirror_store i RETIRING) (\<lambda>_.
           bind_run get_run (\<lambda>s.
           bind_run (put_run (s\<lparr>so_registry := guard_retire (dp_seg_queue P) (so_registry s) g (of_nat i)\<rparr>)) (\<lambda>_.
           return_run (Inr ()))))
         else return_run (Inl CouldNotClaimSlot))))))"

subsection \<open>Reading\<close>

definition can_read_approximate :: "('a, 'q) store \<Rightarrow> nat \<Rightarrow> bool option" where
  "can_read_approximate s i = (if i < length (so_tags s) then Some (can_read (so_tags s ! i)) else None)"

definition read_in_bounds :: "('a, 'q) store \<Rightarrow> nat \<Rightarrow> u8 list option partial" where
  "read_in_bounds s i =
     (let (tag_ptr, data) = data_unchecked s i in
      bind_result (mem_read (bf_mem (so_buffer s)) (rs_ptr tag_ptr) 1) (\<lambda>bs.
      if can_read (hd bs) then
        bind_result (mem_read (bf_mem (so_buffer s)) (rs_ptr data) (rs_len data)) (\<lambda>d. Inr (Some d))
      else Inr None))"

definition reader_can_read :: "('a, 'q) store \<Rightarrow> nat \<Rightarrow> bool option partial" where
  "reader_can_read s i =
     (if bf_entries (so_buffer s) \<le> i then Inr None
      else bind_result (mem_read (bf_mem (so_buffer s))
             (rs_ptr (buffer_get_unchecked (so_buffer s) i) + (so_unpadded s - TAG_SIZE)) 1) (\<lambda>bs.
           Inr (Some (can_read (hd bs)))))"

definition reader_read :: "('a, 'q) store \<Rightarrow> nat \<Rightarrow> u8 list option partial" where
  "reader_read s i = (if i < bf_entries (so_buffer s) then read_in_bounds s i else Inr None)"

section \<open>Memory of the store\<close>

lemma u32_of_nat: "n < 2 ^ 32 \<Longrightarrow> unat (of_nat n :: u32) = n"
  by (simp add: unat_of_nat take_bit_nat_def)

definition mirror_of :: "('a, 'q) store \<Rightarrow> nat \<Rightarrow> u8" where
  "mirror_of s i = bf_mem (so_buffer s) ! (bf_stride (so_buffer s) * i + (so_unpadded s - 1))"

definition data_of :: "('a, 'q) store \<Rightarrow> nat \<Rightarrow> u8 list" where
  "data_of s i = take (so_unpadded s - 1) (drop (bf_stride (so_buffer s) * i) (bf_mem (so_buffer s)))"

definition store_shape :: "nat \<Rightarrow> ('a, 'q) store \<Rightarrow> bool" where
  "store_shape tot s \<longleftrightarrow> bf_entries (so_buffer s) = tot \<and> length (so_tags s) = tot \<and> tot < 2 ^ 32 \<and>
     so_unfrozen s \<le> tot \<and> 1 \<le> so_unpadded s \<and> so_unpadded s \<le> bf_stride (so_buffer s) \<and>
     length (bf_mem (so_buffer s)) = bf_stride (so_buffer s) * tot"

definition set_mirror :: "('a, 'q) store \<Rightarrow> nat \<Rightarrow> u8 \<Rightarrow> ('a, 'q) store" where
  "set_mirror s i t = s\<lparr>so_buffer := (so_buffer s)\<lparr>bf_mem :=
     (bf_mem (so_buffer s))[bf_stride (so_buffer s) * i + (so_unpadded s - 1) := t]\<rparr>\<rparr>"

definition set_tag :: "('a, 'q) store \<Rightarrow> nat \<Rightarrow> u8 \<Rightarrow> ('a, 'q) store" where
  "set_tag s i t = s\<lparr>so_tags := (so_tags s)[i := t]\<rparr>"

definition set_data :: "('a, 'q) store \<Rightarrow> nat \<Rightarrow> u8 list \<Rightarrow> ('a, 'q) store" where
  "set_data s i bs = s\<lparr>so_buffer := (so_buffer s)\<lparr>bf_mem :=
     take (bf_stride (so_buffer s) * i) (bf_mem (so_buffer s)) @ bs @
     drop (bf_stride (so_buffer s) * i + length bs) (bf_mem (so_buffer s))\<rparr>\<rparr>"

lemma store_row:
  assumes "store_shape tot s" and "i < tot"
  shows "bf_stride (so_buffer s) * i + bf_stride (so_buffer s) \<le> length (bf_mem (so_buffer s))"
    and "bf_stride (so_buffer s) * i + (so_unpadded s - 1) < length (bf_mem (so_buffer s))"
proof -
  have "bf_stride (so_buffer s) * (i + 1) \<le> bf_stride (so_buffer s) * tot" using assms(2) by (intro mult_le_mono2) simp
  then show "bf_stride (so_buffer s) * i + bf_stride (so_buffer s) \<le> length (bf_mem (so_buffer s))"
    using assms(1) by (simp add: store_shape_def)
  then show "bf_stride (so_buffer s) * i + (so_unpadded s - 1) < length (bf_mem (so_buffer s))"
    using assms(1) unfolding store_shape_def by linarith
qed

lemma rows_apart:
  assumes "(i :: nat) \<noteq> j" and "x < k" and "y < k"
  shows "k * i + x \<noteq> k * j + y"
  using assms by (metis add.commute div_mult_self4 div_less gr_implies_not0 less_nat_zero_code add_0 mult.commute)

lemma store_shape_set [simp]:
  "store_shape tot (set_mirror s i t) = store_shape tot s"
  "store_shape tot (set_tag s i t) = store_shape tot s"
  by (simp_all add: store_shape_def set_mirror_def set_tag_def)

lemma store_shape_set_data:
  assumes "store_shape tot s" and "i < tot" and "length bs = so_unpadded s - 1"
  shows "store_shape tot (set_data s i bs)"
proof -
  have "bf_stride (so_buffer s) * i + (so_unpadded s - 1) \<le> length (bf_mem (so_buffer s))" using store_row(2) [OF assms(1,2)] by simp
  then show ?thesis using assms by (simp add: store_shape_def set_data_def)
qed

lemma store_fields_set [simp]:
  "so_unpadded (set_mirror s i t) = so_unpadded s" "so_unfrozen (set_mirror s i t) = so_unfrozen s"
  "so_tags (set_mirror s i t) = so_tags s" "so_freelist (set_mirror s i t) = so_freelist s"
  "so_registry (set_mirror s i t) = so_registry s" "so_neighbors (set_mirror s i t) = so_neighbors s"
  "bf_stride (so_buffer (set_mirror s i t)) = bf_stride (so_buffer s)"
  "so_unpadded (set_tag s i t) = so_unpadded s" "so_unfrozen (set_tag s i t) = so_unfrozen s"
  "so_tags (set_tag s i t) = (so_tags s)[i := t]" "so_freelist (set_tag s i t) = so_freelist s"
  "so_registry (set_tag s i t) = so_registry s" "so_neighbors (set_tag s i t) = so_neighbors s"
  "so_buffer (set_tag s i t) = so_buffer s"
  "so_unpadded (set_data s i bs) = so_unpadded s" "so_unfrozen (set_data s i bs) = so_unfrozen s"
  "so_tags (set_data s i bs) = so_tags s" "so_freelist (set_data s i bs) = so_freelist s"
  "so_registry (set_data s i bs) = so_registry s" "so_neighbors (set_data s i bs) = so_neighbors s"
  "bf_stride (so_buffer (set_data s i bs)) = bf_stride (so_buffer s)"
  by (simp_all add: set_mirror_def set_tag_def set_data_def)

lemma mirror_of_set:
  assumes "store_shape tot s" and "i < tot" and "j < tot"
  shows "mirror_of (set_mirror s i t) j = (if j = i then t else mirror_of s j)"
proof -
  have "so_unpadded s - 1 < bf_stride (so_buffer s)" using assms(1) by (auto simp: store_shape_def)
  with store_row(2) [OF assms(1,2)] rows_apart [of i j "so_unpadded s - 1"] show ?thesis
    by (auto simp: mirror_of_def set_mirror_def nth_list_update)
qed

lemma mirror_of_other [simp]:
  "mirror_of (set_tag s i t) j = mirror_of s j" "data_of (set_tag s i t) j = data_of s j"
  by (simp_all add: mirror_of_def data_of_def set_tag_def)

lemma data_of_set_mirror:
  assumes "store_shape tot s" and "i < tot" and "j < tot"
  shows "data_of (set_mirror s i t) j = data_of s j"
proof -
  let ?k = "bf_stride (so_buffer s)" and ?u = "so_unpadded s - 1"
  have u: "?u < ?k" using assms(1) by (auto simp: store_shape_def)
  have "take ?u (drop (?k * j) (m[?k * i + ?u := t])) = take ?u (drop (?k * j) m)" for m
  proof (rule nth_equalityI)
    fix x
    assume "x < length (take ?u (drop (?k * j) (m[?k * i + ?u := t])))"
    then have x: "x < ?u" "x < ?k" "?k * j + x < length m" using u by auto
    have "?k * i + ?u \<noteq> ?k * j + x" using rows_apart [of i j ?u ?k x] u x by (cases "i = j") auto
    with x show "take ?u (drop (?k * j) (m[?k * i + ?u := t])) ! x = take ?u (drop (?k * j) m) ! x" by simp
  qed simp
  then show ?thesis by (simp add: data_of_def set_mirror_def)
qed

lemma set_data_nth:
  assumes "store_shape tot s" and "i < tot" and "length bs = so_unpadded s - 1"
    and "p < length (bf_mem (so_buffer s))"
  shows "bf_mem (so_buffer (set_data s i bs)) ! p =
    (if bf_stride (so_buffer s) * i \<le> p \<and> p < bf_stride (so_buffer s) * i + length bs
     then bs ! (p - bf_stride (so_buffer s) * i) else bf_mem (so_buffer s) ! p)"
proof -
  have "bf_stride (so_buffer s) * i + length bs < length (bf_mem (so_buffer s))" using store_row(2) [OF assms(1,2)] assms(3) by simp
  then show ?thesis using assms(4) by (auto simp: set_data_def nth_append)
qed

lemma set_data_mirror:
  assumes "store_shape tot s" and "i < tot" and "j < tot" and "length bs = so_unpadded s - 1"
  shows "mirror_of (set_data s i bs) j = mirror_of s j"
proof -
  let ?k = "bf_stride (so_buffer s)" and ?u = "so_unpadded s - 1"
  have u: "?u < ?k" using assms(1) by (auto simp: store_shape_def)
  have "\<not> (?k * i \<le> ?k * j + ?u \<and> ?k * j + ?u < ?k * i + length bs)"
  proof
    assume a: "?k * i \<le> ?k * j + ?u \<and> ?k * j + ?u < ?k * i + length bs"
    then obtain x where x: "?k * j + ?u = ?k * i + x" "x < ?u" using assms(4) nat_le_iff_add by auto
    then show False using rows_apart [of i j x ?k ?u] u by (cases "i = j") auto
  qed
  then show ?thesis
    using set_data_nth [OF assms(1,2,4) store_row(2) [OF assms(1,3)]] by (simp only: mirror_of_def store_fields_set if_False)
qed

lemma set_data_data:
  assumes "store_shape tot s" and "i < tot" and "j < tot" and "length bs = so_unpadded s - 1"
  shows "data_of (set_data s i bs) j = (if j = i then bs else data_of s j)"
proof -
  let ?k = "bf_stride (so_buffer s)" and ?u = "so_unpadded s - 1" and ?m = "bf_mem (so_buffer s)"
    and ?m' = "bf_mem (so_buffer (set_data s i bs))"
  have u: "?u < ?k" using assms(1) by (auto simp: store_shape_def)
  have len: "length ?m' = length ?m"
    using store_shape_set_data [OF assms(1,2,4)] assms(1) by (simp add: store_shape_def)
  have row: "?k * j + ?u < length ?m" using store_row(2) [OF assms(1,3)] .
  have nth: "?m' ! (?k * j + x) = (if j = i then bs ! x else ?m ! (?k * j + x))" if "x < ?u" for x
  proof -
    have "?k * j + x < length ?m" using that row by simp
    note n = set_data_nth [OF assms(1,2,4) this]
    show ?thesis
    proof (cases "j = i")
      case True
      have "?k * i \<le> ?k * j + x \<and> ?k * j + x < ?k * i + length bs" using True that assms(4) by simp
      with n True show ?thesis by simp
    next
      case False
      have "\<not> (?k * i \<le> ?k * j + x \<and> ?k * j + x < ?k * i + length bs)"
      proof
        assume a: "?k * i \<le> ?k * j + x \<and> ?k * j + x < ?k * i + length bs"
        then obtain y where y: "?k * j + x = ?k * i + y" "y < ?u" using assms(4) nat_le_iff_add by auto
        then show False using rows_apart [of i j y ?k x] u that False by auto
      qed
      with n False show ?thesis by simp
    qed
  qed
  have "length (take ?u (drop (?k * j) ?m')) = ?u" "length (take ?u (drop (?k * j) ?m)) = ?u" using len row by simp_all
  with nth assms(4) row len show ?thesis
    by (auto simp: data_of_def intro!: nth_equalityI)
qed

section \<open>Single steps\<close>

lemma data_unchecked_eq:
  assumes "store_shape tot s"
  shows "data_unchecked s i = (\<lparr>rs_ptr = bf_stride (so_buffer s) * i + (so_unpadded s - 1), rs_len = 1\<rparr>,
    \<lparr>rs_ptr = bf_stride (so_buffer s) * i, rs_len = so_unpadded s - 1\<rparr>)"
  using assms
  by (auto simp: store_shape_def data_unchecked_def raw_truncate_def raw_split_def buffer_get_unchecked_def TAG_SIZE_def
      min_def Let_def)

lemma bind_get [simp]: "bind_run get_run k s = k s s"
  by (simp add: bind_run_def get_run_def)

lemma bind_put [simp]: "bind_run (put_run s') k s = k () s'"
  by (simp add: bind_run_def put_run_def)

lemma bind_return [simp]: "bind_run (return_run a) k = k a"
  by (simp add: bind_run_def return_run_def)

lemma bind_of_result [simp]: "bind_run (of_result (Inr a)) k = k a"
  by (simp add: bind_run_def of_result_def)

lemma run_simps [simp]:
  "get_run s = Some (Inr s, s)" "put_run s' s = Some (Inr (), s')" "return_run a s = Some (Inr a, s)"
  "fail_run e s = Some (Inl e, s)" "of_result r s = Some (r, s)"
  by (simp_all add: get_run_def put_run_def return_run_def of_result_def fail_run_def)

lemma bind_run_some: "m s = Some (Inr a, s') \<Longrightarrow> bind_run m k s = k a s'"
  by (simp add: bind_run_def)

lemma tag_load_run: "i < length (so_tags s) \<Longrightarrow> tag_load i s = Some (Inr (so_tags s ! i), s)"
  by (simp add: tag_load_def)

lemma tag_store_run: "i < length (so_tags s) \<Longrightarrow> tag_store i t s = Some (Inr (), set_tag s i t)"
  by (simp add: tag_store_def set_tag_def)

lemma mem_write_single: "p < length m \<Longrightarrow> mem_write m p [b] = Inr (m[p := b])"
  by (simp add: mem_write_def upd_conv_take_nth_drop)

lemma mem_read_single: "p < length m \<Longrightarrow> mem_read m p (Suc 0) = Inr [m ! p]"
  by (simp add: mem_read_def take_Suc_conv_app_nth hd_drop_conv_nth take_Suc)

lemma mirror_load_run: "store_shape tot s \<Longrightarrow> i < tot \<Longrightarrow> mirror_load i s = Some (Inr (mirror_of s i), s)"
  using store_row(2) [of tot s i]
  by (simp add: mirror_load_def data_unchecked_eq mem_read_single mirror_of_def)

lemma mirror_store_run: "store_shape tot s \<Longrightarrow> i < tot \<Longrightarrow> mirror_store i t s = Some (Inr (), set_mirror s i t)"
  using store_row(2) [of tot s i]
  by (simp add: mirror_store_def data_unchecked_eq buffer_write_def mem_write_single set_mirror_def)

lemma slot_set_tags_run:
  assumes "store_shape tot s" and "unat (sl_slot l) < tot"
  shows "slot_set_tags l t s = Some (Inr (), set_tag (set_mirror s (unat (sl_slot l)) t) (unat (sl_slot l)) t)"
proof -
  have "unat (sl_slot l) < length (so_tags (set_mirror s (unat (sl_slot l)) t))" using assms by (simp add: store_shape_def)
  then show ?thesis
    unfolding slot_set_tags_def
    by (simp add: bind_run_some mirror_store_run [OF assms] tag_store_run)
qed

lemma slot_copy_run:
  assumes "store_shape tot s" and "i < tot" and "sl_data l = snd (data_unchecked s i)" and "length bs = so_unpadded s - 1"
  shows "slot_copy_from_slice l bs s = Some (Inr (), set_data s i bs)"
  using store_row(2) [OF assms(1,2)] assms(4)
  by (simp add: slot_copy_from_slice_def assms(3) data_unchecked_eq [OF assms(1)] buffer_write_def mem_write_def set_data_def)

lemma try_acquire_run:
  assumes "unat i < length (so_tags s)"
  shows "try_acquire i s = Some (Inr (if so_tags s ! unat i = AVAILABLE
      then Some \<lparr>sl_slot = i, sl_data = snd (data_unchecked s (unat i))\<rparr> else None),
    if so_tags s ! unat i = AVAILABLE then set_tag s (unat i) OWNED else s)"
  using assms
  by (simp add: try_acquire_def bind_run_def tag_load_run tag_compare_exchange_def tag_store_run data_unchecked_def)

end
