(* ===== verification/StoreInvariant.thy ===== *)
theory StoreInvariant
  imports Store
begin

text \<open>
  The invariant of the store and what follows from it: tags and their mirrors agree, the retirement queues
  hold exactly the retiring slots, readers see the same data across acquisition and reclamation. All
  operations keep it, so it holds of every store that can be reached. The concrete queues at the end are
  instances of the package interfaces.
\<close>

section \<open>The invariant of the store\<close>

definition mirror_tag :: "u8 \<Rightarrow> u8" where
  "mirror_tag t = (if t = OWNED then AVAILABLE else t)"

text \<open>The tags a slot may have: the frozen slots are those from \<open>unfrozen\<close> on.\<close>

definition tag_ok :: "nat \<Rightarrow> nat \<Rightarrow> u8 \<Rightarrow> bool" where
  "tag_ok unfrozen i t \<longleftrightarrow> (if i < unfrozen then t \<in> {AVAILABLE, OWNED, RETIRING, PUBLISHED} else t = FROZEN)"

text \<open>The queues hold exactly the slots that are being retired, each once.\<close>

definition retiring_ok :: "('q \<Rightarrow> u32 list) \<Rightarrow> u8 list \<Rightarrow> 'q registry \<Rightarrow> bool" where
  "retiring_ok items tags r \<longleftrightarrow> distinct (retired items r) \<and>
     (\<forall>i. i \<in> set (retired items r) \<longleftrightarrow> unat i < length tags \<and> tags ! unat i = RETIRING)"

definition store_core :: "('q \<Rightarrow> u32 list) \<Rightarrow> nat \<Rightarrow> nat \<Rightarrow> nat \<Rightarrow> ('a, 'q) store \<Rightarrow> bool" where
  "store_core items tot cap n s \<longleftrightarrow> store_shape tot s \<and> nb_ok tot cap (so_neighbors s) \<and> registry_ok n (so_registry s) \<and>
     fl_max (so_freelist s) = of_nat (so_unfrozen s) \<and>
     (\<forall>i < tot. tag_ok (so_unfrozen s) i (so_tags s ! i) \<and> mirror_of s i = mirror_tag (so_tags s ! i)) \<and>
     retiring_ok items (so_tags s) (so_registry s)"

text \<open>Between operations no drain is under way, and the queue of the epoch to come is empty.\<close>

definition store_inv :: "('q \<Rightarrow> u32 list) \<Rightarrow> nat \<Rightarrow> nat \<Rightarrow> nat \<Rightarrow> ('a, 'q) store \<Rightarrow> bool" where
  "store_inv items tot cap n s \<longleftrightarrow> store_core items tot cap n s \<and> \<not> rg_drain (so_registry s) \<and>
     items (rg_retiring (so_registry s) ! queue_index (rg_epoch (so_registry s) + 1)) = []"

text \<open>What readers see is the same: the graph, the readable slots and their data.\<close>

definition store_frame :: "('a, 'q) store \<Rightarrow> ('a, 'q) store \<Rightarrow> bool" where
  "store_frame s0 s \<longleftrightarrow> so_neighbors s = so_neighbors s0 \<and> so_unpadded s = so_unpadded s0 \<and> so_unfrozen s = so_unfrozen s0 \<and>
     bf_stride (so_buffer s) = bf_stride (so_buffer s0) \<and> length (so_tags s) = length (so_tags s0) \<and>
     (\<forall>i < length (so_tags s0). (can_read (so_tags s ! i) \<longleftrightarrow> can_read (so_tags s0 ! i)) \<and>
        (can_read (so_tags s0 ! i) \<longrightarrow> data_of s i = data_of s0 i))"

lemma store_frame_refl [simp]: "store_frame s s"
  by (simp add: store_frame_def)

lemma store_frame_trans: "store_frame s0 s1 \<Longrightarrow> store_frame s1 s2 \<Longrightarrow> store_frame s0 s2"
  by (simp add: store_frame_def)

lemma can_read_simps [simp]:
  "\<not> can_read AVAILABLE" "\<not> can_read OWNED" "\<not> can_read RETIRING" "can_read PUBLISHED" "can_read FROZEN"
  by (simp_all add: can_read_def word_le_nat_alt)

lemma store_coreD:
  assumes "store_core items tot cap n s"
  shows "store_shape tot s" "length (so_tags s) = tot" "registry_ok n (so_registry s)"
    "retiring_ok items (so_tags s) (so_registry s)"
    and "i < tot \<Longrightarrow> tag_ok (so_unfrozen s) i (so_tags s ! i)" "i < tot \<Longrightarrow> mirror_of s i = mirror_tag (so_tags s ! i)"
  using assms by (auto simp: store_core_def store_shape_def)

lemma set_mirror_same:
  assumes "store_shape tot s" and "i < tot"
  shows "set_mirror s i (mirror_of s i) = s"
  by (cases s) (simp add: set_mirror_def mirror_of_def)

text \<open>Changing the tag of one slot, its mirror and the registry together keeps the core invariant.\<close>

lemma store_core_retag:
  assumes core: "store_core items tot cap n s" and i: "i < tot"
    and t: "tag_ok (so_unfrozen s) i t" and m: "m = mirror_tag t"
    and r: "registry_ok n r" "distinct (retired items r)"
    and set: "set (retired items r) = (if t = RETIRING then insert (of_nat i) (set (retired items (so_registry s)))
      else set (retired items (so_registry s)) - {of_nat i})"
  shows "store_core items tot cap n ((set_tag (set_mirror s i m) i t)\<lparr>so_registry := r\<rparr>)"
proof -
  note c = store_coreD [OF core]
  let ?s = "(set_tag (set_mirror s i m) i t)\<lparr>so_registry := r\<rparr>"
  have shape: "store_shape tot ?s" using c(1) by (simp add: store_shape_def set_mirror_def set_tag_def)
  have mirror: "mirror_of ?s j = (if j = i then m else mirror_of s j)" if "j < tot" for j
    using mirror_of_set [OF c(1) i that, of m] by (simp add: mirror_of_def set_mirror_def set_tag_def)
  have tags: "so_tags ?s = (so_tags s)[i := t]" by simp
  have i32: "i < 2 ^ 32" using i c(1) by (simp add: store_shape_def)
  have "j \<in> set (retired items r) \<longleftrightarrow> unat j < tot \<and> (so_tags s)[i := t] ! unat j = RETIRING" for j :: u32
  proof (cases "unat j = i")
    case True
    then have "j = of_nat i" by auto
    with set i c(2) True show ?thesis by auto
  next
    case False
    then have "j \<noteq> of_nat i" using i32 by (auto simp: unat_of_nat take_bit_nat_def)
    with False set c(4) c(2) show ?thesis by (auto simp: retiring_ok_def)
  qed
  then have "retiring_ok items (so_tags ?s) r" using r(2) c(2) unfolding tags by (simp add: retiring_ok_def)
  moreover have "tag_ok (so_unfrozen ?s) j (so_tags ?s ! j) \<and> mirror_of ?s j = mirror_tag (so_tags ?s ! j)" if "j < tot" for j
    using c(5) [OF that] c(6) [OF that] mirror [OF that] t m i c(2) by (cases "j = i") simp_all
  ultimately show ?thesis
    using core shape r(1) unfolding store_core_def by (simp add: set_mirror_def set_tag_def)
qed

lemma store_frame_retag:
  assumes "store_shape tot s" and "i < tot" and "length (so_tags s) = tot"
    and "\<not> can_read (so_tags s ! i)" and "\<not> can_read t"
  shows "store_frame s ((set_tag (set_mirror s i m) i t)\<lparr>so_registry := r\<rparr>)"
proof -
  have "data_of ((set_tag (set_mirror s i m) i t)\<lparr>so_registry := r\<rparr>) j = data_of s j" if "j < tot" for j
    using data_of_set_mirror [OF assms(1,2) that, of m] by (simp add: data_of_def set_tag_def)
  then show ?thesis using assms by (auto simp: store_frame_def nth_list_update)
qed

lemma store_core_free [simp]:
  "store_core items tot cap n (s\<lparr>so_freelist := f\<rparr>) \<longleftrightarrow> store_core items tot cap n s"
  if "fl_max f = fl_max (so_freelist s)"
  using that by (auto simp: store_core_def store_shape_def mirror_of_def)

lemma store_inv_free:
  "fl_max f = fl_max (so_freelist s) \<Longrightarrow> store_inv items tot cap n s \<Longrightarrow> store_inv items tot cap n (s\<lparr>so_freelist := f\<rparr>)"
  by (simp add: store_inv_def)

lemma store_frame_fields [simp]:
  "store_frame s0 (s\<lparr>so_freelist := f\<rparr>) \<longleftrightarrow> store_frame s0 s"
  "store_frame s0 (s\<lparr>so_registry := r\<rparr>) \<longleftrightarrow> store_frame s0 s"
  "store_frame (s0\<lparr>so_registry := r\<rparr>) s \<longleftrightarrow> store_frame s0 s"
  by (auto simp: store_frame_def data_of_def)

text \<open>The registry of a store without a slot that changes.\<close>

lemma store_core_registry:
  assumes "store_core items tot cap n s" and "registry_ok n r" and "rg_retiring r = rg_retiring (so_registry s)"
  shows "store_core items tot cap n (s\<lparr>so_registry := r\<rparr>)"
  using assms by (auto simp: store_core_def store_shape_def mirror_of_def retiring_ok_def retired_def)

lemma freelist_max [simp]:
  "fl_max (snd (freelist_push A f i)) = fl_max f" "fl_max (snd (freelist_pop A f)) = fl_max f"
  "fl_max (snd (freelist_pop_recycled A f)) = fl_max f" "fl_max (snd (freelist_scan f)) = fl_max f"
  by (simp_all add: freelist_push_def freelist_pop_def freelist_pop_recycled_def freelist_scan_def Let_def split: option.splits prod.splits)

section \<open>Acquiring and dropping a slot\<close>

definition owns :: "('a, 'q) store \<Rightarrow> slot \<Rightarrow> bool" where
  "owns s l \<longleftrightarrow> unat (sl_slot l) < so_unfrozen s \<and> so_tags s ! unat (sl_slot l) = OWNED \<and>
     sl_data l = snd (data_unchecked s (unat (sl_slot l)))"

lemma store_inv_tags:
  assumes inv: "store_inv items tot cap n s" and i: "i < so_unfrozen s"
    and old: "so_tags s ! i \<in> {AVAILABLE, OWNED}" and t: "t \<in> {AVAILABLE, OWNED, PUBLISHED}" and m: "m = mirror_tag t"
  shows "store_inv items tot cap n (set_tag (set_mirror s i m) i t)"
proof -
  have core: "store_core items tot cap n s" using inv by (simp add: store_inv_def)
  have it: "i < tot" using i core by (simp add: store_core_def store_shape_def)
  note c = store_coreD [OF core]
  have "of_nat i \<notin> set (retired items (so_registry s))"
  proof -
    have "unat (of_nat i :: u32) = i" using it c(1) by (simp add: store_shape_def unat_of_nat take_bit_nat_def)
    then show ?thesis using c(4) old by (auto simp: retiring_ok_def)
  qed
  moreover have "tag_ok (so_unfrozen s) i t" using t i by (auto simp: tag_ok_def)
  moreover have "t \<noteq> RETIRING" using t by auto
  ultimately have "store_core items tot cap n ((set_tag (set_mirror s i m) i t)\<lparr>so_registry := so_registry s\<rparr>)"
    using c(3,4) by (intro store_core_retag [OF core it _ m]) (simp_all add: retiring_ok_def)
  moreover have "(set_tag (set_mirror s i m) i t)\<lparr>so_registry := so_registry s\<rparr> = set_tag (set_mirror s i m) i t"
    by (simp add: set_tag_def set_mirror_def)
  ultimately show ?thesis using inv by (simp add: store_inv_def)
qed

lemma store_frame_tags:
  assumes "store_inv items tot cap n s" and "i < so_unfrozen s"
    and "so_tags s ! i \<in> {AVAILABLE, OWNED}" and "t \<in> {AVAILABLE, OWNED}"
  shows "store_frame s (set_tag (set_mirror s i m) i t)"
proof -
  have core: "store_core items tot cap n s" using assms(1) by (simp add: store_inv_def)
  have it: "i < tot" using assms(2) core by (simp add: store_core_def store_shape_def)
  have "store_frame s ((set_tag (set_mirror s i m) i t)\<lparr>so_registry := so_registry s\<rparr>)"
    by (rule store_frame_retag [OF store_coreD(1) [OF core] it store_coreD(2) [OF core]]) (use assms(3,4) in auto)
  then show ?thesis by simp
qed

abbreviation since :: "('q \<Rightarrow> u32 list) \<Rightarrow> nat \<Rightarrow> nat \<Rightarrow> nat \<Rightarrow> ('a, 'q) store \<Rightarrow> ('a, 'q) store \<Rightarrow> bool" where
  "since items tot cap n s0 s \<equiv> store_inv items tot cap n s \<and> store_frame s0 s"

lemma try_acquire_total:
  assumes inv: "since items tot cap n s0 s" and i: "unat i < tot"
  shows "\<exists>r s'. try_acquire i s = Some (Inr r, s') \<and> since items tot cap n s0 s' \<and>
     (case r of None \<Rightarrow> s' = s | Some l \<Rightarrow> owns s' l)"
proof (cases "so_tags s ! unat i = AVAILABLE")
  case True
  have core: "store_core items tot cap n s" using inv by (simp add: store_inv_def)
  note c = store_coreD [OF core]
  have u: "unat i < so_unfrozen s" using c(5) [OF i] True by (auto simp: tag_ok_def split: if_splits)
  have "mirror_of s (unat i) = mirror_tag OWNED" using c(6) [OF i] True by (simp add: mirror_tag_def)
  then have same: "set_tag (set_mirror s (unat i) (mirror_tag OWNED)) (unat i) OWNED = set_tag s (unat i) OWNED"
    using set_mirror_same [OF c(1) i] by simp
  have "store_inv items tot cap n (set_tag s (unat i) OWNED)" "store_frame s (set_tag s (unat i) OWNED)"
    using store_inv_tags [OF _ u, of items tot cap n OWNED] store_frame_tags [OF _ u, of items tot cap n OWNED "mirror_tag OWNED"]
      inv True same by simp_all
  with True inv u c(2) i try_acquire_run [of i s] show ?thesis
    by (auto simp: owns_def data_unchecked_def intro: store_frame_trans)
next
  case False
  then show ?thesis using try_acquire_run [of i s] i inv store_coreD(2) [of items tot cap n s] by (simp add: store_inv_def)
qed

lemma store_slot_total:
  assumes "since items tot cap n s0 s"
  shows "\<exists>r s'. store_slot i s = Some (Inr r, s') \<and> since items tot cap n s0 s' \<and>
     (case r of None \<Rightarrow> s' = s | Some l \<Rightarrow> owns s' l)"
proof (cases "unat i < tot")
  case True
  have "length (so_tags s) = tot" using assms store_coreD(2) [of items tot cap n s] by (simp add: store_inv_def)
  with True try_acquire_total [OF assms True] show ?thesis by (simp add: store_slot_def)
next
  case False
  have "length (so_tags s) = tot" using assms store_coreD(2) [of items tot cap n s] by (simp add: store_inv_def)
  with False assms show ?thesis by (simp add: store_slot_def)
qed

section \<open>Reclaiming\<close>

text \<open>Tags only change from \<open>RETIRING\<close> to \<open>AVAILABLE\<close>.\<close>

definition released :: "u8 list \<Rightarrow> u8 list \<Rightarrow> bool" where
  "released tags tags' \<longleftrightarrow> list_all2 (\<lambda>t t'. t' = t \<or> t = RETIRING \<and> t' = AVAILABLE) tags tags'"

lemma released_refl [simp]: "released tags tags"
  by (simp add: released_def list_all2_refl)

lemma released_trans: "released a b \<Longrightarrow> released b c \<Longrightarrow> released a c"
  unfolding released_def by (erule list_all2_trans [rotated -1]) auto

lemma released_update: "tags ! i = RETIRING \<Longrightarrow> i < length tags \<Longrightarrow> released tags (tags[i := AVAILABLE])"
  by (auto simp: released_def list_all2_conv_all_nth nth_list_update)

lemma reclaim_run:
  assumes core: "store_core items tot cap n (s\<lparr>so_registry := r0\<rparr>)" and "distinct (retired items r)"
    and ret: "set (retired items r0) = insert i (set (retired items r))" "i \<notin> set (retired items r)"
    and r: "registry_ok n r"
  shows "\<exists>s'. reclaim P i (s\<lparr>so_registry := r\<rparr>) = Some (Inr (), s') \<and> store_core items tot cap n s' \<and>
     store_frame s s' \<and> so_registry s' = r \<and> released (so_tags s) (so_tags s')"
proof -
  note c = store_coreD [OF core]
  have i: "unat i < tot" "so_tags s ! unat i = RETIRING" using c(2,4) ret(1) by (auto simp: retiring_ok_def)
  let ?s = "s\<lparr>so_registry := r\<rparr>" and ?i = "unat i"
  have shape: "store_shape tot ?s" and mir: "mirror_of ?s ?i = RETIRING"
    using c(1) c(6) [OF i(1)] i(2) by (simp_all add: store_shape_def mirror_of_def mirror_tag_def)
  let ?s1 = "set_mirror ?s ?i AVAILABLE" and ?s2 = "set_tag (set_mirror ?s ?i AVAILABLE) ?i AVAILABLE"
  have tags1: "?i < length (so_tags ?s1)" "so_tags ?s1 ! ?i = RETIRING" using i c(2) by simp_all
  let ?s3 = "?s2\<lparr>so_freelist := snd (freelist_push (dp_array_queue P) (so_freelist ?s2) i)\<rparr>"
  have "release_mirror ?i ?s = Some (Inr (), ?s1)"
    by (simp add: release_mirror_def bind_run_def mirror_load_run [OF shape i(1)] mir mirror_store_run [OF shape i(1)])
  moreover have "release_tag ?i ?s1 = Some (Inr (), ?s2)"
    using tags1 by (simp add: release_tag_def bind_run_def tag_load_run tag_store_run)
  moreover have "\<not> bf_entries (so_buffer ?s) \<le> ?i" using shape i(1) by (simp add: store_shape_def)
  ultimately have run: "reclaim P i ?s = Some (Inr (), ?s3)"
    by (simp add: reclaim_def bind_run_def push_free_def)
  have eq: "?s2 = (set_tag (set_mirror (s\<lparr>so_registry := r0\<rparr>) ?i AVAILABLE) ?i AVAILABLE)\<lparr>so_registry := r\<rparr>"
    by (simp add: set_tag_def set_mirror_def)
  have u: "?i < so_unfrozen s" using c(5) [OF i(1)] i(2) by (auto simp: tag_ok_def split: if_splits)
  have "store_core items tot cap n ?s2"
    unfolding eq by (rule store_core_retag [OF core i(1) _ _ r assms(2)])
      (use u ret in \<open>auto simp: tag_ok_def mirror_tag_def\<close>)
  moreover have "store_frame s ?s2"
    unfolding eq using store_frame_retag [OF c(1) i(1) c(2), where t = AVAILABLE and m = AVAILABLE and r = r] i(2)
    by (simp add: store_frame_def data_of_def)
  ultimately show ?thesis
    unfolding run using released_update [of "so_tags s" ?i] i c(2)
    by (intro exI [of _ ?s3]) (simp add: set_tag_def set_mirror_def)
qed

lemma drain_loop_run:
  assumes laws: "seg_queue_laws (dp_seg_queue P) items" and q: "q < 4"
  shows "store_core items tot cap n s \<Longrightarrow> \<exists>s'. drain_loop P q s = Some (Inr (), s') \<and> store_core items tot cap n s' \<and>
     store_frame s s' \<and> released (so_tags s) (so_tags s') \<and>
     rg_epoch (so_registry s') = rg_epoch (so_registry s) \<and> rg_guards (so_registry s') = rg_guards (so_registry s) \<and>
     items (rg_retiring (so_registry s') ! q) = [] \<and>
     (\<forall>j < 4. j \<noteq> q \<longrightarrow> items (rg_retiring (so_registry s') ! j) = items (rg_retiring (so_registry s) ! j))"
proof (induction "length (items (rg_retiring (so_registry s) ! q))" arbitrary: s)
  case 0
  let ?r = "so_registry s"
  from 0 have e: "items (rg_retiring ?r ! q) = []" by simp
  with laws have "sq_pop (dp_seg_queue P) (rg_retiring ?r ! q) = None" by (rule seg_pop_empty)
  then have "drain_loop P q s = Some (Inr (), s)" by (simp add: drain_loop.simps drain_pop_def)
  with 0 e show ?case by simp
next
  case (Suc m)
  let ?r = "so_registry s"
  from Suc.hyps(2) obtain i js where ne: "items (rg_retiring ?r ! q) = i # js"
    by (cases "items (rg_retiring ?r ! q)") auto
  obtain q' where pop: "sq_pop (dp_seg_queue P) (rg_retiring ?r ! q) = Some (i, q')" "items (rg_retiring ?r ! q) = i # items q'"
    using seg_pop_items [OF laws ne] ne by metis
  let ?r' = "?r\<lparr>rg_retiring := (rg_retiring ?r)[q := q']\<rparr>"
  note c = store_coreD [OF Suc.prems]
  have len: "q < length (rg_retiring ?r)" using c(3) q by (simp add: registry_ok_def)
  have "mset (retired items ?r') + mset (i # items q') = mset (retired items ?r) + mset (items q')"
    using retired_update [OF len, of items q'] pop(2) by simp
  then have m: "mset (retired items ?r) = add_mset i (mset (retired items ?r'))" by simp
  then have "distinct (i # retired items ?r')" using c(4) by (metis mset.simps(2) mset_eq_imp_distinct_iff retiring_ok_def)
  moreover have "set (retired items ?r) = insert i (set (retired items ?r'))" using m by (metis set_mset_add_mset_insert set_mset_mset)
  moreover have "registry_ok n ?r'" using c(3) by (simp add: registry_ok_def)
  moreover have "store_core items tot cap n (s\<lparr>so_registry := ?r\<rparr>)" using Suc.prems by simp
  ultimately obtain s1 where s1: "reclaim P i (s\<lparr>so_registry := ?r'\<rparr>) = Some (Inr (), s1)" "store_core items tot cap n s1"
    "store_frame s s1" "so_registry s1 = ?r'" "released (so_tags s) (so_tags s1)"
    using reclaim_run [where items = items and tot = tot and cap = cap and n = n and s = s and r = ?r' and ?r0.0 = ?r and i = i and P = P] by auto
  have "m = length (items (rg_retiring (so_registry s1) ! q))" using Suc.hyps(2) pop(2) len by (simp add: s1(4))
  from Suc.hyps(1) [OF this s1(2)] obtain s' where s': "drain_loop P q s1 = Some (Inr (), s')" "store_core items tot cap n s'"
    "store_frame s1 s'" "released (so_tags s1) (so_tags s')" "rg_epoch (so_registry s') = rg_epoch ?r" "rg_guards (so_registry s') = rg_guards ?r"
    "items (rg_retiring (so_registry s') ! q) = []"
    "\<forall>j < 4. j \<noteq> q \<longrightarrow> items (rg_retiring (so_registry s') ! j) = items (rg_retiring (so_registry s1) ! j)"
    unfolding s1(4) by auto
  have "drain_loop P q s = Some (Inr (), s')" using s1(1) s'(1) pop(1) by (simp add: drain_loop.simps [of P q s] drain_pop_def)
  with s' s1(3,5) show ?case by (auto simp: s1(4) intro: store_frame_trans released_trans)
qed

lemma store_inv_core: "store_inv items tot cap n s \<Longrightarrow> store_core items tot cap n s"
  by (simp add: store_inv_def)

lemma try_drain_run:
  assumes laws: "seg_queue_laws (dp_seg_queue P) items" and inv: "store_inv items tot cap n s"
    and e: "rg_epoch (so_registry s) \<noteq> - 1"
  shows "if \<forall>e \<in> set (rg_guards (so_registry s)). e = 0 \<or> e = rg_epoch (so_registry s)
     then \<exists>k s'. try_drain P s = Some (Inr (Some k), s') \<and> since items tot cap n s s' \<and> released (so_tags s) (so_tags s') \<and>
       rg_epoch (so_registry s') = rg_epoch (so_registry s) + 1 \<and> rg_guards (so_registry s') = rg_guards (so_registry s) \<and>
       (\<forall>j < 4. items (rg_retiring (so_registry s') ! j) =
          (if j = last_queue (rg_epoch (so_registry s)) then [] else items (rg_retiring (so_registry s) ! j)))
     else try_drain P s = Some (Inr None, s)"
proof -
  note core = store_inv_core [OF inv] and c = store_coreD [OF store_inv_core [OF inv]]
  let ?r = "so_registry s" and ?q = "last_queue (rg_epoch (so_registry s))"
  have nd: "\<not> rg_drain ?r" using inv by (simp add: store_inv_def)
  note adv = try_advance_spec [OF c(3) e nd]
  show ?thesis
  proof (cases "\<forall>e \<in> set (rg_guards ?r). e = 0 \<or> e = rg_epoch ?r")
    case False
    with adv(1) have "try_drain P s = Some (Inr None, s)" by (simp add: try_drain_def)
    with False show ?thesis by simp
  next
    case True
    let ?r1 = "?r\<lparr>rg_epoch := rg_epoch ?r + 1, rg_drain := True\<rparr>"
    have core1: "store_core items tot cap n (s\<lparr>so_registry := ?r1\<rparr>)"
      by (rule store_core_registry [OF core adv(2) [OF True]]) simp
    from drain_loop_run [OF laws, of ?q, OF _ core1] obtain s1 where
      d: "drain_loop P ?q (s\<lparr>so_registry := ?r1\<rparr>) = Some (Inr (), s1)" "store_core items tot cap n s1"
        "store_frame (s\<lparr>so_registry := ?r1\<rparr>) s1" "released (so_tags s) (so_tags s1)" "rg_epoch (so_registry s1) = rg_epoch ?r + 1"
        "rg_guards (so_registry s1) = rg_guards ?r" "items (rg_retiring (so_registry s1) ! ?q) = []"
        "\<forall>j < 4. j \<noteq> ?q \<longrightarrow> items (rg_retiring (so_registry s1) ! j) = items (rg_retiring ?r ! j)"
      by auto
    let ?s = "s1\<lparr>so_registry := drain_drop (so_registry s1)\<rparr>"
    have run: "try_drain P s = Some (Inr (Some (drain_len (dp_seg_queue P) ?r1 ?q)), ?s)"
      using adv(1) True d(1) by (simp add: try_drain_def dropping_def bind_run_def)
    have "registry_ok n (drain_drop (so_registry s1))" using store_coreD(3) [OF d(2)] by (simp add: registry_ok_def drain_drop_def)
    then have core2: "store_core items tot cap n ?s" by (rule store_core_registry [OF d(2)]) (simp add: drain_drop_def)
    have "queue_index (rg_epoch ?r + 1 + 1) = ?q"
      unfolding last_queue_eq queue_index_next by (simp add: mod_simps)
    then have inv2: "store_inv items tot cap n ?s" using core2 d(5,7) by (simp add: store_inv_def drain_drop_def)
    moreover have "store_frame s s1" using d(3) by simp
    ultimately show ?thesis using run d(4-8) True by (auto simp: drain_drop_def)
  qed
qed

lemma try_drain_total:
  assumes laws: "seg_queue_laws (dp_seg_queue P) items" and inv: "since items tot cap n s0 s"
  shows "\<exists>r s'. try_drain P s = Some (r, s') \<and> since items tot cap n s0 s'"
proof (cases "rg_epoch (so_registry s) = - 1")
  case True
  have "\<not> rg_drain (so_registry s)" using inv by (simp add: store_inv_def)
  show ?thesis
  proof (cases "snd (can_advance (so_registry s)) = - 1")
    case True
    with \<open>\<not> rg_drain (so_registry s)\<close> inv show ?thesis
      by (simp add: try_drain_def try_advance_def split_beta bind_run_def of_result_def)
  next
    case False
    then have "\<not> fst (can_advance (so_registry s))" using True by (auto simp: can_advance_def Let_def)
    with False \<open>\<not> rg_drain (so_registry s)\<close> inv show ?thesis by (simp add: try_drain_def try_advance_def split_beta)
  qed
next
  case False
  from try_drain_run [OF laws conjunct1 [OF inv] False] inv show ?thesis
    by (auto split: if_splits intro: store_frame_trans)
qed

section \<open>Acquiring\<close>

lemma freelist_scan_ids:
  assumes "freelist_scan f = (rng, f')" and "i \<in> set (scan_ids rng)"
  shows "i < fl_max f"
proof -
  have "unat (snd rng) \<le> unat (fl_max f)"
    using assms(1) by (auto simp: freelist_scan_def Let_def word_le_nat_alt min_def split: if_splits)
  moreover obtain k where k: "i = of_nat k" "k < unat (snd rng)" using assms(2) by (auto simp: scan_ids_def)
  moreover have "unat i = k" using k u32_less [of "snd rng"] by (simp add: unat_of_nat take_bit_nat_def)
  ultimately show ?thesis by (simp add: word_less_nat_alt)
qed

lemma freelist_scan_progress:
  assumes "fl_max f \<noteq> 0" and "freelist_scan f = (rng, f')"
  shows "scan_ids rng \<noteq> []"
proof -
  let ?m = "unat (fl_max f)"
  define nb :: u32 where "nb = of_nat ((?m + unat SCAN_SIZE - 1) div unat SCAN_SIZE)"
  define b where "b = fl_scan_bucket f mod nb"
  have m: "0 < ?m" "?m < 2 ^ 32" using assms(1) u32_less [of "fl_max f"] by (simp_all add: unat_gt_0)
  have nb: "unat nb = (?m + 255) div 256" using m(2) by (simp add: nb_def SCAN_SIZE_def unat_of_nat take_bit_nat_def)
  have "unat b = unat (fl_scan_bucket f) mod unat nb" by (simp add: b_def unat_mod_distrib)
  then have "unat b < (?m + 255) div 256" using m(1) nb by simp
  then have lt: "unat b * 256 < ?m" using m(1) by linarith
  then have st: "unat (b * SCAN_SIZE) = unat b * 256" using m(2) by (simp add: SCAN_SIZE_def unat_word_ariths)
  have rng: "rng = (b * SCAN_SIZE, if unat (b * SCAN_SIZE) + unat SCAN_SIZE < 2 ^ 32
      then min (b * SCAN_SIZE + SCAN_SIZE) (fl_max f) else fl_max f)"
    using assms unfolding freelist_scan_def Let_def nb_def [symmetric] b_def [symmetric] by simp
  have "unat (fst rng) < unat (snd rng)"
  proof (cases "unat b * 256 + 256 < 2 ^ 32")
    case True
    then have "unat (b * SCAN_SIZE + SCAN_SIZE) = unat b * 256 + 256"
      using st by (simp add: SCAN_SIZE_def unat_word_ariths)
    with rng st lt True show ?thesis by (simp add: SCAN_SIZE_def min_def)
  next
    case False
    with rng st lt show ?thesis by (simp add: SCAN_SIZE_def)
  qed
  then show ?thesis by (simp add: scan_ids_def)
qed

lemma push_free_total:
  assumes "since items tot cap n s0 s"
  shows "\<exists>s'. push_free P i s = Some (Inr (), s') \<and> since items tot cap n s0 s' \<and> (\<forall>l. owns s' l = owns s l)"
  using assms store_inv_free [of "snd (freelist_push (dp_array_queue P) (so_freelist s) i)" s]
  by (simp add: push_free_def owns_def data_unchecked_def)

lemma scan_chunk_total:
  assumes "since items tot cap n s0 s" and "\<forall>i \<in> set chunk. unat i < tot" and "case acq of None \<Rightarrow> True | Some l \<Rightarrow> owns s l"
  shows "\<exists>r s'. scan_chunk P chunk acq s = Some (Inr r, s') \<and> since items tot cap n s0 s' \<and>
     (case r of None \<Rightarrow> True | Some l \<Rightarrow> owns s' l)"
  using assms
proof (induction chunk arbitrary: acq s)
  case (Cons i chunk)
  have i: "unat i < length (so_tags s)" using Cons.prems store_coreD(2) [OF store_inv_core, of items tot cap n s] by simp
  note load = tag_load_run [OF i]
  consider (skip) "so_tags s ! unat i \<noteq> AVAILABLE" | (claim) "so_tags s ! unat i = AVAILABLE" "acq = None"
    | (push) "so_tags s ! unat i = AVAILABLE" "acq \<noteq> None" by blast
  then show ?case
  proof cases
    case skip
    with load Cons.IH [OF Cons.prems(1) _ Cons.prems(3)] Cons.prems(2) show ?thesis by (simp add: bind_run_def)
  next
    case claim
    have "unat i < tot" using Cons.prems(2) by simp
    from try_acquire_total [OF Cons.prems(1) this] obtain r s1 where r: "try_acquire i s = Some (Inr r, s1)"
      "since items tot cap n s0 s1" "case r of None \<Rightarrow> s1 = s | Some l \<Rightarrow> owns s1 l" by blast
    have "case r of None \<Rightarrow> True | Some l \<Rightarrow> owns s1 l" using r(3) by (auto split: option.splits)
    with Cons.IH [OF r(2), of r] Cons.prems(2) r(1) claim load show ?thesis by (simp add: bind_run_def)
  next
    case push
    from push_free_total [OF Cons.prems(1), of P i] obtain s1 where s1: "push_free P i s = Some (Inr (), s1)"
      "since items tot cap n s0 s1" "\<And>l. owns s1 l = owns s l" by blast
    have "case acq of None \<Rightarrow> True | Some l \<Rightarrow> owns s1 l" using Cons.prems(3) s1(3) by (simp split: option.splits)
    with Cons.IH [OF s1(2), of acq] Cons.prems(2) s1(1) push load show ?thesis by (auto simp: bind_run_def)
  qed
qed simp

lemma pop_recycled_total:
  assumes "since items tot cap n s0 s"
  shows "\<exists>r s'. pop_recycled_slot P s = Some (Inr r, s') \<and> since items tot cap n s0 s' \<and>
     (case r of None \<Rightarrow> True | Some l \<Rightarrow> owns s' l)"
proof -
  obtain i f where f: "freelist_pop_recycled (dp_array_queue P) (so_freelist s) = (i, f)" by fastforce
  have "fl_max f = fl_max (so_freelist s)" using f freelist_max(3) by (metis snd_conv)
  then have s1: "since items tot cap n s0 (s\<lparr>so_freelist := f\<rparr>)" using assms store_inv_free by auto
  show ?thesis
  proof (cases i)
    case None
    with f s1 show ?thesis by (simp add: pop_recycled_slot_def)
  next
    case (Some j)
    from store_slot_total [OF s1, of j] obtain r s2 where "store_slot j (s\<lparr>so_freelist := f\<rparr>) = Some (Inr r, s2)"
      "since items tot cap n s0 s2" "case r of None \<Rightarrow> s2 = s\<lparr>so_freelist := f\<rparr> | Some l \<Rightarrow> owns s2 l" by blast
    with f Some show ?thesis by (cases r) (auto simp: pop_recycled_slot_def)
  qed
qed

lemma scan_loop_total:
  assumes "since items tot cap n s0 s" and "remaining = 0 \<or> so_unfrozen s0 \<noteq> 0"
  shows "\<exists>r s'. scan_loop P remaining chunks s = Some (Inr r, s') \<and> since items tot cap n s0 s' \<and>
     (case r of None \<Rightarrow> True | Some l \<Rightarrow> owns s' l)"
  using assms
proof (induction remaining arbitrary: chunks s rule: less_induct)
  case (less remaining)
  show ?case
  proof (cases "remaining = 0")
    case True
    with less.prems show ?thesis by (simp add: scan_loop.simps)
  next
    case False
    obtain rng f where f: "freelist_scan (so_freelist s) = (rng, f)" by fastforce
    have mx: "fl_max f = fl_max (so_freelist s)" using f freelist_max(4) by (metis snd_conv)
    have core: "store_core items tot cap n s" using less.prems(1) by (simp add: store_inv_def)
    have u: "so_unfrozen s = so_unfrozen s0" using less.prems(1) by (simp add: store_frame_def)
    have sz: "so_unfrozen s \<le> tot" "tot < 2 ^ 32" using core by (simp_all add: store_core_def store_shape_def)
    have flm: "unat (fl_max (so_freelist s)) = so_unfrozen s"
      using core sz by (simp add: store_core_def unat_of_nat take_bit_nat_def)
    have ids: "\<forall>i \<in> set (scan_ids rng). unat i < tot"
      using freelist_scan_ids [OF f] flm sz(1) by (fastforce simp: word_less_nat_alt)
    have "fl_max (so_freelist s) \<noteq> 0" using flm less.prems(2) False u by auto
    then have less': "remaining - length (scan_ids rng) < remaining"
      using freelist_scan_progress [OF _ f] False by simp
    note IH = less.IH [OF less']
    have "since items tot cap n s0 (s\<lparr>so_freelist := f\<rparr>)" using less.prems(1) store_inv_free [OF mx] by simp
    from scan_chunk_total [OF this ids, of None P] obtain r s1 where
      r: "scan_chunk P (scan_ids rng) None (s\<lparr>so_freelist := f\<rparr>) = Some (Inr r, s1)" "since items tot cap n s0 s1"
        "case r of None \<Rightarrow> True | Some l \<Rightarrow> owns s1 l" by auto
    show ?thesis
    proof (cases r)
      case (Some l)
      with r f False show ?thesis by (simp add: scan_loop.simps [of P remaining])
    next
      case None
      from pop_recycled_total [OF r(2), of P] obtain r2 s2 where p: "pop_recycled_slot P s1 = Some (Inr r2, s2)"
        "since items tot cap n s0 s2" "case r2 of None \<Rightarrow> True | Some l \<Rightarrow> owns s2 l" by blast
      have left: "remaining - length (scan_ids rng) = 0 \<or> so_unfrozen s0 \<noteq> 0" using less.prems(2) False by auto
      show ?thesis
      proof (cases "chunks + 1 = 4")
        case True
        with f False r(1) None p IH [OF p(2) left, of 0] show ?thesis
          by (cases r2) (simp_all add: scan_loop.simps [of P remaining] Let_def)
      next
        case no: False
        with f False r(1) None IH [OF r(2) left, of "chunks + 1"] show ?thesis
          by (simp add: scan_loop.simps [of P remaining] Let_def)
      qed
    qed
  qed
qed

lemma scan_acquire_total:
  assumes "since items tot cap n s0 s"
  shows "\<exists>r s'. scan_acquire P s = Some (Inr r, s') \<and> since items tot cap n s0 s' \<and>
     (case r of None \<Rightarrow> True | Some l \<Rightarrow> owns s' l)"
proof -
  have "(so_unfrozen s + RETRY_LIMIT - 1) div RETRY_LIMIT = 0 \<or> so_unfrozen s0 \<noteq> 0"
    using assms by (auto simp: store_frame_def RETRY_LIMIT_def)
  from scan_loop_total [OF assms this] show ?thesis by (simp add: scan_acquire_def)
qed

lemma acquire_loop_total:
  assumes laws: "seg_queue_laws (dp_seg_queue P) items" and "since items tot cap n s0 s"
  shows "\<exists>r s'. acquire_loop P k s = Some (r, s') \<and> since items tot cap n s0 s' \<and>
     (case r of Inr (Some l) \<Rightarrow> owns s' l | _ \<Rightarrow> True)"
  using assms(2)
proof (induction k arbitrary: s)
  case (Suc k)
  obtain i f where f: "freelist_pop (dp_array_queue P) (so_freelist s) = (i, f)" by fastforce
  have "fl_max f = fl_max (so_freelist s)" using f freelist_max(2) by (metis snd_conv)
  then have s1: "since items tot cap n s0 (s\<lparr>so_freelist := f\<rparr>)" using Suc.prems store_inv_free by auto
  show ?case
  proof (cases i)
    case (Found j)
    from store_slot_total [OF s1, of j] obtain r s2 where r: "store_slot j (s\<lparr>so_freelist := f\<rparr>) = Some (Inr r, s2)"
      "since items tot cap n s0 s2" "case r of None \<Rightarrow> s2 = s\<lparr>so_freelist := f\<rparr> | Some l \<Rightarrow> owns s2 l" by blast
    with f Found Suc.IH [OF r(2)] show ?thesis by (cases r) (simp_all add: bind_run_some)
  next
    case ScanNeeded
    from scan_acquire_total [OF s1, of P] obtain r s2 where r: "scan_acquire P (s\<lparr>so_freelist := f\<rparr>) = Some (Inr r, s2)"
      "since items tot cap n s0 s2" "case r of None \<Rightarrow> True | Some l \<Rightarrow> owns s2 l" by blast
    from try_drain_total [OF laws r(2)] obtain d s3 where d: "try_drain P s2 = Some (d, s3)" "since items tot cap n s0 s3" by blast
    show ?thesis
    proof (cases r)
      case None
      with f ScanNeeded r(1) d Suc.IH [OF d(2)] show ?thesis by (cases d) (simp_all add: bind_run_def)
    next
      case (Some l)
      with f ScanNeeded r show ?thesis by (simp add: bind_run_some)
    qed
  qed
qed simp

section \<open>Publishing, dropping and writing a slot\<close>

lemma owns_bounds:
  assumes "store_inv items tot cap n s" and "owns s l"
  shows "unat (sl_slot l) < so_unfrozen s" and "unat (sl_slot l) < tot" and "so_tags s ! unat (sl_slot l) = OWNED"
  using assms by (auto simp: store_inv_def store_core_def store_shape_def owns_def)

lemma slot_publish_run:
  assumes inv: "store_inv items tot cap n s" and l: "owns s l"
  shows "\<exists>s'. slot_publish l s = Some (Inr (sl_slot l), s') \<and> store_inv items tot cap n s' \<and>
     so_tags s' = (so_tags s)[unat (sl_slot l) := PUBLISHED] \<and> so_neighbors s' = so_neighbors s \<and>
     so_unpadded s' = so_unpadded s \<and> so_unfrozen s' = so_unfrozen s \<and>
     bf_stride (so_buffer s') = bf_stride (so_buffer s) \<and> so_registry s' = so_registry s \<and>
     (\<forall>j < tot. data_of s' j = data_of s j)"
proof -
  note b = owns_bounds [OF assms] and shape = store_coreD(1) [OF store_inv_core [OF inv]]
  let ?s = "set_tag (set_mirror s (unat (sl_slot l)) PUBLISHED) (unat (sl_slot l)) PUBLISHED"
  have "slot_publish l s = Some (Inr (sl_slot l), ?s)"
    by (simp add: slot_publish_def bind_run_def slot_set_tags_run [OF shape b(2)])
  moreover have "store_inv items tot cap n ?s"
    by (rule store_inv_tags [OF inv b(1)]) (use b(3) in \<open>simp_all add: mirror_tag_def\<close>)
  moreover have "\<forall>j < tot. data_of ?s j = data_of s j" using data_of_set_mirror [OF shape b(2)] by simp
  ultimately show ?thesis by simp
qed

lemma slot_drop_run:
  assumes inv: "since items tot cap n s0 s" and l: "owns s l"
  shows "\<exists>s'. slot_drop l s = Some (Inr (), s') \<and> since items tot cap n s0 s'"
proof -
  have inv': "store_inv items tot cap n s" using inv by simp
  note b = owns_bounds [OF inv' l] and shape = store_coreD(1) [OF store_inv_core [OF inv']]
  let ?s = "set_tag (set_mirror s (unat (sl_slot l)) AVAILABLE) (unat (sl_slot l)) AVAILABLE"
  have "slot_drop l s = Some (Inr (), ?s)" by (simp add: slot_drop_def slot_set_tags_run [OF shape b(2)])
  moreover have "store_inv items tot cap n ?s"
    by (rule store_inv_tags [OF inv' b(1)]) (use b(3) in \<open>simp_all add: mirror_tag_def\<close>)
  moreover have "store_frame s ?s" by (rule store_frame_tags [OF inv' b(1)]) (use b(3) in simp_all)
  ultimately show ?thesis using inv by (auto intro: store_frame_trans)
qed

lemma slot_write_run:
  assumes inv: "since items tot cap n s0 s" and l: "owns s l" and len: "length bs = so_unpadded s - 1"
  shows "\<exists>s'. slot_copy_from_slice l bs s = Some (Inr (), s') \<and> since items tot cap n s0 s' \<and> owns s' l \<and>
     data_of s' (unat (sl_slot l)) = bs \<and> so_unpadded s' = so_unpadded s \<and> so_tags s' = so_tags s \<and> so_registry s' = so_registry s"
proof -
  have inv': "store_inv items tot cap n s" using inv by simp
  note b = owns_bounds [OF inv' l] and c = store_coreD [OF store_inv_core [OF inv']]
  let ?i = "unat (sl_slot l)" and ?s = "set_data s (unat (sl_slot l)) bs"
  have sl: "sl_data l = snd (data_unchecked s ?i)" using l by (simp add: owns_def)
  note mirror = set_data_mirror [OF c(1) b(2) _ len] and data = set_data_data [OF c(1) b(2) _ len]
  have shape: "store_shape tot ?s" by (rule store_shape_set_data [OF c(1) b(2) len])
  have "store_inv items tot cap n ?s"
    using inv' shape mirror unfolding store_inv_def store_core_def by simp
  moreover have "store_frame s ?s" using data b(3) c(2) by (auto simp: store_frame_def)
  moreover have "owns ?s l" using l by (simp add: owns_def data_unchecked_eq [OF shape] data_unchecked_eq [OF c(1)])
  moreover have "data_of ?s ?i = bs" using data [OF b(2)] by simp
  ultimately show ?thesis
    using inv slot_copy_run [OF c(1) b(2) sl len] by (auto intro: store_frame_trans)
qed

section \<open>Guards and retirement\<close>

lemma store_guard_run:
  assumes inv: "since items tot cap n s0 s"
  shows "\<exists>g s'. store_guard s = Some (Inr g, s') \<and> since items tot cap n s0 s' \<and> so_tags s' = so_tags s \<and>
     so_buffer s' = so_buffer s \<and> so_unpadded s' = so_unpadded s \<and>
     rg_retiring (so_registry s') = rg_retiring (so_registry s) \<and>
     (case g of None \<Rightarrow> True | Some g \<Rightarrow> gd_retire g = queue_index (rg_epoch (so_registry s')))"
proof -
  obtain g r where g: "registry_guard (so_registry s) = (g, r)" by fastforce
  have inv': "store_inv items tot cap n s" using inv by simp
  note spec = registry_guard_spec [OF store_coreD(3) [OF store_inv_core [OF inv']] g]
  have "store_inv items tot cap n (s\<lparr>so_registry := r\<rparr>)"
    using inv' store_core_registry [OF store_inv_core [OF inv'] spec(1,3)] spec(2-4) by (simp add: store_inv_def)
  with g spec(2,3,5) inv show ?thesis by (auto simp: store_guard_def split: option.splits)
qed

lemma store_guard_drop_inv:
  assumes "store_inv items tot cap n s"
  shows "store_inv items tot cap n (store_guard_drop g s)" and "store_frame s (store_guard_drop g s)"
proof -
  note c = store_coreD(3) [OF store_inv_core [OF assms]]
  have "store_core items tot cap n (s\<lparr>so_registry := epoch_guard_drop (so_registry s) g\<rparr>)"
    by (rule store_core_registry [OF store_inv_core [OF assms] epoch_guard_drop_ok [OF c]]) (simp add: epoch_guard_drop_def)
  then show "store_inv items tot cap n (store_guard_drop g s)"
    using assms by (simp add: store_inv_def store_guard_drop_def epoch_guard_drop_def)
  show "store_frame s (store_guard_drop g s)" by (simp add: store_guard_drop_def)
qed

text \<open>Retiring a slot takes it from the readable ones, and changes nothing else that can be read.\<close>

definition retires :: "nat \<Rightarrow> ('a, 'q) store \<Rightarrow> ('a, 'q) store \<Rightarrow> bool" where
  "retires i s s' \<longleftrightarrow> so_neighbors s' = so_neighbors s \<and> so_unpadded s' = so_unpadded s \<and> so_unfrozen s' = so_unfrozen s \<and>
     bf_stride (so_buffer s') = bf_stride (so_buffer s) \<and> so_tags s' = (so_tags s)[i := RETIRING] \<and>
     (\<forall>j < length (so_tags s). data_of s' j = data_of s j)"

lemma store_retire_run:
  assumes laws: "seg_queue_laws (dp_seg_queue P) items" and inv: "store_inv items tot cap n s"
  shows "\<exists>r s'. store_retire P i s = Some (Inr r, s') \<and> store_inv items tot cap n s' \<and>
     (case r of Inl e \<Rightarrow> store_frame s s' \<and> so_tags s' = so_tags s
      | Inr _ \<Rightarrow> i < so_unfrozen s \<and> so_tags s ! i = PUBLISHED \<and> retires i s s')"
proof (cases "i < tot \<and> \<not> is_reserved (so_tags s ! i)")
  case False
  have "length (so_tags s) = tot" using store_coreD(2) [OF store_inv_core [OF inv]] .
  with False inv show ?thesis
    by (cases "i < tot") (simp_all add: store_retire_def bind_run_def [of "tag_load i"] tag_load_run)
next
  case True
  note c0 = store_coreD [OF store_inv_core [OF inv]]
  have len: "i < length (so_tags s)" using True c0(2) by simp
  have tag: "so_tags s ! i = PUBLISHED" and u: "i < so_unfrozen s"
    using c0(5) [of i] True by (auto simp: tag_ok_def is_reserved_def split: if_splits)
  from store_guard_run [of items tot cap n s s] inv obtain g s1 where g: "store_guard s = Some (Inr g, s1)"
    "since items tot cap n s s1" "so_tags s1 = so_tags s" "so_buffer s1 = so_buffer s" "so_unpadded s1 = so_unpadded s"
    "rg_retiring (so_registry s1) = rg_retiring (so_registry s)"
    "case g of None \<Rightarrow> True | Some g \<Rightarrow> gd_retire g = queue_index (rg_epoch (so_registry s1))" by auto
  show ?thesis
  proof (cases g)
    case None
    with g True len show ?thesis
      by (simp add: store_retire_def bind_run_def tag_load_run)
  next
    case (Some gd)
    have inv1: "store_inv items tot cap n s1" using g(2) by simp
    note c = store_coreD [OF store_inv_core [OF inv1]]
    have it: "i < tot" using True by simp
    let ?s2 = "set_tag s1 i RETIRING" and ?r = "guard_retire (dp_seg_queue P) (so_registry s1) gd (of_nat i)"
    have shape2: "store_shape tot ?s2" using c(1) by simp
    let ?s3 = "set_mirror ?s2 i RETIRING"
    let ?s4 = "?s3\<lparr>so_registry := ?r\<rparr>"
    have cas: "tag_compare_exchange i PUBLISHED RETIRING s1 = Some (Inr True, ?s2)"
      using it c(2) g(3) tag by (simp add: tag_compare_exchange_def bind_run_def tag_load_run tag_store_run)
    have run: "store_retire P i s = Some (Inr (Inr ()), store_guard_drop gd ?s4)"
      using True len tag g(1) Some cas mirror_store_run [OF shape2 it, of RETIRING]
      by (simp add: store_retire_def bind_run_def tag_load_run dropping_def)
    have eq: "?s4 = (set_tag (set_mirror s1 i RETIRING) i RETIRING)\<lparr>so_registry := ?r\<rparr>"
      by (simp add: set_tag_def set_mirror_def)
    have i32: "unat (of_nat i :: u32) = i" using it c(1) by (simp add: store_shape_def unat_of_nat take_bit_nat_def)
    have new: "of_nat i \<notin> set (retired items (so_registry s1))" using c(4) tag g(3) i32 by (auto simp: retiring_ok_def)
    have q: "gd_retire gd = queue_index (rg_epoch (so_registry s1))" using g(7) Some by simp
    then have ql: "gd_retire gd < length (rg_retiring (so_registry s1))" using c(3) by (simp add: registry_ok_def)
    note ret = guard_retire_retired [OF laws ql, of "of_nat i"]
    have rset: "set (retired items ?r) = insert (of_nat i) (set (retired items (so_registry s1)))"
      using ret by (metis set_mset_add_mset_insert set_mset_mset)
    have "mset (retired items ?r) = mset (of_nat i # retired items (so_registry s1))" using ret by simp
    then have dist: "distinct (retired items ?r)"
      using new c(4) by (metis distinct.simps(2) mset_eq_imp_distinct_iff retiring_ok_def)
    have "store_core items tot cap n ?s4"
      unfolding eq by (rule store_core_retag [OF store_inv_core [OF inv1] it _ _ _ dist])
        (use u g(2) rset c(3) in \<open>auto simp: tag_ok_def mirror_tag_def guard_retire_ok store_frame_def\<close>)
    moreover have "items (rg_retiring ?r ! queue_index (rg_epoch ?r + 1)) = []"
    proof -
      have "queue_index (rg_epoch (so_registry s1) + 1) \<noteq> gd_retire gd"
        unfolding q queue_index_next using queue_index_less [of "rg_epoch (so_registry s1)"] by presburger
      then show ?thesis using inv1 by (simp add: store_inv_def guard_retire_def)
    qed
    ultimately have "store_inv items tot cap n ?s4" using inv1 by (simp add: store_inv_def guard_retire_def)
    then have inv5: "store_inv items tot cap n (store_guard_drop gd ?s4)" by (rule store_guard_drop_inv)
    have "data_of ?s4 j = data_of s j" if "j < tot" for j
      using data_of_set_mirror [OF shape2 it that, of RETIRING] g(4,5) by (simp add: data_of_def)
    then have "retires i s (store_guard_drop gd ?s4)"
      using g(2,3) c0(2) by (simp add: retires_def store_guard_drop_def store_frame_def data_of_def)
    with run inv5 u tag show ?thesis by simp
  qed
qed

section \<open>Reading\<close>

lemma reader_read_run:
  assumes inv: "store_inv items tot cap n s"
  shows "reader_read s i = Inr (if i < tot \<and> can_read (so_tags s ! i) then Some (data_of s i) else None)"
proof (cases "i < tot")
  case True
  note c = store_coreD [OF store_inv_core [OF inv]]
  have tag: "can_read (mirror_of s i) \<longleftrightarrow> can_read (so_tags s ! i)" using c(6) [OF True] by (simp add: mirror_tag_def)
  have "bf_stride (so_buffer s) * i + (so_unpadded s - 1) \<le> length (bf_mem (so_buffer s))"
    using store_row(2) [OF c(1) True] by simp
  then have d: "mem_read (bf_mem (so_buffer s)) (bf_stride (so_buffer s) * i) (so_unpadded s - 1) = Inr (data_of s i)"
    by (simp add: mem_read_def data_of_def)
  have "bf_entries (so_buffer s) = tot" using c(1) by (simp add: store_shape_def)
  with True tag d mem_read_single [OF store_row(2) [OF c(1) True]] show ?thesis
    by (simp add: reader_read_def read_in_bounds_def data_unchecked_eq [OF c(1)] mirror_of_def)
next
  case False
  have "bf_entries (so_buffer s) = tot" using store_coreD(1) [OF store_inv_core [OF inv]] by (simp add: store_shape_def)
  with False show ?thesis by (simp add: reader_read_def)
qed

section \<open>Creation\<close>

lemma fill_frozen_run:
  assumes "store_shape tot s" and "so_unfrozen s = u" and "u \<le> k" and "k + length rows = tot"
    and "\<forall>row \<in> set rows. length row = so_unpadded s - 1"
    and "\<forall>j < tot. so_tags s ! j = (if u \<le> j \<and> j < k then FROZEN else AVAILABLE)"
    and "\<forall>j < tot. mirror_of s j = so_tags s ! j"
  shows "\<exists>s'. fill_frozen (of_nat k) rows s = Some (Inr (), s') \<and> store_shape tot s' \<and>
     (\<forall>j < tot. so_tags s' ! j = (if u \<le> j then FROZEN else AVAILABLE) \<and> mirror_of s' j = so_tags s' ! j) \<and>
     so_unfrozen s' = u \<and> so_unpadded s' = so_unpadded s \<and> so_freelist s' = so_freelist s \<and>
     so_registry s' = so_registry s \<and> so_neighbors s' = so_neighbors s \<and>
     (\<forall>j < tot. data_of s' j = (if k \<le> j then rows ! (j - k) else data_of s j))"
  using assms
proof (induction rows arbitrary: k s)
  case Nil
  then show ?case by (intro exI [of _ s]) auto
next
  case (Cons row rows)
  note shape = Cons.prems(1)
  have kt: "k < tot" using Cons.prems(4) by simp
  have k32: "unat (of_nat k :: u32) = k" using kt shape by (simp add: store_shape_def unat_of_nat take_bit_nat_def)
  have av: "so_tags s ! k = AVAILABLE" and len: "length (so_tags s) = tot" using Cons.prems(6) kt shape by (auto simp: store_shape_def)
  let ?l = "\<lparr>sl_slot = of_nat k, sl_data = snd (data_unchecked s k)\<rparr>" and ?s1 = "set_tag s k OWNED"
  have acq: "store_slot (of_nat k) s = Some (Inr (Some ?l), ?s1)"
    using try_acquire_run [of "of_nat k" s] k32 av len kt by (simp add: store_slot_def)
  have row: "length row = so_unpadded ?s1 - 1" using Cons.prems(5) by simp
  have shape1: "store_shape tot ?s1" using shape by simp
  have sl: "sl_data ?l = snd (data_unchecked ?s1 k)" by (simp add: data_unchecked_def)
  let ?s2 = "set_data ?s1 k row" and ?s3 = "set_tag (set_mirror (set_data (set_tag s k OWNED) k row) k FROZEN) k FROZEN"
  note copy = slot_copy_run [OF shape1 kt sl row]
  have shape2: "store_shape tot ?s2" by (rule store_shape_set_data [OF shape1 kt row])
  have freeze: "slot_freeze ?l ?s2 = Some (Inr (), ?s3)"
    using slot_set_tags_run [OF shape2, of ?l FROZEN] k32 kt by (simp add: slot_freeze_def)
  have shape3: "store_shape tot ?s3" using shape2 by simp
  have tags: "so_tags ?s3 = (so_tags s)[k := FROZEN]" by simp
  have mir: "mirror_of ?s3 j = (if j = k then FROZEN else mirror_of s j)" if "j < tot" for j
    using mirror_of_set [OF shape2 kt that, of FROZEN] set_data_mirror [OF shape1 kt that row] by simp
  have dat: "data_of ?s3 j = (if j = k then row else data_of s j)" if "j < tot" for j
    using data_of_set_mirror [OF shape2 kt that, of FROZEN] set_data_data [OF shape1 kt that row] by simp
  have "\<exists>s'. fill_frozen (of_nat (Suc k)) rows ?s3 = Some (Inr (), s') \<and> store_shape tot s' \<and>
     (\<forall>j < tot. so_tags s' ! j = (if u \<le> j then FROZEN else AVAILABLE) \<and> mirror_of s' j = so_tags s' ! j) \<and>
     so_unfrozen s' = u \<and> so_unpadded s' = so_unpadded ?s3 \<and> so_freelist s' = so_freelist ?s3 \<and>
     so_registry s' = so_registry ?s3 \<and> so_neighbors s' = so_neighbors ?s3 \<and>
     (\<forall>j < tot. data_of s' j = (if Suc k \<le> j then rows ! (j - Suc k) else data_of ?s3 j))"
  proof (rule Cons.IH [OF shape3])
    show "\<forall>j < tot. so_tags ?s3 ! j = (if u \<le> j \<and> j < Suc k then FROZEN else AVAILABLE)"
      unfolding tags using Cons.prems(3,6) len kt by (auto simp: nth_list_update)
    show "\<forall>j < tot. mirror_of ?s3 j = so_tags ?s3 ! j"
      using mir Cons.prems(7) len kt by (auto simp: nth_list_update)
  qed (use Cons.prems in auto)
  then obtain s' where s': "fill_frozen (of_nat (Suc k)) rows ?s3 = Some (Inr (), s')" "store_shape tot s'"
     "\<forall>j < tot. so_tags s' ! j = (if u \<le> j then FROZEN else AVAILABLE) \<and> mirror_of s' j = so_tags s' ! j"
     "so_unfrozen s' = u" "so_unpadded s' = so_unpadded s" "so_freelist s' = so_freelist s"
     "so_registry s' = so_registry s" "so_neighbors s' = so_neighbors s"
     "\<forall>j < tot. data_of s' j = (if Suc k \<le> j then rows ! (j - Suc k) else data_of ?s3 j)"
    by auto
  have "fill_frozen (of_nat k) (row # rows) s = Some (Inr (), s')"
    using acq copy freeze s'(1) by (simp add: bind_run_def add.commute)
  moreover have "data_of s' j = (if k \<le> j then (row # rows) ! (j - k) else data_of s j)" if "j < tot" for j
  proof -
    consider "j < k" | "j = k" | "Suc k \<le> j" by linarith
    then show ?thesis using s'(9) dat [OF that] that by cases (auto simp: nth_Cons')
  qed
  ultimately show ?case using s' by auto
qed

text \<open>A store is created or an error reported; a panic is only possible for rows too long for memory.\<close>

lemma store_new_spec:
  assumes laws: "seg_queue_laws (dp_seg_queue P) items" and rows: "\<forall>row \<in> set init. length row = ncols"
    and slots: "0 < sc_epoch_guard_slots config" and new: "store_new P config ncols init = Some (Inr (Inr s))"
  defines "tot \<equiv> sc_entries config + length init"
  shows "store_inv items tot (sc_max_neighbors config) (sc_epoch_guard_slots config) s"
    and "so_unfrozen s = sc_entries config" and "so_unpadded s = ncols + 1" and "nb_list (so_neighbors s) i = []"
    and "\<forall>k < length init. reader_read s (sc_entries config + k) = Inr (Some (init ! k))"
    and "\<forall>k < sc_entries config. so_tags s ! k = AVAILABLE" and "\<forall>e \<in> set (rg_guards (so_registry s)). e = 0"
    and "rg_epoch (so_registry s) = 1"
    and "so_freelist s = freelist_new (dp_array_queue P) (of_nat (sc_entries config)) (sc_freelist_recycle_capacity config)"
proof -
  from new obtain unpadded padded buf nbs me where
    n: "ncols = sc_bytes config" "bytes_checked_add ncols TAG_SIZE = Some unpadded"
      "bytes_checked_next_multiple_of unpadded 32 = Some padded" "tot < 2 ^ 32" "sc_max_neighbors config < 2 ^ 32"
      "buffer_new tot padded 128 = Inr buf" "neighbors_new (of_nat tot) (of_nat (sc_max_neighbors config)) = Inr nbs"
    and me: "me = \<lparr>so_buffer = buf, so_unpadded = unpadded, so_unfrozen = sc_entries config,
                so_tags = replicate tot AVAILABLE,
                so_freelist = freelist_new (dp_array_queue P) (of_nat (sc_entries config)) (sc_freelist_recycle_capacity config),
                so_registry = registry_with_capacity (dp_seg_queue P) (sc_epoch_guard_slots config),
                so_neighbors = nbs\<rparr>"
    and fill: "\<exists>r. fill_frozen (of_nat (sc_entries config)) init me = Some (Inr r, s)"
    unfolding store_new_def Let_def tot_def
    by (auto split: if_splits option.splits sum.splits simp: map_option_case)
  have unp: "unpadded = ncols + 1" using n(2) by (auto simp: bytes_checked_add_def TAG_SIZE_def split: if_splits)
  have pad: "unpadded \<le> padded"
  proof -
    have "unpadded \<le> (unpadded + 31) div 32 * 32" by linarith
    then show ?thesis using n(3) by (auto simp: bytes_checked_next_multiple_of_def next_multiple_of_def split: if_splits)
  qed
  have buf: "bf_entries buf = tot" "bf_stride buf = padded" "bf_mem buf = replicate (padded * tot) 0"
    using n(6) by (auto simp: buffer_new_def bytes_checked_mul_def split: if_splits option.splits)
  have shape: "store_shape tot me"
    using unp pad buf n(4) me by (simp add: store_shape_def tot_def)
  have mirror0: "mirror_of me j = AVAILABLE" if "j < tot" for j
    using store_row(2) [OF shape that] by (simp add: mirror_of_def me buf)
  have "\<exists>s'. fill_frozen (of_nat (sc_entries config)) init me = Some (Inr (), s') \<and> store_shape tot s' \<and>
     (\<forall>j < tot. so_tags s' ! j = (if sc_entries config \<le> j then FROZEN else AVAILABLE) \<and> mirror_of s' j = so_tags s' ! j) \<and>
     so_unfrozen s' = sc_entries config \<and> so_unpadded s' = so_unpadded me \<and> so_freelist s' = so_freelist me \<and>
     so_registry s' = so_registry me \<and> so_neighbors s' = so_neighbors me \<and>
     (\<forall>j < tot. data_of s' j = (if sc_entries config \<le> j then init ! (j - sc_entries config) else data_of me j))"
    by (rule fill_frozen_run [OF shape]) (use me rows mirror0 unp in \<open>auto simp: tot_def\<close>)
  with fill have f: "store_shape tot s"
     "\<And>j. j < tot \<Longrightarrow> so_tags s ! j = (if sc_entries config \<le> j then FROZEN else AVAILABLE)"
     "\<And>j. j < tot \<Longrightarrow> mirror_of s j = so_tags s ! j"
     "so_unfrozen s = sc_entries config" "so_unpadded s = ncols + 1" "so_freelist s = so_freelist me"
     "so_registry s = so_registry me" "so_neighbors s = nbs"
     "\<And>j. j < tot \<Longrightarrow> data_of s j = (if sc_entries config \<le> j then init ! (j - sc_entries config) else data_of me j)"
    using me unp by auto
  have nb: "nb_ok tot (sc_max_neighbors config) nbs" "nb_list nbs i = []"
    using neighbors_new_ok [OF n(7)] n(4,5) by (simp_all add: unat_of_nat take_bit_nat_def)
  have reg: "so_registry s = registry_with_capacity (dp_seg_queue P) (sc_epoch_guard_slots config)" using f(7) me by simp
  have ret: "retired items (so_registry s) = []" unfolding reg by (rule registry_with_capacity_ok(2) [OF laws])
  have no2: "so_tags s ! unat i \<noteq> RETIRING" if "unat i < length (so_tags s)" for i :: u32
    using f(1) f(2) [of "unat i"] that by (simp add: store_shape_def)
  have "items (rg_retiring (so_registry s) ! q) = []" if "q < 4" for q
    using that laws by (simp add: reg registry_with_capacity_def seg_queue_laws_def)
  moreover have "store_core items tot (sc_max_neighbors config) (sc_epoch_guard_slots config) s"
    unfolding store_core_def using f nb reg slots ret no2 me
    by (auto simp: registry_with_capacity_ok(1) tag_ok_def mirror_tag_def retiring_ok_def freelist_new_def)
  moreover have "\<not> rg_drain (so_registry s)" unfolding reg by (simp add: registry_with_capacity_def)
  ultimately show inv: "store_inv items tot (sc_max_neighbors config) (sc_epoch_guard_slots config) s"
    by (simp add: store_inv_def)
  show "so_unfrozen s = sc_entries config" "so_unpadded s = ncols + 1" "nb_list (so_neighbors s) i = []"
    using f nb by simp_all
  show "\<forall>k < length init. reader_read s (sc_entries config + k) = Inr (Some (init ! k))"
    using reader_read_run [OF inv] f(2,9) by (simp add: tot_def)
  show "\<forall>k < sc_entries config. so_tags s ! k = AVAILABLE" using f(2) by (simp add: tot_def)
  show "\<forall>e \<in> set (rg_guards (so_registry s)). e = 0" "rg_epoch (so_registry s) = 1"
    unfolding reg by (simp_all add: registry_with_capacity_def)
  show "so_freelist s = freelist_new (dp_array_queue P) (of_nat (sc_entries config)) (sc_freelist_recycle_capacity config)"
    using f(6) me by simp
qed

lemma buffer_new_total:
  assumes "bytes * entries + 128 < 2 ^ 63"
  shows "buffer_new entries bytes 128 = Inr \<lparr>bf_mem = replicate (bytes * entries) 0, bf_stride = bytes, bf_entries = entries\<rparr>"
proof -
  have "next_multiple_of (bytes * entries) 128 \<le> bytes * entries + 127" by (simp add: next_multiple_of_def)
  also have "\<dots> \<le> ISIZE_MAX" using assms by (simp add: ISIZE_MAX_def)
  finally show ?thesis using assms by (simp add: buffer_new_def bytes_checked_mul_def USIZE_MAX_def)
qed

lemma store_new_total:
  assumes "ncols = sc_bytes config" and "init \<noteq> []" and "\<forall>row \<in> set init. length row = ncols"
    and "sc_entries config + length init < 2 ^ 32" and "sc_max_neighbors config < 2 ^ 32"
    and "(ncols + 32) * (sc_entries config + length init) + 128 < 2 ^ 63"
    and "(sc_max_neighbors config + 1) * 4 * (sc_entries config + length init) + 128 < 2 ^ 63"
  shows "\<exists>s. store_new P config ncols init = Some (Inr (Inr s))"
proof -
  let ?tot = "sc_entries config + length init" and ?unp = "ncols + 1" and ?pad = "(ncols + 32) div 32 * 32"
  have tot: "0 < ?tot" using assms(2) by simp
  have ncols: "ncols + 32 < 2 ^ 63"
  proof -
    have "(ncols + 32) * 1 \<le> (ncols + 32) * ?tot" using tot by (intro mult_le_mono2) linarith
    then have "ncols + 32 \<le> (ncols + 32) * ?tot" by (simp only: mult_1_right)
    then show ?thesis using assms(6) by linarith
  qed
  have pad: "?pad \<le> ncols + 32" "?unp \<le> ?pad" by linarith+
  have size: "?pad * ?tot \<le> (ncols + 32) * ?tot" using pad(1) by (rule mult_le_mono1)
  have add: "bytes_checked_add ncols TAG_SIZE = Some ?unp" using ncols by (simp add: bytes_checked_add_def TAG_SIZE_def USIZE_MAX_def)
  have mul: "bytes_checked_next_multiple_of ?unp 32 = Some ?pad"
  proof -
    have "?unp + 32 - 1 = ncols + 32" by simp
    then have eq: "next_multiple_of ?unp 32 = ?pad" unfolding next_multiple_of_def by (rule arg_cong)
    have "?pad \<le> USIZE_MAX" by (rule order_trans [OF pad(1)]) (use ncols in \<open>simp add: USIZE_MAX_def\<close>)
    then show ?thesis unfolding bytes_checked_next_multiple_of_def eq by simp
  qed
  obtain buf where buf: "buffer_new ?tot ?pad 128 = Inr buf" "bf_entries buf = ?tot" "bf_stride buf = ?pad"
    "length (bf_mem buf) = ?pad * ?tot" "\<forall>b \<in> set (bf_mem buf). b = 0"
  proof -
    have "?pad * ?tot + 128 < 2 ^ 63" using size assms(6) by linarith
    note new = buffer_new_total [OF this]
    show thesis by (rule that [OF new]) simp_all
  qed
  obtain nbs where nbs: "neighbors_new (of_nat ?tot) (of_nat (sc_max_neighbors config)) = Inr nbs"
    unfolding neighbors_new_def u32_of_nat [OF assms(4)] u32_of_nat [OF assms(5)]
    using buffer_new_total [OF assms(7)] assms(5)
    by (simp add: bytes_checked_add_def bytes_checked_mul_def ID_SIZE_def USIZE_MAX_def)
  define me where "me = \<lparr>so_buffer = buf, so_unpadded = ?unp, so_unfrozen = sc_entries config,
                so_tags = replicate ?tot AVAILABLE,
                so_freelist = freelist_new (dp_array_queue P) (of_nat (sc_entries config)) (sc_freelist_recycle_capacity config),
                so_registry = registry_with_capacity (dp_seg_queue P) (sc_epoch_guard_slots config),
                so_neighbors = nbs\<rparr>"
  have shape: "store_shape ?tot me" using buf pad(2) assms(4) by (simp add: store_shape_def me_def)
  have tags: "\<forall>j < ?tot. so_tags me ! j = (if sc_entries config \<le> j \<and> j < sc_entries config then FROZEN else AVAILABLE)"
    by (auto simp: me_def)
  have mirror: "\<forall>j < ?tot. mirror_of me j = so_tags me ! j"
  proof (intro allI impI)
    fix j
    assume j: "j < ?tot"
    show "mirror_of me j = so_tags me ! j"
      using store_row(2) [OF shape j] buf(5) j by (simp add: mirror_of_def me_def)
  qed
  have rows: "\<forall>row \<in> set init. length row = so_unpadded me - 1" using assms(3) by (simp add: me_def)
  have unf: "so_unfrozen me = sc_entries config" by (simp add: me_def)
  obtain s' where "fill_frozen (of_nat (sc_entries config)) init me = Some (Inr (), s')"
    using fill_frozen_run [OF shape unf order_refl refl rows tags mirror] by blast
  with add mul buf nbs assms(1,2,4,5) show ?thesis
    by (auto simp: store_new_def Let_def me_def)
qed

section \<open>Reachable stores\<close>

text \<open>
  The states of a store one thread at a time can bring about: creation, then any of the operations, on
  slots it owns, with any number of guards held, and with writes to the graph.
\<close>

inductive store_reach ::
  "('a, 'q) store_deps \<Rightarrow> store_config \<Rightarrow> nat \<Rightarrow> u8 list list \<Rightarrow> ('a, 'q) store \<Rightarrow> bool"
  for P config ncols init where
  reach_new: "store_new P config ncols init = Some (Inr (Inr s)) \<Longrightarrow> store_reach P config ncols init s"
| reach_acquire: "store_reach P config ncols init s \<Longrightarrow> store_acquire P s = Some (r, s') \<Longrightarrow> store_reach P config ncols init s'"
| reach_write: "store_reach P config ncols init s \<Longrightarrow> owns s l \<Longrightarrow> length bs = ncols \<Longrightarrow>
    slot_copy_from_slice l bs s = Some (Inr (), s') \<Longrightarrow> store_reach P config ncols init s'"
| reach_publish: "store_reach P config ncols init s \<Longrightarrow> owns s l \<Longrightarrow> slot_publish l s = Some (Inr i, s') \<Longrightarrow>
    store_reach P config ncols init s'"
| reach_drop: "store_reach P config ncols init s \<Longrightarrow> owns s l \<Longrightarrow> slot_drop l s = Some (Inr (), s') \<Longrightarrow>
    store_reach P config ncols init s'"
| reach_retire: "store_reach P config ncols init s \<Longrightarrow> store_retire P k s = Some (r', s') \<Longrightarrow> store_reach P config ncols init s'"
| reach_drain: "store_reach P config ncols init s \<Longrightarrow> try_drain P s = Some (r'', s') \<Longrightarrow> store_reach P config ncols init s'"
| reach_guard: "store_reach P config ncols init s \<Longrightarrow> store_guard s = Some (Inr g, s') \<Longrightarrow> store_reach P config ncols init s'"
| reach_guard_drop: "store_reach P config ncols init s \<Longrightarrow> store_reach P config ncols init (store_guard_drop gd s)"
| reach_graph: "store_reach P config ncols init s \<Longrightarrow> op_fits op \<Longrightarrow> nb_apply (so_neighbors s) op = Inr nb \<Longrightarrow>
    store_reach P config ncols init (s\<lparr>so_neighbors := nb\<rparr>)"

lemma store_inv_graph:
  assumes "store_inv items tot cap n s" and "op_fits op" and "nb_apply (so_neighbors s) op = Inr nb"
  shows "store_inv items tot cap n (s\<lparr>so_neighbors := nb\<rparr>)"
proof -
  have ok: "nb_ok tot cap (so_neighbors s)" "tot < 2 ^ 32" "cap < 2 ^ 32"
    using assms(1) by (auto simp: store_inv_def store_core_def nb_ok_def)
  then have ok': "nb_ok (unat (of_nat tot :: u32)) (unat (of_nat cap :: u32)) (so_neighbors s)"
    by (simp add: unat_of_nat take_bit_nat_def)
  obtain i ns where t: "op_target (nb_list (so_neighbors s)) op = (i, ns)" by fastforce
  from nb_apply_refines [OF ok' assms(2) t] assms(3) have "nb_ok tot cap nb"
    using ok(2,3) by (auto simp: unat_of_nat take_bit_nat_def table_write_def split: if_splits)
  moreover have "store_shape tot (s\<lparr>so_neighbors := nb\<rparr>) = store_shape tot s"
    "mirror_of (s\<lparr>so_neighbors := nb\<rparr>) i = mirror_of s i" for i
    by (simp_all add: store_shape_def mirror_of_def)
  ultimately show ?thesis using assms(1) by (simp add: store_inv_def store_core_def)
qed

lemma store_reach_inv:
  assumes laws: "seg_queue_laws (dp_seg_queue P) items" and rows: "\<forall>row \<in> set init. length row = ncols"
    and slots: "0 < sc_epoch_guard_slots config" and reach: "store_reach P config ncols init s"
  shows "store_inv items (sc_entries config + length init) (sc_max_neighbors config) (sc_epoch_guard_slots config) s \<and>
     so_unfrozen s = sc_entries config \<and> so_unpadded s = ncols + 1"
  using reach
proof (induction rule: store_reach.induct)
  case (reach_new s)
  then show ?case using store_new_spec(1-3) [OF laws rows slots] by simp
next
  case (reach_acquire s r s')
  note IH = reach_acquire.IH
  from acquire_loop_total [OF laws conjI [OF conjunct1 [OF IH] store_frame_refl], of RETRY_LIMIT]
  obtain x y where "acquire_loop P RETRY_LIMIT s = Some (x, y)"
    "since items (sc_entries config + length init) (sc_max_neighbors config) (sc_epoch_guard_slots config) s y"
    by blast
  with reach_acquire IH show ?case by (auto simp: store_acquire_def store_frame_def)
next
  case (reach_write s l bs s')
  then have "length bs = so_unpadded s - 1" by simp
  from slot_write_run [of items _ _ _ s s l bs, OF _ reach_write.hyps(2) this] reach_write show ?case
    by (fastforce simp: store_frame_def)
next
  case (reach_publish s l i s')
  from slot_publish_run [OF _ reach_publish.hyps(2)] reach_publish show ?case by fastforce
next
  case (reach_drop s l s')
  from slot_drop_run [of items _ _ _ s s l, OF _ reach_drop.hyps(2)] reach_drop show ?case
    by (fastforce simp: store_frame_def)
next
  case (reach_retire s k r' s')
  from store_retire_run [OF laws, of _ _ _ s k] reach_retire show ?case
    by (fastforce simp: store_frame_def retires_def split: sum.splits)
next
  case (reach_drain s r'' s')
  from try_drain_total [OF laws, of _ _ _ s s] reach_drain show ?case by (fastforce simp: store_frame_def)
next
  case (reach_guard s g s')
  from store_guard_run [of items _ _ _ s s] reach_guard show ?case by (fastforce simp: store_frame_def)
next
  case (reach_guard_drop s gd)
  then show ?case using store_guard_drop_inv [of items _ _ _ s gd] by (auto simp: store_frame_def)
next
  case (reach_graph s op nb)
  then show ?case using store_inv_graph by auto
qed

section \<open>A store with concrete queues\<close>

definition list_seg_queue :: "u32 list seg_queue" where
  "list_seg_queue = \<lparr>sq_new = [], sq_push = (\<lambda>q i. q @ [i]),
     sq_pop = (\<lambda>q. case q of [] \<Rightarrow> None | i # q \<Rightarrow> Some (i, q)), sq_len = length\<rparr>"

definition list_array_queue :: "(nat \<times> u32 list) array_queue" where
  "list_array_queue = \<lparr>aq_new = (\<lambda>n. (n, [])),
     aq_push = (\<lambda>(n, q) i. if length q < n then (True, (n, q @ [i])) else (False, (n, q))),
     aq_pop = (\<lambda>(n, q). case q of [] \<Rightarrow> (None, (n, [])) | i # q \<Rightarrow> (Some i, (n, q)))\<rparr>"

definition list_deps :: "(nat \<times> u32 list, u32 list) store_deps" where
  "list_deps = \<lparr>dp_array_queue = list_array_queue, dp_seg_queue = list_seg_queue\<rparr>"

lemma list_deps_laws:
  "seg_queue_laws (dp_seg_queue list_deps) id" "array_queue_laws (dp_array_queue list_deps) snd"
  by (auto simp: seg_queue_laws_def list_deps_def list_seg_queue_def array_queue_laws_def list_array_queue_def
      split: list.splits)

definition sample_store_config :: store_config where
  "sample_store_config = \<lparr>sc_entries = 1, sc_bytes = 2, sc_max_neighbors = 1, sc_epoch_guard_slots = 1,
     sc_freelist_recycle_capacity = 1\<rparr>"

text \<open>In a new store a point can be stored and retired: it is claimed from the freelist, published and marked.\<close>

lemma acquire_minted:
  assumes "store_inv items tot cap n s" and "aq_pop (dp_array_queue P) (fl_recycled (so_freelist s)) = (None, q)"
    and "fl_next (so_freelist s) < fl_max (so_freelist s)" and "so_tags s ! unat (fl_next (so_freelist s)) = AVAILABLE"
  shows "\<exists>s' l. store_acquire P s = Some (Inr (Some l), s') \<and> sl_slot l = fl_next (so_freelist s) \<and> owns s' l \<and>
     since items tot cap n s s' \<and> so_registry s' = so_registry s"
proof -
  let ?f = "(so_freelist s)\<lparr>fl_recycled := q, fl_next := fl_next (so_freelist s) + 1\<rparr>" and ?i = "fl_next (so_freelist s)"
  let ?s = "s\<lparr>so_freelist := ?f\<rparr>"
  have inv: "since items tot cap n s ?s" using assms(1) store_inv_free [of ?f s] by simp
  note c = store_coreD [OF store_inv_core [OF assms(1)]]
  have "unat (fl_max (so_freelist s)) = so_unfrozen s" "so_unfrozen s \<le> tot"
    using store_inv_core [OF assms(1)] by (auto simp: store_core_def store_shape_def unat_of_nat take_bit_nat_def)
  then have i: "unat ?i < tot" using assms(3) by (simp add: word_less_nat_alt)
  then have run: "store_slot ?i ?s = Some (Inr (Some \<lparr>sl_slot = ?i, sl_data = snd (data_unchecked ?s (unat ?i))\<rparr>), set_tag ?s (unat ?i) OWNED)"
    using try_acquire_run [of ?i ?s] assms(4) c(2) by (simp add: store_slot_def)
  from store_slot_total [OF inv, of ?i] run have ok: "since items tot cap n s (set_tag ?s (unat ?i) OWNED)"
    "owns (set_tag ?s (unat ?i) OWNED) \<lparr>sl_slot = ?i, sl_data = snd (data_unchecked ?s (unat ?i))\<rparr>" by auto
  have "freelist_pop (dp_array_queue P) (so_freelist s) = (Found ?i, ?f)" using assms(2,3) by (simp add: freelist_pop_def)
  then have "store_acquire P s = Some (Inr (Some \<lparr>sl_slot = ?i, sl_data = snd (data_unchecked ?s (unat ?i))\<rparr>), set_tag ?s (unat ?i) OWNED)"
    using run by (simp add: store_acquire_def RETRY_LIMIT_def numeral_eq_Suc bind_run_def)
  with ok show ?thesis by auto
qed

lemma guard_available:
  assumes "registry_ok n r" and "\<forall>e \<in> set (rg_guards r). e = 0"
  shows "\<exists>g r'. registry_guard r = (Some g, r')"
proof -
  have n: "0 < length (rg_guards r)" using assms(1) by (simp add: registry_ok_def)
  let ?o = "guard_order (rg_hint r) (length (rg_guards r))"
  have "?o \<noteq> []" using n by (simp add: guard_order_def)
  then have "hd ?o \<in> set ?o" by (rule hd_in_set)
  moreover have "hd ?o < length (rg_guards r)" using \<open>hd ?o \<in> set ?o\<close> n by (auto simp: guard_order_def)
  ultimately have "List.find (\<lambda>slot. rg_guards r ! slot = 0) ?o \<noteq> None"
    using assms(2) by (auto simp: find_None_iff)
  then show ?thesis by (auto simp: registry_guard_def Let_def)
qed

lemma retire_published:
  assumes "seg_queue_laws (dp_seg_queue P) items" and inv: "store_inv items tot cap n s"
    and "\<forall>e \<in> set (rg_guards (so_registry s)). e = 0" and "i < tot" and tag: "so_tags s ! i = PUBLISHED"
  shows "\<exists>s'. store_retire P i s = Some (Inr (Inr ()), s') \<and> so_tags s' = (so_tags s)[i := RETIRING] \<and>
     (\<forall>e \<in> set (rg_guards (so_registry s')). e = 0) \<and> rg_epoch (so_registry s') = rg_epoch (so_registry s)"
proof -
  note c = store_coreD [OF store_inv_core [OF inv]]
  from guard_available [OF c(3) assms(3)] obtain g r where g: "registry_guard (so_registry s) = (Some g, r)" by blast
  note gs = registry_guard_spec [OF c(3) g]
  have "rg_guards (epoch_guard_drop r g) = rg_guards (so_registry s)"
    using gs(5) c(3) by (auto simp: epoch_guard_drop_def list_update_overwrite registry_ok_def) (metis list_update_id)
  then have "\<exists>u s'. store_retire P i s = Some (Inr (Inr u), s') \<and> rg_guards (so_registry s') = rg_guards (so_registry s) \<and>
      rg_epoch (so_registry s') = rg_epoch (so_registry s)"
    using gs(2) assms(4) c(2) tag g mirror_store_run [of tot "set_tag (s\<lparr>so_registry := r\<rparr>) i RETIRING" i RETIRING] c(1)
    by (simp add: store_retire_def bind_run_def tag_load_run is_reserved_def store_guard_def dropping_def word_le_nat_alt
        tag_compare_exchange_def tag_store_run store_shape_def store_guard_drop_def guard_retire_def epoch_guard_drop_def)
  with store_retire_run [OF assms(1) inv, of i] assms(3) show ?thesis by (auto simp: retires_def)
qed

text \<open>A store with a point that is stored, and one that is also retired.\<close>

lemma sample_store:
  obtains s0 s1 s2 s3 s4 l where "store_reach list_deps sample_store_config 2 [[3, 4]] s0"
    and "store_acquire list_deps s0 = Some (Inr (Some l), s1)" and "slot_copy_from_slice l [8, 9] s1 = Some (Inr (), s2)"
    and "slot_publish l s2 = Some (Inr 0, s3)" and "store_reach list_deps sample_store_config 2 [[3, 4]] s4"
    and "so_tags s4 ! 0 = RETIRING" and "\<forall>e \<in> set (rg_guards (so_registry s4)). e = 0" and "rg_epoch (so_registry s4) = 1"
proof -
  let ?R = "store_reach list_deps sample_store_config 2 [[3, 4]]"
  have rows: "\<forall>row \<in> set [[3, 4 :: u8]]. length row = 2" by simp
  have slots: "0 < sc_epoch_guard_slots sample_store_config" by (simp add: sample_store_config_def)
  obtain s0 where new: "store_new list_deps sample_store_config 2 [[3, 4]] = Some (Inr (Inr s0))"
    using store_new_total [of 2 sample_store_config "[[3, 4]]" list_deps] by (auto simp: sample_store_config_def)
  note n = store_new_spec [OF list_deps_laws(1) rows slots new]
  have r0: "?R s0" by (rule reach_new [OF new])
  have inv0: "store_inv id 2 1 1 s0" using n(1) by (simp add: sample_store_config_def numeral_2_eq_2)
  have "fl_next (so_freelist s0) = 0" "fl_max (so_freelist s0) = 1" "aq_pop (dp_array_queue list_deps) (fl_recycled (so_freelist s0)) = (None, (1, []))"
    using n(9) by (simp_all add: freelist_new_def sample_store_config_def list_deps_def list_array_queue_def)
  with acquire_minted [OF inv0, of list_deps "(1, [])"] n(6) obtain s1 l where a: "store_acquire list_deps s0 = Some (Inr (Some l), s1)"
    "sl_slot l = 0" "owns s1 l" "since id 2 1 1 s0 s1" "so_registry s1 = so_registry s0" by (auto simp: sample_store_config_def)
  have r1: "?R s1" by (rule reach_acquire [OF r0 a(1)])
  have "length [8, 9 :: u8] = so_unpadded s1 - 1" using a(4) n(3) by (simp add: store_frame_def)
  from slot_write_run [OF _ a(3) this, of id 2 1 1 s1] a(4) obtain s2 where w: "slot_copy_from_slice l [8, 9] s1 = Some (Inr (), s2)"
    "store_inv id 2 1 1 s2" "owns s2 l" "so_registry s2 = so_registry s0" using a(5) by auto
  have r2: "?R s2" by (rule reach_write [OF r1 a(3) _ w(1)]) simp
  from slot_publish_run [OF w(2,3)] a(2) w(4) obtain s3 where p: "slot_publish l s2 = Some (Inr 0, s3)" "store_inv id 2 1 1 s3"
    "so_tags s3 = (so_tags s2)[0 := PUBLISHED]" "so_registry s3 = so_registry s0" by auto
  have r3: "?R s3" by (rule reach_publish [OF r2 w(3) p(1)])
  have len: "length (so_tags s2) = 2" using store_coreD(2) [OF store_inv_core [OF w(2)]] .
  have "so_tags s3 ! 0 = PUBLISHED" using p(3) len by simp
  from retire_published [OF list_deps_laws(1) p(2) _ _ this] p(4) n(7) obtain s4 where t: "store_retire list_deps 0 s3 = Some (Inr (Inr ()), s4)"
    "so_tags s4 = (so_tags s3)[0 := RETIRING]" "\<forall>e \<in> set (rg_guards (so_registry s4)). e = 0" "rg_epoch (so_registry s4) = 1"
    using n(8) by auto
  have r4: "?R s4" by (rule reach_retire [OF r3 t(1)])
  show thesis by (rule that [OF r0 a(1) w(1) p(1) r4 _ t(3,4)]) (use t(2) p(3) len in simp)
qed

section \<open>Properties\<close>

lemma mod4_cover:
  assumes "(j :: nat) < 4" and "q < 4"
  shows "j = (q + 2) mod 4 \<or> j = (q + 3) mod 4 \<or> j = q \<or> j = (q + 1) mod 4"
proof -
  have "j = 0 \<or> j = 1 \<or> j = 2 \<or> j = 3" "q = 0 \<or> q = 1 \<or> q = 2 \<or> q = 3" using assms by linarith+
  then show ?thesis by auto
qed

definition drained_to ::
  "('a, 'q) store_deps \<Rightarrow> ('q \<Rightarrow> u32 list) \<Rightarrow> nat \<Rightarrow> nat \<Rightarrow> nat \<Rightarrow> nat \<Rightarrow> ('a, 'q) store \<Rightarrow> ('a, 'q) store \<Rightarrow> bool" where
  "drained_to P items tot cap n k s s' \<longleftrightarrow> try_drain P s = Some (Inr (Some k), s') \<and> store_inv items tot cap n s' \<and>
     store_frame s s' \<and> released (so_tags s) (so_tags s') \<and>
     unat (rg_epoch (so_registry s')) = unat (rg_epoch (so_registry s)) + 1 \<and>
     rg_guards (so_registry s') = rg_guards (so_registry s) \<and>
     (\<forall>j < 4. items (rg_retiring (so_registry s') ! j) =
        (if j = last_queue (rg_epoch (so_registry s)) then [] else items (rg_retiring (so_registry s) ! j)))"

lemma drain_step:
  assumes "seg_queue_laws (dp_seg_queue P) items" and "store_inv items tot cap n s"
    and "\<forall>e \<in> set (rg_guards (so_registry s)). e = 0" and "unat (rg_epoch (so_registry s)) + 1 < 2 ^ 64"
  shows "\<exists>k s'. drained_to P items tot cap n k s s'"
proof -
  let ?e = "rg_epoch (so_registry s)"
  have e: "unat (?e + 1) = unat ?e + 1" using assms(4) by (simp add: unat_word_ariths)
  then have "?e + 1 \<noteq> 0" by (metis Suc_eq_plus1 nat.distinct(1) unat_0)
  then have "?e \<noteq> - 1" by auto
  from try_drain_run [OF assms(1,2) this] assms(3) e show ?thesis by (auto simp: drained_to_def)
qed

text \<open>
  C13. In every state a store can reach, the inline tag of each slot mirrors its authoritative tag (an owned
  slot still shows as available), exactly the frozen points are frozen, and the retirement queues hold
  exactly the slots that are retiring, each once. Therefore reclamation never fails its assertions: unless
  the epoch counter is exhausted, \<open>try_drain\<close> returns without a panic, and so does every \<open>retire\<close>.
\<close>

theorem store_invariant:
  assumes "seg_queue_laws (dp_seg_queue P) items" and "\<forall>row \<in> set init. length row = ncols"
    and "0 < sc_epoch_guard_slots config" and "store_reach P config ncols init s"
  shows "distinct (retired items (so_registry s)) \<and>
     (\<forall>i. i \<in> set (retired items (so_registry s)) \<longleftrightarrow>
        unat i < sc_entries config \<and> so_tags s ! unat i = RETIRING) \<and>
     (\<forall>i < sc_entries config + length init.
        mirror_of s i = (if so_tags s ! i = OWNED then AVAILABLE else so_tags s ! i) \<and>
        (so_tags s ! i = FROZEN \<longleftrightarrow> sc_entries config \<le> i)) \<and>
     (rg_epoch (so_registry s) \<noteq> - 1 \<longrightarrow> (\<exists>drained s'. try_drain P s = Some (Inr drained, s'))) \<and>
     (\<exists>r s'. store_retire P k s = Some (Inr r, s'))"
proof -
  let ?tot = "sc_entries config + length init"
  note inv = store_reach_inv [OF assms]
  then have i: "store_inv items ?tot (sc_max_neighbors config) (sc_epoch_guard_slots config) s"
    and u: "so_unfrozen s = sc_entries config" by simp_all
  note c = store_coreD [OF store_inv_core [OF i]]
  have tag: "so_tags s ! j = FROZEN \<longleftrightarrow> sc_entries config \<le> j" if "j < ?tot" for j
    using c(5) [OF that] u by (auto simp: tag_ok_def split: if_splits)
  have "j < sc_entries config" if "j < ?tot" "so_tags s ! j = RETIRING" for j
    using tag [OF that(1)] that(2) by (cases "j < sc_entries config") simp_all
  then have ret: "distinct (retired items (so_registry s))"
    "\<forall>i. i \<in> set (retired items (so_registry s)) \<longleftrightarrow> unat i < sc_entries config \<and> so_tags s ! unat i = RETIRING"
    using c(2,4) by (auto simp: retiring_ok_def)
  have "\<exists>drained s'. try_drain P s = Some (Inr drained, s')" if "rg_epoch (so_registry s) \<noteq> - 1"
    using try_drain_run [OF assms(1) i that] by (auto split: if_splits)
  moreover have "\<exists>r s'. store_retire P k s = Some (Inr r, s')" using store_retire_run [OF assms(1) i] by blast
  ultimately show ?thesis using ret c(6) tag by (simp add: mirror_tag_def)
qed

text \<open>
  C14. A retired slot is reclaimed: once no guard is held, three calls of \<open>try_drain\<close> succeed and make every
  slot available that was retiring, and the slots that can be read, their data and the graph are as before.
\<close>

theorem retired_slots_reclaimed:
  assumes "seg_queue_laws (dp_seg_queue P) items" and "\<forall>row \<in> set init. length row = ncols"
    and "0 < sc_epoch_guard_slots config" and "store_reach P config ncols init s"
    and "\<forall>e \<in> set (rg_guards (so_registry s)). e = 0" and "unat (rg_epoch (so_registry s)) + 3 < 2 ^ 64"
  shows "\<exists>a b c s1 s2 s3. try_drain P s = Some (Inr (Some a), s1) \<and> try_drain P s1 = Some (Inr (Some b), s2) \<and>
     try_drain P s2 = Some (Inr (Some c), s3) \<and>
     (\<forall>i < length (so_tags s). so_tags s3 ! i = (if so_tags s ! i = RETIRING then AVAILABLE else so_tags s ! i)) \<and>
     (\<forall>i. reader_read s3 i = reader_read s i) \<and> so_neighbors s3 = so_neighbors s"
proof -
  let ?tot = "sc_entries config + length init" and ?cap = "sc_max_neighbors config" and ?n = "sc_epoch_guard_slots config"
  have inv: "store_inv items ?tot ?cap ?n s" using store_reach_inv [OF assms(1-4)] by simp
  let ?q = "queue_index (rg_epoch (so_registry s))"
  obtain a s1 where d1: "drained_to P items ?tot ?cap ?n a s s1"
    using drain_step [OF assms(1) inv assms(5)] assms(6) by auto
  obtain b s2 where d2: "drained_to P items ?tot ?cap ?n b s1 s2"
    using drain_step [OF assms(1), of ?tot ?cap ?n s1] d1 assms(5,6) by (auto simp: drained_to_def)
  obtain c s3 where d3: "drained_to P items ?tot ?cap ?n c s2 s3"
    using drain_step [OF assms(1), of ?tot ?cap ?n s2] d1 d2 assms(5,6) by (auto simp: drained_to_def)
  note d = d1 [unfolded drained_to_def] d2 [unfolded drained_to_def] d3 [unfolded drained_to_def]
  have q: "queue_index (rg_epoch (so_registry s1)) = (?q + 1) mod 4" "queue_index (rg_epoch (so_registry s2)) = (?q + 2) mod 4"
    using d by (simp_all add: queue_index_def mod_simps)
  have "items (rg_retiring (so_registry s3) ! j) = []" if "j < 4" for j
  proof -
    have "j = (?q + 2) mod 4 \<or> j = (?q + 3) mod 4 \<or> j = ?q \<or> j = (?q + 1) mod 4"
      by (rule mod4_cover [OF that queue_index_less])
    moreover have "items (rg_retiring (so_registry s) ! ((?q + 1) mod 4)) = []"
      using inv by (simp add: store_inv_def queue_index_next)
    moreover have "last_queue (rg_epoch (so_registry s)) = (?q + 2) mod 4" "last_queue (rg_epoch (so_registry s1)) = (?q + 3) mod 4"
      "last_queue (rg_epoch (so_registry s2)) = ?q"
      using queue_index_less [of "rg_epoch (so_registry s)"] by (simp_all add: last_queue_eq q mod_simps add.commute)
    ultimately show ?thesis using d that by auto
  qed
  moreover have inv3: "store_inv items ?tot ?cap ?n s3" using d by simp
  ultimately have "retired items (so_registry s3) = []"
    using store_coreD(3) [OF store_inv_core, of items ?tot ?cap ?n s3]
    by (auto simp: retired_def registry_ok_def in_set_conv_nth)
  then have none: "so_tags s3 ! i \<noteq> RETIRING" if "i < ?tot" for i
  proof -
    have "unat (of_nat i :: u32) = i"
      using that inv3 by (simp add: store_inv_def store_core_def store_shape_def unat_of_nat take_bit_nat_def)
    then show ?thesis
      using that store_coreD(2,4) [OF store_inv_core [OF inv3]] \<open>retired items (so_registry s3) = []\<close>
      by (auto simp: retiring_ok_def dest: spec [of _ "of_nat i :: u32"])
  qed
  have len: "length (so_tags s) = ?tot" by (rule store_coreD(2) [OF store_inv_core [OF inv]])
  have rel: "released (so_tags s) (so_tags s3)" using d by (blast intro: released_trans)
  have "so_tags s3 ! i = (if so_tags s ! i = RETIRING then AVAILABLE else so_tags s ! i)" if "i < ?tot" for i
    using rel none [OF that] that len unfolding released_def list_all2_conv_all_nth by metis
  moreover have fr: "store_frame s s3" using d by (blast intro: store_frame_trans)
  moreover have "reader_read s3 i = reader_read s i" for i
    using fr len unfolding reader_read_run [OF inv3] reader_read_run [OF inv] by (auto simp: store_frame_def)
  ultimately show ?thesis using d len by (auto simp: store_frame_def)
qed

theorem store_invariant_witness:
  "\<exists>s. store_reach list_deps sample_store_config 2 [[3, 4]] s \<and> so_tags s ! 0 = RETIRING \<and>
     set (retired id (so_registry s)) = {0} \<and> (\<exists>drained s'. try_drain list_deps s = Some (Inr drained, s'))"
proof -
  obtain s where s: "store_reach list_deps sample_store_config 2 [[3, 4]] s" "so_tags s ! 0 = RETIRING" "rg_epoch (so_registry s) = 1"
    by (rule sample_store)
  have rows: "\<forall>row \<in> set [[3, 4 :: u8]]. length row = 2" by simp
  have slots: "0 < sc_epoch_guard_slots sample_store_config" by (simp add: sample_store_config_def)
  have one: "i \<in> set (retired id (so_registry s)) \<longleftrightarrow> i = 0" for i :: u32
    using store_invariant [OF list_deps_laws(1) rows slots s(1)] s(2) by (auto simp: sample_store_config_def unat_eq_0)
  have "\<exists>drained s'. try_drain list_deps s = Some (Inr drained, s')"
    using store_invariant [OF list_deps_laws(1) rows slots s(1)] s(3) by auto
  with s one show ?thesis by blast
qed

theorem retired_slots_reclaimed_witness:
  "\<exists>s a b c s1 s2 s3. store_reach list_deps sample_store_config 2 [[3, 4]] s \<and> so_tags s ! 0 = RETIRING \<and>
     try_drain list_deps s = Some (Inr (Some a), s1) \<and> try_drain list_deps s1 = Some (Inr (Some b), s2) \<and>
     try_drain list_deps s2 = Some (Inr (Some c), s3) \<and> (0 < length (so_tags s) \<longrightarrow> so_tags s3 ! 0 = AVAILABLE)"
proof -
  obtain s where s: "store_reach list_deps sample_store_config 2 [[3, 4]] s" "so_tags s ! 0 = RETIRING"
    "\<forall>e \<in> set (rg_guards (so_registry s)). e = 0" "rg_epoch (so_registry s) = 1" by (rule sample_store)
  have rows: "\<forall>row \<in> set [[3, 4 :: u8]]. length row = 2" by simp
  have slots: "0 < sc_epoch_guard_slots sample_store_config" by (simp add: sample_store_config_def)
  have e: "unat (rg_epoch (so_registry s)) + 3 < 2 ^ 64" using s(4) by simp
  from retired_slots_reclaimed [OF list_deps_laws(1) rows slots s(1,3) e] s(1,2) show ?thesis by fastforce
qed

text \<open>
  C22. What is stored is read: when \<open>acquire\<close> hands out a slot, it is not one that can be read; writing a
  point of the right size into it and publishing it succeed, and then a reader gets exactly these bytes at
  the slot's index, and every other slot reads as before.
\<close>

theorem store_roundtrip:
  assumes "seg_queue_laws (dp_seg_queue P) items" and "\<forall>row \<in> set init. length row = ncols"
    and "0 < sc_epoch_guard_slots config" and "store_reach P config ncols init s"
    and "store_acquire P s = Some (Inr (Some l), s1)" and "length bs = ncols"
  shows "reader_read s (unat (sl_slot l)) = Inr None \<and> unat (sl_slot l) < sc_entries config \<and>
     (\<exists>s2 s3. slot_copy_from_slice l bs s1 = Some (Inr (), s2) \<and> slot_publish l s2 = Some (Inr (sl_slot l), s3) \<and>
       reader_read s3 (unat (sl_slot l)) = Inr (Some bs) \<and>
       (\<forall>j. j \<noteq> unat (sl_slot l) \<longrightarrow> reader_read s3 j = reader_read s j))"
proof -
  let ?tot = "sc_entries config + length init" and ?cap = "sc_max_neighbors config" and ?n = "sc_epoch_guard_slots config"
  let ?i = "unat (sl_slot l)"
  note reach = store_reach_inv [OF assms(1-4)]
  then have inv: "store_inv items ?tot ?cap ?n s" and u: "so_unfrozen s = sc_entries config" "so_unpadded s = ncols + 1" by simp_all
  have "since items ?tot ?cap ?n s s" using inv by simp
  from acquire_loop_total [OF assms(1) this, of RETRY_LIMIT] assms(5) have a: "store_inv items ?tot ?cap ?n s1"
    "store_frame s s1" "owns s1 l" by (auto simp: store_acquire_def)
  note b = owns_bounds [OF a(1,3)]
  have u1: "so_unfrozen s1 = sc_entries config" "so_unpadded s1 = ncols + 1" using a(2) u by (simp_all add: store_frame_def)
  have len: "length (so_tags s) = ?tot" by (rule store_coreD(2) [OF store_inv_core [OF inv]])
  have "\<not> can_read (so_tags s ! ?i)" using a(2) b(2,3) len by (auto simp: store_frame_def)
  then have none: "reader_read s ?i = Inr None" by (simp add: reader_read_run [OF inv])
  have "length bs = so_unpadded s1 - 1" using assms(6) u1 by simp
  from slot_write_run [OF _ a(3) this, of items ?tot ?cap ?n s] a obtain s2 where
    w: "slot_copy_from_slice l bs s1 = Some (Inr (), s2)" "store_inv items ?tot ?cap ?n s2" "store_frame s s2" "owns s2 l"
      "data_of s2 ?i = bs" by auto
  from slot_publish_run [OF w(2,4)] obtain s3 where p: "slot_publish l s2 = Some (Inr (sl_slot l), s3)"
    "store_inv items ?tot ?cap ?n s3" "so_tags s3 = (so_tags s2)[?i := PUBLISHED]" "\<forall>j < ?tot. data_of s3 j = data_of s2 j" by auto
  have len2: "length (so_tags s2) = ?tot" by (rule store_coreD(2) [OF store_inv_core [OF w(2)]])
  have "reader_read s3 ?i = Inr (Some bs)" using p(3,4) w(5) b(2) len2 by (simp add: reader_read_run [OF p(2)])
  moreover have "reader_read s3 j = reader_read s j" if "j \<noteq> ?i" for j
    using p(3,4) w(3) that len len2 by (auto simp: reader_read_run [OF p(2)] reader_read_run [OF inv] store_frame_def)
  ultimately show ?thesis using none b(1) u1(1) w(1) p(1) by auto
qed

theorem store_roundtrip_witness:
  "\<exists>s s1 l s2 s3. store_acquire list_deps s = Some (Inr (Some l), s1) \<and>
     slot_copy_from_slice l [8, 9] s1 = Some (Inr (), s2) \<and> slot_publish l s2 = Some (Inr (sl_slot l), s3) \<and>
     reader_read s3 (unat (sl_slot l)) = Inr (Some [8, 9])"
proof -
  obtain s s1 l where s: "store_reach list_deps sample_store_config 2 [[3, 4]] s"
    "store_acquire list_deps s = Some (Inr (Some l), s1)" by (rule sample_store)
  have rows: "\<forall>row \<in> set [[3, 4 :: u8]]. length row = 2" by simp
  have slots: "0 < sc_epoch_guard_slots sample_store_config" by (simp add: sample_store_config_def)
  from store_roundtrip [OF list_deps_laws(1) rows slots s, of "[8, 9]"] s(2) show ?thesis by fastforce
qed

end
