(* ===== verification/RecordedSearch.thy ===== *)
theory RecordedSearch
  imports InmemSearch
begin

text \<open>
  The search as insertion uses it, recorded with \<open>VisitedSearchRecord\<close> on a queue that does not grow: no
  vertex is visited twice, and every visited vertex can be read.
\<close>

section \<open>A queue that forgets nothing it visited\<close>

text \<open>
  A queue no entry of which is handed out twice: what is pending are entries, each at most as often as it
  is an entry, and an insertion makes nothing pending but the new candidate.
\<close>

locale visiting_queue = neighbor_queue Q inv entries pending finished
  for Q :: "('q, 'i) queue_ops" and inv entries pending finished +
  assumes pending_sub: "inv q \<Longrightarrow> mset (pending q) \<subseteq># mset (entries q)"
    and insert_pending: "inv q \<Longrightarrow> qo_insert Q q n = Inr q' \<Longrightarrow> set (pending q') \<subseteq> insert n (set (pending q))"

definition npq_strict :: "'i npq \<Rightarrow> bool" where
  "npq_strict q \<longleftrightarrow> npq_inv q \<and> npq_cursor_ok q \<and> \<not> pq_auto_resizable q"

lemma take_insert_at_set: "set (take k (insert_at i x xs)) \<subseteq> insert x (set (take k xs))"
proof -
  have "take k (take i xs @ x # drop i xs) = take (min k i) xs @ take (k - min i (length xs)) (x # drop i xs)"
    by (simp add: min.commute)
  moreover have "set (take (min k i) xs) \<subseteq> set (take k xs)" by (simp add: set_take_subset_set_take)
  moreover have "set (take (k - min i (length xs)) (x # drop i xs)) \<subseteq> insert x (set (take k xs))"
  proof (cases "k - min i (length xs)")
    case (Suc m)
    have "set (take m (drop i xs)) \<subseteq> set (take k xs)"
    proof (cases "i \<le> length xs")
      case True
      with Suc have "m + i \<le> k" by simp
      then have "set (take (m + i) xs) \<subseteq> set (take k xs)" by (rule set_take_subset_set_take)
      moreover have "take m (drop i xs) = drop i (take (m + i) xs)" by (simp add: drop_take)
      ultimately show ?thesis using set_drop_subset [of i "take (m + i) xs"] by simp
    qed simp
    with Suc show ?thesis by auto
  qed simp
  ultimately show ?thesis by auto
qed

lemma npq_insert_pending:
  assumes wf: "npq_wf q" and cur: "npq_cursor_ok q" and cap: "pq_auto_resizable q \<or> 0 < pq_capacity q"
    and ins: "npq_insert q n = Inr q'"
  shows "npq_cursor_ok q'" and "set (npq_pending q') \<subseteq> insert n (set (npq_pending q))"
    and "pq_auto_resizable q' = pq_auto_resizable q"
proof -
  have "npq_cursor_ok q' \<and> set (npq_pending q') \<subseteq> insert n (set (npq_pending q)) \<and>
    pq_auto_resizable q' = pq_auto_resizable q"
  proof (cases "f32_is_nan (nbr_distance n)")
    case True
    with ins cur show ?thesis by (auto simp: npq_insert_nan)
  next
    case False
    note w = npq_insert_wf [OF wf False cap ins]
    note z = npq_insert_zip [OF wf False cap ins]
    let ?e = "((nbr_id n, False), nbr_distance n)"
    have "set (take (pq_search_param_l q') (npq_zip q')) \<subseteq> insert ?e (set (take (pq_search_param_l q) (npq_zip q)))"
      unfolding z(1,3) take_take
      by (rule subset_trans [OF take_insert_at_set insert_mono])
        (rule set_take_subset_set_take, simp)
    moreover have "entry_nbr ?e = n" by (cases n) simp
    ultimately show ?thesis
      using w(2) [OF cur] unfolding npq_pending_unvisited [OF w(1) w(2) [OF cur]] npq_pending_unvisited [OF wf cur] z(4)
      by auto
  qed
  then show "npq_cursor_ok q'" "set (npq_pending q') \<subseteq> insert n (set (npq_pending q))"
    "pq_auto_resizable q' = pq_auto_resizable q" by simp_all
qed

lemma npq_pending_sub:
  assumes "npq_wf q" and "npq_cursor_ok q"
  shows "mset (npq_pending q) \<subseteq># mset (npq_entries q)"
proof -
  have "mset (take k zs) \<subseteq># mset zs" for k and zs :: "'b list"
    by (metis append_take_drop_id mset_append mset_subset_eq_add_left)
  then have "mset (filter (\<lambda>e. \<not> entry_visited e) (take (pq_search_param_l q) (npq_zip q))) \<subseteq># mset (npq_zip q)"
    unfolding mset_filter by (rule subset_mset.order_trans [OF multiset_filter_subset])
  then show ?thesis
    unfolding npq_pending_unvisited [OF assms] npq_entries_def mset_map by (rule image_mset_subseteq_mono)
qed

interpretation npq_once: visiting_queue npq_ops npq_strict npq_entries npq_pending npq_done
proof
  fix q :: "'a npq" and n :: "'a nbr" and ns
  assume "npq_strict q"
  then have inv: "npq_inv q" and cur: "npq_cursor_ok q" and fxd: "\<not> pq_auto_resizable q"
    by (simp_all add: npq_strict_def)
  then have wf: "npq_wf q" and cap: "pq_auto_resizable q \<or> 0 < pq_capacity q" by (simp_all add: npq_inv_def)
  show "\<exists>q'. qo_insert npq_ops q n = Inr q' \<and> npq_strict q' \<and>
      mset (npq_entries q') \<subseteq># add_mset n (mset (npq_entries q)) \<and> npq_done q' \<subseteq> npq_done q \<and>
      qo_search_l npq_ops q' = qo_search_l npq_ops q"
    using npq.insert_law [OF inv, of n] npq_insert_pending(1,3) [OF wf cur cap, of n] fxd
    by (auto simp: npq_strict_def npq_ops_def)
  show "npq_pending q = [] \<Longrightarrow> qo_closest_notvisited npq_ops q = Inr (None, q)"
    by (rule npq.closest_none_law [OF inv])
  show "\<exists>q'. qo_closest_notvisited npq_ops q = Inr (Some n, q') \<and> npq_strict q' \<and> npq_pending q' = ns \<and>
        npq_entries q' = npq_entries q \<and> npq_done q' \<subseteq> insert n (npq_done q) \<and>
        qo_search_l npq_ops q' = qo_search_l npq_ops q" if "npq_pending q = n # ns"
  proof -
    note pend = that
    obtain q' where q': "npq_closest_notvisited q = Inr (Some n, q')" "pq_auto_resizable q' = pq_auto_resizable q"
      by (rule npq_closest_pending [OF wf pend]) (rule that, assumption+)
    with npq.closest_some_law [OF inv pend] npq_closest_notvisited_wf(2) [OF wf q'(1) cur] fxd show ?thesis
      by (auto simp: npq_strict_def npq_ops_def)
  qed
  show "qo_has_notvisited_node npq_ops q \<longleftrightarrow> npq_pending q \<noteq> []" by (rule npq.has_law [OF inv])
  show "set (take (qo_search_l npq_ops q) (npq_entries q)) \<subseteq> set (npq_pending q) \<union> npq_done q"
    by (rule npq.cover_law [OF inv])
  show "set (npq_pending q) \<subseteq> set (npq_entries q)" by (rule npq.pending_law [OF inv])
  show "qo_iter npq_ops q = Inr (take (qo_search_l npq_ops q) (npq_entries q))" by (rule npq.iter_law [OF inv])
  show "sorted_wrt by_distance (npq_entries q)" by (rule npq.sorted_law [OF inv])
  show "f32_is_nan (nbr_distance n) \<Longrightarrow> qo_insert npq_ops q n = Inr q" by (rule npq.nan_law [OF inv])
  show "qo_search_l npq_ops q' \<le> length (npq_entries q') \<and> (\<forall>m \<in> set (npq_entries q'). by_distance m r)"
    if "qo_insert npq_ops q n = Inr q'" "\<not> f32_is_nan (nbr_distance n)"
      "r \<in># add_mset n (mset (npq_entries q)) - mset (npq_entries q')" for q' r
    by (rule npq.best_law [OF inv that])
  show "mset (npq_pending q) \<subseteq># mset (npq_entries q)" by (rule npq_pending_sub [OF wf cur])
  show "set (npq_pending q') \<subseteq> insert n (set (npq_pending q))" if "qo_insert npq_ops q n = Inr q'" for q'
    using npq_insert_pending(2) [OF wf cur cap] that by (simp add: npq_ops_def)
qed

section \<open>Every vertex is recorded once\<close>

definition recorded_once :: "('q \<Rightarrow> 'i nbr list) \<Rightarrow> ('q, 'i) search_scratch \<Rightarrow> 'i nbr list \<Rightarrow> bool" where
  "recorded_once pending s r \<longleftrightarrow> distinct (map nbr_id r) \<and> nbr_id ` set r \<subseteq> ss_visited s \<and>
     nbr_id ` set r \<inter> nbr_id ` set (pending (ss_best s)) = {}"

locale visiting_search = visiting_queue Q inv entries pending finished + accessor_contract A ok U
  for Q :: "('q, 'i) queue_ops" and inv entries pending finished
    and A :: "('a, 'i, 'e) search_accessor" and ok U

sublocale visiting_search \<subseteq> greedy_search Q inv entries pending finished A ok U
  by unfold_locales

context visiting_search
begin

lemma insert_all_pending:
  "inv q \<Longrightarrow> insert_all Q ns q = Inr q' \<Longrightarrow> set (pending q') \<subseteq> set ns \<union> set (pending q)"
proof (induction ns arbitrary: q)
  case Nil
  then show ?case by simp
next
  case (Cons n ns)
  from insert_law [OF Cons.prems(1), of n] obtain q1 where q1: "qo_insert Q q n = Inr q1" "inv q1" by blast
  with Cons.prems(2) have "insert_all Q ns q1 = Inr q'" by simp
  from Cons.IH [OF q1(2) this] insert_pending [OF Cons.prems(1) q1(1)] show ?case by auto
qed

lemma pending_distinct:
  assumes "search_ok a s"
  shows "distinct (map nbr_id (pending (ss_best s)))" and "nbr_id ` set (pending (ss_best s)) \<subseteq> ss_visited s"
proof -
  have i: "inv (ss_best s)" and d: "distinct (map nbr_id (entries (ss_best s)))"
    and v: "nbr_id ` set (entries (ss_best s)) \<subseteq> ss_visited s"
    using assms by (simp_all add: search_state_ok_def)
  have "mset (map nbr_id (pending (ss_best s))) \<subseteq># mset (map nbr_id (entries (ss_best s)))"
    unfolding mset_map by (rule image_mset_subseteq_mono [OF pending_sub [OF i]])
  with d show "distinct (map nbr_id (pending (ss_best s)))" by (rule distinct_submset)
  show "nbr_id ` set (pending (ss_best s)) \<subseteq> ss_visited s" using pending_law [OF i] v by blast
qed

lemma search_step_once:
  assumes ok: "search_ok a s" and rec: "recorded_once pending s r" and ne: "pending (ss_best s) \<noteq> []"
    and bw: "0 < bw" and st: "search_step A Q visited_record bw a s r = Inr (a', s', r')"
  shows "recorded_once pending s' r'"
  using ok ne bw
proof (cases rule: search_step_cases [where recorder = visited_record and r = r])
  case (failed e)
  with st show ?thesis by simp
next
  case (stepped ys q ns visited' a'' q' s'' r'')
  have eq: "s' = s''" "r' = r @ ys" using stepped(1,10) st by (simp_all add: foldl_visited_record)
  have sel: "ss_best s' = q'" "ss_visited s' = visited'" by (simp_all add: eq stepped(9))
  have oka: "ok a" using ok by (simp add: search_state_ok_def)
  note e = expand_law [OF oka stepped(7)]
  note p = pending_distinct [OF ok, unfolded stepped(3)]
  have vis: "nbr_id ` set (r @ ys) \<subseteq> ss_visited s"
    using rec p(2) by (auto simp: recorded_once_def)
  have "set (pending q') \<subseteq> set ns \<union> set (pending q)" by (rule insert_all_pending [OF stepped(4,8)])
  then have "nbr_id ` set (pending q') \<subseteq> nbr_id ` set ns \<union> nbr_id ` set (pending q)" by blast
  moreover have "nbr_id ` set ns \<inter> nbr_id ` set (r @ ys) = {}" using e vis by blast
  moreover have "nbr_id ` set (pending q) \<inter> nbr_id ` set (r @ ys) = {}"
    using rec p(1) unfolding recorded_once_def stepped(3) by auto
  ultimately have "nbr_id ` set (r @ ys) \<inter> nbr_id ` set (pending q') = {}" by blast
  moreover have "distinct (map nbr_id (r @ ys))"
    using rec p(1) unfolding recorded_once_def stepped(3) by auto
  moreover have "nbr_id ` set (r @ ys) \<subseteq> visited'" using vis e by blast
  ultimately show ?thesis unfolding recorded_once_def sel eq(2) by blast
qed

lemma search_loop_once:
  assumes "search_ok a s" and "recorded_once pending s r" and "0 < bw"
    and "search_loop A Q visited_record bw a s r = Some (Inr (a', s', r'))"
  shows "search_ok a' s'" and "recorded_once pending s' r'"
proof -
  have "search_outcome (\<lambda>a s r. recorded_once pending s r) (search_loop A Q visited_record bw a s r)"
    using assms(1-3) by (rule search_loop_outcome) (use search_step_once assms(3) in blast)+
  with assms(4) show "search_ok a' s'" "recorded_once pending s' r'" by (simp_all add: search_outcome_def)
qed

lemma search_internal_once:
  assumes "ok a" and inv: "inv (ss_best s)" and "entries (ss_best s) = []" and "finished (ss_best s) = {}"
    and "ss_visited s = {}" and "0 < bw"
    and run: "search_internal A Q visited_record (Some bw) a s [] = Some (Inr (stats, a', s', r'))"
  shows "ok a'" and "inv (ss_best s')" and "distinct (map nbr_id r')" and "nbr_id ` set r' \<subseteq> U"
proof -
  from run assms(5) obtain ns a1 where st: "sa_start_point_distances A a = Inr (ns, a1)"
    by (cases "sa_start_point_distances A a") (auto simp: search_internal_def)
  from add_start_points_spec [OF inv, of ns] obtain q where q: "add_start_points Q ns s =
      Inr (s\<lparr>ss_visited := ss_visited s \<union> nbr_id ` set ns, ss_best := q,
             ss_cmps := ss_cmps s + of_nat (length ns)\<rparr>)" "insert_all Q ns (ss_best s) = Inr q" by blast
  let ?s = "s\<lparr>ss_visited := ss_visited s \<union> nbr_id ` set ns, ss_best := q,
             ss_cmps := ss_cmps s + of_nat (length ns)\<rparr>"
  from insert_all_spec [OF inv, of ns] q(2) assms(3,4) have q': "inv q" "mset (entries q) \<subseteq># mset ns + mset []"
    by auto
  note law = start_law [OF assms(1) st]
  have ok: "search_ok a1 ?s"
    using law q'(1) fresh_entries [OF _ _ q'(2), of "{}" "nbr_id ` set ns"] assms(5)
    by (simp add: search_state_ok_def)
  have rec: "recorded_once pending ?s []" by (simp add: recorded_once_def)
  from run st q(1) assms(5) have "search_loop A Q visited_record bw a1 ?s [] = Some (Inr (a', s', r'))"
    by (auto simp: search_internal_def bind_result_Inr)
  from search_loop_once [OF ok rec assms(6) this]
  show "ok a'" "inv (ss_best s')" "distinct (map nbr_id r')" "nbr_id ` set r' \<subseteq> U"
    by (auto simp: search_state_ok_def recorded_once_def)
qed

end

text \<open>On an exact accessor the recorded vertices are all readable.\<close>

locale exact_visiting = visiting_queue Q inv entries pending finished + graph_accessor A ok U starts nbrs dist
  for Q :: "('q, 'i) queue_ops" and inv entries pending finished
    and A :: "('a, 'i, 'e) search_accessor" and ok U starts nbrs dist

sublocale exact_visiting \<subseteq> visiting_search Q inv entries pending finished A ok U
  by unfold_locales

sublocale exact_visiting \<subseteq> exact_search Q inv entries pending finished A ok U starts nbrs dist
  by unfold_locales

context exact_visiting
begin

lemma search_step_readable:
  assumes ok: "search_ok a s" and ex: "explored l s" and rec: "nbr_id ` set r \<subseteq> dom dist"
    and ne: "pending (ss_best s) \<noteq> []" and bw: "0 < bw"
    and st: "search_step A Q visited_record bw a s r = Inr (a', s', r')"
  shows "nbr_id ` set r' \<subseteq> dom dist"
  using ok ne bw
proof (cases rule: search_step_cases [where recorder = visited_record and r = r])
  case (failed e)
  with st show ?thesis by simp
next
  case (stepped ys q ns visited' a'' q' s'' r'')
  have "r' = r @ ys" using stepped(1,10) st by (simp add: foldl_visited_record)
  moreover have "inv (ss_best s)" using ok by (simp add: search_state_ok_def)
  then have "set ys \<subseteq> set (entries (ss_best s))" using pending_law [of "ss_best s"] stepped(3) by auto
  then have "nbr_id ` set ys \<subseteq> dom dist" using ex by (auto simp: explored_state_def)
  ultimately show ?thesis using rec by auto
qed

lemma search_loop_readable:
  assumes "search_ok a s" and "explored l s" and "0 < bw" and "nbr_id ` set r \<subseteq> dom dist"
    and "search_loop A Q visited_record bw a s r = Some (Inr (a', s', r'))"
  shows "nbr_id ` set r' \<subseteq> dom dist"
proof -
  have "search_outcome (\<lambda>a s r. explored l s \<and> nbr_id ` set r \<subseteq> dom dist) (search_loop A Q visited_record bw a s r)"
  proof (rule search_loop_outcome [OF assms(1) _ assms(3)], goal_cases)
    case 2
    show ?case
      by (intro allI impI conjI)
        (erule conjE, rule explored_step [OF _ _ _ assms(3)], assumption+,
         erule conjE, rule search_step_readable [OF _ _ _ _ assms(3)])
  qed (use assms(2,4) in simp_all)
  with assms(5) show ?thesis by (simp add: search_outcome_def)
qed

lemma search_internal_readable:
  assumes "ok a" and "inv (ss_best s)" and "entries (ss_best s) = []" and "finished (ss_best s) = {}"
    and "ss_visited s = {}" and "0 < bw"
  shows "\<exists>stats a' s' r'. search_internal A Q visited_record (Some bw) a s [] = Some (Inr (stats, a', s', r')) \<and>
     ok a' \<and> inv (ss_best s') \<and> distinct (map nbr_id r') \<and> nbr_id ` set r' \<subseteq> dom dist"
proof -
  from assms(1-5) obtain ns a1 s1 where st: "sa_start_point_distances A a = Inr (ns, a1)"
    "add_start_points Q ns s = Inr s1" "search_ok a1 s1" "explored (qo_search_l Q (ss_best s)) s1"
    by (rule start_explored)
  from search_loop_explored [OF st(3,4) assms(6), of visited_record "[]"]
  obtain a' s' r' where l: "search_loop A Q visited_record bw a1 s1 [] = Some (Inr (a', s', r'))"
    by (elim exE conjE) (rule that)
  then have run: "\<exists>stats. search_internal A Q visited_record (Some bw) a s [] = Some (Inr (stats, a', s', r'))"
    using st(1,2) assms(5) by (simp add: search_internal_def)
  then show ?thesis
    using search_internal_once [OF assms] search_loop_readable [OF st(3,4) assms(6) _ l] by fastforce
qed

end

interpretation inmem_visiting: exact_visiting npq_ops npq_strict npq_entries npq_pending npq_done
    inmem_ops "\<lambda>a. a = a0 \<and> inmem_ok a0" UNIV
    "set (inmem_starting_points a0)" "inmem_nbrs a0" "inmem_dist a0" for a0 :: "('v, 'e) inmem_accessor"
  by unfold_locales

lemma inmem_search_visited:
  fixes a :: "('v, 'e) inmem_accessor"
  assumes "inmem_ok a" and "0 < l"
  shows "\<exists>stats s r. search_internal inmem_ops npq_ops visited_record None a (scratch_new (Fixed l)) [] =
       Some (Inr (stats, a, s, r)) \<and> \<not> pq_auto_resizable (ss_best s) \<and>
     distinct (map nbr_id r) \<and> nbr_id ` set r \<subseteq> dom (inmem_dist a)"
proof -
  have fresh: "ss_best (scratch_new (Fixed l) :: (u32 npq, u32) search_scratch) = npq_new l"
      "ss_visited (scratch_new (Fixed l) :: (u32 npq, u32) search_scratch) = {}"
    by (simp_all add: scratch_new_def)
  have q: "npq_strict (npq_new l :: u32 npq)" "npq_entries (npq_new l :: u32 npq) = []" "npq_done (npq_new l :: u32 npq) = {}"
    using assms(2) by (simp_all add: npq_strict_def npq_new_fresh npq_new_wf) (simp add: npq_new_def)
  have none: "search_internal inmem_ops npq_ops visited_record None a (scratch_new (Fixed l)) [] =
      search_internal inmem_ops npq_ops visited_record (Some 1) a (scratch_new (Fixed l)) []"
    by (simp add: search_internal_def)
  have "\<exists>stats a' s' r'. search_internal inmem_ops npq_ops visited_record (Some 1) a (scratch_new (Fixed l)) [] =
      Some (Inr (stats, a', s', r')) \<and> (a' = a \<and> inmem_ok a) \<and> npq_strict (ss_best s') \<and>
      distinct (map nbr_id r') \<and> nbr_id ` set r' \<subseteq> dom (inmem_dist a)"
    by (rule inmem_visiting.search_internal_readable) (simp_all add: fresh q assms(1))
  then show ?thesis unfolding none by (auto simp: npq_strict_def)
qed

end
