(* ===== verification/IndexBuild.thy ===== *)
theory IndexBuild
  imports Runs RecordedSearch Prune
begin

text \<open>
  The operations of \<open>DiskANNIndex\<close> (\<open>diskann/src/graph/index.rs\<close>) that build the graph: pruning
  with data from the provider, adding back-edges, inserting a point, pruning a range of points; and the
  read-only \<open>count_reachable_nodes\<close> and \<open>get_degree_stats\<close>.

  The traits \<open>NeighborAccessor\<close>, \<open>NeighborAccessorMut\<close>, \<open>PruneAccessor\<close>, \<open>PruneStrategy\<close>,
  \<open>SetElement\<close> and \<open>InsertStrategy\<close> are records of their methods, each a run on the state of the
  provider. The graph invariant \<open>simple_graph\<close> is proved for every operation that writes, on success and
  on every error path.
\<close>

section \<open>The provider's side\<close>

record ('g, 'i, 'e) neighbor_accessor =
  na_get_neighbors :: "'i \<Rightarrow> ('g, 'e ann_error, 'i adjacency_list) run"
  na_set_neighbors :: "'i \<Rightarrow> 'i list \<Rightarrow> ('g, 'e ann_error, unit) run"
  na_append_vector :: "'i \<Rightarrow> 'i list \<Rightarrow> ('g, 'e ann_error, unit) run"

text \<open>
  \<open>fill\<close> yields a view of the elements it could load and the distance between two of them. Opening an
  accessor gives what its \<open>Drop\<close> hands back to the provider at the end of the scope.
\<close>

record ('g, 'i, 'e, 'v, 'h) prune_accessor = "('g, 'i, 'e) neighbor_accessor" +
  pa_prune_accessor :: "nat \<Rightarrow> ('g, 'e ann_error, 'h) run"
  pa_drop :: "'h \<Rightarrow> 'g \<Rightarrow> 'g"
  pa_fill :: "'i list \<Rightarrow> ('g, 'e ann_error, ('i \<rightharpoonup> 'v) \<times> ('v \<Rightarrow> 'v \<Rightarrow> f32)) run"

text \<open>\<open>ElementStatus\<close>.\<close>

datatype element_status = Valid | Deleted

record ('g, 'i, 'e, 'v, 'h, 'x, 'w, 'a) insert_provider = "('g, 'i, 'e, 'v, 'h) prune_accessor" +
  ip_set_element :: "'x \<Rightarrow> 'w \<Rightarrow> ('g, 'e ranked_error, 'i) run"
  ip_complete :: "'i \<Rightarrow> ('g, 'e ann_error, unit) run"
  ip_search_accessor :: "'w \<Rightarrow> ('g, 'e ann_error, 'a \<times> 'h) run"
  ip_search_ops :: "('a, 'i, 'e) search_accessor"

definition set_neighbors_bulk ::
  "('g, 'i, 'e, 'z) neighbor_accessor_scheme \<Rightarrow> ('i \<times> 'i list) list \<Rightarrow> ('g, 'e ann_error, unit) run" where
  "set_neighbors_bulk A itr = each_run (\<lambda>(vector_id, neighbors). na_set_neighbors A vector_id neighbors) itr"

section \<open>Pruning\<close>

record 'i prune_scratch =
  ps_pool :: "'i nbr list"
  ps_states :: "prune_state list"
  ps_neighbors :: "'i adjacency_list"

definition prune_scratch_new :: "'i prune_scratch" where
  "prune_scratch_new = \<lparr>ps_pool = [], ps_states = [], ps_neighbors = al_new\<rparr>"

definition as_context :: "'i prune_scratch \<Rightarrow> nat \<Rightarrow> 'i prune_context" where
  "as_context s max_candidates =
     \<lparr>pc_pool = sorted_neighbors_new (ps_pool s) max_candidates, pc_states = ps_states s,
      pc_neighbors = ps_neighbors s\<rparr>"

text \<open>
  The scratch space is passed as \<open>&mut\<close> and survives an error, so it is part of the state of the
  operations that use it: \<open>on_provider\<close> runs an operation of the provider next to it, \<open>own_scratch\<close>
  runs an operation with a new scratch space of its own.
\<close>

definition on_provider :: "('g, 'f, 'a) run \<Rightarrow> ('g \<times> 's, 'f, 'a) run" where
  "on_provider m = (\<lambda>(g, s). map_option (\<lambda>(r, g'). (r, (g', s))) (m g))"

definition own_scratch :: "('g \<times> 'i prune_scratch, 'f, 'a) run \<Rightarrow> ('g, 'f, 'a) run" where
  "own_scratch m = (\<lambda>g. map_option (\<lambda>(r, g', s). (r, g')) (m (g, prune_scratch_new)))"

definition get_scratch :: "('g \<times> 's, 'f, 's) run" where
  "get_scratch = (\<lambda>(g, s). Some (Inr s, (g, s)))"

definition modify_scratch :: "('s \<Rightarrow> 's) \<Rightarrow> ('g \<times> 's, 'f, unit) run" where
  "modify_scratch f = (\<lambda>(g, s). Some (Inr (), (g, f s)))"

text \<open>\<open>occlude_list\<close> on a sorted pool and the states and neighbors of the scratch space.\<close>

definition occlude_scratch ::
  "config \<Rightarrow> ('i list \<Rightarrow> 'i \<Rightarrow> bool) \<Rightarrow> 'i \<Rightarrow> ('v \<Rightarrow> 'v \<Rightarrow> f32) \<Rightarrow> ('i \<rightharpoonup> 'v) \<Rightarrow> 'i \<Rightarrow> prune_options \<Rightarrow>
   'i nbr list \<Rightarrow> ('g \<times> 'i prune_scratch, 'e ranked_error, unit) run" where
  "occlude_scratch cfg contains dflt computer view location options pool =
     bind_run get_scratch (\<lambda>s.
     bind_run (of_option (map_option (map_sum (\<lambda>p. Hard (AnnPanic p)) id)
       (occlude_list cfg contains dflt computer
          \<lparr>pc_pool = pool, pc_states = ps_states s, pc_neighbors = ps_neighbors s\<rparr> view
          (\<lambda>id. id = location) options))) (\<lambda>ctx.
     modify_scratch (\<lambda>s. s\<lparr>ps_states := pc_states ctx, ps_neighbors := pc_neighbors ctx\<rparr>)))"

definition index_robust_prune ::
  "config \<Rightarrow> ('i list \<Rightarrow> 'i \<Rightarrow> bool) \<Rightarrow> 'i \<Rightarrow> ('g, 'i, 'e, 'v, 'h, 'z) prune_accessor_scheme \<Rightarrow> 'i \<Rightarrow>
   'i prune_context \<Rightarrow> prune_options \<Rightarrow> ('g, 'e ann_error, 'i prune_context) run" where
  "index_robust_prune cfg contains dflt A location context options =
     (if pc_pool context = [] then return_run context
      else bind_run (pa_fill A (map nbr_id (pc_pool context))) (\<lambda>(view, computer).
           of_option (map_option (map_sum AnnPanic id)
             (occlude_list cfg contains dflt computer context view (\<lambda>id. id = location) options))))"

definition failed_retrieval :: "'e ranked_error" where
  "failed_retrieval = Transient (AnnMessage ''retrieval of main vector failed during prune aggregation'')"

text \<open>The distances from one element to those of a list that are in the view.\<close>

definition distances_from :: "('v \<Rightarrow> 'v \<Rightarrow> f32) \<Rightarrow> ('i \<rightharpoonup> 'v) \<Rightarrow> 'v \<Rightarrow> 'i list \<Rightarrow> 'i nbr list" where
  "distances_from computer view vector ids =
     List.map_filter (\<lambda>id. map_option (\<lambda>other. Neighbor id (computer vector other)) (view id)) ids"

definition robust_prune_list ::
  "config \<Rightarrow> ('i list \<Rightarrow> 'i \<Rightarrow> bool) \<Rightarrow> 'i \<Rightarrow> ('g, 'i, 'e, 'v, 'h, 'z) prune_accessor_scheme \<Rightarrow> 'i \<Rightarrow>
   'i adjacency_list \<Rightarrow> prune_options \<Rightarrow> ('g \<times> 'i prune_scratch, 'e ranked_error, unit) run" where
  "robust_prune_list cfg contains dflt A location list options =
     (if al_edges list = [] then return_run ()
      else bind_run (on_provider (map_error Hard (pa_fill A (location # al_edges list)))) (\<lambda>(view, computer).
           bind_run (modify_scratch (\<lambda>s. s\<lparr>ps_pool := []\<rparr>)) (\<lambda>_.
           case view location of
             None \<Rightarrow> fail_run failed_retrieval
           | Some vector \<Rightarrow>
               bind_run (modify_scratch (\<lambda>s. s\<lparr>ps_pool := ps_pool s @
                 distances_from computer view vector (filter (\<lambda>i. i \<noteq> location) (al_edges list))\<rparr>)) (\<lambda>_.
               bind_run get_scratch (\<lambda>s.
               let pool = pc_pool (as_context s (cf_max_occlusion_size cfg)) in
               bind_run (modify_scratch (\<lambda>s. s\<lparr>ps_pool := pool\<rparr>)) (\<lambda>_.
               occlude_scratch cfg contains dflt computer view location options pool))))))"

definition robust_prune_with ::
  "config \<Rightarrow> ('i list \<Rightarrow> 'i \<Rightarrow> bool) \<Rightarrow> 'i \<Rightarrow> ('g, 'i, 'e, 'v, 'h, 'z) prune_accessor_scheme \<Rightarrow> 'i \<Rightarrow> 'i list \<Rightarrow>
   'i nbr list \<Rightarrow> prune_options \<Rightarrow> ('g \<times> 'i prune_scratch, 'e ranked_error, unit) run" where
  "robust_prune_with cfg contains dflt A internal_id extras visited options =
     bind_run (on_provider (map_error Hard (pa_fill A
       (take (cf_max_occlusion_size cfg) (internal_id # extras @ map nbr_id visited))))) (\<lambda>(view, computer).
     bind_run (if extras \<noteq> [] then
                 case view internal_id of
                   None \<Rightarrow> fail_run failed_retrieval
                 | Some this_vector \<Rightarrow> return_run (visited @ distances_from computer view this_vector extras)
               else return_run visited) (\<lambda>visited.
     occlude_scratch cfg contains dflt computer view internal_id options
       (sorted_neighbors_new visited (cf_max_occlusion_size cfg))))"

section \<open>Adding edges\<close>

definition add_edge_and_prune ::
  "config \<Rightarrow> ('i list \<Rightarrow> 'i \<Rightarrow> bool) \<Rightarrow> 'i \<Rightarrow> ('g, 'i, 'e, 'v, 'h, 'z) prune_accessor_scheme \<Rightarrow> 'i list \<Rightarrow> 'i \<Rightarrow>
   'i set option \<Rightarrow> ('g \<times> 'i prune_scratch, 'e ann_error, unit) run" where
  "add_edge_and_prune cfg contains dflt A targets source to_remove =
     bind_run (on_provider (na_get_neighbors A source)) (\<lambda>adj_list.
     let (adj_list, did_remove) =
           (case to_remove of
              None \<Rightarrow> (adj_list, False)
            | Some del \<Rightarrow> (al_retain adj_list (\<lambda>i. i \<notin> del), list_ex (\<lambda>i. i \<in> del) (al_edges adj_list)));
         (num_new_edges, adj_list) = al_extend_from_slice contains adj_list targets
     in if num_new_edges = 0 \<and> \<not> did_remove then return_run ()
        else if length (al_edges adj_list) \<le> cf_max_degree cfg then
          if did_remove then on_provider (na_set_neighbors A source (al_edges adj_list))
          else case al_last adj_list num_new_edges of
                 Some edges \<Rightarrow> on_provider (na_append_vector A source edges)
               | None \<Rightarrow> return_run ()
        else
          bind_run (allow_transient (robust_prune_list cfg contains dflt A source adj_list
            \<lparr>po_force_saturate = False\<rparr>)) (\<lambda>_.
          bind_run get_scratch (\<lambda>s.
          on_provider (na_set_neighbors A source (al_edges (ps_neighbors s))))))"

definition prune_range ::
  "config \<Rightarrow> ('i list \<Rightarrow> 'i \<Rightarrow> bool) \<Rightarrow> 'i \<Rightarrow> ('g, 'i, 'e, 'v, 'h, 'z) prune_accessor_scheme \<Rightarrow> 'i list \<Rightarrow>
   ('g, 'e ann_error, unit) run" where
  "prune_range cfg contains dflt A ids =
     bind_run (pa_prune_accessor A (cf_max_occlusion_size cfg)) (\<lambda>h.
     dropping (pa_drop A h) (own_scratch (each_run (\<lambda>id.
       bind_run (on_provider (na_get_neighbors A id)) (\<lambda>neighbors.
       if length (al_edges neighbors) \<le> cf_pruned_degree cfg then return_run ()
       else bind_run (escalate (robust_prune_list cfg contains dflt A id neighbors
              \<lparr>po_force_saturate = False\<rparr>)) (\<lambda>_.
            bind_run get_scratch (\<lambda>s.
            on_provider (na_set_neighbors A id (al_edges (ps_neighbors s))))))) ids)))"

section \<open>Inserting a point\<close>

text \<open>
  One attempt of \<open>insert\<close> after its search: prune what was visited, and decide whether to try again.
\<close>

definition insert_prune ::
  "config \<Rightarrow> ('i list \<Rightarrow> 'i \<Rightarrow> bool) \<Rightarrow> 'i \<Rightarrow> ('g, 'i, 'e, 'v, 'h, 'z) prune_accessor_scheme \<Rightarrow> 'i \<Rightarrow> nat \<Rightarrow>
   'i nbr list \<Rightarrow> 'i adjacency_list \<Rightarrow> ('g \<times> 'i prune_scratch, 'e ann_error, 'i adjacency_list \<times> bool) run" where
  "insert_prune cfg contains dflt A internal_id attempt visited new_neighbors =
     bind_run get_scratch (\<lambda>s.
     let context = \<lparr>pc_pool = sorted_neighbors_new visited (cf_max_occlusion_size cfg),
           pc_states = ps_states s, pc_neighbors = new_neighbors\<rparr>;
         insert_retry = cf_experimental_insert_retry cfg;
         options = \<lparr>po_force_saturate =
           (case insert_retry of None \<Rightarrow> False | Some v \<Rightarrow> should_saturate v attempt)\<rparr>
     in
     bind_run (on_provider (index_robust_prune cfg contains dflt A internal_id context options)) (\<lambda>context.
     bind_run (modify_scratch (\<lambda>s. s\<lparr>ps_states := pc_states context\<rparr>)) (\<lambda>_.
     return_run (pc_neighbors context,
       case insert_retry of None \<Rightarrow> False
       | Some v \<Rightarrow> should_retry v attempt (length (al_edges (pc_neighbors context)))))))"

text \<open>The attempts: search, prune, and try again with twice the search list while the configuration asks for it.\<close>

fun insert_attempts ::
  "config \<Rightarrow> ('i list \<Rightarrow> 'i \<Rightarrow> bool) \<Rightarrow> 'i \<Rightarrow> ('g, 'i, 'e, 'v, 'h, 'x, 'w, 'a, 'z) insert_provider_scheme \<Rightarrow> 'i \<Rightarrow>
   nat \<Rightarrow> nat \<Rightarrow> 'a \<Rightarrow> ('i npq, 'i) search_scratch \<Rightarrow> nat \<Rightarrow> 'i adjacency_list \<Rightarrow>
   ('g \<times> 'i prune_scratch, 'e ann_error, 'i adjacency_list) run" where
  "insert_attempts cfg contains dflt P internal_id 0 attempt a scratch search_l new_neighbors =
     return_run new_neighbors"
| "insert_attempts cfg contains dflt P internal_id (Suc n) attempt a scratch search_l new_neighbors =
     bind_run (of_option (search_internal (ip_search_ops P) npq_ops visited_record None a scratch []))
       (\<lambda>(stats, a, scratch, visited).
     bind_run (insert_prune cfg contains dflt P internal_id attempt visited new_neighbors)
       (\<lambda>(new_neighbors, retry).
     if \<not> retry then return_run new_neighbors
     else insert_attempts cfg contains dflt P internal_id n (Suc attempt) a
            (scratch_clear (scratch_resize scratch (search_l * 2))) (search_l * 2) new_neighbors))"

text \<open>\<open>insert\<close> after \<open>set_element\<close>: find the edges of the new element, write them and their back-edges.\<close>

definition insert_links ::
  "config \<Rightarrow> ('i list \<Rightarrow> 'i \<Rightarrow> bool) \<Rightarrow> 'i \<Rightarrow> ('g, 'i, 'e, 'v, 'h, 'x, 'w, 'a, 'z) insert_provider_scheme \<Rightarrow>
   ('i npq, 'i) search_scratch option \<Rightarrow> 'w \<Rightarrow> 'i \<Rightarrow> ('g, 'e ann_error, unit) run" where
  "insert_links cfg contains dflt P pooled vector internal_id =
     bind_run (ip_search_accessor P vector) (\<lambda>(a, h).
     dropping (pa_drop P h) (
     bind_run (of_result (num_starting_points (ip_search_ops P) a)) (\<lambda>num_start_ids.
     bind_run (pa_prune_accessor P (cf_max_occlusion_size cfg)) (\<lambda>h.
     dropping (pa_drop P h) (
     let scratch = search_scratch_of pooled (cf_max_degree cfg) (cf_l_build cfg) num_start_ids;
         search_l = qo_search_l npq_ops (ss_best scratch);
         num_insert_attempts =
           (case cf_experimental_insert_retry cfg of None \<Rightarrow> 1 | Some v \<Rightarrow> ir_max_retries v)
     in own_scratch (
        bind_run (insert_attempts cfg contains dflt P internal_id num_insert_attempts 0 a scratch search_l al_new)
          (\<lambda>new_neighbors.
        bind_run (on_provider (na_set_neighbors P internal_id (al_edges new_neighbors))) (\<lambda>_.
        bind_run (each_run (\<lambda>source. add_edge_and_prune cfg contains dflt P [internal_id] source None)
          (take (cf_max_backedges cfg) (al_edges new_neighbors))) (\<lambda>_.
        on_provider (ip_complete P internal_id))))))))))"

definition index_insert ::
  "config \<Rightarrow> ('i list \<Rightarrow> 'i \<Rightarrow> bool) \<Rightarrow> 'i \<Rightarrow> ('g, 'i, 'e, 'v, 'h, 'x, 'w, 'a, 'z) insert_provider_scheme \<Rightarrow>
   ('i npq, 'i) search_scratch option \<Rightarrow> 'x \<Rightarrow> 'w \<Rightarrow> ('g, 'e ann_error, unit) run" where
  "index_insert cfg contains dflt P pooled gid vector =
     bind_run (escalate (ip_set_element P gid vector)) (\<lambda>internal_id.
     insert_links cfg contains dflt P pooled vector internal_id)"

section \<open>Reading the graph\<close>

partial_function (option) reachable_loop ::
  "('g, 'i, 'e, 'z) neighbor_accessor_scheme \<Rightarrow> 'i set \<Rightarrow> 'i list \<Rightarrow> ('g, 'e ann_error, nat) run" where
  "reachable_loop A expanded_nodes queue g =
     (case queue of
        [] \<Rightarrow> Some (Inr (card expanded_nodes), g)
      | i # queue \<Rightarrow>
          if i \<in> expanded_nodes then reachable_loop A expanded_nodes queue g
          else Option.bind (na_get_neighbors A i g) (\<lambda>(r, g). case r of
                 Inl e \<Rightarrow> Some (Inl e, g)
               | Inr neighbors \<Rightarrow> reachable_loop A (insert i expanded_nodes) (queue @ al_edges neighbors) g))"

definition count_reachable_nodes ::
  "('g, 'i, 'e, 'z) neighbor_accessor_scheme \<Rightarrow> 'i list \<Rightarrow> ('g, 'e ann_error, nat) run" where
  "count_reachable_nodes A start_points = reachable_loop A {} start_points"

record degree_stats =
  ds_max_degree :: u32
  ds_avg_degree :: f32
  ds_min_degree :: u32
  ds_cnt_less_than_two :: nat

record degree_acc =
  da_max :: nat
  da_min :: nat
  da_total :: nat
  da_less_than_two :: nat
  da_live :: nat

fun degree_loop ::
  "('g, 'i, 'e, 'z) neighbor_accessor_scheme \<Rightarrow> 'i list \<Rightarrow> degree_acc \<Rightarrow> ('g, 'e ann_error, degree_acc) run" where
  "degree_loop A [] acc = return_run acc"
| "degree_loop A (i # itr) acc =
     bind_run (na_get_neighbors A i) (\<lambda>neighbors.
     let pool_size = length (al_edges neighbors)
     in degree_loop A itr
       \<lparr>da_max = max (da_max acc) pool_size, da_min = min (da_min acc) pool_size,
        da_total = da_total acc + pool_size,
        da_less_than_two = (if pool_size < 2 then da_less_than_two acc + 1 else da_less_than_two acc),
        da_live = da_live acc + 1\<rparr>)"

definition u32_try_from :: "nat \<Rightarrow> ('e, u32) ann_result" where
  "u32_try_from n =
     (if n < 2 ^ 32 then Inr (of_nat n)
      else Inl (AnnMessage ''out of range integral type conversion attempted''))"

definition get_degree_stats ::
  "('g, 'i, 'e, 'z) neighbor_accessor_scheme \<Rightarrow> 'i list \<Rightarrow> ('g, 'e ann_error, degree_stats) run" where
  "get_degree_stats A itr =
     bind_run (degree_loop A itr
       \<lparr>da_max = 0, da_min = USIZE_MAX, da_total = 0, da_less_than_two = 0, da_live = 0\<rparr>) (\<lambda>acc.
     if da_live acc = 0 then
       return_run \<lparr>ds_max_degree = 0, ds_avg_degree = f32_zero, ds_min_degree = 0, ds_cnt_less_than_two = 0\<rparr>
     else
       bind_run (of_result (u32_try_from (da_max acc))) (\<lambda>max_degree.
       bind_run (of_result (u32_try_from (da_min acc))) (\<lambda>min_degree.
       return_run \<lparr>ds_max_degree = max_degree,
         ds_avg_degree = f32_div (f32_of_nat (da_total acc)) (f32_of_nat (da_live acc)),
         ds_min_degree = min_degree, ds_cnt_less_than_two = da_less_than_two acc\<rparr>)))"

section \<open>Runs with a scratch space\<close>

lemma total_run_on_provider:
  assumes "\<And>s. total_run (\<lambda>g. P (g, s)) m (\<lambda>e g. E e (g, s)) (\<lambda>a g. Q a (g, s))"
  shows "total_run P (on_provider m) E Q"
proof (rule total_runI)
  fix x
  assume "P x"
  then have "P (fst x, snd x)" by simp
  with assms [of "snd x"]
  show "\<exists>r x'. on_provider m x = Some (r, x') \<and> (case r of Inl e \<Rightarrow> E e x' | Inr a \<Rightarrow> Q a x')"
    by (cases rule: total_runE) (simp_all add: on_provider_def split_beta)
qed

lemma total_run_own_scratch:
  assumes "total_run (\<lambda>(g, s). s = prune_scratch_new \<and> P g) m (\<lambda>e (g, s). E e g) (\<lambda>a (g, s). Q a g)"
  shows "total_run P (own_scratch m) E Q"
proof (rule total_runI)
  fix g
  assume "P g"
  then have "case (g, prune_scratch_new) of (g, s) \<Rightarrow> s = prune_scratch_new \<and> P g" by simp
  with assms show "\<exists>r g'. own_scratch m g = Some (r, g') \<and> (case r of Inl e \<Rightarrow> E e g' | Inr a \<Rightarrow> Q a g')"
    by (cases rule: total_runE) (auto simp: own_scratch_def)
qed

lemma total_run_get_scratch:
  "total_run P get_scratch E (\<lambda>s x. s = snd x \<and> P x)"
  by (auto simp: total_run_def get_scratch_def)

lemma total_run_modify_scratch:
  "total_run (\<lambda>x. Q () (fst x, f (snd x))) (modify_scratch f) E Q"
  by (auto simp: total_run_def modify_scratch_def)

lemma total_run_ex_pair:
  "(\<And>x. R x \<Longrightarrow> total_run (\<lambda>(g, s). P x g) m E Q) \<Longrightarrow> total_run (\<lambda>(g, s). \<exists>x. P x g \<and> R x) m E Q"
  unfolding total_run_def by blast

lemma total_run_modify_frame:
  "total_run (\<lambda>(g, s). P g) (modify_scratch f) E (\<lambda>u (g, s). P g)"
  by (auto simp: total_run_def modify_scratch_def)

section \<open>The contract of a graph store\<close>

text \<open>The provider in a state with the graph \<open>G\<close> and the live elements \<open>L\<close>.\<close>

definition store_at ::
  "('g \<Rightarrow> bool) \<Rightarrow> ('g \<Rightarrow> 'i \<Rightarrow> 'i list) \<Rightarrow> ('g \<Rightarrow> 'i set) \<Rightarrow> ('i \<Rightarrow> 'i list) \<Rightarrow> 'i set \<Rightarrow> 'g \<Rightarrow> bool" where
  "store_at ok adj live G L g \<longleftrightarrow> ok g \<and> adj g = G \<and> live g = L"

text \<open>
  What the index relies on: any operation may fail, and then leaves the graph as it was; appending stops
  at the capacity \<open>cap\<close> of the store; \<open>fill\<close> provides at least the elements that are alive.
\<close>

locale graph_store =
  fixes A :: "('g, 'i, 'e, 'v, 'h, 'z) prune_accessor_scheme"
    and inv :: "'g \<Rightarrow> bool" and cap :: nat
    and adj :: "'g \<Rightarrow> 'i \<Rightarrow> 'i list" and live :: "'g \<Rightarrow> 'i set"
  assumes get_law: "total_run (store_at inv adj live G L) (na_get_neighbors A i)
      (\<lambda>e. store_at inv adj live G L) (\<lambda>l g. store_at inv adj live G L g \<and> al_edges l = G i)"
    and set_law: "total_run (store_at inv adj live G L) (na_set_neighbors A i ns)
      (\<lambda>e. store_at inv adj live G L) (\<lambda>u. store_at inv adj live (G(i := ns)) L)"
    and append_law: "total_run (store_at inv adj live G L) (na_append_vector A i ns)
      (\<lambda>e. store_at inv adj live G L) (\<lambda>u. store_at inv adj live (G(i := take cap (G i @ ns))) L)"
    and open_law: "total_run (store_at inv adj live G L) (pa_prune_accessor A n)
      (\<lambda>e. store_at inv adj live G L) (\<lambda>u. store_at inv adj live G L)"
    and drop_law: "store_at inv adj live G L g \<Longrightarrow> store_at inv adj live G L (pa_drop A h g)"
    and fill_law: "total_run (store_at inv adj live G L) (pa_fill A is)
      (\<lambda>e. store_at inv adj live G L)
      (\<lambda>(view, computer) g. store_at inv adj live G L g \<and> set is \<inter> L \<subseteq> dom view)"
begin

abbreviation at :: "('i \<Rightarrow> 'i list) \<Rightarrow> 'i set \<Rightarrow> 'g \<Rightarrow> bool" where
  "at \<equiv> store_at inv adj live"

end

section \<open>Pruned lists\<close>

definition prunable :: "config \<Rightarrow> bool" where
  "prunable cfg \<longleftrightarrow> f32_le f32_one (cf_alpha cfg) \<and> f32_lt (cf_alpha cfg) f32_MAX \<and>
     cf_max_occlusion_size cfg < 2 ^ 16 \<and> cf_pruned_degree cfg \<le> cf_max_degree cfg"

text \<open>A list that a prune of \<open>pool\<close> for \<open>location\<close> may have produced.\<close>

definition pruned :: "config \<Rightarrow> 'i \<Rightarrow> 'i list \<Rightarrow> 'i list \<Rightarrow> bool" where
  "pruned cfg location pool ns \<longleftrightarrow> length ns \<le> cf_pruned_degree cfg \<and> set ns \<subseteq> set pool - {location} \<and>
     (distinct pool \<longrightarrow> distinct ns)"

lemma sorted_neighbors_sub:
  "length (sorted_neighbors_new ns k) \<le> k" "mset (sorted_neighbors_new ns k) \<subseteq># mset ns"
proof -
  show "length (sorted_neighbors_new ns k) \<le> k" by (simp add: sorted_neighbors_new_def sorted_neighbors_with_def Let_def)
  let ?p = "min k (length ns) - 1" and ?s = "select_nth_sort (min k (length ns) - 1) ns"
  have s: "mset ?s = mset ns" by (rule by_sorting.permutes)
  have "mset (sort_by fast_distance (take ?p ?s) @ drop ?p ?s) = mset (take ?p ?s @ drop ?p ?s)"
    unfolding mset_append mset_sort_by ..
  then have all: "mset (sort_by fast_distance (take ?p ?s) @ drop ?p ?s) = mset ns" using s by simp
  have tk: "mset (take k zs) \<subseteq># mset zs" for zs :: "'a nbr list"
    by (metis append_take_drop_id mset_append mset_subset_eq_add_left)
  note tk [of "sort_by fast_distance (take ?p ?s) @ drop ?p ?s", unfolded all]
  with tk [of ns] show "mset (sorted_neighbors_new ns k) \<subseteq># mset ns"
    unfolding sorted_neighbors_new_def sorted_neighbors_with_def Let_def by (auto simp only: split: if_split)
qed

lemma distances_from_ids:
  "set (map nbr_id (distances_from computer view vector ids)) \<subseteq> set ids"
  "distinct ids \<Longrightarrow> distinct (map nbr_id (distances_from computer view vector ids))"
proof -
  show sub: "set (map nbr_id (distances_from computer view vector ids)) \<subseteq> set ids" for ids
    by (induction ids) (auto simp: distances_from_def List.map_filter_def)
  show "distinct ids \<Longrightarrow> distinct (map nbr_id (distances_from computer view vector ids))"
  proof (induction ids)
    case (Cons i ids)
    moreover have "i \<notin> set (map nbr_id (distances_from computer view vector ids))" using sub [of ids] Cons.prems by auto
    ultimately show ?case by (cases "view i") (simp_all add: distances_from_def List.map_filter_def)
  qed (simp add: distances_from_def List.map_filter_def)
qed

context contains_simd
begin

lemma occlude_list_pruned:
  assumes "prunable cfg" and "length (pc_pool ctx) < 2 ^ 16"
  obtains ctx' where "occlude_list cfg contains dflt dist ctx view (\<lambda>i. i = location) options = Some (Inr ctx')"
    and "pc_pool ctx' = pc_pool ctx"
    and "pruned cfg location (map nbr_id (pc_pool ctx)) (al_edges (pc_neighbors ctx'))"
proof -
  from assms(1) have a: "f32_le f32_one (cf_alpha cfg)" "f32_lt (cf_alpha cfg) f32_MAX" by (simp_all add: prunable_def)
  show thesis
    by (rule occlude_list_spec [OF assms(2) a, of dflt dist view "\<lambda>i. i = location" options])
      (rule that, assumption+, auto simp: pruned_def)
qed

end

lemma pruned_mono:
  assumes "pruned cfg location pool ns" and "set pool \<subseteq> set pool'" and "distinct pool' \<Longrightarrow> distinct pool"
  shows "pruned cfg location pool' ns"
  using assms unfolding pruned_def by blast

lemma pruned_sorted:
  assumes "pruned cfg location (map nbr_id (sorted_neighbors_new pool k)) ns"
  shows "pruned cfg location (map nbr_id pool) ns"
  using assms
proof (rule pruned_mono)
  have sub: "mset (map nbr_id (sorted_neighbors_new pool k)) \<subseteq># mset (map nbr_id pool)"
    unfolding mset_map by (rule image_mset_subseteq_mono [OF sorted_neighbors_sub(2)])
  then show "set (map nbr_id (sorted_neighbors_new pool k)) \<subseteq> set (map nbr_id pool)"
    using set_mset_mono by fastforce
  show "distinct (map nbr_id (sorted_neighbors_new pool k))" if "distinct (map nbr_id pool)"
    using that sub by (rule distinct_submset)
qed

locale pruning_store = graph_store A inv cap adj live + contains_simd contains
  for A :: "('g, 'i, 'e, 'v, 'h, 'z) prune_accessor_scheme" and inv cap adj live
    and contains :: "'i list \<Rightarrow> 'i \<Rightarrow> bool" +
  fixes cfg :: config and dflt :: 'i
  assumes prunable: "prunable cfg"
begin

lemma occlude_scratch_run:
  fixes R :: "'g \<Rightarrow> bool"
  assumes "length pool \<le> cf_max_occlusion_size cfg"
  shows "total_run (\<lambda>(g, s). R g) (occlude_scratch cfg contains dflt computer view location options pool)
      E (\<lambda>u (g, s). R g \<and> pruned cfg location (map nbr_id pool) (al_edges (ps_neighbors s)))"
proof (rule total_runI)
  fix x :: "'g \<times> 'i prune_scratch"
  assume x: "case x of (g, s) \<Rightarrow> R g"
  obtain g s where gs: "x = (g, s)" by (cases x)
  let ?ctx = "\<lparr>pc_pool = pool, pc_states = ps_states s, pc_neighbors = ps_neighbors s\<rparr>"
  have "length (pc_pool ?ctx) < 2 ^ 16" using assms prunable by (simp add: prunable_def)
  from occlude_list_pruned [OF prunable this] obtain ctx' where
    "occlude_list cfg contains dflt computer ?ctx view (\<lambda>i. i = location) options = Some (Inr ctx')"
    "pruned cfg location (map nbr_id (pc_pool ?ctx)) (al_edges (pc_neighbors ctx'))" by blast
  with x gs show "\<exists>r x'. occlude_scratch cfg contains dflt computer view location options pool x = Some (r, x') \<and>
      (case r of Inl e \<Rightarrow> E e x' | Inr u \<Rightarrow> (case x' of (g, s) \<Rightarrow> R g \<and> pruned cfg location (map nbr_id pool) (al_edges (ps_neighbors s))))"
    by (simp add: occlude_scratch_def bind_run_def get_scratch_def of_option_def modify_scratch_def)
qed

text \<open>
  A prune of a list: it fails with a transient error only for a vertex that is not alive, and otherwise
  leaves a pruned list in the scratch space.
\<close>

lemma robust_prune_list_run:
  "total_run (\<lambda>(g, s). at G L g) (robust_prune_list cfg contains dflt A location list options)
     (\<lambda>e (g, s). at G L g \<and> (\<forall>x. e = Transient x \<longrightarrow> location \<notin> L))
     (\<lambda>u (g, s). at G L g \<and> (al_edges list \<noteq> [] \<longrightarrow> pruned cfg location (al_edges list) (al_edges (ps_neighbors s))))"
proof (cases "al_edges list = []")
  case True
  then show ?thesis by (auto simp: robust_prune_list_def intro: total_run_return)
next
  case False
  let ?E = "\<lambda>(e :: 'e ranked_error) (g, s :: 'i prune_scratch). at G L g \<and> (\<forall>x. e = Transient x \<longrightarrow> location \<notin> L)"
  let ?Q = "\<lambda>u (g, s). at G L g \<and> pruned cfg location (al_edges list) (al_edges (ps_neighbors s))"
  have fill: "total_run (\<lambda>(g, s). at G L g) (on_provider (map_error Hard (pa_fill A (location # al_edges list))))
      ?E (\<lambda>(view, computer) (g, s). at G L g \<and> set (location # al_edges list) \<inter> L \<subseteq> dom view)"
    by (rule total_run_on_provider, rule total_run_map_error)
      (rule total_run_weaken [OF fill_law [of G L "location # al_edges list"]], auto)
  have rest: "total_run (\<lambda>(g, s). at G L g \<and> set (location # al_edges list) \<inter> L \<subseteq> dom view)
      (bind_run (modify_scratch (\<lambda>s. s\<lparr>ps_pool := []\<rparr>)) (\<lambda>_.
           case view location of
             None \<Rightarrow> fail_run failed_retrieval
           | Some vector \<Rightarrow>
               bind_run (modify_scratch (\<lambda>s. s\<lparr>ps_pool := ps_pool s @
                 distances_from computer view vector (filter (\<lambda>i. i \<noteq> location) (al_edges list))\<rparr>)) (\<lambda>_.
               bind_run get_scratch (\<lambda>s.
               let pool = pc_pool (as_context s (cf_max_occlusion_size cfg)) in
               bind_run (modify_scratch (\<lambda>s. s\<lparr>ps_pool := pool\<rparr>)) (\<lambda>_.
               occlude_scratch cfg contains dflt computer view location options pool))))) ?E ?Q" for view computer
  proof (cases "view location")
    case None
    then show ?thesis
      by (auto simp: total_run_def bind_run_def modify_scratch_def fail_run_def failed_retrieval_def)
  next
    case (Some vector)
    let ?raw = "distances_from computer view vector (filter (\<lambda>i. i \<noteq> location) (al_edges list))"
    let ?pool = "sorted_neighbors_new ?raw (cf_max_occlusion_size cfg)"
    have occ: "total_run (\<lambda>(g, s). at G L g) (occlude_scratch cfg contains dflt computer view location options ?pool) ?E ?Q"
    proof (rule total_run_post)
      show "total_run (\<lambda>(g, s). at G L g) (occlude_scratch cfg contains dflt computer view location options ?pool)
        ?E (\<lambda>u (g, s). at G L g \<and> pruned cfg location (map nbr_id ?pool) (al_edges (ps_neighbors s)))"
        by (rule occlude_scratch_run) (rule sorted_neighbors_sub)
      fix u and x :: "'g \<times> 'i prune_scratch"
      assume "case x of (g, s) \<Rightarrow> at G L g \<and> pruned cfg location (map nbr_id ?pool) (al_edges (ps_neighbors s))"
      then obtain g s where x: "x = (g, s)" "at G L g" "pruned cfg location (map nbr_id ?pool) (al_edges (ps_neighbors s))"
        by (cases x) auto
      from pruned_sorted [OF x(3)] have "pruned cfg location (al_edges list) (al_edges (ps_neighbors s))"
      proof (rule pruned_mono)
        have "set (map nbr_id ?raw) \<subseteq> set (filter (\<lambda>i. i \<noteq> location) (al_edges list))" by (rule distances_from_ids)
        then show "set (map nbr_id ?raw) \<subseteq> set (al_edges list)" by (rule subset_trans) simp
        show "distinct (map nbr_id ?raw)" if "distinct (al_edges list)"
          by (rule distances_from_ids(2)) (use that in simp)
      qed
      with x show "?Q u x" by simp
    qed
    show ?thesis
      unfolding Some option.case
    proof (rule total_runI)
      fix x :: "'g \<times> 'i prune_scratch"
      assume "case x of (g, s) \<Rightarrow> at G L g \<and> set (location # al_edges list) \<inter> L \<subseteq> dom view"
      then obtain g s where x: "x = (g, s)" and "at G L g" by (cases x) auto
      then have "case (g, s\<lparr>ps_pool := ?pool\<rparr>) of (g, s) \<Rightarrow> at G L g" by simp
      with occ show "\<exists>r x'. bind_run (modify_scratch (\<lambda>s. s\<lparr>ps_pool := []\<rparr>)) (\<lambda>_.
               bind_run (modify_scratch (\<lambda>s. s\<lparr>ps_pool := ps_pool s @ ?raw\<rparr>)) (\<lambda>_.
               bind_run get_scratch (\<lambda>s.
               let pool = pc_pool (as_context s (cf_max_occlusion_size cfg)) in
               bind_run (modify_scratch (\<lambda>s. s\<lparr>ps_pool := pool\<rparr>)) (\<lambda>_.
               occlude_scratch cfg contains dflt computer view location options pool)))) x = Some (r, x') \<and>
            (case r of Inl e \<Rightarrow> ?E e x' | Inr u \<Rightarrow> ?Q u x')"
        by (cases rule: total_runE)
          (auto simp: x bind_run_def modify_scratch_def get_scratch_def as_context_def Let_def)
    qed
  qed
  have "total_run (\<lambda>(g, s). at G L g) (robust_prune_list cfg contains dflt A location list options) ?E ?Q"
    unfolding robust_prune_list_def if_not_P [OF False] by (rule total_run_bind_pair [OF fill rest])
  with False show ?thesis by (simp add: total_run_post)
qed

end

text \<open>A fact that does not depend on the state may be assumed.\<close>

lemma total_run_fact:
  "(\<And>x. P x \<Longrightarrow> \<phi>) \<Longrightarrow> (\<phi> \<Longrightarrow> total_run P m E Q) \<Longrightarrow> total_run P m E Q"
  by (auto simp: total_run_def)

text \<open>The list \<open>ns\<close> that may replace \<open>old\<close> when \<open>targets\<close> are added and \<open>del\<close> removed.\<close>

definition linked :: "config \<Rightarrow> nat \<Rightarrow> 'i list \<Rightarrow> 'i list \<Rightarrow> 'i set \<Rightarrow> 'i list \<Rightarrow> bool" where
  "linked cfg cap old targets del ns \<longleftrightarrow>
     set ns \<subseteq> set old - del \<union> set targets \<and> (distinct old \<longrightarrow> distinct ns) \<and>
     (length old \<le> cf_max_degree cfg \<longrightarrow> length ns \<le> cf_max_degree cfg) \<and>
     (distinct old \<and> cf_max_degree cfg \<le> cap \<and> card (set old - del \<union> set targets) \<le> cf_max_degree cfg \<longrightarrow>
        set ns = set old - del \<union> set targets)"

lemma linked_all:
  assumes "set all = set old - del \<union> set targets" and "distinct old \<Longrightarrow> distinct all"
    and "length all \<le> cf_max_degree cfg"
  shows "linked cfg cap old targets del (take cap all)" and "linked cfg cap old targets del all"
proof -
  have "take cap all = all" if "cf_max_degree cfg \<le> cap" using that assms(3) by simp
  then show "linked cfg cap old targets del (take cap all)"
    using assms set_take_subset [of cap all] by (auto simp: linked_def)
  show "linked cfg cap old targets del all" using assms by (simp add: linked_def)
qed

lemma linked_pruned:
  assumes "set all = set old - del \<union> set targets" and "distinct old \<Longrightarrow> distinct all"
    and "cf_max_degree cfg < length all" and "prunable cfg" and "pruned cfg source all ns"
  shows "linked cfg cap old targets del ns"
proof -
  have "\<not> card (set old - del \<union> set targets) \<le> cf_max_degree cfg" if "distinct old"
    using assms(1-3) that distinct_card [of all] by simp
  with assms show ?thesis by (auto simp: linked_def pruned_def prunable_def)
qed

context pruning_store
begin

lemma set_list_run:
  assumes "\<Phi> ns"
  shows "total_run (\<lambda>(g, s). at G L g) (on_provider (na_set_neighbors A source ns))
      (\<lambda>e (g, s). at G L g) (\<lambda>u (g, s). \<exists>ns. at (G(source := ns)) L g \<and> \<Phi> ns)"
  by (rule total_run_on_provider) (rule total_run_weaken [OF set_law [of G L source ns]], use assms in auto)

text \<open>The end of a prune: the list in the scratch space is written.\<close>

lemma set_pruned_run:
  assumes "\<And>ns. pruned cfg source old ns \<Longrightarrow> \<Phi> ns"
  shows "total_run (\<lambda>(g, s :: 'i prune_scratch). at G L g \<and> pruned cfg source old (al_edges (ps_neighbors s)))
      (bind_run get_scratch (\<lambda>s. on_provider (na_set_neighbors A source (al_edges (ps_neighbors s)))))
      (\<lambda>e (g, s). at G L g) (\<lambda>u (g, s). \<exists>ns. at (G(source := ns)) L g \<and> \<Phi> ns)"
    (is "total_run ?P _ ?E ?Q")
proof (rule total_run_bind [OF total_run_get_scratch])
  fix s :: "'i prune_scratch"
  show "total_run (\<lambda>x. s = snd x \<and> ?P x) (on_provider (na_set_neighbors A source (al_edges (ps_neighbors s)))) ?E ?Q"
  proof (rule total_run_fact [where \<phi> = "pruned cfg source old (al_edges (ps_neighbors s))"])
    assume "pruned cfg source old (al_edges (ps_neighbors s))"
    then have "\<Phi> (al_edges (ps_neighbors s))" by (rule assms)
    from set_list_run [where \<Phi> = \<Phi>, OF this]
    show "total_run (\<lambda>x. s = snd x \<and> ?P x) (on_provider (na_set_neighbors A source (al_edges (ps_neighbors s)))) ?E ?Q"
      by (rule total_run_pre) auto
  qed auto
qed

lemma add_edge_pruned_run:
  assumes "source \<in> L" and "al_edges all \<noteq> []" and "\<And>ns. pruned cfg source (al_edges all) ns \<Longrightarrow> \<Phi> ns"
  shows "total_run (\<lambda>(g, s). at G L g)
      (bind_run (allow_transient (robust_prune_list cfg contains dflt A source all \<lparr>po_force_saturate = False\<rparr>)) (\<lambda>_.
       bind_run get_scratch (\<lambda>s. on_provider (na_set_neighbors A source (al_edges (ps_neighbors s))))))
      (\<lambda>e (g, s). at G L g) (\<lambda>u (g, s). \<exists>ns. at (G(source := ns)) L g \<and> \<Phi> ns)"
proof (rule total_run_bind)
  show "total_run (\<lambda>(g, s). at G L g)
    (allow_transient (robust_prune_list cfg contains dflt A source all \<lparr>po_force_saturate = False\<rparr>)) (\<lambda>e (g, s). at G L g)
    (\<lambda>u (g, s). at G L g \<and> pruned cfg source (al_edges all) (al_edges (ps_neighbors s)))"
    by (rule total_run_allow_transient)
      (rule total_run_weaken [OF robust_prune_list_run [of G L source all]],
        use assms(1,2) in \<open>auto split: ranked_error.splits\<close>)
qed (rule set_pruned_run [OF assms(3)])

lemma append_list_run:
  assumes "\<Phi> (take cap (G source @ new))"
  shows "total_run (\<lambda>(g, s). at G L g) (on_provider (na_append_vector A source new))
      (\<lambda>e (g, s). at G L g) (\<lambda>u (g, s). \<exists>ns. at (G(source := ns)) L g \<and> \<Phi> ns)"
  by (rule total_run_on_provider) (rule total_run_weaken [OF append_law [of G L source new]], use assms in auto)

lemma add_edge_and_prune_run:
  assumes "source \<in> L"
  shows "total_run (\<lambda>(g, s). at G L g) (add_edge_and_prune cfg contains dflt A targets source to_remove)
      (\<lambda>e (g, s). at G L g)
      (\<lambda>u (g, s). \<exists>ns. at (G(source := ns)) L g \<and>
         linked cfg cap (G source) targets (case to_remove of None \<Rightarrow> {} | Some del \<Rightarrow> del) ns)"
    (is "total_run _ _ ?E ?Q")
  unfolding add_edge_and_prune_def
proof (rule total_run_bind)
  show "total_run (\<lambda>(g, s). at G L g) (on_provider (na_get_neighbors A source)) ?E
      (\<lambda>l (g, s). at G L g \<and> al_edges l = G source)"
    by (rule total_run_on_provider) (simp add: get_law)
next
  fix l :: "'i adjacency_list"
  let ?del = "case to_remove of None \<Rightarrow> {} | Some del \<Rightarrow> del"
  let ?did = "case to_remove of None \<Rightarrow> False | Some del \<Rightarrow> list_ex (\<lambda>i. i \<in> del) (al_edges l)"
  let ?kept = "case to_remove of None \<Rightarrow> l | Some del \<Rightarrow> al_retain l (\<lambda>i. i \<notin> del)"
  obtain n all where ext: "al_extend_from_slice contains ?kept targets = (n, all)"
    by (cases "al_extend_from_slice contains ?kept targets")
  note e = extend_edges [OF ext]
  let ?rest = "let (adj_list, did_remove) =
           (case to_remove of
              None \<Rightarrow> (l, False)
            | Some del \<Rightarrow> (al_retain l (\<lambda>i. i \<notin> del), list_ex (\<lambda>i. i \<in> del) (al_edges l)));
         (num_new_edges, adj_list) = al_extend_from_slice contains adj_list targets
     in if num_new_edges = 0 \<and> \<not> did_remove then return_run ()
        else if length (al_edges adj_list) \<le> cf_max_degree cfg then
          if did_remove then on_provider (na_set_neighbors A source (al_edges adj_list))
          else case al_last adj_list num_new_edges of
                 Some edges \<Rightarrow> on_provider (na_append_vector A source edges)
               | None \<Rightarrow> return_run ()
        else
          bind_run (allow_transient (robust_prune_list cfg contains dflt A source adj_list
            \<lparr>po_force_saturate = False\<rparr>)) (\<lambda>_.
          bind_run get_scratch (\<lambda>s.
          on_provider (na_set_neighbors A source (al_edges (ps_neighbors s)))))"
  have rest: "?rest = (if n = 0 \<and> \<not> ?did then return_run ()
        else if length (al_edges all) \<le> cf_max_degree cfg then
          if ?did then on_provider (na_set_neighbors A source (al_edges all))
          else case al_last all n of
                 Some edges \<Rightarrow> on_provider (na_append_vector A source edges)
               | None \<Rightarrow> return_run ()
        else
          bind_run (allow_transient (robust_prune_list cfg contains dflt A source all
            \<lparr>po_force_saturate = False\<rparr>)) (\<lambda>_.
          bind_run get_scratch (\<lambda>s.
          on_provider (na_set_neighbors A source (al_edges (ps_neighbors s))))))"
    using ext by (cases to_remove) (simp_all add: Let_def)
  show "total_run (\<lambda>(g, s). at G L g \<and> al_edges l = G source) ?rest ?E ?Q"
    unfolding rest
  proof (rule total_run_fact [where \<phi> = "al_edges l = G source"])
    assume l: "al_edges l = G source"
    have kept: "al_edges ?kept = filter (\<lambda>i. i \<notin> ?del) (G source)"
      by (simp add: l al_retain_def split: option.split)
    have all: "set (al_edges all) = set (G source) - ?del \<union> set targets"
      "distinct (G source) \<Longrightarrow> distinct (al_edges all)"
      using e(1,2) unfolding kept by auto
    have did: "?did \<longleftrightarrow> set (G source) \<inter> ?del \<noteq> {}"
      by (auto simp: l list_ex_iff split: option.splits)
    have nodid: "\<exists>new. al_edges all = G source @ new \<and> length new = n" if "\<not> ?did"
    proof -
      have "filter (\<lambda>i. i \<notin> ?del) (G source) = G source" using that did by (auto simp: filter_id_conv)
      with e(3,4) kept show ?thesis by auto
    qed
    have same: "linked cfg cap (G source) targets ?del (G source)" if "n = 0 \<and> \<not> ?did"
      using nodid that all by (auto simp: linked_def)
    have small: "linked cfg cap (G source) targets ?del (take cap (al_edges all))"
      "linked cfg cap (G source) targets ?del (al_edges all)" if "length (al_edges all) \<le> cf_max_degree cfg"
      using linked_all [OF all that] by blast+
    have big: "linked cfg cap (G source) targets ?del ns"
      if "\<not> length (al_edges all) \<le> cf_max_degree cfg" "pruned cfg source (al_edges all) ns" for ns
      by (rule linked_pruned [OF all _ prunable that(2)]) (use that(1) in simp_all)
    consider (same) "n = 0 \<and> \<not> ?did" | (set) "length (al_edges all) \<le> cf_max_degree cfg" "?did"
      | (append) "\<not> (n = 0 \<and> \<not> ?did)" "length (al_edges all) \<le> cf_max_degree cfg" "\<not> ?did"
      | (prune) "\<not> (n = 0 \<and> \<not> ?did)" "\<not> length (al_edges all) \<le> cf_max_degree cfg" by blast
    then show "total_run (\<lambda>(g, s). at G L g \<and> al_edges l = G source)
      (if n = 0 \<and> \<not> ?did then return_run ()
        else if length (al_edges all) \<le> cf_max_degree cfg then
          if ?did then on_provider (na_set_neighbors A source (al_edges all))
          else case al_last all n of
                 Some edges \<Rightarrow> on_provider (na_append_vector A source edges)
               | None \<Rightarrow> return_run ()
        else
          bind_run (allow_transient (robust_prune_list cfg contains dflt A source all
            \<lparr>po_force_saturate = False\<rparr>)) (\<lambda>_.
          bind_run get_scratch (\<lambda>s.
          on_provider (na_set_neighbors A source (al_edges (ps_neighbors s)))))) ?E ?Q"
    proof cases
      case same
      with \<open>n = 0 \<and> \<not> ?did \<Longrightarrow> linked cfg cap (G source) targets ?del (G source)\<close>
      show ?thesis by (auto intro!: total_run_return exI [of _ "G source"] simp: l)
    next
      case set
      with set_list_run [where \<Phi> = "linked cfg cap (G source) targets ?del", OF small(2)]
      show ?thesis by (simp add: l)
    next
      case append
      from nodid [OF append(3)] obtain new where new: "al_edges all = G source @ new" "length new = n" by blast
      then have "al_last all n = Some new" by (simp add: al_last_def)
      with append append_list_run [where \<Phi> = "linked cfg cap (G source) targets ?del" and G = G and source = source,
          OF small(1) [unfolded new(1)]] new(1)
      show ?thesis by (simp add: l)
    next
      case prune
      then have "al_edges all \<noteq> []" by auto
      from add_edge_pruned_run [where \<Phi> = "linked cfg cap (G source) targets ?del" and G = G,
          OF assms this big [OF prune(2)]] prune
      show ?thesis by (auto simp: l)
    qed
  qed auto
qed

end

section \<open>Graphs after a run\<close>

text \<open>
  The invariant of the graph: lists without duplicates, no longer than the maximal degree, over the
  vertices \<open>U\<close>, and no vertex its own neighbor.
\<close>

definition simple_graph :: "config \<Rightarrow> 'i set \<Rightarrow> ('i \<Rightarrow> 'i list) \<Rightarrow> bool" where
  "simple_graph cfg U G \<longleftrightarrow>
     (\<forall>i. distinct (G i) \<and> length (G i) \<le> cf_max_degree cfg \<and> set (G i) \<subseteq> U - {i})"

text \<open>
  The lists of \<open>S\<close> were linked to their targets, all others are as before; or only some of \<open>S\<close> were.
\<close>

definition relinked ::
  "config \<Rightarrow> nat \<Rightarrow> ('i \<Rightarrow> 'i list) \<Rightarrow> 'i set \<Rightarrow> 'i set \<Rightarrow> ('i \<Rightarrow> 'i list) \<Rightarrow> ('i \<Rightarrow> 'i list) \<Rightarrow> bool" where
  "relinked cfg cap targets del S G G' \<longleftrightarrow>
     (\<forall>i. if i \<in> S then linked cfg cap (G i) (targets i) del (G' i) else G' i = G i)"

definition partly_relinked ::
  "config \<Rightarrow> nat \<Rightarrow> ('i \<Rightarrow> 'i list) \<Rightarrow> 'i set \<Rightarrow> 'i set \<Rightarrow> ('i \<Rightarrow> 'i list) \<Rightarrow> ('i \<Rightarrow> 'i list) \<Rightarrow> bool" where
  "partly_relinked cfg cap targets del S G G' \<longleftrightarrow>
     (\<forall>i. G' i = G i \<or> i \<in> S \<and> linked cfg cap (G i) (targets i) del (G' i))"

lemma relinked_partly: "relinked cfg cap targets del S G G' \<Longrightarrow> partly_relinked cfg cap targets del S G G'"
  by (auto simp: relinked_def partly_relinked_def split: if_splits)

lemma partly_relinked_simple:
  assumes "partly_relinked cfg cap targets del S G G'" and "simple_graph cfg U G"
    and "\<And>i. i \<in> S \<Longrightarrow> set (targets i) \<subseteq> U - {i}"
  shows "simple_graph cfg U G'"
  unfolding simple_graph_def
proof
  fix i
  have G: "distinct (G i)" "length (G i) \<le> cf_max_degree cfg" "set (G i) \<subseteq> U - {i}"
    using assms(2) by (simp_all add: simple_graph_def)
  from assms(1) consider "G' i = G i" | "i \<in> S" "linked cfg cap (G i) (targets i) del (G' i)"
    by (auto simp: partly_relinked_def)
  then show "distinct (G' i) \<and> length (G' i) \<le> cf_max_degree cfg \<and> set (G' i) \<subseteq> U - {i}"
  proof cases
    case 2
    with assms(3) [of i] G show ?thesis by (auto simp: linked_def)
  qed (use G in simp)
qed

context pruning_store
begin

lemma add_edges_run:
  assumes "distinct sources" and "set sources \<subseteq> L"
  shows "total_run (\<lambda>(g, s). at G L g)
      (each_run (\<lambda>source. add_edge_and_prune cfg contains dflt A (targets source) source to_remove) sources)
      (\<lambda>e (g, s). \<exists>G'. at G' L g \<and>
        partly_relinked cfg cap targets (case to_remove of None \<Rightarrow> {} | Some del \<Rightarrow> del) (set sources) G G')
      (\<lambda>u (g, s). \<exists>G'. at G' L g \<and>
        relinked cfg cap targets (case to_remove of None \<Rightarrow> {} | Some del \<Rightarrow> del) (set sources) G G')"
  using assms
proof (induction sources arbitrary: G)
  case Nil
  then show ?case by (auto intro!: total_run_return simp: relinked_def)
next
  case (Cons x xs)
  let ?del = "case to_remove of None \<Rightarrow> {} | Some del \<Rightarrow> del"
  let ?f = "\<lambda>source. add_edge_and_prune cfg contains dflt A (targets source) source to_remove"
  let ?E = "\<lambda>e (g, s). \<exists>G'. at G' L g \<and> partly_relinked cfg cap targets ?del (set (x # xs)) G G'"
  let ?Q = "\<lambda>u (g, s). \<exists>G'. at G' L g \<and> relinked cfg cap targets ?del (set (x # xs)) G G'"
  have x: "x \<in> L" "x \<notin> set xs" using Cons.prems by simp_all
  show ?case
    unfolding each_run.simps
  proof (rule total_run_bind)
    show "total_run (\<lambda>(g, s). at G L g) (?f x) ?E
        (\<lambda>u (g, s). \<exists>ns. at (G(x := ns)) L g \<and> linked cfg cap (G x) (targets x) ?del ns)"
      by (rule total_run_weaken [OF add_edge_and_prune_run [OF x(1), of G "targets x" to_remove]])
        (auto simp: partly_relinked_def)
  next
    fix u :: unit
    have "total_run (\<lambda>(g, s). at (G(x := ns)) L g) (each_run ?f xs) ?E ?Q"
      if "linked cfg cap (G x) (targets x) ?del ns" for ns
      by (rule total_run_weaken [OF Cons.IH [of "G(x := ns)"]])
        (use Cons.prems that x(2) in \<open>auto simp: partly_relinked_def relinked_def fun_upd_def split: if_splits\<close>)
    then show "total_run (\<lambda>(g, s). \<exists>ns. at (G(x := ns)) L g \<and> linked cfg cap (G x) (targets x) ?del ns)
        (each_run ?f xs) ?E ?Q"
      by (rule total_run_ex_pair)
  qed
qed

end

section \<open>Insertion\<close>

lemma fresh_scratch:
  assumes "\<not> pq_auto_resizable (ss_best s)"
  shows "scratch_clear (scratch_resize s l) = scratch_new (Fixed l)"
  using assms
  by (cases s) (simp add: scratch_clear_def scratch_resize_def scratch_new_def npq_new_def npq_reconfigure_def
      npq_clear_def Let_def)

text \<open>The lists an insertion may give the new vertex: pruned, from live vertices other than itself.\<close>

definition out_edges :: "config \<Rightarrow> 'i set \<Rightarrow> 'i \<Rightarrow> 'i list \<Rightarrow> bool" where
  "out_edges cfg L i ns \<longleftrightarrow> distinct ns \<and> length ns \<le> cf_pruned_degree cfg \<and> set ns \<subseteq> L - {i}"

text \<open>
  What \<open>insert\<close> needs besides once the new element is alive: a search with its accessor visits live
  elements, each once. A search that fails is allowed.
\<close>

locale insert_store = pruning_store P inv cap adj live contains cfg dflt
  for P :: "('g, 'i, 'e, 'v, 'h, 'x, 'w, 'a, 'z) insert_provider_scheme" and inv cap adj live
    and contains :: "'i list \<Rightarrow> 'i \<Rightarrow> bool" and cfg :: config and dflt :: 'i +
  fixes searchable :: "'i set \<Rightarrow> 'a \<Rightarrow> bool"
  assumes complete_law: "total_run (store_at inv adj live G L) (ip_complete P i)
      (\<lambda>e. store_at inv adj live G L) (\<lambda>u. store_at inv adj live G L)"
    and accessor_law: "total_run (store_at inv adj live G L) (ip_search_accessor P vector)
      (\<lambda>e. store_at inv adj live G L) (\<lambda>(a, h) g. store_at inv adj live G L g \<and> searchable L a)"
    and search_law: "searchable L a \<Longrightarrow> 0 < l \<Longrightarrow>
      \<exists>r. search_internal (ip_search_ops P) npq_ops visited_record None a (scratch_new (Fixed l)) [] = Some r \<and>
        (case r of Inl e \<Rightarrow> True | Inr (stats, a', s', visited) \<Rightarrow>
           searchable L a' \<and> \<not> pq_auto_resizable (ss_best s') \<and>
           distinct (map nbr_id visited) \<and> nbr_id ` set visited \<subseteq> L)"
begin

lemma index_robust_prune_run:
  assumes "length (pc_pool ctx) \<le> cf_max_occlusion_size cfg" and "distinct (map nbr_id (pc_pool ctx))"
    and "nbr_id ` set (pc_pool ctx) \<subseteq> L" and "out_edges cfg L i (al_edges (pc_neighbors ctx))"
  shows "total_run (at G L) (index_robust_prune cfg contains dflt P i ctx options)
      (\<lambda>e. at G L) (\<lambda>ctx' g. at G L g \<and> out_edges cfg L i (al_edges (pc_neighbors ctx')))"
proof (cases "pc_pool ctx = []")
  case True
  with assms(4) show ?thesis by (auto simp: index_robust_prune_def intro: total_run_return)
next
  case False
  have "length (pc_pool ctx) < 2 ^ 16" using assms(1) prunable by (simp add: prunable_def)
  note occ = occlude_list_pruned [OF prunable this]
  have "total_run (\<lambda>g. at G L g \<and> R) (of_option (map_option (map_sum AnnPanic id)
       (occlude_list cfg contains dflt computer ctx view (\<lambda>id. id = i) options)))
      (\<lambda>e. at G L) (\<lambda>ctx' g. at G L g \<and> out_edges cfg L i (al_edges (pc_neighbors ctx')))" for R view computer
  proof -
    from occ obtain ctx' where o: "occlude_list cfg contains dflt computer ctx view (\<lambda>id. id = i) options = Some (Inr ctx')"
      "pruned cfg i (map nbr_id (pc_pool ctx)) (al_edges (pc_neighbors ctx'))" by blast
    have "out_edges cfg L i (al_edges (pc_neighbors ctx'))"
      using o(2) assms(2,3) by (auto simp: pruned_def out_edges_def)
    then show ?thesis by (intro total_run_of_option [where r = "Inr ctx'"]) (simp_all add: o(1))
  qed
  note rest = this
  show ?thesis
    unfolding index_robust_prune_def if_not_P [OF False]
    by (rule total_run_bind_pair [OF fill_law]) (rule rest)
qed

lemma insert_prune_run:
  assumes "distinct (map nbr_id visited)" and "nbr_id ` set visited \<subseteq> L" and "out_edges cfg L i (al_edges nn)"
  shows "total_run (\<lambda>(g, s). at G L g) (insert_prune cfg contains dflt P i attempt visited nn)
      (\<lambda>e (g, s). at G L g) (\<lambda>(l, retry) (g, s). at G L g \<and> out_edges cfg L i (al_edges l))"
    (is "total_run ?P _ ?E ?Q")
proof -
  let ?pool = "sorted_neighbors_new visited (cf_max_occlusion_size cfg)"
  have sub: "mset (map nbr_id ?pool) \<subseteq># mset (map nbr_id visited)"
    unfolding mset_map by (rule image_mset_subseteq_mono [OF sorted_neighbors_sub(2)])
  have pool: "distinct (map nbr_id ?pool)" "nbr_id ` set ?pool \<subseteq> L"
    using distinct_submset [OF assms(1) sub] set_mset_mono [OF sub] assms(2) by auto
  have prune: "total_run ?P (on_provider (index_robust_prune cfg contains dflt P i
        \<lparr>pc_pool = ?pool, pc_states = st, pc_neighbors = nn\<rparr> options)) ?E
      (\<lambda>ctx (g, s). at G L g \<and> out_edges cfg L i (al_edges (pc_neighbors ctx)))" for st options
    by (rule total_run_on_provider, simp only: prod.case, rule index_robust_prune_run)
      (use pool assms(3) in \<open>simp_all add: sorted_neighbors_sub\<close>)
  show ?thesis
    unfolding insert_prune_def Let_def
    by (rule total_run_bind [OF total_run_get_scratch], rule total_run_bind [OF total_run_pre [OF prune]], force,
        rule total_run_bind [OF total_run_modify_frame], rule total_run_return)
      auto
qed

lemma insert_attempts_run:
  assumes "searchable L a" and "0 < search_l" and "scratch = scratch_new (Fixed search_l)"
    and "out_edges cfg L i (al_edges nn)"
  shows "total_run (\<lambda>(g, s). at G L g)
      (insert_attempts cfg contains dflt P i n attempt a scratch search_l nn)
      (\<lambda>e (g, s). at G L g) (\<lambda>l (g, s). at G L g \<and> out_edges cfg L i (al_edges l))"
  using assms
proof (induction n arbitrary: attempt a scratch search_l nn)
  case 0
  then show ?case by (auto intro: total_run_return)
next
  case (Suc n)
  let ?E = "\<lambda>(e :: 'e ann_error) (g, s :: 'i prune_scratch). at G L g"
  let ?Q = "\<lambda>l (g, s :: 'i prune_scratch). at G L g \<and> out_edges cfg L i (al_edges l)"
  from search_law [OF Suc.prems(1,2)] obtain r where
    run: "search_internal (ip_search_ops P) npq_ops visited_record None a scratch [] = Some r"
    and r: "case r of Inl e \<Rightarrow> True | Inr (stats, a', s', visited) \<Rightarrow>
           searchable L a' \<and> \<not> pq_auto_resizable (ss_best s') \<and>
           distinct (map nbr_id visited) \<and> nbr_id ` set visited \<subseteq> L"
    unfolding Suc.prems(3) by blast
  show ?case
  proof (cases r)
    case (Inl e)
    with run show ?thesis by (auto simp: total_run_def bind_run_def of_option_def)
  next
    case (Inr v)
    obtain stats a' s' visited where v: "v = (stats, a', s', visited)" by (cases v) auto
    from r Inr v have vis: "searchable L a'" "\<not> pq_auto_resizable (ss_best s')"
      "distinct (map nbr_id visited)" "nbr_id ` set visited \<subseteq> L" by auto
    have again: "total_run (\<lambda>(g, s). at G L g) (insert_attempts cfg contains dflt P i n (Suc attempt) a'
        (scratch_clear (scratch_resize s' (search_l * 2))) (search_l * 2) l) ?E ?Q"
      if "out_edges cfg L i (al_edges l)" for l
      by (rule Suc.IH [OF vis(1) _ fresh_scratch [OF vis(2)] that]) (use Suc.prems(2) in simp)
    have "total_run (\<lambda>(g, s). at G L g \<and> out_edges cfg L i (al_edges l)) (if \<not> retry then return_run l
        else insert_attempts cfg contains dflt P i n (Suc attempt) a'
          (scratch_clear (scratch_resize s' (search_l * 2))) (search_l * 2) l) ?E ?Q" for l retry
      by (rule total_run_fact [where \<phi> = "out_edges cfg L i (al_edges l)"])
        (use again [of l] in \<open>auto intro: total_run_return\<close>)
    then show ?thesis
      unfolding insert_attempts.simps run Inr v bind_run_of_option prod.case
      by (rule total_run_bind_pair [OF insert_prune_run [OF vis(3,4) Suc.prems(4)]])
  qed
qed

end

text \<open>
  The graph after a complete insertion of \<open>i\<close> with the out-edges \<open>ns\<close>, and after one that stopped
  somewhere.
\<close>

definition inserted ::
  "config \<Rightarrow> nat \<Rightarrow> 'i set \<Rightarrow> ('i \<Rightarrow> 'i list) \<Rightarrow> 'i \<Rightarrow> 'i list \<Rightarrow> ('i \<Rightarrow> 'i list) \<Rightarrow> bool" where
  "inserted cfg cap L G i ns G' \<longleftrightarrow> out_edges cfg L i ns \<and>
     relinked cfg cap (\<lambda>_. [i]) {} (set (take (cf_max_backedges cfg) ns)) (G(i := ns)) G'"

definition partly_inserted ::
  "config \<Rightarrow> nat \<Rightarrow> 'i set \<Rightarrow> ('i \<Rightarrow> 'i list) \<Rightarrow> 'i \<Rightarrow> ('i \<Rightarrow> 'i list) \<Rightarrow> bool" where
  "partly_inserted cfg cap L G i G' \<longleftrightarrow> G' = G \<or> (\<exists>ns. out_edges cfg L i ns \<and>
     partly_relinked cfg cap (\<lambda>_. [i]) {} (set (take (cf_max_backedges cfg) ns)) (G(i := ns)) G')"

lemma inserted_partly: "inserted cfg cap L G i ns G' \<Longrightarrow> partly_inserted cfg cap L G i G'"
  by (auto simp: inserted_def partly_inserted_def dest: relinked_partly)

lemma partly_inserted_simple:
  assumes "partly_inserted cfg cap L G i G'" and "simple_graph cfg U G" and "L \<subseteq> U" and "i \<in> U"
    and "cf_pruned_degree cfg \<le> cf_max_degree cfg"
  shows "simple_graph cfg U G'"
proof (cases "G' = G")
  case True
  with assms(2) show ?thesis by simp
next
  case False
  with assms(1) obtain ns where ns: "out_edges cfg L i ns"
    "partly_relinked cfg cap (\<lambda>_. [i]) {} (set (take (cf_max_backedges cfg) ns)) (G(i := ns)) G'"
    by (auto simp: partly_inserted_def)
  have "simple_graph cfg U (G(i := ns))"
    using assms(2,3,5) ns(1) by (auto simp: simple_graph_def out_edges_def)
  with ns(2) show ?thesis
    by (rule partly_relinked_simple)
      (use assms(4) ns(1) set_take_subset [of _ ns] in \<open>auto simp: out_edges_def\<close>)
qed

lemma total_run_ex: "(\<And>x. total_run (P x) m E Q) \<Longrightarrow> total_run (\<lambda>g. \<exists>x. P x g) m E Q"
  by (auto simp: total_run_def)

context insert_store
begin

lemma insert_edges_run:
  assumes "searchable L a" and "0 < l" and "i \<in> L"
  shows "total_run (at G L) (own_scratch (
        bind_run (insert_attempts cfg contains dflt P i n 0 a (scratch_new (Fixed l)) l al_new) (\<lambda>new_neighbors.
        bind_run (on_provider (na_set_neighbors P i (al_edges new_neighbors))) (\<lambda>_.
        bind_run (each_run (\<lambda>source. add_edge_and_prune cfg contains dflt P [i] source None)
          (take (cf_max_backedges cfg) (al_edges new_neighbors))) (\<lambda>_.
        on_provider (ip_complete P i))))))
      (\<lambda>e g. \<exists>G'. at G' L g \<and> partly_inserted cfg cap L G i G')
      (\<lambda>u g. \<exists>G' ns. at G' L g \<and> inserted cfg cap L G i ns G')"
proof (rule total_run_own_scratch, rule total_run_bind)
  let ?E = "\<lambda>(e :: 'e ann_error) (g, s :: 'i prune_scratch). \<exists>G'. at G' L g \<and> partly_inserted cfg cap L G i G'"
  let ?Q = "\<lambda>(u :: unit) (g, s :: 'i prune_scratch). \<exists>G' ns. at G' L g \<and> inserted cfg cap L G i ns G'"
  have "out_edges cfg L i (al_edges al_new)" by (simp add: out_edges_def al_new_def)
  from insert_attempts_run [OF assms(1,2) refl this, of G n 0]
  show "total_run (\<lambda>(g, s). s = prune_scratch_new \<and> at G L g)
      (insert_attempts cfg contains dflt P i n 0 a (scratch_new (Fixed l)) l al_new) ?E
      (\<lambda>l (g, s). at G L g \<and> out_edges cfg L i (al_edges l))"
    by (rule total_run_weaken) (auto simp: partly_inserted_def)
  fix l :: "'i adjacency_list"
  let ?src = "take (cf_max_backedges cfg) (al_edges l)"
  show "total_run (\<lambda>(g, s). at G L g \<and> out_edges cfg L i (al_edges l))
      (bind_run (on_provider (na_set_neighbors P i (al_edges l))) (\<lambda>_.
       bind_run (each_run (\<lambda>source. add_edge_and_prune cfg contains dflt P [i] source None) ?src) (\<lambda>_.
       on_provider (ip_complete P i)))) ?E ?Q"
  proof (rule total_run_fact [where \<phi> = "out_edges cfg L i (al_edges l)"])
    assume o: "out_edges cfg L i (al_edges l)"
    have set: "total_run (\<lambda>(g, s). at G L g \<and> out_edges cfg L i (al_edges l))
        (on_provider (na_set_neighbors P i (al_edges l))) ?E (\<lambda>u (g, s). at (G(i := al_edges l)) L g)"
      by (rule total_run_on_provider)
        (rule total_run_weaken [OF set_law [of G L i "al_edges l"]], auto simp: partly_inserted_def)
    have src: "distinct ?src" "set ?src \<subseteq> L"
      using o set_take_subset [of "cf_max_backedges cfg" "al_edges l"] by (auto simp: out_edges_def)
    have edges: "total_run (\<lambda>(g, s). at (G(i := al_edges l)) L g)
        (each_run (\<lambda>source. add_edge_and_prune cfg contains dflt P [i] source None) ?src) ?E
        (\<lambda>u (g, s). \<exists>G' ns. at G' L g \<and> inserted cfg cap L G i ns G')"
      by (rule total_run_weaken [OF add_edges_run [OF src, of "G(i := al_edges l)" "\<lambda>_. [i]" None]])
        (use o in \<open>auto simp: partly_inserted_def inserted_def\<close>)
    have "total_run (\<lambda>g. at G' L g \<and> inserted cfg cap L G i ns G') (ip_complete P i)
        (\<lambda>e g. \<exists>G'. at G' L g \<and> partly_inserted cfg cap L G i G')
        (\<lambda>u g. \<exists>G' ns. at G' L g \<and> inserted cfg cap L G i ns G')" for G' ns
    proof (rule total_run_fact [where \<phi> = "inserted cfg cap L G i ns G'"])
      assume ins: "inserted cfg cap L G i ns G'"
      with inserted_partly [OF ins] show "total_run (\<lambda>g. at G' L g \<and> inserted cfg cap L G i ns G') (ip_complete P i)
        (\<lambda>e g. \<exists>G'. at G' L g \<and> partly_inserted cfg cap L G i G')
        (\<lambda>u g. \<exists>G' ns. at G' L g \<and> inserted cfg cap L G i ns G')"
        by (intro total_run_weaken [OF complete_law [of G' L i]]) blast+
    qed auto
    then have complete: "total_run (\<lambda>(g, s :: 'i prune_scratch). \<exists>G' ns. at G' L g \<and> inserted cfg cap L G i ns G')
        (on_provider (ip_complete P i)) ?E ?Q"
      by (intro total_run_on_provider) (simp only: prod.case, intro total_run_ex)
    show "total_run (\<lambda>(g, s). at G L g \<and> out_edges cfg L i (al_edges l))
      (bind_run (on_provider (na_set_neighbors P i (al_edges l))) (\<lambda>_.
       bind_run (each_run (\<lambda>source. add_edge_and_prune cfg contains dflt P [i] source None) ?src) (\<lambda>_.
       on_provider (ip_complete P i)))) ?E ?Q"
      by (rule total_run_bind [OF set total_run_bind [OF edges complete]])
  qed auto
qed

end

context insert_store
begin

lemma insert_links_run:
  assumes "0 < cf_l_build cfg" and "i \<in> L"
  shows "total_run (at G L) (insert_links cfg contains dflt P pooled vector i)
      (\<lambda>e g. \<exists>G'. at G' L g \<and> partly_inserted cfg cap L G i G')
      (\<lambda>u g. \<exists>G' ns. at G' L g \<and> inserted cfg cap L G i ns G')"
proof -
  let ?E = "\<lambda>(e :: 'e ann_error) g. \<exists>G'. at G' L g \<and> partly_inserted cfg cap L G i G'"
  let ?Q = "\<lambda>(u :: unit) g. \<exists>G' ns. at G' L g \<and> inserted cfg cap L G i ns G'"
  have same: "?E e g" if "at G L g" for e g using that by (auto simp: partly_inserted_def)
  have accessor: "total_run (at G L) (ip_search_accessor P vector) ?E (\<lambda>(a, h) g. at G L g \<and> searchable L a)"
    by (rule total_run_weaken [OF accessor_law [of G L vector]]) (use same in auto)
  have prune: "total_run (\<lambda>g. at G L g \<and> searchable L a)
      (pa_prune_accessor P (cf_max_occlusion_size cfg)) ?E (\<lambda>u. at G L)" for a
    by (rule total_run_weaken [OF open_law [of G L]]) (use same in simp_all)
  have drop: "total_run R m ?E ?Q \<Longrightarrow> total_run R (dropping (pa_drop P h) m) ?E ?Q" for R m h
    by (erule total_run_dropping) (blast intro: drop_law)+
  have l: "qo_search_l npq_ops (ss_best (scratch_new (Fixed m) :: ('i npq, 'i) search_scratch)) = m" for m
    by (simp add: scratch_new_def npq_new_def npq_ops_def)
  note edges = insert_edges_run [OF _ _ assms(2), where G = G]
  show ?thesis
    unfolding insert_links_def search_scratch_of_eq Let_def l
    by (rule total_run_bind_pair [OF accessor], rule drop,
        rule total_run_bind_result, use same in blast, rule total_run_fact, erule conjunct2,
        rule total_run_bind [OF prune], rule drop, rule edges)
      (use assms(1) in blast)+
qed

end

section \<open>Pruning a range\<close>

text \<open>Only lists of \<open>S\<close> changed, and each that did is a pruned one.\<close>

definition trimmed :: "config \<Rightarrow> 'i set \<Rightarrow> ('i \<Rightarrow> 'i list) \<Rightarrow> ('i \<Rightarrow> 'i list) \<Rightarrow> bool" where
  "trimmed cfg S G G' \<longleftrightarrow> (\<forall>i. G' i = G i \<or> i \<in> S \<and> cf_pruned_degree cfg < length (G i) \<and> pruned cfg i (G i) (G' i))"

lemma trimmed_simple:
  "trimmed cfg S G G' \<Longrightarrow> simple_graph cfg U G \<Longrightarrow> cf_pruned_degree cfg \<le> cf_max_degree cfg \<Longrightarrow> simple_graph cfg U G'"
  unfolding simple_graph_def trimmed_def pruned_def by (metis Diff_empty Diff_insert0 le_trans subset_Diff_insert subset_trans)

lemma trimmed_step:
  assumes "if length (G i) \<le> cf_pruned_degree cfg then ns = G i else pruned cfg i (G i) ns"
    and "trimmed cfg (set ids) (G(i := ns)) G'"
  shows "trimmed cfg (set (i # ids)) G G'" and "length (G' i) \<le> cf_pruned_degree cfg"
proof -
  note t = assms(2) [unfolded trimmed_def, THEN spec]
  have len: "length ns \<le> cf_pruned_degree cfg" using assms(1) by (auto simp: pruned_def split: if_splits)
  then have i: "G' i = ns" using t [of i] by simp
  then show "length (G' i) \<le> cf_pruned_degree cfg" using len by simp
  show "trimmed cfg (set (i # ids)) G G'"
    unfolding trimmed_def
  proof
    fix j
    show "G' j = G j \<or> j \<in> set (i # ids) \<and> cf_pruned_degree cfg < length (G j) \<and> pruned cfg j (G j) (G' j)"
      using t [of j] i assms(1) by (cases "j = i") (auto split: if_splits)
  qed
qed

context pruning_store
begin

lemma prune_one_run:
  "total_run (\<lambda>(g, s). at G L g)
     (bind_run (on_provider (na_get_neighbors A i)) (\<lambda>neighbors.
       if length (al_edges neighbors) \<le> cf_pruned_degree cfg then return_run ()
       else bind_run (escalate (robust_prune_list cfg contains dflt A i neighbors
              \<lparr>po_force_saturate = False\<rparr>)) (\<lambda>_.
            bind_run get_scratch (\<lambda>s.
            on_provider (na_set_neighbors A i (al_edges (ps_neighbors s)))))))
     (\<lambda>e (g, s). at G L g)
     (\<lambda>u (g, s). \<exists>ns. at (G(i := ns)) L g \<and>
        (if length (G i) \<le> cf_pruned_degree cfg then ns = G i else pruned cfg i (G i) ns))"
    (is "total_run _ _ ?E ?Q")
proof (rule total_run_bind)
  show "total_run (\<lambda>(g, s). at G L g) (on_provider (na_get_neighbors A i)) ?E
      (\<lambda>l (g, s). at G L g \<and> al_edges l = G i)"
    by (rule total_run_on_provider) (simp add: get_law)
  fix l :: "'i adjacency_list"
  show "total_run (\<lambda>(g, s). at G L g \<and> al_edges l = G i)
      (if length (al_edges l) \<le> cf_pruned_degree cfg then return_run ()
       else bind_run (escalate (robust_prune_list cfg contains dflt A i l \<lparr>po_force_saturate = False\<rparr>)) (\<lambda>_.
            bind_run get_scratch (\<lambda>s.
            on_provider (na_set_neighbors A i (al_edges (ps_neighbors s)))))) ?E ?Q"
  proof (rule total_run_fact [where \<phi> = "al_edges l = G i"])
    assume l: "al_edges l = G i"
    have "total_run (\<lambda>(g, s). at G L g)
      (bind_run (escalate (robust_prune_list cfg contains dflt A i l \<lparr>po_force_saturate = False\<rparr>)) (\<lambda>_.
       bind_run get_scratch (\<lambda>s. on_provider (na_set_neighbors A i (al_edges (ps_neighbors s)))))) ?E
      (\<lambda>u (g, s). \<exists>ns. at (G(i := ns)) L g \<and> pruned cfg i (G i) ns)" if "G i \<noteq> []"
    proof (rule total_run_bind)
      show "total_run (\<lambda>(g, s). at G L g)
        (escalate (robust_prune_list cfg contains dflt A i l \<lparr>po_force_saturate = False\<rparr>)) ?E
        (\<lambda>u (g, s). at G L g \<and> pruned cfg i (G i) (al_edges (ps_neighbors s)))"
        by (rule total_run_escalate)
          (rule total_run_weaken [OF robust_prune_list_run [of G L i l]], use that l in \<open>auto split: ranked_error.splits\<close>)
    qed (rule set_pruned_run)
    then show "total_run (\<lambda>(g, s). at G L g \<and> al_edges l = G i)
      (if length (al_edges l) \<le> cf_pruned_degree cfg then return_run ()
       else bind_run (escalate (robust_prune_list cfg contains dflt A i l \<lparr>po_force_saturate = False\<rparr>)) (\<lambda>_.
            bind_run get_scratch (\<lambda>s.
            on_provider (na_set_neighbors A i (al_edges (ps_neighbors s)))))) ?E ?Q"
      by (cases "length (G i) \<le> cf_pruned_degree cfg"; cases "G i = []")
        (auto simp: l fun_upd_idem intro!: total_run_return exI [of _ "G i"])
  qed auto
qed

lemma prune_range_run:
  "total_run (at G L) (prune_range cfg contains dflt A ids)
     (\<lambda>e g. \<exists>G'. at G' L g \<and> trimmed cfg (set ids) G G')
     (\<lambda>u g. \<exists>G'. at G' L g \<and> trimmed cfg (set ids) G G' \<and> (\<forall>i \<in> set ids. length (G' i) \<le> cf_pruned_degree cfg))"
proof -
  let ?f = "\<lambda>i. bind_run (on_provider (na_get_neighbors A i)) (\<lambda>neighbors.
       if length (al_edges neighbors) \<le> cf_pruned_degree cfg then return_run ()
       else bind_run (escalate (robust_prune_list cfg contains dflt A i neighbors
              \<lparr>po_force_saturate = False\<rparr>)) (\<lambda>_.
            bind_run get_scratch (\<lambda>s.
            on_provider (na_set_neighbors A i (al_edges (ps_neighbors s))))))"
  let ?E = "\<lambda>ids G (e :: 'e ann_error) (g, s :: 'i prune_scratch). \<exists>G'. at G' L g \<and> trimmed cfg (set ids) G G'"
  let ?Q = "\<lambda>ids G (u :: unit) (g, s :: 'i prune_scratch). \<exists>G'. at G' L g \<and> trimmed cfg (set ids) G G' \<and>
    (\<forall>i \<in> set ids. length (G' i) \<le> cf_pruned_degree cfg)"
  have each: "total_run (\<lambda>(g, s). at G L g) (each_run ?f ids) (?E ids G) (?Q ids G)" for G
  proof (induction ids arbitrary: G)
    case Nil
    then show ?case by (auto intro!: total_run_return simp: trimmed_def)
  next
    case (Cons i ids)
    let ?R = "\<lambda>ns. if length (G i) \<le> cf_pruned_degree cfg then ns = G i else pruned cfg i (G i) ns"
    have rest: "total_run (\<lambda>(g, s). at (G(i := ns)) L g) (each_run ?f ids) (?E (i # ids) G) (?Q (i # ids) G)" if "?R ns" for ns
    proof -
      note trim = trimmed_step [of G i, OF that]
      show ?thesis by (rule total_run_weaken [OF Cons.IH [of "G(i := ns)"]]) (use trim in fastforce)+
    qed
    show ?case
      unfolding each_run.simps
    proof (rule total_run_bind)
      show "total_run (\<lambda>(g, s). at G L g) (?f i) (?E (i # ids) G) (\<lambda>u (g, s). \<exists>ns. at (G(i := ns)) L g \<and> ?R ns)"
        by (rule total_run_weaken [OF prune_one_run [of G L i]]) (auto simp: trimmed_def)
      show "total_run (\<lambda>(g, s). \<exists>ns. at (G(i := ns)) L g \<and> ?R ns) (each_run ?f ids) (?E (i # ids) G) (?Q (i # ids) G)"
        by (rule total_run_ex_pair) (rule rest)
    qed
  qed
  have "total_run (at G L) (pa_prune_accessor A (cf_max_occlusion_size cfg))
      (\<lambda>e g. \<exists>G'. at G' L g \<and> trimmed cfg (set ids) G G') (\<lambda>u. at G L)"
    by (rule total_run_weaken [OF open_law [of G L]]) (auto simp: trimmed_def)
  then show ?thesis
    unfolding prune_range_def
    by (rule total_run_bind)
      (rule total_run_dropping, rule total_run_own_scratch, rule total_run_pre [OF each], simp, (blast intro: drop_law)+)
qed

end

section \<open>Reachability and degrees\<close>

definition reach :: "('i \<Rightarrow> 'i list) \<Rightarrow> 'i set \<Rightarrow> 'i set" where
  "reach G S = {(u, v). v \<in> set (G u)}\<^sup>* `` S"

lemma reach_step: "u \<in> reach G S \<Longrightarrow> v \<in> set (G u) \<Longrightarrow> v \<in> reach G S"
  unfolding reach_def by (auto intro: rtrancl_into_rtrancl)

lemma reach_start: "S \<subseteq> reach G S"
  by (auto simp: reach_def)

lemma reach_least:
  assumes "S \<subseteq> E" and "\<And>u. u \<in> E \<Longrightarrow> set (G u) \<subseteq> E"
  shows "reach G S \<subseteq> E"
proof
  fix v
  assume "v \<in> reach G S"
  then obtain s where "s \<in> S" and path: "(s, v) \<in> {(u, v). v \<in> set (G u)}\<^sup>*" by (auto simp: reach_def)
  from path show "v \<in> E"
    by (induction rule: rtrancl_induct) (use assms \<open>s \<in> S\<close> in auto)
qed

text \<open>The state of the traversal: what is expanded is closed up to the queue.\<close>

definition frontier_ok :: "('i \<Rightarrow> 'i list) \<Rightarrow> 'i set \<Rightarrow> 'i set \<Rightarrow> 'i list \<Rightarrow> bool" where
  "frontier_ok G S expanded queue \<longleftrightarrow> expanded \<subseteq> reach G S \<and> set queue \<subseteq> reach G S \<and>
     S \<subseteq> expanded \<union> set queue \<and> (\<forall>u \<in> expanded. set (G u) \<subseteq> expanded \<union> set queue)"

lemma frontier_done: "frontier_ok G S expanded [] \<Longrightarrow> expanded = reach G S"
  using reach_least [of S expanded G] by (auto simp: frontier_ok_def)

lemma frontier_skip: "frontier_ok G S expanded (i # queue) \<Longrightarrow> i \<in> expanded \<Longrightarrow> frontier_ok G S expanded queue"
  by (auto simp: frontier_ok_def)

lemma frontier_expand:
  "frontier_ok G S expanded (i # queue) \<Longrightarrow> frontier_ok G S (insert i expanded) (queue @ G i)"
  by (auto simp: frontier_ok_def intro: reach_step)

context graph_store
begin

lemma reachable_loop_run:
  assumes "finite (reach G S)" and "frontier_ok G S expanded queue" and "at G L g"
  shows "\<exists>r g'. reachable_loop A expanded queue g = Some (r, g') \<and> at G L g' \<and>
     (case r of Inl e \<Rightarrow> True | Inr n \<Rightarrow> n = card (reach G S))"
  using assms(2,3)
proof (induction "(card (reach G S - expanded), length queue)" arbitrary: expanded queue g
    rule: wf_induct_rule [OF wf_lex_prod [OF wf_less_than wf_less_than]])
  case (1 expanded queue g)
  show ?case
  proof (cases queue)
    case Nil
    with 1(2) have "expanded = reach G S" by (intro frontier_done) simp
    with Nil 1(3) show ?thesis by (subst reachable_loop.simps) simp
  next
    case (Cons i rest)
    show ?thesis
    proof (cases "i \<in> expanded")
      case True
      with 1(2) Cons have "frontier_ok G S expanded rest" by (simp add: frontier_skip)
      from 1(1) [OF _ this 1(3)] Cons True show ?thesis by (subst reachable_loop.simps) simp
    next
      case False
      from get_law [of G L i] 1(3) show ?thesis
      proof (cases rule: total_runE)
        case (failed e g')
        then show ?thesis using Cons False by (subst reachable_loop.simps) simp
      next
        case (returned l g')
        have "i \<in> reach G S" using 1(2) Cons by (simp add: frontier_ok_def)
        with False have "reach G S - insert i expanded \<subset> reach G S - expanded" by blast
        then have "card (reach G S - insert i expanded) < card (reach G S - expanded)"
          using assms(1) by (intro psubset_card_mono) auto
        moreover have "frontier_ok G S (insert i expanded) (rest @ G i)"
          using 1(2) Cons by (simp add: frontier_expand)
        ultimately have "\<exists>r h. reachable_loop A (insert i expanded) (rest @ G i) g' = Some (r, h) \<and> at G L h \<and>
            (case r of Inl e \<Rightarrow> True | Inr n \<Rightarrow> n = card (reach G S))"
          by (intro 1(1)) (use returned(2) in auto)
        with returned Cons False show ?thesis by (subst reachable_loop.simps) simp
      qed
    qed
  qed
qed

lemma count_reachable_nodes_run:
  assumes "finite (reach G (set start_points))"
  shows "total_run (at G L) (count_reachable_nodes A start_points)
      (\<lambda>e. at G L) (\<lambda>n g. at G L g \<and> n = card (reach G (set start_points)))"
proof (rule total_runI)
  fix g
  assume g: "at G L g"
  have "frontier_ok G (set start_points) {} start_points" using reach_start [of "set start_points" G]
    by (auto simp: frontier_ok_def)
  from reachable_loop_run [OF assms this g]
  show "\<exists>r g'. count_reachable_nodes A start_points g = Some (r, g') \<and>
     (case r of Inl e \<Rightarrow> at G L g' | Inr n \<Rightarrow> at G L g' \<and> n = card (reach G (set start_points)))"
    unfolding count_reachable_nodes_def by (elim exE conjE) (force split: sum.splits)
qed

end

definition degree_acc_of :: "degree_acc \<Rightarrow> nat list \<Rightarrow> degree_acc" where
  "degree_acc_of acc lens = \<lparr>da_max = foldl max (da_max acc) lens, da_min = foldl min (da_min acc) lens,
     da_total = da_total acc + sum_list lens,
     da_less_than_two = da_less_than_two acc + length (filter (\<lambda>n. n < 2) lens),
     da_live = da_live acc + length lens\<rparr>"

context graph_store
begin

lemma degree_loop_run:
  "total_run (at G L) (degree_loop A itr acc) (\<lambda>e. at G L)
     (\<lambda>acc' g. at G L g \<and> acc' = degree_acc_of acc (map (\<lambda>i. length (G i)) itr))"
proof (induction itr arbitrary: acc)
  case Nil
  show ?case by (auto intro!: total_run_return simp: degree_acc_of_def)
next
  case (Cons i itr)
  show ?case
    unfolding degree_loop.simps Let_def
  proof (rule total_run_bind [OF get_law [of G L i]])
    fix l :: "'i adjacency_list"
    let ?acc = "\<lparr>da_max = max (da_max acc) (length (al_edges l)), da_min = min (da_min acc) (length (al_edges l)),
        da_total = da_total acc + length (al_edges l),
        da_less_than_two = (if length (al_edges l) < 2 then da_less_than_two acc + 1 else da_less_than_two acc),
        da_live = da_live acc + 1\<rparr>"
    show "total_run (\<lambda>g. at G L g \<and> al_edges l = G i) (degree_loop A itr ?acc) (\<lambda>e. at G L)
       (\<lambda>acc' g. at G L g \<and> acc' = degree_acc_of acc (map (\<lambda>i. length (G i)) (i # itr)))"
    proof (rule total_run_fact [where \<phi> = "al_edges l = G i"])
      assume "al_edges l = G i"
      then have eq: "degree_acc_of ?acc (map (\<lambda>i. length (G i)) itr) = degree_acc_of acc (map (\<lambda>i. length (G i)) (i # itr))"
        by (simp add: degree_acc_of_def)
      show "total_run (\<lambda>g. at G L g \<and> al_edges l = G i) (degree_loop A itr ?acc) (\<lambda>e. at G L)
         (\<lambda>acc' g. at G L g \<and> acc' = degree_acc_of acc (map (\<lambda>i. length (G i)) (i # itr)))"
        by (rule total_run_weaken [OF Cons.IH [of ?acc, unfolded eq]]) blast+
    qed simp
  qed
qed

end

lemma foldl_max_set: "foldl max m (xs :: nat list) = Max (insert m (set xs))"
proof (induction xs arbitrary: m)
  case (Cons x xs)
  have "Max (insert (max m x) (set xs)) = Max (insert m (insert x (set xs)))"
    by (cases "xs = []") (simp_all add: max.assoc)
  with Cons show ?case by simp
qed simp

lemma foldl_min_set: "foldl min m (xs :: nat list) = Min (insert m (set xs))"
proof (induction xs arbitrary: m)
  case (Cons x xs)
  have "Min (insert (min m x) (set xs)) = Min (insert m (insert x (set xs)))"
    by (cases "xs = []") (simp_all add: min.assoc)
  with Cons show ?case by simp
qed simp

text \<open>What the statistics say of a graph whose degrees fit in 32 bits.\<close>

definition stats_of :: "nat list \<Rightarrow> degree_stats \<Rightarrow> bool" where
  "stats_of lens st \<longleftrightarrow> unat (ds_max_degree st) = Max (set lens) \<and> unat (ds_min_degree st) = Min (set lens) \<and>
     ds_cnt_less_than_two st = length (filter (\<lambda>n. n < 2) lens) \<and>
     ds_avg_degree st = f32_div (f32_of_nat (sum_list lens)) (f32_of_nat (length lens))"

context graph_store
begin

lemma get_degree_stats_run:
  assumes "itr \<noteq> []" and "\<forall>i \<in> set itr. length (G i) < 2 ^ 32"
  shows "total_run (at G L) (get_degree_stats A itr) (\<lambda>e. at G L)
      (\<lambda>st g. at G L g \<and> stats_of (map (\<lambda>i. length (G i)) itr) st)"
proof -
  let ?acc = "\<lparr>da_max = 0, da_min = USIZE_MAX, da_total = 0, da_less_than_two = 0, da_live = 0\<rparr>"
  let ?lens = "map (\<lambda>i. length (G i)) itr"
  have fin: "finite (set ?lens)" "set ?lens \<noteq> {}" using assms(1) by simp_all
  have mx: "Max (set ?lens) \<in> set ?lens" "Min (set ?lens) \<in> set ?lens" using fin by (rule Max_in, rule Min_in)
  then have lt: "Max (set ?lens) < 2 ^ 32" "Min (set ?lens) < 2 ^ 32" using assms(2) by auto
  have "foldl max 0 ?lens = Max (set ?lens)"
    unfolding foldl_max_set using fin by simp
  moreover have "foldl min USIZE_MAX ?lens = Min (set ?lens)"
  proof -
    have "Min (set ?lens) \<le> USIZE_MAX" using lt(2) by (simp add: USIZE_MAX_def)
    then show ?thesis unfolding foldl_min_set using fin by simp
  qed
  ultimately have "total_run (\<lambda>g. at G L g \<and> acc = degree_acc_of ?acc ?lens)
     (if da_live acc = 0 then
       return_run \<lparr>ds_max_degree = 0, ds_avg_degree = f32_zero, ds_min_degree = 0, ds_cnt_less_than_two = 0\<rparr>
     else
       bind_run (of_result (u32_try_from (da_max acc))) (\<lambda>max_degree.
       bind_run (of_result (u32_try_from (da_min acc))) (\<lambda>min_degree.
       return_run \<lparr>ds_max_degree = max_degree,
         ds_avg_degree = f32_div (f32_of_nat (da_total acc)) (f32_of_nat (da_live acc)),
         ds_min_degree = min_degree, ds_cnt_less_than_two = da_less_than_two acc\<rparr>)))
     (\<lambda>e. at G L) (\<lambda>st g. at G L g \<and> stats_of ?lens st)" for acc
    using lt assms(1)
    by (auto simp: total_run_def degree_acc_of_def stats_of_def u32_try_from_def bind_run_def of_result_def
        return_run_def unat_of_nat take_bit_nat_def)
  then show ?thesis
    unfolding get_degree_stats_def by (rule total_run_bind [OF degree_loop_run])
qed

end

end
