(* ===== verification/IndexDelete.thy ===== *)
theory IndexDelete
  imports IndexBuild
begin

text \<open>
  The operations of \<open>DiskANNIndex\<close> (\<open>diskann/src/graph/index.rs\<close>) that remove points and repair the
  graph around them: \<open>inplace_delete\<close>, \<open>drop_deleted_neighbors\<close> and \<open>consolidate_vector\<close>, with the
  helpers that classify neighbors and find who points at a deleted vertex.

  \<open>HashSet\<close> and \<open>HashMap\<close> iterate in an unspecified order: the order of a set is the parameter
  \<open>order\<close>, of which \<open>iteration_order\<close> says that it lists every element once.
\<close>

section \<open>The provider's side\<close>

text \<open>The traits \<open>Delete\<close> and \<open>InplaceDeleteStrategy\<close>.\<close>

record ('g, 'i, 'e, 'v, 'h, 'x, 'w, 'a) delete_provider = "('g, 'i, 'e, 'v, 'h, 'x, 'w, 'a) insert_provider" +
  dl_to_internal_id :: "'x \<Rightarrow> ('g, 'e ranked_error, 'i) run"
  dl_delete :: "'x \<Rightarrow> ('g, 'e ranked_error, unit) run"
  dl_status_by_internal_id :: "'i \<Rightarrow> ('g, 'e ranked_error, element_status) run"
  dl_get_delete_element :: "'i \<Rightarrow> ('g, 'e ann_error, 'w) run"
  dl_post_process :: "('a, 'i, 'i nbr back_inserter, 'e) post_process"

definition iteration_order :: "('i set \<Rightarrow> 'i list) \<Rightarrow> bool" where
  "iteration_order order \<longleftrightarrow> (\<forall>S. finite S \<longrightarrow> set (order S) = S \<and> distinct (order S))"

text \<open>\<open>unwrap_or(Deleted)\<close>: an error means that the element is gone, a panic is still a panic.\<close>

definition status_or_deleted ::
  "('g, 'i, 'e, 'v, 'h, 'x, 'w, 'a, 'z) delete_provider_scheme \<Rightarrow> 'i \<Rightarrow> ('g, 'e ann_error, element_status) run" where
  "status_or_deleted P i = (\<lambda>g. case dl_status_by_internal_id P i g of
     None \<Rightarrow> None
   | Some (Inr status, g') \<Rightarrow> Some (Inr status, g')
   | Some (Inl (Hard (AnnPanic p)), g') \<Rightarrow> Some (Inl (AnnPanic p), g')
   | Some (Inl e, g') \<Rightarrow> Some (Inr Deleted, g'))"

fun any_deleted ::
  "('g, 'i, 'e, 'v, 'h, 'x, 'w, 'a, 'z) delete_provider_scheme \<Rightarrow> 'i list \<Rightarrow> ('g, 'e ann_error, bool) run" where
  "any_deleted P [] = return_run False"
| "any_deleted P (neighbor_id # neighbors) =
     bind_run (status_or_deleted P neighbor_id) (\<lambda>is_deleted.
     if is_deleted = Deleted then return_run True else any_deleted P neighbors)"

definition is_any_neighbor_deleted ::
  "('g, 'i, 'e, 'v, 'h, 'x, 'w, 'a, 'z) delete_provider_scheme \<Rightarrow> 'i \<Rightarrow> ('g, 'e ann_error, bool) run" where
  "is_any_neighbor_deleted P vector_id =
     bind_run (na_get_neighbors P vector_id) (\<lambda>neighbors. any_deleted P (al_edges neighbors))"

definition drop_adj_list ::
  "('g, 'i, 'e, 'z) neighbor_accessor_scheme \<Rightarrow> 'i \<Rightarrow> ('g, 'e ann_error, unit) run" where
  "drop_adj_list A vector_id = na_set_neighbors A vector_id []"

section \<open>Classifying neighbors\<close>

text \<open>\<open>statuses_unordered\<close> as the trait provides it; the ids go to \<open>on_present\<close> and \<open>on_deleted\<close> in turn.\<close>

fun statuses_unordered ::
  "('g, 'i, 'e, 'v, 'h, 'x, 'w, 'a, 'z) delete_provider_scheme \<Rightarrow> 'i list \<Rightarrow> ('g, 'e ann_error, 'i list \<times> 'i list) run" where
  "statuses_unordered P [] = return_run ([], [])"
| "statuses_unordered P (i # itr) =
     bind_run (status_or_deleted P i) (\<lambda>status.
     bind_run (statuses_unordered P itr) (\<lambda>(present, deleted).
     return_run (if status = Deleted then (present, i # deleted) else (i # present, deleted))))"

definition on_neighbors ::
  "('g, 'i, 'e, 'v, 'h, 'x, 'w, 'a, 'z) delete_provider_scheme \<Rightarrow> 'i \<Rightarrow> ('g, 'e ann_error, 'i list \<times> 'i list) run" where
  "on_neighbors P vector_id =
     bind_run (na_get_neighbors P vector_id) (\<lambda>neighbors. statuses_unordered P (al_edges neighbors))"

record 'i partitioned_neighbors =
  pn_undeleted :: "'i list"
  pn_deleted :: "'i list"

definition get_undeleted_neighbors ::
  "('g, 'i, 'e, 'v, 'h, 'x, 'w, 'a, 'z) delete_provider_scheme \<Rightarrow> 'i \<Rightarrow> ('g, 'e ann_error, 'i partitioned_neighbors) run" where
  "get_undeleted_neighbors P vector_id =
     bind_run (on_neighbors P vector_id) (\<lambda>(undeleted, deleted).
     return_run \<lparr>pn_undeleted = undeleted, pn_deleted = deleted\<rparr>)"

fun return_refs_to_deleted_vertex ::
  "('i list \<Rightarrow> 'i \<Rightarrow> bool) \<Rightarrow> ('g, 'i, 'e, 'z) neighbor_accessor_scheme \<Rightarrow> 'i \<Rightarrow> 'i list \<Rightarrow> ('g, 'e ann_error, 'i list) run" where
  "return_refs_to_deleted_vertex contains A vector_id [] = return_run []"
| "return_refs_to_deleted_vertex contains A vector_id (candidate_id # candidate_list) =
     bind_run (na_get_neighbors A candidate_id) (\<lambda>candidate_adj_list.
     bind_run (return_refs_to_deleted_vertex contains A vector_id candidate_list) (\<lambda>return_candidates.
     return_run (if al_contains contains candidate_adj_list vector_id
                 then candidate_id # return_candidates else return_candidates)))"

section \<open>Candidates for a deletion in place\<close>

datatype inplace_delete_method =
    VisitedAndTopK nat nat
  | TwoHopAndOneHop
  | OneHop

record 'i inplace_delete_work_list =
  wl_replace_candidates :: "'i list"
  wl_in_neighbors :: "'i list"

definition get_candidates_using_visited_and_topk ::
  "config \<Rightarrow> ('i list \<Rightarrow> 'i \<Rightarrow> bool) \<Rightarrow> 'i \<Rightarrow> ('g, 'i, 'e, 'v, 'h, 'x, 'w, 'a, 'z) delete_provider_scheme \<Rightarrow>
   ('i npq, 'i) search_scratch option \<Rightarrow> 'i \<Rightarrow> nat \<Rightarrow> nat \<Rightarrow> 'w \<Rightarrow> ('g, 'e ann_error, 'i inplace_delete_work_list) run" where
  "get_candidates_using_visited_and_topk cfg contains dflt P pooled vector_id l_value k_value v =
     bind_run (ip_search_accessor P v) (\<lambda>(a, h).
     dropping (pa_drop P h) (
     bind_run (of_result (num_starting_points (ip_search_ops P) a)) (\<lambda>num_start_ids.
     let scratch = search_scratch_of pooled (cf_max_degree cfg) l_value num_start_ids in
     bind_run (of_option (search_internal (ip_search_ops P) npq_ops noop_record None a scratch ()))
       (\<lambda>(stats, a, scratch, _).
     bind_run (of_result (lift_panic (qo_iter npq_ops (ss_best scratch)))) (\<lambda>candidates.
     bind_run (of_result (dl_post_process P a candidates
       (bi_new (replicate l_value (Neighbor dflt f32_zero))))) (\<lambda>(num_results, a, out).
     let undeleted_ids = map nbr_id (take num_results (bi_buffer out)) in
     bind_run (pa_prune_accessor P 0) (\<lambda>h.
     dropping (pa_drop P h) (
     bind_run (return_refs_to_deleted_vertex contains P vector_id undeleted_ids) (\<lambda>ids_to_modify.
     return_run \<lparr>wl_replace_candidates = take k_value undeleted_ids, wl_in_neighbors = ids_to_modify\<rparr>)))))))))"

fun collect_two_hop ::
  "('g, 'i, 'e, 'z) neighbor_accessor_scheme \<Rightarrow> 'i list \<Rightarrow> 'i set \<Rightarrow> ('g, 'e ann_error, 'i set) run" where
  "collect_two_hop A [] two_hop_nbhs = return_run two_hop_nbhs"
| "collect_two_hop A (nbh # nbhs) two_hop_nbhs =
     bind_run (na_get_neighbors A nbh) (\<lambda>nbh_adj_list.
     collect_two_hop A nbhs (insert nbh two_hop_nbhs \<union> set (al_edges nbh_adj_list)))"

text \<open>A transient failure of the status counts as deleted, a hard one is passed on.\<close>

fun keep_undeleted ::
  "('g, 'i, 'e, 'v, 'h, 'x, 'w, 'a, 'z) delete_provider_scheme \<Rightarrow> 'i list \<Rightarrow> ('g, 'e ann_error, 'i list) run" where
  "keep_undeleted P [] = return_run []"
| "keep_undeleted P (neighbor # neighbors) =
     bind_run (allow_transient (dl_status_by_internal_id P neighbor)) (\<lambda>status.
     bind_run (keep_undeleted P neighbors) (\<lambda>rest.
     return_run (if status = Some Valid then neighbor # rest else rest)))"

definition get_candidates_using_twohop_and_onehop ::
  "('i set \<Rightarrow> 'i list) \<Rightarrow> ('i list \<Rightarrow> 'i \<Rightarrow> bool) \<Rightarrow> ('g, 'i, 'e, 'v, 'h, 'x, 'w, 'a, 'z) delete_provider_scheme \<Rightarrow> 'i \<Rightarrow>
   ('g, 'e ann_error, 'i inplace_delete_work_list) run" where
  "get_candidates_using_twohop_and_onehop order contains P vector_id =
     bind_run (on_neighbors P vector_id) (\<lambda>(undeleted_one_hop_nbhs, _).
     bind_run (collect_two_hop P undeleted_one_hop_nbhs {}) (\<lambda>two_hop_nbhs.
     bind_run (keep_undeleted P (order two_hop_nbhs)) (\<lambda>undeleted_two_hop_nbhs.
     bind_run (return_refs_to_deleted_vertex contains P vector_id undeleted_two_hop_nbhs) (\<lambda>in_neighbors.
     return_run \<lparr>wl_replace_candidates = undeleted_one_hop_nbhs, wl_in_neighbors = in_neighbors\<rparr>))))"

definition get_candidates_using_onehop ::
  "('i list \<Rightarrow> 'i \<Rightarrow> bool) \<Rightarrow> ('g, 'i, 'e, 'v, 'h, 'x, 'w, 'a, 'z) delete_provider_scheme \<Rightarrow> 'i \<Rightarrow>
   ('g, 'e ann_error, 'i inplace_delete_work_list) run" where
  "get_candidates_using_onehop contains P vector_id =
     bind_run (on_neighbors P vector_id) (\<lambda>(undeleted_one_hop_nbhs, _).
     bind_run (return_refs_to_deleted_vertex contains P vector_id undeleted_one_hop_nbhs) (\<lambda>in_neighbors.
     return_run \<lparr>wl_replace_candidates = undeleted_one_hop_nbhs, wl_in_neighbors = in_neighbors\<rparr>))"

section \<open>Deletion in place\<close>

text \<open>The closest replacement candidates of a vertex in the view, other than itself.\<close>

definition closest_candidates ::
  "('v \<Rightarrow> 'v \<Rightarrow> f32) \<Rightarrow> ('i \<rightharpoonup> 'v) \<Rightarrow> nat \<Rightarrow> 'i list \<Rightarrow> 'i \<Rightarrow> 'v \<Rightarrow> 'i list" where
  "closest_candidates computer view num_to_replace replace_candidates neighbor candidate =
     (let pool = distances_from computer view candidate (filter (\<lambda>other_id. other_id \<noteq> neighbor) replace_candidates)
      in map nbr_id (take num_to_replace (sort_by fast_distance pool)))"

fun edges_of_in_neighbors ::
  "('v \<Rightarrow> 'v \<Rightarrow> f32) \<Rightarrow> ('i \<rightharpoonup> 'v) \<Rightarrow> nat \<Rightarrow> 'i list \<Rightarrow> 'i list \<Rightarrow> ('i \<rightharpoonup> 'i list) \<Rightarrow> ('i \<rightharpoonup> 'i list)" where
  "edges_of_in_neighbors computer view k replace_candidates [] edges_to_add = edges_to_add"
| "edges_of_in_neighbors computer view k replace_candidates (neighbor # in_neighbors) edges_to_add =
     edges_of_in_neighbors computer view k replace_candidates in_neighbors
       (case view neighbor of
          None \<Rightarrow> edges_to_add
        | Some candidate \<Rightarrow>
            edges_to_add(neighbor \<mapsto> closest_candidates computer view k replace_candidates neighbor candidate))"

definition push_edge :: "'i \<Rightarrow> ('i \<rightharpoonup> 'i list) \<Rightarrow> 'i \<Rightarrow> ('i \<rightharpoonup> 'i list)" where
  "push_edge neighbor edges_to_add n =
     edges_to_add(n \<mapsto> (case edges_to_add n of None \<Rightarrow> [] | Some edges \<Rightarrow> edges) @ [neighbor])"

fun edges_of_out_neighbors ::
  "('v \<Rightarrow> 'v \<Rightarrow> f32) \<Rightarrow> ('i \<rightharpoonup> 'v) \<Rightarrow> nat \<Rightarrow> 'i list \<Rightarrow> 'i list \<Rightarrow> ('i \<rightharpoonup> 'i list) \<Rightarrow> ('i \<rightharpoonup> 'i list)" where
  "edges_of_out_neighbors computer view k replace_candidates [] edges_to_add = edges_to_add"
| "edges_of_out_neighbors computer view k replace_candidates (neighbor # adjacency_list) edges_to_add =
     edges_of_out_neighbors computer view k replace_candidates adjacency_list
       (case view neighbor of
          None \<Rightarrow> edges_to_add
        | Some candidate \<Rightarrow>
            foldl (push_edge neighbor) edges_to_add
              (closest_candidates computer view k replace_candidates neighbor candidate))"

text \<open>\<open>inplace_delete_inner\<close> once the element is deleted: the edges to add.\<close>

definition inplace_delete_edges ::
  "config \<Rightarrow> ('i set \<Rightarrow> 'i list) \<Rightarrow> ('i list \<Rightarrow> 'i \<Rightarrow> bool) \<Rightarrow> 'i \<Rightarrow> ('g, 'i, 'e, 'v, 'h, 'x, 'w, 'a, 'z) delete_provider_scheme \<Rightarrow>
   ('i npq, 'i) search_scratch option \<Rightarrow> nat \<Rightarrow> inplace_delete_method \<Rightarrow> 'i \<Rightarrow> 'w option \<Rightarrow>
   ('g, 'e ann_error, 'i \<rightharpoonup> 'i list) run" where
  "inplace_delete_edges cfg order contains dflt P pooled num_to_replace meth vector_id delete_element =
     bind_run (pa_prune_accessor P (cf_max_occlusion_size cfg)) (\<lambda>h.
     dropping (pa_drop P h) (
     bind_run (case meth of
         VisitedAndTopK k l \<Rightarrow>
           (case delete_element of
              Some v \<Rightarrow> get_candidates_using_visited_and_topk cfg contains dflt P pooled vector_id l k v
            | None \<Rightarrow> fail_run (AnnPanic AssertFailed))
       | TwoHopAndOneHop \<Rightarrow> get_candidates_using_twohop_and_onehop order contains P vector_id
       | OneHop \<Rightarrow> get_candidates_using_onehop contains P vector_id) (\<lambda>work.
     let replace_candidates = wl_replace_candidates work; in_neighbors = wl_in_neighbors work in
     bind_run (get_undeleted_neighbors P vector_id) (\<lambda>parts.
     let adjacency_list = pn_undeleted parts in
     bind_run (pa_fill P (replace_candidates @ in_neighbors @ adjacency_list)) (\<lambda>(view, computer).
     return_run (edges_of_out_neighbors computer view num_to_replace replace_candidates adjacency_list
       (edges_of_in_neighbors computer view num_to_replace replace_candidates in_neighbors Map.empty)))))))"

definition inplace_delete_inner ::
  "config \<Rightarrow> ('i set \<Rightarrow> 'i list) \<Rightarrow> ('i list \<Rightarrow> 'i \<Rightarrow> bool) \<Rightarrow> 'i \<Rightarrow> ('g, 'i, 'e, 'v, 'h, 'x, 'w, 'a, 'z) delete_provider_scheme \<Rightarrow>
   ('i npq, 'i) search_scratch option \<Rightarrow> 'x \<Rightarrow> nat \<Rightarrow> inplace_delete_method \<Rightarrow> ('g, 'e ann_error, 'i \<rightharpoonup> 'i list) run" where
  "inplace_delete_inner cfg order contains dflt P pooled gid num_to_replace meth =
     bind_run (escalate (dl_to_internal_id P gid)) (\<lambda>vector_id.
     bind_run (case meth of
         VisitedAndTopK _ _ \<Rightarrow> bind_run (dl_get_delete_element P vector_id) (\<lambda>v. return_run (Some v))
       | _ \<Rightarrow> return_run None) (\<lambda>delete_element.
     bind_run (escalate (dl_delete P gid)) (\<lambda>_.
     inplace_delete_edges cfg order contains dflt P pooled num_to_replace meth vector_id delete_element)))"

text \<open>\<open>inplace_delete\<close> once the edges are known: they are added, and the deleted vertex loses its own.\<close>

definition inplace_delete_apply ::
  "config \<Rightarrow> ('i set \<Rightarrow> 'i list) \<Rightarrow> ('i list \<Rightarrow> 'i \<Rightarrow> bool) \<Rightarrow> 'i \<Rightarrow> ('g, 'i, 'e, 'v, 'h, 'x, 'w, 'a, 'z) delete_provider_scheme \<Rightarrow>
   'i \<Rightarrow> ('i \<rightharpoonup> 'i list) \<Rightarrow> ('g, 'e ann_error, unit) run" where
  "inplace_delete_apply cfg order contains dflt P vector_id edges_to_add =
     bind_run (pa_prune_accessor P (cf_max_occlusion_size cfg)) (\<lambda>h.
     dropping (pa_drop P h) (own_scratch (
     bind_run (each_run (\<lambda>neighbor. add_edge_and_prune cfg contains dflt P (the (edges_to_add neighbor)) neighbor
         (Some {vector_id})) (order (dom edges_to_add))) (\<lambda>_.
     on_provider (drop_adj_list P vector_id)))))"

definition inplace_delete ::
  "config \<Rightarrow> ('i set \<Rightarrow> 'i list) \<Rightarrow> ('i list \<Rightarrow> 'i \<Rightarrow> bool) \<Rightarrow> 'i \<Rightarrow> ('g, 'i, 'e, 'v, 'h, 'x, 'w, 'a, 'z) delete_provider_scheme \<Rightarrow>
   ('i npq, 'i) search_scratch option \<Rightarrow> 'x \<Rightarrow> nat \<Rightarrow> inplace_delete_method \<Rightarrow> ('g, 'e ann_error, unit) run" where
  "inplace_delete cfg order contains dflt P pooled gid num_to_replace meth =
     bind_run (escalate (dl_to_internal_id P gid)) (\<lambda>vector_id.
     bind_run (inplace_delete_inner cfg order contains dflt P pooled gid num_to_replace meth) (\<lambda>edges_to_add.
     inplace_delete_apply cfg order contains dflt P vector_id edges_to_add))"

section \<open>Repairing a vertex\<close>

datatype consolidate_kind =
    ConsolidateDeleted
  | FailedVectorRetrieval
  | ConsolidateComplete

fun keep_pending ::
  "('g, 'i, 'e, 'z) neighbor_accessor_scheme \<Rightarrow> 'i list \<Rightarrow> ('g, 'e ann_error, 'i list) run" where
  "keep_pending A [] = return_run []"
| "keep_pending A (deleted_nbh # deleted) =
     bind_run (na_get_neighbors A deleted_nbh) (\<lambda>neighbors.
     bind_run (keep_pending A deleted) (\<lambda>rest.
     return_run (if al_edges neighbors \<noteq> [] then deleted_nbh # rest else rest)))"

definition drop_deleted_neighbors ::
  "config \<Rightarrow> ('g, 'i, 'e, 'v, 'h, 'x, 'w, 'a, 'z) delete_provider_scheme \<Rightarrow> 'i \<Rightarrow> bool \<Rightarrow> ('g, 'e ann_error, consolidate_kind) run" where
  "drop_deleted_neighbors cfg P vector_id only_orphans =
     bind_run (escalate (dl_status_by_internal_id P vector_id)) (\<lambda>status.
     if status = Deleted then return_run ConsolidateDeleted
     else bind_run (get_undeleted_neighbors P vector_id) (\<lambda>parts.
       bind_run (if only_orphans then keep_pending P (pn_deleted parts) else return_run []) (\<lambda>pending.
       let pool = pn_undeleted parts @ pending in
       if pn_deleted parts = [] \<and> length pool \<le> cf_pruned_degree cfg then return_run ConsolidateComplete
       else bind_run (na_set_neighbors P vector_id pool) (\<lambda>_. return_run ConsolidateComplete))))"

fun pool_neighbors ::
  "('g, 'i, 'e, 'v, 'h, 'x, 'w, 'a, 'z) delete_provider_scheme \<Rightarrow> 'i list \<Rightarrow> 'i set \<Rightarrow> ('g, 'e ann_error, 'i set) run" where
  "pool_neighbors P [] pool = return_run pool"
| "pool_neighbors P (deleted_id # deleted_neighbors) pool =
     bind_run (on_neighbors P deleted_id) (\<lambda>(present, _). pool_neighbors P deleted_neighbors (pool \<union> set present))"

definition consolidate_vector ::
  "config \<Rightarrow> ('i set \<Rightarrow> 'i list) \<Rightarrow> ('i list \<Rightarrow> 'i \<Rightarrow> bool) \<Rightarrow> 'i \<Rightarrow> ('g, 'i, 'e, 'v, 'h, 'x, 'w, 'a, 'z) delete_provider_scheme \<Rightarrow>
   'i \<Rightarrow> ('g, 'e ann_error, consolidate_kind) run" where
  "consolidate_vector cfg order contains dflt P vector_id =
     bind_run (escalate (dl_status_by_internal_id P vector_id)) (\<lambda>status.
     if status = Deleted then return_run ConsolidateDeleted
     else bind_run (pa_prune_accessor P (cf_max_occlusion_size cfg)) (\<lambda>h.
       dropping (pa_drop P h) (
       bind_run (on_neighbors P vector_id) (\<lambda>(present, deleted_neighbors).
       if deleted_neighbors = [] \<and> card (set present) \<le> cf_pruned_degree cfg then return_run ConsolidateComplete
       else bind_run (pool_neighbors P deleted_neighbors (set present)) (\<lambda>pool.
         let neighbors = al_from_iter_unique (order (pool - {vector_id})) in
         if length (al_edges neighbors) < cf_pruned_degree cfg then
           bind_run (na_set_neighbors P vector_id (al_edges neighbors)) (\<lambda>_. return_run ConsolidateComplete)
         else own_scratch (
           bind_run (allow_transient (robust_prune_list cfg contains dflt P vector_id neighbors
             \<lparr>po_force_saturate = False\<rparr>)) (\<lambda>pruned.
           case pruned of
             None \<Rightarrow> return_run FailedVectorRetrieval
           | Some _ \<Rightarrow>
               bind_run get_scratch (\<lambda>s.
               bind_run (on_provider (na_set_neighbors P vector_id (al_edges (ps_neighbors s)))) (\<lambda>_.
               return_run ConsolidateComplete)))))))))"

section \<open>What deletion relies on\<close>

text \<open>
  The status tells the live elements from the others, and fails for none that is alive; the search for a
  deleted element yields live ones.
\<close>

locale delete_store = insert_store P inv cap adj live contains cfg dflt searchable
  for P :: "('g, 'i, 'e, 'v, 'h, 'x, 'w, 'a, 'z) delete_provider_scheme" and inv cap adj live
    and contains :: "'i list \<Rightarrow> 'i \<Rightarrow> bool" and cfg :: config and dflt :: 'i and searchable +
  fixes order :: "'i set \<Rightarrow> 'i list"
  assumes order_law: "iteration_order order"
    and status_law: "total_run (store_at inv adj live G L) (dl_status_by_internal_id P i)
      (\<lambda>e g. store_at inv adj live G L g \<and> i \<notin> L) (\<lambda>st g. store_at inv adj live G L g \<and> (st = Valid \<longleftrightarrow> i \<in> L))"
    and delete_search_law: "searchable L a \<Longrightarrow> 0 < l \<Longrightarrow>
      \<exists>r. search_internal (ip_search_ops P) npq_ops noop_record None a (scratch_new (Fixed l)) () = Some r \<and>
        (case r of Inl e \<Rightarrow> True | Inr (stats, a', s', u) \<Rightarrow> \<forall>cs m x n a'' out.
           qo_iter npq_ops (ss_best s') = Inr cs \<longrightarrow> dl_post_process P a' cs (bi_new (replicate m x)) = Inr (n, a'', out) \<longrightarrow>
           nbr_id ` set (take n (bi_buffer out)) \<subseteq> L)"
begin

lemma status_or_deleted_run:
  "total_run (at G L) (status_or_deleted P i) (\<lambda>e. at G L) (\<lambda>st g. at G L g \<and> (st = Valid \<longleftrightarrow> i \<in> L))"
proof (rule total_runI)
  fix g
  assume "at G L g"
  with status_law [of G L i] show "\<exists>r g'. status_or_deleted P i g = Some (r, g') \<and>
      (case r of Inl e \<Rightarrow> at G L g' | Inr st \<Rightarrow> at G L g' \<and> (st = Valid \<longleftrightarrow> i \<in> L))"
    by (cases rule: total_runE)
      (auto simp: status_or_deleted_def split: ranked_error.splits ann_error.splits)
qed

lemma statuses_run:
  "total_run (at G L) (statuses_unordered P itr) (\<lambda>e. at G L)
     (\<lambda>(p, d) g. at G L g \<and> p = filter (\<lambda>i. i \<in> L) itr \<and> d = filter (\<lambda>i. i \<notin> L) itr)"
proof (induction itr)
  case Nil
  then show ?case by (auto intro: total_run_return)
next
  case (Cons i itr)
  have "total_run (\<lambda>g. at G L g \<and> (st = Valid \<longleftrightarrow> i \<in> L))
      (bind_run (statuses_unordered P itr) (\<lambda>(p, d). return_run (if st = Deleted then (p, i # d) else (i # p, d))))
      (\<lambda>e. at G L) (\<lambda>(p, d) g. at G L g \<and> p = filter (\<lambda>i. i \<in> L) (i # itr) \<and> d = filter (\<lambda>i. i \<notin> L) (i # itr))" for st
    by (rule total_run_fact [where \<phi> = "st = Valid \<longleftrightarrow> i \<in> L"], blast,
        rule total_run_bind_pair [OF total_run_pre [OF Cons]], blast, rule total_run_return)
      (cases st, auto)
  then show ?case
    unfolding statuses_unordered.simps by (rule total_run_bind [OF status_or_deleted_run])
qed

lemma on_neighbors_run:
  "total_run (at G L) (on_neighbors P i) (\<lambda>e. at G L)
     (\<lambda>(p, d) g. at G L g \<and> p = filter (\<lambda>j. j \<in> L) (G i) \<and> d = filter (\<lambda>j. j \<notin> L) (G i))"
  unfolding on_neighbors_def
  by (rule total_run_bind [OF get_law], rule total_run_fact, erule conjunct2)
    (rule total_run_weaken [OF statuses_run], auto)

lemma get_undeleted_neighbors_run:
  "total_run (at G L) (get_undeleted_neighbors P i) (\<lambda>e. at G L)
     (\<lambda>p g. at G L g \<and> pn_undeleted p = filter (\<lambda>j. j \<in> L) (G i) \<and> pn_deleted p = filter (\<lambda>j. j \<notin> L) (G i))"
  unfolding get_undeleted_neighbors_def
  by (rule total_run_bind_pair [OF on_neighbors_run], rule total_run_return) auto

lemma refs_run:
  "total_run (at G L) (return_refs_to_deleted_vertex contains P i cs) (\<lambda>e. at G L)
     (\<lambda>r g. at G L g \<and> r = filter (\<lambda>c. i \<in> set (G c)) cs)"
proof (induction cs)
  case Nil
  then show ?case by (auto intro: total_run_return)
next
  case (Cons c cs)
  have "total_run (\<lambda>g. at G L g \<and> al_edges l = G c)
      (bind_run (return_refs_to_deleted_vertex contains P i cs) (\<lambda>r.
       return_run (if al_contains contains l i then c # r else r))) (\<lambda>e. at G L)
      (\<lambda>r g. at G L g \<and> r = filter (\<lambda>c. i \<in> set (G c)) (c # cs))" for l
    by (rule total_run_fact [where \<phi> = "al_edges l = G c"], blast,
        rule total_run_bind [OF total_run_pre [OF Cons]], blast, rule total_run_return)
      (auto simp: al_contains_def contains_law)
  then show ?case
    unfolding return_refs_to_deleted_vertex.simps by (rule total_run_bind [OF get_law])
qed

lemma two_hop_run:
  "total_run (at G L) (collect_two_hop P ns S) (\<lambda>e. at G L)
     (\<lambda>T g. at G L g \<and> T = S \<union> set ns \<union> (\<Union>b \<in> set ns. set (G b)))"
proof (induction ns arbitrary: S)
  case Nil
  then show ?case by (auto intro: total_run_return)
next
  case (Cons b ns)
  show ?case
    unfolding collect_two_hop.simps
    by (rule total_run_bind [OF get_law], rule total_run_fact, erule conjunct2)
      (rule total_run_weaken [OF Cons], auto)
qed

lemma keep_undeleted_run:
  "total_run (at G L) (keep_undeleted P ns) (\<lambda>e. at G L) (\<lambda>r g. at G L g \<and> r = filter (\<lambda>i. i \<in> L) ns)"
proof (induction ns)
  case Nil
  then show ?case by (auto intro: total_run_return)
next
  case (Cons i ns)
  have status: "total_run (at G L) (allow_transient (dl_status_by_internal_id P i)) (\<lambda>e. at G L)
      (\<lambda>st g. at G L g \<and> (st = Some Valid \<longleftrightarrow> i \<in> L))"
    by (rule total_run_allow_transient) (rule total_run_weaken [OF status_law [of G L i]], auto split: ranked_error.splits)
  have "total_run (\<lambda>g. at G L g \<and> (st = Some Valid \<longleftrightarrow> i \<in> L))
      (bind_run (keep_undeleted P ns) (\<lambda>rest. return_run (if st = Some Valid then i # rest else rest))) (\<lambda>e. at G L)
      (\<lambda>r g. at G L g \<and> r = filter (\<lambda>i. i \<in> L) (i # ns))" for st
    by (rule total_run_fact [where \<phi> = "st = Some Valid \<longleftrightarrow> i \<in> L"], blast,
        rule total_run_bind [OF total_run_pre [OF Cons]], blast, rule total_run_return) auto
  then show ?case
    unfolding keep_undeleted.simps by (rule total_run_bind [OF status])
qed

end

section \<open>Work lists and edges\<close>

text \<open>The vertices a method looks at for edges to the deleted vertex, as far as the graph determines them.\<close>

fun looked_at :: "inplace_delete_method \<Rightarrow> ('i \<Rightarrow> 'i list) \<Rightarrow> 'i set \<Rightarrow> 'i \<Rightarrow> 'i set" where
  "looked_at (VisitedAndTopK k l) G L i = {}"
| "looked_at TwoHopAndOneHop G L i = L \<inter> (set (G i) \<union> (\<Union>b \<in> set (G i) \<inter> L. set (G b)))"
| "looked_at OneHop G L i = L \<inter> set (G i)"

definition work_ok ::
  "inplace_delete_method \<Rightarrow> ('i \<Rightarrow> 'i list) \<Rightarrow> 'i set \<Rightarrow> 'i \<Rightarrow> 'i inplace_delete_work_list \<Rightarrow> bool" where
  "work_ok meth G L i w \<longleftrightarrow> set (wl_replace_candidates w) \<subseteq> L \<and> set (wl_in_neighbors w) \<subseteq> L \<and>
     {c \<in> looked_at meth G L i. i \<in> set (G c)} \<subseteq> set (wl_in_neighbors w)"

text \<open>The edges to add lead from live vertices to other live vertices.\<close>

definition edges_ok :: "'i set \<Rightarrow> ('i \<rightharpoonup> 'i list) \<Rightarrow> bool" where
  "edges_ok L m \<longleftrightarrow> finite (dom m) \<and> dom m \<subseteq> L \<and> (\<forall>k ns. m k = Some ns \<longrightarrow> set ns \<subseteq> L - {k})"

lemma closest_candidates_sub:
  "set (closest_candidates computer view k rc n cand) \<subseteq> set rc - {n}"
proof -
  let ?ids = "filter (\<lambda>other_id. other_id \<noteq> n) rc" and ?ds = "distances_from computer view cand"
  have "set (closest_candidates computer view k rc n cand) \<subseteq> set (map nbr_id (?ds ?ids))"
    using set_take_subset [of k "sort_by fast_distance (?ds ?ids)"] by (auto simp: closest_candidates_def Let_def)
  also have "\<dots> \<subseteq> set ?ids" by (rule distances_from_ids)
  finally show ?thesis by auto
qed

lemma edges_of_in_ok:
  assumes "edges_ok L m" and "set rc \<subseteq> L" and "set ns \<subseteq> L"
  shows "edges_ok L (edges_of_in_neighbors computer view k rc ns m)"
    and "dom m \<union> (set ns \<inter> dom view) \<subseteq> dom (edges_of_in_neighbors computer view k rc ns m)"
proof -
  have "edges_ok L (edges_of_in_neighbors computer view k rc ns m) \<and>
    dom m \<union> (set ns \<inter> dom view) \<subseteq> dom (edges_of_in_neighbors computer view k rc ns m)"
    using assms(1,3)
  proof (induction ns arbitrary: m)
    case (Cons n ns)
    let ?m = "case view n of None \<Rightarrow> m | Some cand \<Rightarrow> m(n \<mapsto> closest_candidates computer view k rc n cand)"
    have "edges_ok L ?m"
      using Cons.prems assms(2) closest_candidates_sub [of computer view k rc n]
      by (cases "view n") (fastforce simp: edges_ok_def split: if_splits)+
    from Cons.IH [OF this] Cons.prems have IH: "edges_ok L (edges_of_in_neighbors computer view k rc ns ?m)"
      "dom ?m \<union> (set ns \<inter> dom view) \<subseteq> dom (edges_of_in_neighbors computer view k rc ns ?m)" by simp_all
    have "dom m \<union> (set (n # ns) \<inter> dom view) \<subseteq> dom ?m \<union> (set ns \<inter> dom view)" by (cases "view n") auto
    with IH show ?case by (simp only: edges_of_in_neighbors.simps) blast
  qed simp
  then show "edges_ok L (edges_of_in_neighbors computer view k rc ns m)"
    "dom m \<union> (set ns \<inter> dom view) \<subseteq> dom (edges_of_in_neighbors computer view k rc ns m)" by simp_all
qed

lemma push_edges_ok:
  assumes "edges_ok L m" and "set xs \<subseteq> L - {n}" and "n \<in> L"
  shows "edges_ok L (foldl (push_edge n) m xs)" and "dom m \<subseteq> dom (foldl (push_edge n) m xs)"
proof -
  have "edges_ok L (foldl (push_edge n) m xs) \<and> dom m \<subseteq> dom (foldl (push_edge n) m xs)"
    using assms(1,2)
  proof (induction xs arbitrary: m)
    case (Cons x xs)
    have "edges_ok L (push_edge n m x)"
      using Cons.prems assms(3) by (cases "m x") (fastforce simp: edges_ok_def push_edge_def split: if_splits)+
    from Cons.IH [OF this] Cons.prems have "edges_ok L (foldl (push_edge n) (push_edge n m x) xs)"
      "dom (push_edge n m x) \<subseteq> dom (foldl (push_edge n) (push_edge n m x) xs)" by simp_all
    moreover have "dom m \<subseteq> dom (push_edge n m x)" by (auto simp: push_edge_def)
    ultimately show ?case unfolding foldl.simps by blast
  qed simp
  then show "edges_ok L (foldl (push_edge n) m xs)" "dom m \<subseteq> dom (foldl (push_edge n) m xs)" by simp_all
qed

lemma edges_of_out_ok:
  assumes "edges_ok L m" and "set rc \<subseteq> L" and "set ns \<subseteq> L"
  shows "edges_ok L (edges_of_out_neighbors computer view k rc ns m)"
    and "dom m \<subseteq> dom (edges_of_out_neighbors computer view k rc ns m)"
proof -
  have "edges_ok L (edges_of_out_neighbors computer view k rc ns m) \<and>
    dom m \<subseteq> dom (edges_of_out_neighbors computer view k rc ns m)"
    using assms(1,3)
  proof (induction ns arbitrary: m)
    case (Cons n ns)
    let ?m = "case view n of None \<Rightarrow> m | Some cand \<Rightarrow>
      foldl (push_edge n) m (closest_candidates computer view k rc n cand)"
    have "edges_ok L ?m \<and> dom m \<subseteq> dom ?m"
    proof (cases "view n")
      case (Some cand)
      have "set (closest_candidates computer view k rc n cand) \<subseteq> L - {n}"
        using closest_candidates_sub [of computer view k rc n cand] assms(2) by blast
      from push_edges_ok [OF Cons.prems(1) this] Cons.prems(2) Some show ?thesis by simp
    qed (use Cons.prems(1) in simp)
    moreover from this Cons.prems(2) have "edges_ok L (edges_of_out_neighbors computer view k rc ns ?m) \<and>
        dom ?m \<subseteq> dom (edges_of_out_neighbors computer view k rc ns ?m)"
      by (intro Cons.IH) simp_all
    ultimately show ?case unfolding edges_of_out_neighbors.simps by blast
  qed simp
  then show "edges_ok L (edges_of_out_neighbors computer view k rc ns m)"
    "dom m \<subseteq> dom (edges_of_out_neighbors computer view k rc ns m)" by simp_all
qed

context delete_store
begin

lemma onehop_run:
  "total_run (at G L) (get_candidates_using_onehop contains P i) (\<lambda>e. at G L) (\<lambda>w g. at G L g \<and> work_ok OneHop G L i w)"
proof -
  have "total_run (\<lambda>g. at G L g \<and> p = filter (\<lambda>j. j \<in> L) (G i) \<and> d = filter (\<lambda>j. j \<notin> L) (G i))
     (bind_run (return_refs_to_deleted_vertex contains P i p) (\<lambda>r.
      return_run \<lparr>wl_replace_candidates = p, wl_in_neighbors = r\<rparr>)) (\<lambda>e. at G L)
     (\<lambda>w g. at G L g \<and> work_ok OneHop G L i w)" for p d
    by (rule total_run_fact [where \<phi> = "p = filter (\<lambda>j. j \<in> L) (G i)"], blast,
        rule total_run_bind [OF total_run_pre [OF refs_run]], blast, rule total_run_return)
      (auto simp: work_ok_def)
  then show ?thesis
    unfolding get_candidates_using_onehop_def by (rule total_run_bind_pair [OF on_neighbors_run])
qed

lemma order_set: "finite S \<Longrightarrow> set (order S) = S" "finite S \<Longrightarrow> distinct (order S)"
  using order_law by (simp_all add: iteration_order_def)

lemma twohop_run:
  "total_run (at G L) (get_candidates_using_twohop_and_onehop order contains P i) (\<lambda>e. at G L)
     (\<lambda>w g. at G L g \<and> work_ok TwoHopAndOneHop G L i w)"
proof -
  have rest: "total_run (\<lambda>g. at G L g \<and> T = {} \<union> set p \<union> (\<Union>b \<in> set p. set (G b)))
     (bind_run (keep_undeleted P (order T)) (\<lambda>u.
      bind_run (return_refs_to_deleted_vertex contains P i u) (\<lambda>r.
      return_run \<lparr>wl_replace_candidates = p, wl_in_neighbors = r\<rparr>))) (\<lambda>e. at G L)
     (\<lambda>w g. at G L g \<and> work_ok TwoHopAndOneHop G L i w)" if p: "p = filter (\<lambda>j. j \<in> L) (G i)" for p T
  proof (rule total_run_fact [where \<phi> = "T = {} \<union> set p \<union> (\<Union>b \<in> set p. set (G b))"])
    assume T: "T = {} \<union> set p \<union> (\<Union>b \<in> set p. set (G b))"
    then have fin: "finite T" by simp
    have set: "set (order T) = T" by (rule order_set [OF fin])
    show "total_run (\<lambda>g. at G L g \<and> T = {} \<union> set p \<union> (\<Union>b \<in> set p. set (G b)))
     (bind_run (keep_undeleted P (order T)) (\<lambda>u.
      bind_run (return_refs_to_deleted_vertex contains P i u) (\<lambda>r.
      return_run \<lparr>wl_replace_candidates = p, wl_in_neighbors = r\<rparr>))) (\<lambda>e. at G L)
     (\<lambda>w g. at G L g \<and> work_ok TwoHopAndOneHop G L i w)"
      by (rule total_run_bind [OF total_run_pre [OF keep_undeleted_run]], blast,
          rule total_run_fact, erule conjunct2,
          rule total_run_bind [OF total_run_pre [OF refs_run]], blast, rule total_run_return)
        (use p T set in \<open>auto simp: work_ok_def\<close>)
  qed blast
  have "total_run (\<lambda>g. at G L g \<and> p = filter (\<lambda>j. j \<in> L) (G i) \<and> d = filter (\<lambda>j. j \<notin> L) (G i))
     (bind_run (collect_two_hop P p {}) (\<lambda>T.
      bind_run (keep_undeleted P (order T)) (\<lambda>u.
      bind_run (return_refs_to_deleted_vertex contains P i u) (\<lambda>r.
      return_run \<lparr>wl_replace_candidates = p, wl_in_neighbors = r\<rparr>)))) (\<lambda>e. at G L)
     (\<lambda>w g. at G L g \<and> work_ok TwoHopAndOneHop G L i w)" for p d
    by (rule total_run_fact [where \<phi> = "p = filter (\<lambda>j. j \<in> L) (G i)"], blast)
      (rule total_run_bind [OF total_run_pre [OF two_hop_run]], blast, rule rest)
  then show ?thesis
    unfolding get_candidates_using_twohop_and_onehop_def by (rule total_run_bind_pair [OF on_neighbors_run])
qed

end

text \<open>A search needs room for at least one candidate.\<close>

fun method_ok :: "inplace_delete_method \<Rightarrow> bool" where
  "method_ok (VisitedAndTopK k l) = (0 < l)"
| "method_ok TwoHopAndOneHop = True"
| "method_ok OneHop = True"

context delete_store
begin

lemma topk_refs_run:
  assumes "set ids \<subseteq> L"
  shows "total_run (at G L) (bind_run (pa_prune_accessor P 0) (\<lambda>h.
     dropping (pa_drop P h) (
     bind_run (return_refs_to_deleted_vertex contains P i ids) (\<lambda>r.
     return_run \<lparr>wl_replace_candidates = take k ids, wl_in_neighbors = r\<rparr>))))
     (\<lambda>e. at G L) (\<lambda>w g. at G L g \<and> work_ok (VisitedAndTopK k l) G L i w)"
proof -
  have "total_run (at G L) (bind_run (return_refs_to_deleted_vertex contains P i ids) (\<lambda>r.
     return_run \<lparr>wl_replace_candidates = take k ids, wl_in_neighbors = r\<rparr>))
     (\<lambda>e. at G L) (\<lambda>w g. at G L g \<and> work_ok (VisitedAndTopK k l) G L i w)"
    by (rule total_run_bind [OF refs_run], rule total_run_return)
      (use assms set_take_subset [of k ids] in \<open>auto simp: work_ok_def\<close>)
  then show ?thesis
    by (rule total_run_bind [OF open_law total_run_dropping]) (auto intro: drop_law)
qed

lemma visited_and_topk_run:
  assumes "0 < l"
  shows "total_run (at G L) (get_candidates_using_visited_and_topk cfg contains dflt P pooled i l k v) (\<lambda>e. at G L)
     (\<lambda>w g. at G L g \<and> work_ok (VisitedAndTopK k l) G L i w)"
proof -
  let ?Q = "\<lambda>w g. at G L g \<and> work_ok (VisitedAndTopK k l) G L i w"
  have search: "total_run (\<lambda>g. at G L g \<and> searchable L a)
     (bind_run (of_option (search_internal (ip_search_ops P) npq_ops noop_record None a (scratch_new (Fixed (l + m))) ()))
       (\<lambda>(stats, a, scratch, _).
     bind_run (of_result (lift_panic (qo_iter npq_ops (ss_best scratch)))) (\<lambda>candidates.
     bind_run (of_result (dl_post_process P a candidates
       (bi_new (replicate l (Neighbor dflt f32_zero))))) (\<lambda>(num_results, a, out).
     bind_run (pa_prune_accessor P 0) (\<lambda>h.
     dropping (pa_drop P h) (
     bind_run (return_refs_to_deleted_vertex contains P i (map nbr_id (take num_results (bi_buffer out)))) (\<lambda>ids_to_modify.
     return_run \<lparr>wl_replace_candidates = take k (map nbr_id (take num_results (bi_buffer out))), wl_in_neighbors = ids_to_modify\<rparr>)))))))
     (\<lambda>e. at G L) ?Q" for a m
  proof (rule total_run_fact [where \<phi> = "searchable L a"])
    assume "searchable L a"
    from delete_search_law [OF this, of "l + m"] assms obtain r where
      run: "search_internal (ip_search_ops P) npq_ops noop_record None a (scratch_new (Fixed (l + m))) () = Some r"
      and r: "case r of Inl e \<Rightarrow> True | Inr (stats, a', s', u) \<Rightarrow> \<forall>cs m x n a'' out.
           qo_iter npq_ops (ss_best s') = Inr cs \<longrightarrow> dl_post_process P a' cs (bi_new (replicate m x)) = Inr (n, a'', out) \<longrightarrow>
           nbr_id ` set (take n (bi_buffer out)) \<subseteq> L" by auto
    show "total_run (\<lambda>g. at G L g \<and> searchable L a)
     (bind_run (of_option (search_internal (ip_search_ops P) npq_ops noop_record None a (scratch_new (Fixed (l + m))) ()))
       (\<lambda>(stats, a, scratch, _).
     bind_run (of_result (lift_panic (qo_iter npq_ops (ss_best scratch)))) (\<lambda>candidates.
     bind_run (of_result (dl_post_process P a candidates
       (bi_new (replicate l (Neighbor dflt f32_zero))))) (\<lambda>(num_results, a, out).
     bind_run (pa_prune_accessor P 0) (\<lambda>h.
     dropping (pa_drop P h) (
     bind_run (return_refs_to_deleted_vertex contains P i (map nbr_id (take num_results (bi_buffer out)))) (\<lambda>ids_to_modify.
     return_run \<lparr>wl_replace_candidates = take k (map nbr_id (take num_results (bi_buffer out))), wl_in_neighbors = ids_to_modify\<rparr>)))))))
     (\<lambda>e. at G L) ?Q"
    proof (cases r)
      case (Inl e)
      with run show ?thesis by (auto simp: total_run_def bind_run_def of_option_def)
    next
      case (Inr x)
      obtain stats a' s' where x: "x = (stats, a', s', ())" by (cases x) auto
      have ids: "nbr_id ` set (take n (bi_buffer out)) \<subseteq> L"
        if "lift_panic (qo_iter npq_ops (ss_best s')) = (Inr cs :: ('e, _) ann_result)"
          "dl_post_process P a' cs (bi_new (replicate l (Neighbor dflt f32_zero))) = Inr (n, a'', out)" for cs n a'' out
        using r Inr x that by (auto simp: lift_panic_def split: sum.splits)
      show ?thesis
        unfolding run Inr x bind_run_of_option prod.case
      proof (rule total_run_bind_result)
        fix cs
        assume cs: "lift_panic (qo_iter npq_ops (ss_best s')) = (Inr cs :: ('e, _) ann_result)"
        show "total_run (\<lambda>g. at G L g \<and> searchable L a)
           (bind_run (of_result (dl_post_process P a' cs (bi_new (replicate l (Neighbor dflt f32_zero))))) (\<lambda>(num_results, a, out).
     bind_run (pa_prune_accessor P 0) (\<lambda>h.
     dropping (pa_drop P h) (
     bind_run (return_refs_to_deleted_vertex contains P i (map nbr_id (take num_results (bi_buffer out)))) (\<lambda>ids_to_modify.
     return_run \<lparr>wl_replace_candidates = take k (map nbr_id (take num_results (bi_buffer out))), wl_in_neighbors = ids_to_modify\<rparr>)))))
     (\<lambda>e. at G L) ?Q"
        proof (rule total_run_bind_result)
          fix y
          assume y: "dl_post_process P a' cs (bi_new (replicate l (Neighbor dflt f32_zero))) = Inr y"
          obtain n a'' out where y': "y = (n, a'', out)" by (cases y) auto
          have "set (map nbr_id (take n (bi_buffer out))) \<subseteq> L" using ids [OF cs y [unfolded y']] by simp
          from topk_refs_run [OF this, of G i k l]
          show "total_run (\<lambda>g. at G L g \<and> searchable L a) (case y of (num_results, a, out) \<Rightarrow>
     bind_run (pa_prune_accessor P 0) (\<lambda>h.
     dropping (pa_drop P h) (
     bind_run (return_refs_to_deleted_vertex contains P i (map nbr_id (take num_results (bi_buffer out)))) (\<lambda>ids_to_modify.
     return_run \<lparr>wl_replace_candidates = take k (map nbr_id (take num_results (bi_buffer out))), wl_in_neighbors = ids_to_modify\<rparr>))))
     (\<lambda>e. at G L) ?Q" unfolding y' prod.case by (rule total_run_pre) simp
        qed simp
      qed simp
    qed
  qed simp
  show ?thesis
    unfolding get_candidates_using_visited_and_topk_def search_scratch_of_eq Let_def
    by (rule total_run_bind_pair [OF accessor_law], rule total_run_dropping, rule total_run_bind_result, simp,
        rule search) (auto intro: drop_law)
qed

lemma inplace_delete_edges_run:
  assumes "method_ok meth" and "(\<exists>k l. meth = VisitedAndTopK k l) \<Longrightarrow> element \<noteq> None"
  shows "total_run (at G L) (inplace_delete_edges cfg order contains dflt P pooled num meth i element) (\<lambda>e. at G L)
     (\<lambda>m g. at G L g \<and> edges_ok L m \<and> {c \<in> looked_at meth G L i. i \<in> set (G c)} \<subseteq> dom m)"
    (is "total_run _ _ _ ?Q")
proof -
  have work: "total_run (at G L) (case meth of
         VisitedAndTopK k l \<Rightarrow>
           (case element of
              Some v \<Rightarrow> get_candidates_using_visited_and_topk cfg contains dflt P pooled i l k v
            | None \<Rightarrow> fail_run (AnnPanic AssertFailed))
       | TwoHopAndOneHop \<Rightarrow> get_candidates_using_twohop_and_onehop order contains P i
       | OneHop \<Rightarrow> get_candidates_using_onehop contains P i) (\<lambda>e. at G L) (\<lambda>w g. at G L g \<and> work_ok meth G L i w)"
    using assms by (cases meth) (auto intro: visited_and_topk_run twohop_run onehop_run)
  have edges: "edges_ok L (edges_of_out_neighbors computer view num rc al (edges_of_in_neighbors computer view num rc ins Map.empty)) \<and>
      {c \<in> looked_at meth G L i. i \<in> set (G c)} \<subseteq> dom (edges_of_out_neighbors computer view num rc al
        (edges_of_in_neighbors computer view num rc ins Map.empty))"
    if "work_ok meth G L i w" "rc = wl_replace_candidates w" "ins = wl_in_neighbors w" "al = filter (\<lambda>j. j \<in> L) (G i)"
      "set (rc @ ins @ al) \<inter> L \<subseteq> dom view" for w rc ins al view computer
  proof -
    let ?m = "edges_of_in_neighbors computer view num rc ins Map.empty"
    have emp: "edges_ok L (Map.empty :: 'i \<Rightarrow> 'i list option)" by (simp add: edges_ok_def)
    have rc: "set rc \<subseteq> L" and ins: "set ins \<subseteq> L" and al: "set al \<subseteq> L" using that(1-4) by (auto simp: work_ok_def)
    have m: "edges_ok L ?m" "set ins \<inter> dom view \<subseteq> dom ?m"
      using edges_of_in_ok [OF emp rc ins] by (blast, simp)
    have "set ins \<subseteq> dom view" using ins that(5) by auto
    then have "set ins \<subseteq> dom ?m" using m(2) by auto
    moreover have "{c \<in> looked_at meth G L i. i \<in> set (G c)} \<subseteq> set ins" using that(1,3) by (simp add: work_ok_def)
    moreover have "dom ?m \<subseteq> dom (edges_of_out_neighbors computer view num rc al ?m)" by (rule edges_of_out_ok(2) [OF m(1) rc al])
    moreover have "edges_ok L (edges_of_out_neighbors computer view num rc al ?m)" by (rule edges_of_out_ok(1) [OF m(1) rc al])
    ultimately show ?thesis by (meson subset_trans)
  qed
  have "total_run (\<lambda>g. at G L g \<and> work_ok meth G L i w)
     (let replace_candidates = wl_replace_candidates w; in_neighbors = wl_in_neighbors w in
     bind_run (get_undeleted_neighbors P i) (\<lambda>parts.
     let adjacency_list = pn_undeleted parts in
     bind_run (pa_fill P (replace_candidates @ in_neighbors @ adjacency_list)) (\<lambda>(view, computer).
     return_run (edges_of_out_neighbors computer view num replace_candidates adjacency_list
       (edges_of_in_neighbors computer view num replace_candidates in_neighbors Map.empty))))) (\<lambda>e. at G L) ?Q" for w
    unfolding Let_def
    by (rule total_run_fact [where \<phi> = "work_ok meth G L i w"], blast,
        rule total_run_bind [OF total_run_pre [OF get_undeleted_neighbors_run]], blast,
        rule total_run_fact, erule conjunct2,
        rule total_run_bind_pair [OF total_run_pre [OF fill_law]], blast, rule total_run_return)
      (use edges in blast)
  then show ?thesis
    unfolding inplace_delete_edges_def
    by (rule total_run_bind [OF open_law total_run_dropping [OF total_run_bind [OF work]]]) (auto intro: drop_law)
qed

lemma inplace_delete_apply_run:
  assumes "edges_ok L m"
  shows "total_run (at G L) (inplace_delete_apply cfg order contains dflt P i m)
     (\<lambda>e g. \<exists>G'. at G' L g \<and> partly_relinked cfg cap (\<lambda>j. the (m j)) {i} (dom m) G G')
     (\<lambda>u g. \<exists>G'. at (G'(i := [])) L g \<and> relinked cfg cap (\<lambda>j. the (m j)) {i} (dom m) G G')"
    (is "total_run _ _ ?E ?Q")
proof -
  have ord: "set (order (dom m)) = dom m" "distinct (order (dom m))"
    using order_set [of "dom m"] assms by (simp_all add: edges_ok_def)
  have dom: "set (order (dom m)) \<subseteq> L" using ord(1) assms by (simp add: edges_ok_def)
  note add = add_edges_run [OF ord(2) dom, of G "\<lambda>j. the (m j)" "Some {i}", unfolded option.case ord(1)]
  have drop: "total_run (\<lambda>(g, s :: 'i prune_scratch). \<exists>G'. at G' L g \<and> relinked cfg cap (\<lambda>j. the (m j)) {i} (dom m) G G')
      (on_provider (drop_adj_list P i)) (\<lambda>e (g, s). ?E e g) (\<lambda>u (g, s). ?Q u g)"
  proof (rule total_run_ex_pair)
    fix G'
    assume "relinked cfg cap (\<lambda>j. the (m j)) {i} (dom m) G G'"
    then show "total_run (\<lambda>(g, s :: 'i prune_scratch). at G' L g) (on_provider (drop_adj_list P i)) (\<lambda>e (g, s). ?E e g) (\<lambda>u (g, s). ?Q u g)"
      unfolding drop_adj_list_def
      by (intro total_run_on_provider)
        (rule total_run_weaken [OF set_law [of G' L i "[]"]], auto dest: relinked_partly)
  qed
  have body: "total_run (at G L) (own_scratch (
     bind_run (each_run (\<lambda>neighbor. add_edge_and_prune cfg contains dflt P (the (m neighbor)) neighbor (Some {i})) (order (dom m))) (\<lambda>_.
     on_provider (drop_adj_list P i)))) ?E ?Q"
    by (rule total_run_own_scratch, rule total_run_bind [OF total_run_pre [OF add] drop]) auto
  have same: "partly_relinked cfg cap (\<lambda>j. the (m j)) {i} (dom m) G G" by (simp add: partly_relinked_def)
  have open': "total_run (at G L) (pa_prune_accessor P (cf_max_occlusion_size cfg)) ?E (\<lambda>u. at G L)"
    by (rule total_run_weaken [OF open_law [of G L]]) (use same in auto)
  show ?thesis
    unfolding inplace_delete_apply_def
    by (rule total_run_bind [OF open' total_run_dropping [OF body]]) (blast intro: drop_law)+
qed

end

section \<open>Repaired vertices\<close>

text \<open>The list \<open>drop_deleted_neighbors\<close> writes: the live neighbors, then those still being deleted.\<close>

definition kept_neighbors :: "('i \<Rightarrow> 'i list) \<Rightarrow> 'i set \<Rightarrow> bool \<Rightarrow> 'i \<Rightarrow> 'i list" where
  "kept_neighbors G L only_orphans i = filter (\<lambda>j. j \<in> L) (G i) @
     (if only_orphans then filter (\<lambda>j. j \<notin> L \<and> G j \<noteq> []) (G i) else [])"

text \<open>The vertices \<open>consolidate_vector\<close> considers: live neighbors, and live neighbors of deleted ones.\<close>

definition replacement_pool :: "('i \<Rightarrow> 'i list) \<Rightarrow> 'i set \<Rightarrow> 'i \<Rightarrow> 'i set" where
  "replacement_pool G L i = L \<inter> (set (G i) \<union> (\<Union>b \<in> set (G i) - L. set (G b))) - {i}"

definition consolidated ::
  "config \<Rightarrow> ('i \<Rightarrow> 'i list) \<Rightarrow> 'i set \<Rightarrow> 'i \<Rightarrow> 'i list \<Rightarrow> bool" where
  "consolidated cfg G L i ns \<longleftrightarrow>
     (if set (G i) \<subseteq> L \<and> card (set (G i)) \<le> cf_pruned_degree cfg then ns = G i
      else distinct ns \<and> length ns \<le> cf_pruned_degree cfg \<and> set ns \<subseteq> replacement_pool G L i \<and>
        (card (replacement_pool G L i) < cf_pruned_degree cfg \<longrightarrow> set ns = replacement_pool G L i))"

context delete_store
begin

lemma any_deleted_run:
  "total_run (at G L) (any_deleted P ns) (\<lambda>e. at G L) (\<lambda>b g. at G L g \<and> b = (\<not> set ns \<subseteq> L))"
proof (induction ns)
  case Nil
  then show ?case by (auto intro: total_run_return)
next
  case (Cons i ns)
  have "total_run (\<lambda>g. at G L g \<and> (st = Valid \<longleftrightarrow> i \<in> L))
      (if st = Deleted then return_run True else any_deleted P ns) (\<lambda>e. at G L)
      (\<lambda>b g. at G L g \<and> b = (\<not> set (i # ns) \<subseteq> L))" for st
    by (rule total_run_fact [where \<phi> = "st = Valid \<longleftrightarrow> i \<in> L"], blast)
      (cases st, auto intro: total_run_return total_run_weaken [OF Cons])
  then show ?case
    unfolding any_deleted.simps by (rule total_run_bind [OF status_or_deleted_run])
qed

lemma is_any_neighbor_deleted_run:
  "total_run (at G L) (is_any_neighbor_deleted P i) (\<lambda>e. at G L) (\<lambda>b g. at G L g \<and> b = (\<not> set (G i) \<subseteq> L))"
  unfolding is_any_neighbor_deleted_def
  by (rule total_run_bind [OF get_law], rule total_run_fact, erule conjunct2)
    (rule total_run_weaken [OF any_deleted_run], auto)

lemma keep_pending_run:
  "total_run (at G L) (keep_pending P ns) (\<lambda>e. at G L) (\<lambda>r g. at G L g \<and> r = filter (\<lambda>j. G j \<noteq> []) ns)"
proof (induction ns)
  case Nil
  then show ?case by (auto intro: total_run_return)
next
  case (Cons i ns)
  have "total_run (\<lambda>g. at G L g \<and> al_edges l = G i)
      (bind_run (keep_pending P ns) (\<lambda>rest. return_run (if al_edges l \<noteq> [] then i # rest else rest))) (\<lambda>e. at G L)
      (\<lambda>r g. at G L g \<and> r = filter (\<lambda>j. G j \<noteq> []) (i # ns))" for l
    by (rule total_run_fact [where \<phi> = "al_edges l = G i"], blast,
        rule total_run_bind [OF total_run_pre [OF Cons]], blast, rule total_run_return) auto
  then show ?case
    unfolding keep_pending.simps by (rule total_run_bind [OF get_law])
qed

lemma status_escalated:
  "total_run (at G L) (escalate (dl_status_by_internal_id P i)) (\<lambda>e. at G L)
     (\<lambda>st g. at G L g \<and> (st = Valid \<longleftrightarrow> i \<in> L))"
  by (rule total_run_escalate) (rule total_run_weaken [OF status_law [of G L i]], auto split: ranked_error.splits)

lemma drop_deleted_neighbors_run:
  "total_run (at G L) (drop_deleted_neighbors cfg P i only_orphans) (\<lambda>e. at G L)
     (\<lambda>k g. if i \<in> L then k = ConsolidateComplete \<and> at (G(i := kept_neighbors G L only_orphans i)) L g
            else k = ConsolidateDeleted \<and> at G L g)"
    (is "total_run _ _ ?E ?Q")
proof -
  let ?live = "filter (\<lambda>j. j \<in> L) (G i)" and ?dead = "filter (\<lambda>j. j \<notin> L) (G i)"
  let ?pend = "if only_orphans then filter (\<lambda>j. G j \<noteq> []) ?dead else []"
  have kept: "?live @ ?pend = kept_neighbors G L only_orphans i"
    by (simp add: kept_neighbors_def conj_commute)
  have same: "G(i := kept_neighbors G L only_orphans i) = G" if "?dead = []"
  proof -
    from that have "?live = G i" "?pend = []" by (auto simp: filter_empty_conv)
    with kept show ?thesis by (simp add: fun_upd_idem)
  qed
  have pending: "total_run (at G L) (if only_orphans then keep_pending P ?dead else return_run []) ?E
      (\<lambda>r g. at G L g \<and> r = ?pend)"
    using keep_pending_run [of G L ?dead] by (cases only_orphans) (auto intro: total_run_return)
  have put: "total_run (\<lambda>g. at G L g \<and> pend = ?pend)
      (if ?dead = [] \<and> length (?live @ pend) \<le> cf_pruned_degree cfg then return_run ConsolidateComplete
       else bind_run (na_set_neighbors P i (?live @ pend)) (\<lambda>_. return_run ConsolidateComplete)) ?E ?Q" if "i \<in> L" for pend
  proof (rule total_run_fact [where \<phi> = "pend = ?pend"])
    assume pend: "pend = ?pend"
    have set: "total_run (at G L) (bind_run (na_set_neighbors P i (?live @ pend)) (\<lambda>_. return_run ConsolidateComplete)) ?E ?Q"
      by (rule total_run_bind [OF set_law], rule total_run_return) (use that kept pend in simp)
    have skip: "total_run (at G L) (return_run ConsolidateComplete) ?E ?Q" if "?dead = []"
      by (rule total_run_return) (use \<open>i \<in> L\<close> same [OF that] in simp)
    show "total_run (\<lambda>g. at G L g \<and> pend = ?pend)
      (if ?dead = [] \<and> length (?live @ pend) \<le> cf_pruned_degree cfg then return_run ConsolidateComplete
       else bind_run (na_set_neighbors P i (?live @ pend)) (\<lambda>_. return_run ConsolidateComplete)) ?E ?Q"
      by (rule total_run_pre [where P = "at G L"]) (use set skip in auto)
  qed blast
  have parts: "total_run (\<lambda>g. at G L g \<and> pn_undeleted p = ?live \<and> pn_deleted p = ?dead)
      (bind_run (if only_orphans then keep_pending P (pn_deleted p) else return_run []) (\<lambda>pending.
       let pool = pn_undeleted p @ pending in
       if pn_deleted p = [] \<and> length pool \<le> cf_pruned_degree cfg then return_run ConsolidateComplete
       else bind_run (na_set_neighbors P i pool) (\<lambda>_. return_run ConsolidateComplete))) ?E ?Q" if "i \<in> L" for p
    by (rule total_run_fact [where \<phi> = "pn_undeleted p = ?live \<and> pn_deleted p = ?dead"], blast)
      (simp only: Let_def, rule total_run_bind [OF total_run_pre [OF pending] put [OF that]], blast)
  have "total_run (\<lambda>g. at G L g \<and> (st = Valid \<longleftrightarrow> i \<in> L))
     (if st = Deleted then return_run ConsolidateDeleted
      else bind_run (get_undeleted_neighbors P i) (\<lambda>parts.
       bind_run (if only_orphans then keep_pending P (pn_deleted parts) else return_run []) (\<lambda>pending.
       let pool = pn_undeleted parts @ pending in
       if pn_deleted parts = [] \<and> length pool \<le> cf_pruned_degree cfg then return_run ConsolidateComplete
       else bind_run (na_set_neighbors P i pool) (\<lambda>_. return_run ConsolidateComplete)))) ?E ?Q" for st
  proof (rule total_run_fact [where \<phi> = "st = Valid \<longleftrightarrow> i \<in> L"])
    assume st: "st = Valid \<longleftrightarrow> i \<in> L"
    show "total_run (\<lambda>g. at G L g \<and> (st = Valid \<longleftrightarrow> i \<in> L))
     (if st = Deleted then return_run ConsolidateDeleted
      else bind_run (get_undeleted_neighbors P i) (\<lambda>parts.
       bind_run (if only_orphans then keep_pending P (pn_deleted parts) else return_run []) (\<lambda>pending.
       let pool = pn_undeleted parts @ pending in
       if pn_deleted parts = [] \<and> length pool \<le> cf_pruned_degree cfg then return_run ConsolidateComplete
       else bind_run (na_set_neighbors P i pool) (\<lambda>_. return_run ConsolidateComplete)))) ?E ?Q"
    proof (cases st)
      case Valid
      with st have "i \<in> L" by simp
      then have "total_run (at G L) (bind_run (get_undeleted_neighbors P i) (\<lambda>parts.
       bind_run (if only_orphans then keep_pending P (pn_deleted parts) else return_run []) (\<lambda>pending.
       let pool = pn_undeleted parts @ pending in
       if pn_deleted parts = [] \<and> length pool \<le> cf_pruned_degree cfg then return_run ConsolidateComplete
       else bind_run (na_set_neighbors P i pool) (\<lambda>_. return_run ConsolidateComplete)))) ?E ?Q"
        by (rule total_run_bind [OF get_undeleted_neighbors_run parts])
      then show ?thesis unfolding Valid by (simp only: element_status.distinct if_False) (erule total_run_pre, blast)
    next
      case Deleted
      with st show ?thesis by (auto intro: total_run_return)
    qed
  qed blast
  then show ?thesis
    unfolding drop_deleted_neighbors_def by (rule total_run_bind [OF status_escalated])
qed

end

context delete_store
begin

lemma pool_neighbors_run:
  "total_run (at G L) (pool_neighbors P ds S) (\<lambda>e. at G L)
     (\<lambda>T g. at G L g \<and> T = S \<union> (L \<inter> (\<Union>b \<in> set ds. set (G b))))"
proof (induction ds arbitrary: S)
  case Nil
  then show ?case by (auto intro: total_run_return)
next
  case (Cons d ds)
  have "total_run (\<lambda>g. at G L g \<and> p = filter (\<lambda>j. j \<in> L) (G d) \<and> q = filter (\<lambda>j. j \<notin> L) (G d))
      (pool_neighbors P ds (S \<union> set p)) (\<lambda>e. at G L)
      (\<lambda>T g. at G L g \<and> T = S \<union> (L \<inter> (\<Union>b \<in> set (d # ds). set (G b))))" for p q
    by (rule total_run_fact [where \<phi> = "p = filter (\<lambda>j. j \<in> L) (G d)"], blast)
      (rule total_run_weaken [OF Cons], auto)
  then show ?case
    unfolding pool_neighbors.simps by (rule total_run_bind_pair [OF on_neighbors_run])
qed

lemma consolidate_prune_run:
  assumes "i \<in> L" and ns: "al_edges l = ns" "distinct ns" "set ns = replacement_pool G L i" "cf_pruned_degree cfg \<le> length ns"
    and todo: "\<not> (set (G i) \<subseteq> L \<and> card (set (G i)) \<le> cf_pruned_degree cfg)"
  shows "total_run (at G L) (own_scratch (
      bind_run (allow_transient (robust_prune_list cfg contains dflt P i l \<lparr>po_force_saturate = False\<rparr>)) (\<lambda>pruned.
      case pruned of
        None \<Rightarrow> return_run FailedVectorRetrieval
      | Some _ \<Rightarrow>
          bind_run get_scratch (\<lambda>s.
          bind_run (on_provider (na_set_neighbors P i (al_edges (ps_neighbors s)))) (\<lambda>_.
          return_run ConsolidateComplete)))))
      (\<lambda>e. at G L) (\<lambda>k g. k = ConsolidateComplete \<and> (\<exists>ns. at (G(i := ns)) L g \<and> consolidated cfg G L i ns))"
proof -
  let ?E = "\<lambda>(e :: 'e ann_error) (g, s :: 'i prune_scratch). at G L g"
  let ?Q = "\<lambda>k (g, s :: 'i prune_scratch). k = ConsolidateComplete \<and> (\<exists>ns. at (G(i := ns)) L g \<and> consolidated cfg G L i ns)"
  have card: "\<not> card (replacement_pool G L i) < cf_pruned_degree cfg"
    using ns(2-4) distinct_card [of ns] by simp
  have fits: "consolidated cfg G L i ps" if "if ns = [] then ps = [] else pruned cfg i ns ps" for ps
    using that ns(2,3) card todo by (auto simp: consolidated_def pruned_def split: if_splits)
  have prune: "total_run (\<lambda>(g, s). s = prune_scratch_new \<and> at G L g)
      (allow_transient (robust_prune_list cfg contains dflt P i l \<lparr>po_force_saturate = False\<rparr>)) ?E
      (\<lambda>r (g, s). at G L g \<and> r \<noteq> None \<and> (if ns = [] then al_edges (ps_neighbors s) = [] else pruned cfg i ns (al_edges (ps_neighbors s))))"
  proof (cases "ns = []")
    case True
    then show ?thesis
      using ns(1) by (auto simp: total_run_def allow_transient_def robust_prune_list_def return_run_def prune_scratch_new_def al_new_def)
  next
    case False
    then show ?thesis
      by (intro total_run_allow_transient) (rule total_run_weaken [OF robust_prune_list_run [of G L i l]],
        use assms(1) ns(1) in \<open>auto split: ranked_error.splits\<close>)
  qed
  have "total_run (\<lambda>x. s = snd x \<and> (case x of (g, s) \<Rightarrow> at G L g \<and> r \<noteq> None \<and>
        (if ns = [] then al_edges (ps_neighbors s) = [] else pruned cfg i ns (al_edges (ps_neighbors s)))))
      (bind_run (on_provider (na_set_neighbors P i (al_edges (ps_neighbors s)))) (\<lambda>_. return_run ConsolidateComplete)) ?E ?Q" for s r
  proof (rule total_run_fact [where \<phi> = "if ns = [] then al_edges (ps_neighbors s) = [] else pruned cfg i ns (al_edges (ps_neighbors s))"])
    assume "if ns = [] then al_edges (ps_neighbors s) = [] else pruned cfg i ns (al_edges (ps_neighbors s))"
    then have "consolidated cfg G L i (al_edges (ps_neighbors s))" by (rule fits)
    note put = set_list_run [where \<Phi> = "consolidated cfg G L i", OF this, of G L i]
    show "total_run (\<lambda>x. s = snd x \<and> (case x of (g, s) \<Rightarrow> at G L g \<and> r \<noteq> None \<and>
        (if ns = [] then al_edges (ps_neighbors s) = [] else pruned cfg i ns (al_edges (ps_neighbors s)))))
      (bind_run (on_provider (na_set_neighbors P i (al_edges (ps_neighbors s)))) (\<lambda>_. return_run ConsolidateComplete)) ?E ?Q"
      by (rule total_run_bind [OF total_run_pre [OF put]], auto intro: total_run_return)
  qed (auto split: if_splits)
  then have some: "total_run (\<lambda>(g, s). at G L g \<and> r \<noteq> None \<and> (if ns = [] then al_edges (ps_neighbors s) = [] else pruned cfg i ns (al_edges (ps_neighbors s))))
      (bind_run get_scratch (\<lambda>s.
          bind_run (on_provider (na_set_neighbors P i (al_edges (ps_neighbors s)))) (\<lambda>_.
          return_run ConsolidateComplete))) ?E ?Q" for r
    by (rule total_run_bind [OF total_run_get_scratch])
  have "total_run (\<lambda>(g, s). at G L g \<and> r \<noteq> None \<and> (if ns = [] then al_edges (ps_neighbors s) = [] else pruned cfg i ns (al_edges (ps_neighbors s))))
      (case r of None \<Rightarrow> return_run FailedVectorRetrieval
       | Some _ \<Rightarrow> bind_run get_scratch (\<lambda>s.
          bind_run (on_provider (na_set_neighbors P i (al_edges (ps_neighbors s)))) (\<lambda>_.
          return_run ConsolidateComplete))) ?E ?Q" for r :: "unit option"
    using some [of r] by (cases r) (auto intro: total_run_return)
  then show ?thesis
    by (intro total_run_own_scratch) (rule total_run_bind [OF prune])
qed

end

context delete_store
begin

lemma consolidate_pool_run:
  assumes i: "i \<in> L" and todo: "\<not> (set (G i) \<subseteq> L \<and> card (set (G i)) \<le> cf_pruned_degree cfg)"
  shows "total_run (\<lambda>g. at G L g \<and> pool = set (filter (\<lambda>j. j \<in> L) (G i)) \<union> (L \<inter> (\<Union>b \<in> set (filter (\<lambda>j. j \<notin> L) (G i)). set (G b))))
      (let neighbors = al_from_iter_unique (order (pool - {i})) in
         if length (al_edges neighbors) < cf_pruned_degree cfg then
           bind_run (na_set_neighbors P i (al_edges neighbors)) (\<lambda>_. return_run ConsolidateComplete)
         else own_scratch (
           bind_run (allow_transient (robust_prune_list cfg contains dflt P i neighbors \<lparr>po_force_saturate = False\<rparr>)) (\<lambda>pruned.
           case pruned of
             None \<Rightarrow> return_run FailedVectorRetrieval
           | Some _ \<Rightarrow>
               bind_run get_scratch (\<lambda>s.
               bind_run (on_provider (na_set_neighbors P i (al_edges (ps_neighbors s)))) (\<lambda>_.
               return_run ConsolidateComplete)))))
      (\<lambda>e. at G L) (\<lambda>k g. k = ConsolidateComplete \<and> (\<exists>ns. at (G(i := ns)) L g \<and> consolidated cfg G L i ns))"
    (is "total_run (\<lambda>g. _ \<and> pool = ?pool) _ ?E ?Q")
proof (rule total_run_fact [where \<phi> = "pool = ?pool"])
  assume pool: "pool = ?pool"
  let ?ns = "order (pool - {i})"
  have "finite (pool - {i})" unfolding pool by simp
  note o = order_set [OF this]
  have rp: "pool - {i} = replacement_pool G L i" unfolding pool replacement_pool_def by auto
  have put: "total_run (at G L) (bind_run (na_set_neighbors P i ?ns) (\<lambda>_. return_run ConsolidateComplete)) ?E ?Q"
    if "length ?ns < cf_pruned_degree cfg"
  proof -
    have "consolidated cfg G L i ?ns" using o that rp todo by (auto simp: consolidated_def)
    then show ?thesis by (intro total_run_bind [OF set_law] total_run_return) blast
  qed
  show "total_run (\<lambda>g. at G L g \<and> pool = ?pool)
      (let neighbors = al_from_iter_unique ?ns in
         if length (al_edges neighbors) < cf_pruned_degree cfg then
           bind_run (na_set_neighbors P i (al_edges neighbors)) (\<lambda>_. return_run ConsolidateComplete)
         else own_scratch (
           bind_run (allow_transient (robust_prune_list cfg contains dflt P i neighbors \<lparr>po_force_saturate = False\<rparr>)) (\<lambda>pruned.
           case pruned of
             None \<Rightarrow> return_run FailedVectorRetrieval
           | Some _ \<Rightarrow>
               bind_run get_scratch (\<lambda>s.
               bind_run (on_provider (na_set_neighbors P i (al_edges (ps_neighbors s)))) (\<lambda>_.
               return_run ConsolidateComplete))))) ?E ?Q"
  proof (cases "length ?ns < cf_pruned_degree cfg")
    case True
    then show ?thesis
      unfolding Let_def al_from_iter_unique_def by simp (rule total_run_pre [OF put [OF True]], blast)
  next
    case False
    then have "al_edges (al_from_iter_unique ?ns) = ?ns" "distinct ?ns" "set ?ns = replacement_pool G L i"
      "cf_pruned_degree cfg \<le> length ?ns" using o rp by (auto simp: al_from_iter_unique_def)
    from consolidate_prune_run [OF i this todo] False show ?thesis
      unfolding Let_def al_from_iter_unique_def by simp (erule total_run_pre, blast)
  qed
qed blast

text \<open>Consolidation of a live vertex completes or fails with an error; it never gives up on reading the vertex.\<close>

lemma consolidate_vector_run:
  "total_run (at G L) (consolidate_vector cfg order contains dflt P i) (\<lambda>e. at G L)
     (\<lambda>k g. if i \<in> L then k = ConsolidateComplete \<and> (\<exists>ns. at (G(i := ns)) L g \<and> consolidated cfg G L i ns)
            else k = ConsolidateDeleted \<and> at G L g)"
    (is "total_run _ _ ?E ?Q")
proof -
  let ?R = "\<lambda>k g. k = ConsolidateComplete \<and> (\<exists>ns. at (G(i := ns)) L g \<and> consolidated cfg G L i ns)"
  let ?rest = "\<lambda>present deleted_neighbors.
       if deleted_neighbors = [] \<and> card (set present) \<le> cf_pruned_degree cfg then return_run ConsolidateComplete
       else bind_run (pool_neighbors P deleted_neighbors (set present)) (\<lambda>pool.
         let neighbors = al_from_iter_unique (order (pool - {i})) in
         if length (al_edges neighbors) < cf_pruned_degree cfg then
           bind_run (na_set_neighbors P i (al_edges neighbors)) (\<lambda>_. return_run ConsolidateComplete)
         else own_scratch (
           bind_run (allow_transient (robust_prune_list cfg contains dflt P i neighbors \<lparr>po_force_saturate = False\<rparr>)) (\<lambda>pruned.
           case pruned of
             None \<Rightarrow> return_run FailedVectorRetrieval
           | Some _ \<Rightarrow>
               bind_run get_scratch (\<lambda>s.
               bind_run (on_provider (na_set_neighbors P i (al_edges (ps_neighbors s)))) (\<lambda>_.
               return_run ConsolidateComplete)))))"
  have rest: "total_run (\<lambda>g. at G L g \<and> p = filter (\<lambda>j. j \<in> L) (G i) \<and> d = filter (\<lambda>j. j \<notin> L) (G i)) (?rest p d) ?E ?R"
    if i: "i \<in> L" for p d
  proof (rule total_run_fact [where \<phi> = "p = filter (\<lambda>j. j \<in> L) (G i) \<and> d = filter (\<lambda>j. j \<notin> L) (G i)"])
    assume pd: "p = filter (\<lambda>j. j \<in> L) (G i) \<and> d = filter (\<lambda>j. j \<notin> L) (G i)"
    have iff: "d = [] \<and> card (set p) \<le> cf_pruned_degree cfg \<longleftrightarrow> set (G i) \<subseteq> L \<and> card (set (G i)) \<le> cf_pruned_degree cfg"
    proof -
      have "d = [] \<longleftrightarrow> set (G i) \<subseteq> L" using pd by (auto simp: filter_empty_conv)
      moreover have "set p = set (G i)" if "set (G i) \<subseteq> L" using pd that by auto
      ultimately show ?thesis by auto
    qed
    show "total_run (\<lambda>g. at G L g \<and> p = filter (\<lambda>j. j \<in> L) (G i) \<and> d = filter (\<lambda>j. j \<notin> L) (G i)) (?rest p d) ?E ?R"
    proof (cases "d = [] \<and> card (set p) \<le> cf_pruned_degree cfg")
      case True
      with iff have "consolidated cfg G L i (G i)" by (simp add: consolidated_def)
      then have "\<exists>ns. at (G(i := ns)) L g \<and> consolidated cfg G L i ns" if "at G L g" for g
        using that by (intro exI [of _ "G i"]) simp
      then show ?thesis unfolding if_P [OF True] by (intro total_run_return) blast
    next
      case False
      with iff have todo: "\<not> (set (G i) \<subseteq> L \<and> card (set (G i)) \<le> cf_pruned_degree cfg)" by blast
      show ?thesis
        unfolding if_not_P [OF False]
        by (rule total_run_bind [OF total_run_pre [OF pool_neighbors_run]], blast)
          (rule total_run_pre [OF consolidate_pool_run [where G = G and L = L and i = i, OF i todo]], use pd in blast)
    qed
  qed blast
  have "total_run (\<lambda>g. at G L g \<and> (st = Valid \<longleftrightarrow> i \<in> L))
     (if st = Deleted then return_run ConsolidateDeleted
     else bind_run (pa_prune_accessor P (cf_max_occlusion_size cfg)) (\<lambda>h.
       dropping (pa_drop P h) (bind_run (on_neighbors P i) (\<lambda>(p, d). ?rest p d)))) ?E ?Q" for st
  proof (rule total_run_fact [where \<phi> = "st = Valid \<longleftrightarrow> i \<in> L"])
    assume st: "st = Valid \<longleftrightarrow> i \<in> L"
    show "total_run (\<lambda>g. at G L g \<and> (st = Valid \<longleftrightarrow> i \<in> L))
     (if st = Deleted then return_run ConsolidateDeleted
     else bind_run (pa_prune_accessor P (cf_max_occlusion_size cfg)) (\<lambda>h.
       dropping (pa_drop P h) (bind_run (on_neighbors P i) (\<lambda>(p, d). ?rest p d)))) ?E ?Q"
    proof (cases st)
      case Valid
      with st have i: "i \<in> L" by simp
      have "total_run (at G L) (bind_run (pa_prune_accessor P (cf_max_occlusion_size cfg)) (\<lambda>h.
       dropping (pa_drop P h) (bind_run (on_neighbors P i) (\<lambda>(p, d). ?rest p d)))) ?E ?R"
        by (rule total_run_bind [OF open_law total_run_dropping [OF total_run_bind_pair [OF on_neighbors_run rest [OF i]]]])
          (blast intro: drop_law)+
      with i show ?thesis
        unfolding Valid by (simp only: element_status.distinct if_False if_True) (erule total_run_pre, blast)
    next
      case Deleted
      with st show ?thesis by (auto intro: total_run_return)
    qed
  qed blast
  then show ?thesis
    unfolding consolidate_vector_def by (rule total_run_bind [OF status_escalated])
qed

end

section \<open>The graph after a deletion or a repair\<close>

lemma consolidated_simple:
  assumes "consolidated cfg G L i ns" and "simple_graph cfg U G" and "L \<subseteq> U" and "cf_pruned_degree cfg \<le> cf_max_degree cfg"
  shows "simple_graph cfg U (G(i := ns))"
  using assms unfolding simple_graph_def consolidated_def replacement_pool_def
  by (auto split: if_splits)

lemma kept_neighbors_simple:
  assumes "simple_graph cfg U G"
  shows "simple_graph cfg U (G(i := kept_neighbors G L only_orphans i))"
proof -
  let ?k = "kept_neighbors G L only_orphans i"
  have i: "distinct (G i)" "length (G i) \<le> cf_max_degree cfg" "set (G i) \<subseteq> U - {i}" using assms by (simp_all add: simple_graph_def)
  have sub: "set ?k \<subseteq> set (G i)" by (auto simp: kept_neighbors_def)
  have d: "distinct ?k" using i(1) by (auto simp: kept_neighbors_def)
  have "length ?k = card (set ?k)" using d by (simp add: distinct_card)
  also have "\<dots> \<le> card (set (G i))" using sub by (intro card_mono) simp_all
  finally have "length ?k \<le> length (G i)" using i(1) by (simp add: distinct_card)
  then have "length ?k \<le> cf_max_degree cfg" using i(2) by (rule order_trans)
  with assms i sub d show ?thesis by (auto simp: simple_graph_def)
qed

lemma deleted_graph_simple:
  assumes "partly_relinked cfg cap (\<lambda>j. the (m j)) {i} (dom m) G G'" and "edges_ok L m" and "simple_graph cfg U G" and "L \<subseteq> U"
  shows "simple_graph cfg U G'" and "simple_graph cfg U (G'(i := []))"
proof -
  have "set (the (m j)) \<subseteq> U - {j}" if "j \<in> dom m" for j
    using assms(2,4) that by (fastforce simp: edges_ok_def)
  with partly_relinked_simple [OF assms(1,3)] show s: "simple_graph cfg U G'" by blast
  then show "simple_graph cfg U (G'(i := []))" by (simp add: simple_graph_def)
qed

end
