(* ===== verification/Layers.thy ===== *)
theory Layers
  imports InmemBuffer GraphConfig GraphSearch
begin

text \<open>
  Data representations of the in-memory provider (\<open>diskann-inmem/src/layers\<close>): the traits \<open>Layer\<close>,
  \<open>Set\<close>, \<open>Distance\<close> and \<open>Search\<close> as one record of methods, what callers may rely on as the locale
  \<open>layer_contract\<close>, and the full-precision layer \<open>Full\<close> for each of its element types.

  The distance kernels of \<open>diskann-vector\<close> are a parameter.
\<close>

section \<open>Layers\<close>

datatype layer_error =
    SetDim nat nat
  | SetBytes nat nat
  | DistanceError nat nat nat
  | QueryDistanceError nat nat

text \<open>
  \<open>ly_set\<close> yields what it writes over a slice of the given length. \<open>ly_query_distance\<close> yields the
  distance to the query and, for a kernel passed to \<open>visit_sized\<close>, the number of bytes it is specialized to.
\<close>

record 'w layer =
  ly_bytes :: nat
  ly_set :: "'w \<Rightarrow> nat \<Rightarrow> (layer_error, u8 list) ann_result"
  ly_distance :: "u8 list \<Rightarrow> u8 list \<Rightarrow> (layer_error, f32) ann_result"
  ly_query_distance :: "'w \<Rightarrow> (layer_error, nat option \<times> (u8 list \<Rightarrow> (layer_error, f32) ann_result)) ann_result"

locale layer_contract =
  fixes layer :: "'w layer"
  assumes set_length: "ly_set layer w n = Inr bs \<Longrightarrow> length bs = n"
    and distance_total: "length x = ly_bytes layer \<Longrightarrow> length y = ly_bytes layer \<Longrightarrow> \<exists>d. ly_distance layer x y = Inr d"
    and query_total: "ly_query_distance layer w = Inr (sized, f) \<Longrightarrow> length x = ly_bytes layer \<Longrightarrow> \<exists>d. f x = Inr d"
    and query_sized: "ly_query_distance layer w = Inr (Some b, f) \<Longrightarrow> b \<le> ly_bytes layer"

section \<open>Full precision\<close>

text \<open>
  An element type of \<open>FullPrecision\<close>: its size, its bytes (\<open>bytemuck\<close>), the dimension its \<open>L2\<close> query
  kernel is specialized for, and the metric whose query kernel \<open>__query_distance\<close> picks.
\<close>

record 't full_precision =
  fp_size :: nat
  fp_bytes :: "'t \<Rightarrow> u8 list"
  fp_cast :: "u8 list \<Rightarrow> 't"
  fp_sized :: "nat option"
  fp_query_metric :: "metric \<Rightarrow> metric"

definition full_f32 :: "f32 full_precision" where
  "full_f32 = \<lparr>fp_size = 4, fp_bytes = u32_to_bytes, fp_cast = u32_from_bytes, fp_sized = Some 100,
     fp_query_metric = id\<rparr>"

text \<open>An \<open>f16\<close> is its 16-bit pattern; its query is first converted, which the kernel does here.\<close>

definition full_f16 :: "u16 full_precision" where
  "full_f16 = \<lparr>fp_size = 2, fp_bytes = (\<lambda>w. [ucast w, ucast (drop_bit 8 w)]),
     fp_cast = (\<lambda>bs. case bs of [a, b] \<Rightarrow> ucast a OR push_bit 8 (ucast b) | _ \<Rightarrow> 0), fp_sized = Some 100,
     fp_query_metric = id\<rparr>"

definition integer_query_metric :: "metric \<Rightarrow> metric" where
  "integer_query_metric m = (if m = CosineNormalized then Cosine else m)"

definition full_u8 :: "u8 full_precision" where
  "full_u8 = \<lparr>fp_size = 1, fp_bytes = (\<lambda>w. [w]), fp_cast = hd, fp_sized = Some 128,
     fp_query_metric = integer_query_metric\<rparr>"

definition full_i8 :: "u8 full_precision" where
  "full_i8 = \<lparr>fp_size = 1, fp_bytes = (\<lambda>w. [w]), fp_cast = hd, fp_sized = None,
     fp_query_metric = integer_query_metric\<rparr>"

text \<open>The kernels: \<open>distance_comparer\<close> for a metric and dimension, and \<open>D::run\<close> for the query kernel of a metric.\<close>

record 't kernels =
  kn_distance :: "metric \<Rightarrow> nat \<Rightarrow> 't list \<Rightarrow> 't list \<Rightarrow> f32"
  kn_query :: "metric \<Rightarrow> 't list \<Rightarrow> 't list \<Rightarrow> f32"

record full =
  fu_dim :: nat
  fu_metric :: metric

definition full_bytes :: "'t full_precision \<Rightarrow> full \<Rightarrow> nat" where
  "full_bytes T f = fu_dim f * fp_size T"

definition check_dim :: "full \<Rightarrow> nat \<Rightarrow> (layer_error, unit) ann_result" where
  "check_dim f dim = (if fu_dim f \<noteq> dim then Inl (AnnError (QueryDistanceError (fu_dim f) dim)) else Inr ())"

text \<open>\<open>must_cast_slice\<close> to bytes, and a byte slice read as elements.\<close>

definition cast_bytes :: "'t full_precision \<Rightarrow> 't list \<Rightarrow> u8 list" where
  "cast_bytes T v = concat (map (fp_bytes T) v)"

definition cast_elements :: "'t full_precision \<Rightarrow> nat \<Rightarrow> u8 list \<Rightarrow> 't list" where
  "cast_elements T dim bs = map (\<lambda>k. fp_cast T (take (fp_size T) (drop (fp_size T * k) bs))) [0 ..< dim]"

definition full_set :: "'t full_precision \<Rightarrow> full \<Rightarrow> 't list \<Rightarrow> nat \<Rightarrow> (layer_error, u8 list) ann_result" where
  "full_set T f v n =
     (if length v \<noteq> fu_dim f then Inl (AnnError (SetDim (length v) (fu_dim f)))
      else if n \<noteq> full_bytes T f then Inl (AnnError (SetBytes n (full_bytes T f)))
      else if length (cast_bytes T v) = n then Inr (cast_bytes T v)
      else Inl (AnnPanic AssertFailed))"

definition full_evaluate ::
  "'t full_precision \<Rightarrow> 't kernels \<Rightarrow> full \<Rightarrow> u8 list \<Rightarrow> u8 list \<Rightarrow> (layer_error, f32) ann_result" where
  "full_evaluate T K f x y =
     (let bytes = full_bytes T f in
      if length x \<noteq> bytes \<or> length y \<noteq> bytes then Inl (AnnError (DistanceError bytes (length x) (length y)))
      else Inr (kn_distance K (fu_metric f) (fu_dim f)
             (cast_elements T (fu_dim f) x) (cast_elements T (fu_dim f) y)))"

definition query_evaluate ::
  "'t full_precision \<Rightarrow> 't kernels \<Rightarrow> metric \<Rightarrow> 't list \<Rightarrow> u8 list \<Rightarrow> (layer_error, f32) ann_result" where
  "query_evaluate T K m query x =
     (let bytes = fp_size T * length query in
      if length x \<noteq> bytes then Inl (AnnError (QueryDistanceError bytes (length x)))
      else Inr (kn_query K m query (cast_elements T (length query) x)))"

definition full_query_distance ::
  "'t full_precision \<Rightarrow> 't kernels \<Rightarrow> full \<Rightarrow> 't list \<Rightarrow>
   (layer_error, nat option \<times> (u8 list \<Rightarrow> (layer_error, f32) ann_result)) ann_result" where
  "full_query_distance T K f query =
     bind_result (check_dim f (length query)) (\<lambda>_.
     Inr (if fu_metric f = L2 \<and> fp_sized T = Some (fu_dim f) then Some (fu_dim f * fp_size T) else None,
          query_evaluate T K (fp_query_metric T (fu_metric f)) query))"

definition full_layer :: "'t full_precision \<Rightarrow> 't kernels \<Rightarrow> full \<Rightarrow> 't list layer" where
  "full_layer T K f =
     \<lparr>ly_bytes = full_bytes T f, ly_set = full_set T f, ly_distance = full_evaluate T K f,
      ly_query_distance = full_query_distance T K f\<rparr>"

interpretation full: layer_contract "full_layer T K f"
  by unfold_locales
    (auto simp: full_layer_def full_set_def full_evaluate_def full_query_distance_def query_evaluate_def check_dim_def
      full_bytes_def Let_def mult.commute bind_result_def split: if_splits sum.splits)

section \<open>Vectors survive storage\<close>

text \<open>The byte representation of an element type is faithful.\<close>

definition pod :: "'t full_precision \<Rightarrow> bool" where
  "pod T \<longleftrightarrow> (\<forall>x. length (fp_bytes T x) = fp_size T \<and> fp_cast T (fp_bytes T x) = x)"

lemma full_precision_pods: "pod full_f32" "pod full_f16" "pod full_u8" "pod full_i8"
proof -
  show "pod full_f32" by (simp add: pod_def full_f32_def)
  show "pod full_u8" "pod full_i8" by (simp_all add: pod_def full_u8_def full_i8_def)
  have "ucast (ucast w :: u8) OR push_bit 8 (ucast (ucast (drop_bit 8 w) :: u8)) = w" for w :: u16
    by (rule bit_word_eqI)
      (auto simp: bit_or_iff bit_push_bit_iff bit_drop_bit_eq bit_ucast_iff possible_bit_def)
  then show "pod full_f16" by (simp add: pod_def full_f16_def)
qed

lemma cast_bytes_length: "pod T \<Longrightarrow> length (cast_bytes T v) = length v * fp_size T"
  by (induction v) (auto simp: cast_bytes_def pod_def)

lemma cast_bytes_drop:
  assumes "pod T"
  shows "drop (fp_size T * k) (cast_bytes T v) = cast_bytes T (drop k v)"
proof (induction k arbitrary: v)
  case (Suc k)
  then show ?case
  proof (cases v)
    case (Cons x v')
    have "length (fp_bytes T x) = fp_size T" using assms by (simp add: pod_def)
    then have "drop (fp_size T * Suc k) (cast_bytes T v) = drop (fp_size T * k) (cast_bytes T v')"
      using Cons by (simp add: cast_bytes_def)
    with Suc Cons show ?thesis by simp
  qed (simp add: cast_bytes_def)
qed simp

lemma cast_elements_bytes:
  assumes "pod T" and "length v = dim"
  shows "cast_elements T dim (cast_bytes T v) = v"
proof (rule nth_equalityI)
  show "length (cast_elements T dim (cast_bytes T v)) = length v" using assms(2) by (simp add: cast_elements_def)
  fix k
  assume "k < length (cast_elements T dim (cast_bytes T v))"
  then have k: "k < length v" using assms(2) by (simp add: cast_elements_def)
  then have "drop k v = v ! k # drop (Suc k) v" by (rule Cons_nth_drop_Suc [symmetric])
  then have "take (fp_size T) (cast_bytes T (drop k v)) = fp_bytes T (v ! k)"
    using assms(1) by (simp add: cast_bytes_def pod_def)
  with k assms show "cast_elements T dim (cast_bytes T v) ! k = v ! k"
    by (simp add: cast_elements_def cast_bytes_drop pod_def)
qed

end
