(* ===== verification/InmemProvider.thy ===== *)
theory InmemProvider
  imports StoreInvariant IdMap IndexDelete Layers
begin

text \<open>
  The in-memory provider (\<open>diskann-inmem/src/provider.rs\<close>): the store, the id mapping and a layer put
  together, with the operations the index calls. Its accessors are the records the index is modelled on.

  The invariant \<open>provider_inv\<close> says that the mapped ids are exactly the published slots. The locale
  \<open>inmem_index\<close> fixes the packages and the layer with their laws; in it the provider is shown to be an
  \<open>insert_store\<close>, so everything proved of the index holds of it.
\<close>

section \<open>The provider\<close>

datatype inmem_error =
    LayerFailed layer_error
  | NeighborsFailed nb_error
  | RetireFailed retire_error
  | MappingFailed insert_error
  | ReaderUnavailable

type_synonym 'x inmem_result = "(inmem_error, 'x) ann_result"

record provider_config =
  pg_capacity :: nat
  pg_max_degree :: nat
  pg_prefetch_lookahead :: "nat option"
  pg_epoch_guard_slots :: "nat option"
  pg_freelist_recycle_capacity :: "nat option"

definition provider_config_new :: "nat \<Rightarrow> nat \<Rightarrow> provider_config" where
  "provider_config_new capacity max_degree =
     \<lparr>pg_capacity = capacity, pg_max_degree = max_degree, pg_prefetch_lookahead = Some 8,
      pg_epoch_guard_slots = None, pg_freelist_recycle_capacity = None\<rparr>"

definition pg_set_prefetch_lookahead :: "provider_config \<Rightarrow> nat option \<Rightarrow> provider_config" where
  "pg_set_prefetch_lookahead config prefetch_lookahead = config\<lparr>pg_prefetch_lookahead := prefetch_lookahead\<rparr>"

definition pg_set_epoch_guard_slots :: "provider_config \<Rightarrow> nat option \<Rightarrow> provider_config" where
  "pg_set_epoch_guard_slots config slots = config\<lparr>pg_epoch_guard_slots := slots\<rparr>"

definition pg_set_freelist_recycle_capacity :: "provider_config \<Rightarrow> nat option \<Rightarrow> provider_config" where
  "pg_set_freelist_recycle_capacity config capacity = config\<lparr>pg_freelist_recycle_capacity := capacity\<rparr>"

record ('a, 'q, 'm, 'k, 'w) provider =
  pv_store :: "('a, 'q) store"
  pv_layer :: "'w layer"
  pv_mapping :: "('m, 'k) id_map"
  pv_config :: provider_config

type_synonym ('a, 'q, 'm, 'k, 'w, 'x) provider_run = "(('a, 'q, 'm, 'k, 'w) provider, inmem_error ann_error, 'x) run"

fun of_layer_error :: "layer_error ann_error \<Rightarrow> inmem_error ann_error" where
  "of_layer_error (AnnPanic p) = AnnPanic p"
| "of_layer_error (AnnMessage m) = AnnMessage m"
| "of_layer_error (AnnError e) = AnnError (LayerFailed e)"

definition of_layer :: "(layer_error, 'x) ann_result \<Rightarrow> 'x inmem_result" where
  "of_layer r = map_sum of_layer_error id r"

definition of_neighbors :: "nb_error + 'x \<Rightarrow> 'x inmem_result" where
  "of_neighbors r = map_sum (\<lambda>e. case e of NbPanic p \<Rightarrow> AnnPanic p | _ \<Rightarrow> AnnError (NeighborsFailed e)) id r"

text \<open>An operation of the store, on the provider that has it.\<close>

definition on_store :: "('a, 'q, 'x) store_run \<Rightarrow> ('a, 'q, 'm, 'k, 'w, 'x) provider_run" where
  "on_store m = (\<lambda>v. map_option (\<lambda>(r, s). (map_sum AnnPanic id r, v\<lparr>pv_store := s\<rparr>)) (m (pv_store v)))"

subsection \<open>Creation\<close>

datatype provider_error =
    SettingStartPoints "layer_error ann_error"
  | CreatingStore store_error

fun set_rows :: "'w layer \<Rightarrow> 'w list \<Rightarrow> (layer_error, u8 list list) ann_result" where
  "set_rows layer [] = Inr []"
| "set_rows layer (point # points) =
     bind_result (ly_set layer point (ly_bytes layer)) (\<lambda>row.
     bind_result (set_rows layer points) (\<lambda>rows. Inr (row # rows)))"

definition provider_store_config :: "'w layer \<Rightarrow> provider_config \<Rightarrow> store_config" where
  "provider_store_config layer config =
     (let c = store_config_new (pg_capacity config) (ly_bytes layer) (pg_max_degree config);
          c = (case pg_epoch_guard_slots config of Some slots \<Rightarrow> set_epoch_guard_slots c slots | None \<Rightarrow> c)
      in case pg_freelist_recycle_capacity config of
           Some capacity \<Rightarrow> set_freelist_recycle_capacity c capacity | None \<Rightarrow> c)"

definition provider_new ::
  "('a, 'q) store_deps \<Rightarrow> ('m, 'k) dashmap \<Rightarrow> 'w layer \<Rightarrow> provider_config \<Rightarrow> 'w list \<Rightarrow>
   (provider_error + ('a, 'q, 'm, 'k, 'w) provider) partial option" where
  "provider_new P D layer config start_points =
     (case set_rows layer start_points of
        Inl (AnnPanic p) \<Rightarrow> Some (Inl p)
      | Inl e \<Rightarrow> Some (Inr (Inl (SettingStartPoints e)))
      | Inr rows \<Rightarrow>
          map_option (map_sum id (map_sum CreatingStore (\<lambda>s.
            \<lparr>pv_store = s, pv_layer = layer, pv_mapping = id_map_new D (pg_capacity config), pv_config = config\<rparr>)))
            (store_new P (provider_store_config layer config) (ly_bytes layer) rows))"

definition provider_max_degree :: "('a, 'q, 'm, 'k, 'w) provider \<Rightarrow> nat" where
  "provider_max_degree v = store_max_degree (pv_store v)"

subsection \<open>Identifiers and deletion\<close>

definition to_internal_id :: "('m, 'k) dashmap \<Rightarrow> ('a, 'q, 'm, 'k, 'w) provider \<Rightarrow> 'k \<Rightarrow> u32 inmem_result" where
  "to_internal_id D v gid =
     (case to_internal D (pv_mapping v) gid of Some i \<Rightarrow> Inr i | None \<Rightarrow> Inl (AnnMessage ''no mapping''))"

definition to_external_id :: "('a, 'q, 'm, 'k, 'w) provider \<Rightarrow> u32 \<Rightarrow> 'k inmem_result" where
  "to_external_id v i =
     bind_result (lift_panic (to_external (pv_mapping v) i)) (\<lambda>r.
     case r of Some gid \<Rightarrow> Inr gid | None \<Rightarrow> Inl (AnnMessage ''no mapping''))"

definition provider_delete ::
  "('a, 'q) store_deps \<Rightarrow> ('m, 'k) dashmap \<Rightarrow> 'k \<Rightarrow> ('a, 'q, 'm, 'k, 'w, unit) provider_run" where
  "provider_delete P D gid =
     bind_run get_run (\<lambda>v.
     bind_run (of_result (lift_panic (occupied_entry D (pv_mapping v) gid))) (\<lambda>entry. case entry of
       None \<Rightarrow> fail_run (AnnMessage ''id already deleted'')
     | Some e \<Rightarrow>
         bind_run (on_store (store_retire P (unat (en_internal e)))) (\<lambda>retired. case retired of
           Inl err \<Rightarrow> fail_run (AnnError (RetireFailed err))
         | Inr _ \<Rightarrow>
             bind_run (of_result (lift_panic (entry_delete D (pv_mapping v) e))) (\<lambda>m.
             bind_run get_run (\<lambda>v. put_run (v\<lparr>pv_mapping := m\<rparr>))))))"

definition provider_release :: "u32 \<Rightarrow> ('a, 'q, 'm, 'k, 'w, unit) provider_run" where
  "provider_release i = return_run ()"

definition status_by_internal_id :: "('a, 'q, 'm, 'k, 'w) provider \<Rightarrow> u32 \<Rightarrow> element_status inmem_result" where
  "status_by_internal_id v i =
     (case can_read_approximate (pv_store v) (unat i) of
        Some True \<Rightarrow> Inr Valid
      | Some False \<Rightarrow> Inr Deleted
      | None \<Rightarrow> Inl (AnnMessage ''accessed invalid internal ID''))"

definition status_by_external_id :: "('m, 'k) dashmap \<Rightarrow> ('a, 'q, 'm, 'k, 'w) provider \<Rightarrow> 'k \<Rightarrow> element_status inmem_result" where
  "status_by_external_id D v gid = Inr (if contains_external D (pv_mapping v) gid then Valid else Deleted)"

subsection \<open>Insertion of data\<close>

text \<open>A slot that is not published is released when its scope is left.\<close>

definition unless_published :: "slot \<Rightarrow> ('a, 'q, 'm, 'k, 'w, 'x) provider_run \<Rightarrow> ('a, 'q, 'm, 'k, 'w, 'x) provider_run" where
  "unless_published l m = (\<lambda>v. case m v of
     Some (Inl e, v') \<Rightarrow> bind_run (on_store (slot_drop l)) (\<lambda>_. fail_run e) v'
   | r \<Rightarrow> r)"

definition mapping_insert :: "('m, 'k) dashmap \<Rightarrow> 'k \<Rightarrow> u32 \<Rightarrow> ('a, 'q, 'm, 'k, 'w, unit) provider_run" where
  "mapping_insert D gid i =
     bind_run get_run (\<lambda>v.
     bind_run (of_result (lift_panic (id_map_insert D (pv_mapping v) gid i))) (\<lambda>r. case r of
       Inl e \<Rightarrow> fail_run (AnnError (MappingFailed e))
     | Inr m \<Rightarrow> put_run (v\<lparr>pv_mapping := m\<rparr>)))"

definition set_element ::
  "('a, 'q) store_deps \<Rightarrow> ('m, 'k) dashmap \<Rightarrow> 'k \<Rightarrow> 'w \<Rightarrow> ('a, 'q, 'm, 'k, 'w, u32) provider_run" where
  "set_element P D gid element =
     bind_run (on_store (store_acquire P)) (\<lambda>slot. case slot of
       None \<Rightarrow> fail_run (AnnMessage ''could not allocate a new slot'')
     | Some l \<Rightarrow> unless_published l (
         bind_run get_run (\<lambda>v.
         bind_run (of_result (of_layer (ly_set (pv_layer v) element (rs_len (sl_data l))))) (\<lambda>bytes.
         bind_run (on_store (slot_copy_from_slice l bytes)) (\<lambda>_.
         bind_run (mapping_insert D gid (sl_slot l)) (\<lambda>_.
         on_store (slot_publish l)))))))"

subsection \<open>Accessors\<close>

definition provider_reader :: "('a, 'q, 'm, 'k, 'w, guard) provider_run" where
  "provider_reader = bind_run (on_store store_guard) (\<lambda>g. case g of
     None \<Rightarrow> fail_run (AnnError ReaderUnavailable) | Some g \<Rightarrow> return_run g)"

definition drop_reader :: "guard \<Rightarrow> ('a, 'q, 'm, 'k, 'w) provider \<Rightarrow> ('a, 'q, 'm, 'k, 'w) provider" where
  "drop_reader g v = v\<lparr>pv_store := store_guard_drop g (pv_store v)\<rparr>"

definition get_neighbors :: "u32 \<Rightarrow> ('a, 'q, 'm, 'k, 'w, u32 adjacency_list) provider_run" where
  "get_neighbors i = bind_run get_run (\<lambda>v. of_result (of_neighbors (nb_get (so_neighbors (pv_store v)) i)))"

definition put_neighbors :: "nb_error + neighbors \<Rightarrow> ('a, 'q, 'm, 'k, 'w, unit) provider_run" where
  "put_neighbors r =
     bind_run (of_result (of_neighbors r)) (\<lambda>nb.
     bind_run get_run (\<lambda>v. put_run (v\<lparr>pv_store := (pv_store v)\<lparr>so_neighbors := nb\<rparr>\<rparr>)))"

definition set_neighbors :: "u32 \<Rightarrow> u32 list \<Rightarrow> ('a, 'q, 'm, 'k, 'w, unit) provider_run" where
  "set_neighbors i ns = bind_run get_run (\<lambda>v. put_neighbors (nb_set (so_neighbors (pv_store v)) i ns))"

definition append_vector :: "u32 \<Rightarrow> u32 list \<Rightarrow> ('a, 'q, 'm, 'k, 'w, unit) provider_run" where
  "append_vector i ns =
     bind_run get_run (\<lambda>v.
     let nb = so_neighbors (pv_store v) in
     bind_run (of_result (of_neighbors (nb_lock_list nb i))) (\<lambda>lock.
     bind_run (of_result (of_neighbors (lock_len nb lock))) (\<lambda>len.
     put_neighbors
       (if lk_capacity lock < len + length ns then lock_append nb lock (take (lk_capacity lock - len) ns)
        else lock_append nb lock ns))))"

text \<open>A read through a reader; \<open>reader_read_run\<close> shows that it stays in the memory of the store.\<close>

definition store_read :: "('a, 'q) store \<Rightarrow> nat \<Rightarrow> u8 list option" where
  "store_read s i = (case reader_read s i of Inr r \<Rightarrow> r | Inl p \<Rightarrow> None)"

text \<open>
  The distance between two views. The \<open>unwrap\<close> of the source does not panic on data of the layer's
  length (\<open>distance_total\<close>), and \<open>store_read\<close> yields no other (\<open>store_read_length\<close>).
\<close>

definition prune_distance :: "'w layer \<Rightarrow> u8 list \<Rightarrow> u8 list \<Rightarrow> f32" where
  "prune_distance layer x y = (case ly_distance layer x y of Inr d \<Rightarrow> d | Inl e \<Rightarrow> f32_zero)"

definition prune_fill :: "u32 list \<Rightarrow> ('a, 'q, 'm, 'k, 'w, (u32 \<rightharpoonup> u8 list) \<times> (u8 list \<Rightarrow> u8 list \<Rightarrow> f32)) provider_run" where
  "prune_fill ids = bind_run get_run (\<lambda>v.
     return_run (\<lambda>i. store_read (pv_store v) (unat i), prune_distance (pv_layer v)))"

definition search_accessor_of ::
  "('a, 'q) store \<Rightarrow> (u8 list \<Rightarrow> (layer_error, f32) ann_result) \<Rightarrow> (u8 list, inmem_error) inmem_accessor" where
  "search_accessor_of s evaluate =
     \<lparr>ia_neighbors = (\<lambda>i. bind_result (of_neighbors (nb_get (so_neighbors s) i)) (\<lambda>l. Inr (al_edges l))),
      ia_len = bf_entries (so_buffer s), ia_read = store_read s, ia_evaluate = (\<lambda>x. of_layer (evaluate x)),
      ia_buffer_len = store_max_degree s, ia_start_points = store_frozen s\<rparr>"

definition provider_search_accessor ::
  "'w \<Rightarrow> ('a, 'q, 'm, 'k, 'w, (u8 list, inmem_error) inmem_accessor \<times> guard) provider_run" where
  "provider_search_accessor query =
     bind_run provider_reader (\<lambda>g.
     bind_run get_run (\<lambda>v.
     case of_layer (ly_query_distance (pv_layer v) query) of
       Inl e \<Rightarrow> dropping (drop_reader g) (fail_run e)
     | Inr (sized, evaluate) \<Rightarrow>
         if (case sized of Some bytes \<Rightarrow> store_bytes (pv_store v) < bytes + TAG_SIZE | None \<Rightarrow> False)
         then dropping (drop_reader g) (fail_run (AnnPanic AssertFailed))
         else return_run (search_accessor_of (pv_store v) evaluate, g)))"

text \<open>\<open>get_delete_element\<close> of the full-precision layer; \<open>copy_from_slice\<close> panics on another length.\<close>

definition get_delete_element ::
  "'t full_precision \<Rightarrow> full \<Rightarrow> u32 \<Rightarrow> ('a, 'q, 'm, 'k, 't list, 't list) provider_run" where
  "get_delete_element T f i =
     bind_run provider_reader (\<lambda>g. dropping (drop_reader g) (
     bind_run get_run (\<lambda>v. case store_read (pv_store v) (unat i) of
       None \<Rightarrow> fail_run (AnnMessage ''item could not be read'')
     | Some data \<Rightarrow>
         if length data \<noteq> full_bytes T f then fail_run (AnnPanic AssertFailed)
         else return_run (cast_elements T (fu_dim f) data))))"

text \<open>
  \<open>Strategy\<close>, with the \<open>get_delete_element\<close> of the layer. \<open>NoopGuard\<close> completes without effect, and
  errors of the provider are never transient.
\<close>

definition inmem_strategy ::
  "('a, 'q) store_deps \<Rightarrow> ('m, 'k) dashmap \<Rightarrow> (u32 \<Rightarrow> ('a, 'q, 'm, 'k, 'w, 'w) provider_run) \<Rightarrow>
   (('a, 'q, 'm, 'k, 'w) provider, u32, inmem_error, u8 list, guard, 'k, 'w, (u8 list, inmem_error) inmem_accessor) delete_provider" where
  "inmem_strategy P D get_element =
     \<lparr>na_get_neighbors = get_neighbors, na_set_neighbors = set_neighbors, na_append_vector = append_vector,
      pa_prune_accessor = (\<lambda>capacity. provider_reader), pa_drop = drop_reader, pa_fill = prune_fill,
      ip_set_element = (\<lambda>gid element. map_error Hard (set_element P D gid element)),
      ip_complete = (\<lambda>i. return_run ()), ip_search_accessor = provider_search_accessor,
      ip_search_ops = inmem_ops,
      dl_to_internal_id = (\<lambda>gid. bind_run get_run (\<lambda>v. map_error Hard (of_result (to_internal_id D v gid)))),
      dl_delete = (\<lambda>gid. map_error Hard (provider_delete P D gid)),
      dl_status_by_internal_id = (\<lambda>i. bind_run get_run (\<lambda>v. map_error Hard (of_result (status_by_internal_id v i)))),
      dl_get_delete_element = get_element, dl_post_process = copy_ids back_inserter_ops\<rparr>"

section \<open>The invariant\<close>

definition provider_inv ::
  "('m, 'k) dashmap \<Rightarrow> ('q \<Rightarrow> u32 list) \<Rightarrow> nat \<Rightarrow> nat \<Rightarrow> nat \<Rightarrow> nat \<Rightarrow> 'w layer \<Rightarrow> ('a, 'q, 'm, 'k, 'w) provider \<Rightarrow> bool" where
  "provider_inv D items ent tot cap n layer v \<longleftrightarrow>
     store_inv items tot cap n (pv_store v) \<and> id_map_ok D (pv_mapping v) \<and>
     so_unfrozen (pv_store v) = ent \<and> im_capacity (pv_mapping v) = ent \<and> so_unpadded (pv_store v) = ly_bytes layer + 1 \<and>
     pv_layer v = layer \<and>
     (\<forall>i. unat i < so_unfrozen (pv_store v) \<longrightarrow>
        (backward_slot (pv_mapping v) i \<noteq> None \<longleftrightarrow> so_tags (pv_store v) ! unat i = PUBLISHED))"

text \<open>What the index sees of a provider: the adjacency lists, the elements that can be read, and their data.\<close>

definition provider_adj :: "('a, 'q, 'm, 'k, 'w) provider \<Rightarrow> u32 \<Rightarrow> u32 list" where
  "provider_adj v = nb_list (so_neighbors (pv_store v))"

definition provider_live :: "('a, 'q, 'm, 'k, 'w) provider \<Rightarrow> u32 set" where
  "provider_live v = {i. unat i < length (so_tags (pv_store v)) \<and> can_read (so_tags (pv_store v) ! unat i)}"

definition provider_data :: "('a, 'q, 'm, 'k, 'w) provider \<Rightarrow> u32 \<Rightarrow> u8 list" where
  "provider_data v i = data_of (pv_store v) (unat i)"

definition provider_ids :: "('m, 'k) dashmap \<Rightarrow> ('a, 'q, 'm, 'k, 'w) provider \<Rightarrow> 'k \<Rightarrow> u32 option" where
  "provider_ids D v = dm_get D (im_forward (pv_mapping v))"

definition provider_frame :: "('a, 'q, 'm, 'k, 'w) provider \<Rightarrow> ('a, 'q, 'm, 'k, 'w) provider \<Rightarrow> bool" where
  "provider_frame v0 v \<longleftrightarrow> store_frame (pv_store v0) (pv_store v) \<and> pv_mapping v = pv_mapping v0"

lemma provider_frame_refl [simp]: "provider_frame v v"
  by (simp add: provider_frame_def)

lemma provider_frame_same:
  assumes "provider_frame v0 v"
  shows "provider_adj v = provider_adj v0" and "provider_live v = provider_live v0" and "provider_ids D v = provider_ids D v0"
    and "i \<in> provider_live v0 \<Longrightarrow> provider_data v i = provider_data v0 i"
  using assms by (auto simp: provider_frame_def store_frame_def provider_adj_def provider_live_def provider_ids_def provider_data_def)

lemma provider_invD:
  assumes "provider_inv D items ent tot cap n layer v"
  shows "store_inv items tot cap n (pv_store v)" "id_map_ok D (pv_mapping v)"
    "im_capacity (pv_mapping v) = so_unfrozen (pv_store v)" "so_unpadded (pv_store v) = ly_bytes layer + 1"
    "pv_layer v = layer" "nb_ok tot cap (so_neighbors (pv_store v))" "length (so_tags (pv_store v)) = tot"
    "tot < 2 ^ 32" "cap < 2 ^ 32" "so_unfrozen (pv_store v) \<le> tot" "bf_entries (so_buffer (pv_store v)) = tot"
    and "unat i < so_unfrozen (pv_store v) \<Longrightarrow>
      backward_slot (pv_mapping v) i \<noteq> None \<longleftrightarrow> so_tags (pv_store v) ! unat i = PUBLISHED"
  using assms by (auto simp: provider_inv_def store_inv_def store_core_def store_shape_def nb_ok_def)

lemma provider_unfrozen: "provider_inv D items ent tot cap n layer v \<Longrightarrow> so_unfrozen (pv_store v) = ent"
  by (simp add: provider_inv_def)

text \<open>A change of the store alone that readers do not notice.\<close>

lemma published_readable:
  assumes "store_inv items tot cap n s" and "i < so_unfrozen s"
  shows "can_read (so_tags s ! i) \<longleftrightarrow> so_tags s ! i = PUBLISHED"
proof -
  have core: "store_core items tot cap n s" by (rule store_inv_core [OF assms(1)])
  then have "i < tot" using assms(2) by (simp add: store_core_def store_shape_def)
  from store_coreD(5) [OF core this] assms(2) show ?thesis by (auto simp: tag_ok_def)
qed

lemma provider_inv_store:
  assumes inv: "provider_inv D items ent tot cap n layer v" and s: "since items tot cap n (pv_store v) s"
  shows "provider_inv D items ent tot cap n layer (v\<lparr>pv_store := s\<rparr>)" and "provider_frame v (v\<lparr>pv_store := s\<rparr>)"
proof -
  note d = provider_invD [OF inv]
  have u: "so_unfrozen s = so_unfrozen (pv_store v)" "so_unpadded s = so_unpadded (pv_store v)"
    using s by (simp_all add: store_frame_def)
  have "so_tags s ! unat i = PUBLISHED \<longleftrightarrow> so_tags (pv_store v) ! unat i = PUBLISHED"
    if "unat i < so_unfrozen (pv_store v)" for i :: u32
    using published_readable [of items tot cap n s "unat i"] published_readable [OF d(1) that] s that d(7,10) u
    by (auto simp: store_frame_def)
  then show "provider_inv D items ent tot cap n layer (v\<lparr>pv_store := s\<rparr>)"
    using d provider_unfrozen [OF inv] s u by (simp add: provider_inv_def)
  show "provider_frame v (v\<lparr>pv_store := s\<rparr>)" using s by (simp add: provider_frame_def)
qed

text \<open>
  Runs that keep what readers see. The store and the provider side of the claim are the same run.
\<close>

lemma on_store_run: "m (pv_store v) = Some (r, s) \<Longrightarrow> on_store m v = Some (map_sum AnnPanic id r, v\<lparr>pv_store := s\<rparr>)"
  by (simp add: on_store_def)

lemma on_store_Inr: "m (pv_store v) = Some (Inr x, s) \<Longrightarrow> on_store m v = Some (Inr x, v\<lparr>pv_store := s\<rparr>)"
  by (simp add: on_store_def)

section \<open>Adjacency lists\<close>

lemma provider_inv_graph:
  assumes "provider_inv D items ent tot cap n layer v" and "nb_ok tot cap nb"
  shows "provider_inv D items ent tot cap n layer (v\<lparr>pv_store := (pv_store v)\<lparr>so_neighbors := nb\<rparr>\<rparr>)"
proof -
  have "store_shape tot ((pv_store v)\<lparr>so_neighbors := nb\<rparr>) = store_shape tot (pv_store v)"
    "mirror_of ((pv_store v)\<lparr>so_neighbors := nb\<rparr>) i = mirror_of (pv_store v) i" for i
    by (simp_all add: store_shape_def mirror_of_def)
  with provider_invD(1) [OF assms(1)] assms(2) have "store_inv items tot cap n ((pv_store v)\<lparr>so_neighbors := nb\<rparr>)"
    by (simp add: store_inv_def store_core_def)
  with assms(1) show ?thesis by (simp add: provider_inv_def)
qed

lemma provider_graph_fields [simp]:
  "provider_adj (v\<lparr>pv_store := (pv_store v)\<lparr>so_neighbors := nb\<rparr>\<rparr>) = nb_list nb"
  "provider_live (v\<lparr>pv_store := (pv_store v)\<lparr>so_neighbors := nb\<rparr>\<rparr>) = provider_live v"
  "provider_data (v\<lparr>pv_store := (pv_store v)\<lparr>so_neighbors := nb\<rparr>\<rparr>) = provider_data v"
  "provider_ids D (v\<lparr>pv_store := (pv_store v)\<lparr>so_neighbors := nb\<rparr>\<rparr>) = provider_ids D v"
  by (simp_all add: provider_adj_def provider_live_def provider_data_def provider_ids_def data_of_def fun_eq_iff)

lemma get_neighbors_run:
  assumes "provider_inv D items ent tot cap n layer v"
  shows "get_neighbors i v = Some (if unat i < tot then Inr \<lparr>al_edges = provider_adj v i\<rparr>
     else Inl (AnnError (NeighborsFailed (NbOutOfBounds i))), v)"
  using nb_get_list [OF provider_invD(6) [OF assms], of i] nb_get_out [OF provider_invD(6) [OF assms], of i]
  by (simp add: get_neighbors_def of_neighbors_def provider_adj_def)

lemma set_neighbors_run:
  assumes inv: "provider_inv D items ent tot cap n layer v"
  shows "\<exists>r v'. set_neighbors i ns v = Some (r, v') \<and> provider_inv D items ent tot cap n layer v' \<and>
     provider_live v' = provider_live v \<and> provider_data v' = provider_data v \<and> provider_ids D v' = provider_ids D v \<and>
     (case r of Inl e \<Rightarrow> v' = v | Inr _ \<Rightarrow> provider_adj v' = (provider_adj v)(i := ns))"
proof (cases "unat i < tot \<and> length ns \<le> cap")
  case True
  with provider_invD(6) [OF inv] obtain nb where
    nb: "nb_set (so_neighbors (pv_store v)) i ns = Inr nb" "nb_ok tot cap nb"
      "nb_list nb = (nb_list (so_neighbors (pv_store v)))(i := ns)"
    by (elim conjE) (rule nb_set_spec)
  let ?v = "v\<lparr>pv_store := (pv_store v)\<lparr>so_neighbors := nb\<rparr>\<rparr>"
  have "set_neighbors i ns v = Some (Inr (), ?v)" using nb(1) by (simp add: set_neighbors_def put_neighbors_def of_neighbors_def)
  moreover have "provider_adj ?v = (provider_adj v)(i := ns)" unfolding provider_graph_fields nb(3) by (simp add: provider_adj_def)
  ultimately show ?thesis using provider_inv_graph [OF inv nb(2)] by auto
next
  case False
  note sz = nb_sizes [OF provider_invD(6) [OF inv]]
  have "\<exists>e. nb_set (so_neighbors (pv_store v)) i ns = Inl e"
    using False sz(3) [of i] sz(1) by (auto simp: nb_set_def nb_check_def)
  then show ?thesis
    using inv by (auto simp: set_neighbors_def put_neighbors_def of_neighbors_def bind_run_def of_result_def)
qed

lemma append_vector_run:
  assumes inv: "provider_inv D items ent tot cap n layer v"
  shows "\<exists>r v'. append_vector i ns v = Some (r, v') \<and> provider_inv D items ent tot cap n layer v' \<and>
     provider_live v' = provider_live v \<and> provider_data v' = provider_data v \<and> provider_ids D v' = provider_ids D v \<and>
     (case r of Inl e \<Rightarrow> v' = v | Inr _ \<Rightarrow> provider_adj v' = (provider_adj v)(i := take cap (provider_adj v i @ ns)))"
proof (cases "nb_lock_list (so_neighbors (pv_store v)) i")
  case (Inl e)
  with inv show ?thesis by (auto simp: append_vector_def of_neighbors_def bind_run_def of_result_def get_run_def Let_def)
next
  case (Inr l)
  let ?nb = "so_neighbors (pv_store v)"
  note ok = provider_invD(6) [OF inv]
  have i: "unat i < tot" using Inr nb_sizes(3) [OF ok, of i] by (auto simp: nb_lock_list_def nb_check_def split: if_splits)
  note spec = lock_append_spec [OF ok i Inr]
  let ?ns = "take (cap - length (nb_list ?nb i)) ns"
  have "length (nb_list ?nb i) + length ?ns \<le> cap" using spec(3) by simp
  from spec(4) [OF this] obtain nb where nb: "lock_append ?nb l ?ns = Inr nb" "nb_ok tot cap nb"
    "nb_list nb = (nb_list ?nb)(i := nb_list ?nb i @ ?ns)" by blast
  let ?v = "v\<lparr>pv_store := (pv_store v)\<lparr>so_neighbors := nb\<rparr>\<rparr>"
  have "(if lk_capacity l < length (nb_list ?nb i) + length ns
      then lock_append ?nb l (take (lk_capacity l - length (nb_list ?nb i)) ns) else lock_append ?nb l ns) = Inr nb"
    using nb(1) spec(2) by auto
  then have "append_vector i ns v = Some (Inr (), ?v)"
    using Inr spec(1) by (simp add: append_vector_def put_neighbors_def of_neighbors_def Let_def)
  moreover have "provider_adj ?v = (provider_adj v)(i := take cap (provider_adj v i @ ns))"
    unfolding provider_graph_fields nb(3) using spec(3) by (simp add: provider_adj_def)
  ultimately show ?thesis using provider_inv_graph [OF inv nb(2)] by auto
qed

section \<open>Storing and deleting\<close>

text \<open>What storing and deleting an element do to the live elements, their ids and their data.\<close>

definition element_stored ::
  "('m, 'k) dashmap \<Rightarrow> 'w layer \<Rightarrow> 'k \<Rightarrow> 'w \<Rightarrow> u32 \<Rightarrow> ('a, 'q, 'm, 'k, 'w) provider \<Rightarrow> ('a, 'q, 'm, 'k, 'w) provider \<Rightarrow> bool" where
  "element_stored D layer gid w i v v' \<longleftrightarrow> i \<notin> provider_live v \<and>
     unat i < so_unfrozen (pv_store v) \<and> provider_live v' = insert i (provider_live v) \<and> provider_ids D v gid = None \<and>
     provider_ids D v' = (provider_ids D v)(gid \<mapsto> i) \<and>
     ly_set layer w (ly_bytes layer) = Inr (provider_data v' i) \<and>
     (\<forall>j \<in> provider_live v. provider_data v' j = provider_data v j)"

definition element_deleted ::
  "('m, 'k) dashmap \<Rightarrow> 'k \<Rightarrow> u32 \<Rightarrow> ('a, 'q, 'm, 'k, 'w) provider \<Rightarrow> ('a, 'q, 'm, 'k, 'w) provider \<Rightarrow> bool" where
  "element_deleted D gid i v v' \<longleftrightarrow> provider_ids D v gid = Some i \<and> i \<in> provider_live v \<and>
     provider_live v' = provider_live v - {i} \<and> provider_ids D v' = (provider_ids D v)(gid := None) \<and>
     (\<forall>j \<in> provider_live v'. provider_data v' j = provider_data v j)"

text \<open>Why an element cannot be stored: there is no slot, its vector is refused, or its id is taken.\<close>

definition element_unstorable ::
  "('a, 'q) store_deps \<Rightarrow> ('m, 'k) dashmap \<Rightarrow> 'w layer \<Rightarrow> 'k \<Rightarrow> 'w \<Rightarrow> ('a, 'q, 'm, 'k, 'w) provider \<Rightarrow> bool" where
  "element_unstorable P D layer gid w v \<longleftrightarrow> (\<forall>l s. store_acquire P (pv_store v) \<noteq> Some (Inr (Some l), s)) \<or>
     (\<forall>bs. ly_set layer w (ly_bytes layer) \<noteq> Inr bs) \<or> provider_ids D v gid \<noteq> None"

text \<open>The provider on packages and a layer that keep their promises.\<close>

locale inmem_data = layer_contract layer
  for layer :: "'w layer" +
  fixes P :: "('a, 'q) store_deps" and D :: "('m, 'k) dashmap" and items :: "'q \<Rightarrow> u32 list"
    and ent tot cap n :: nat
  assumes seg_queue_law: "seg_queue_laws (dp_seg_queue P) items" and dashmap_law: "dashmap_laws D"
begin

abbreviation inv :: "('a, 'q, 'm, 'k, 'w) provider \<Rightarrow> bool" where
  "inv \<equiv> provider_inv D items ent tot cap n layer"

lemma acquire_run:
  assumes "inv v"
  shows "\<exists>r v'. on_store (store_acquire P) v = Some (r, v') \<and> inv v' \<and> provider_frame v v' \<and>
     (case r of Inr (Some l) \<Rightarrow> owns (pv_store v') l | _ \<Rightarrow> True)"
proof -
  from acquire_loop_total [OF seg_queue_law, of tot cap n "pv_store v" "pv_store v" RETRY_LIMIT] provider_invD(1) [OF assms]
  obtain r s where a: "store_acquire P (pv_store v) = Some (r, s)" "since items tot cap n (pv_store v) s"
    "case r of Inr (Some l) \<Rightarrow> owns s l | _ \<Rightarrow> True" by (auto simp: store_acquire_def)
  note run = on_store_run [of "store_acquire P" v, OF a(1)] and keeps = provider_inv_store [OF assms a(2)]
  have "case map_sum AnnPanic id r of Inr (Some l) \<Rightarrow> owns (pv_store (v\<lparr>pv_store := s\<rparr>)) l | _ \<Rightarrow> True"
    using a(3) by (cases r; cases "projr r") auto
  with run keeps show ?thesis by blast
qed

lemma release_run:
  assumes "inv v" and "provider_frame v0 v" and "owns (pv_store v) l"
  shows "\<exists>v'. on_store (slot_drop l) v = Some (Inr (), v') \<and> inv v' \<and> provider_frame v0 v'"
proof -
  from slot_drop_run [of items tot cap n "pv_store v" "pv_store v" l] provider_invD(1) [OF assms(1)] assms(3)
  obtain s where s: "slot_drop l (pv_store v) = Some (Inr (), s)" "since items tot cap n (pv_store v) s" by auto
  have "provider_frame v0 (v\<lparr>pv_store := s\<rparr>)"
    using assms(2) s(2) by (auto simp: provider_frame_def intro: store_frame_trans)
  with on_store_Inr [of "slot_drop l" v, OF s(1)] provider_inv_store(1) [OF assms(1) s(2)] show ?thesis by blast
qed

lemma unless_published_run:
  assumes "\<exists>r v'. m v = Some (r, v') \<and> inv v' \<and>
      (case r of Inl e \<Rightarrow> (provider_frame v0 v' \<and> \<phi>) \<and> owns (pv_store v') l | Inr x \<Rightarrow> Q x v')"
  shows "\<exists>r v'. unless_published l m v = Some (r, v') \<and> inv v' \<and>
      (case r of Inl e \<Rightarrow> provider_frame v0 v' \<and> \<phi> | Inr x \<Rightarrow> Q x v')"
proof -
  from assms obtain r v' where m: "m v = Some (r, v')" "inv v'"
    "case r of Inl e \<Rightarrow> (provider_frame v0 v' \<and> \<phi>) \<and> owns (pv_store v') l | Inr x \<Rightarrow> Q x v'" by blast
  show ?thesis
  proof (cases r)
    case (Inl e)
    with m(3) have "provider_frame v0 v'" "owns (pv_store v') l" \<phi> by simp_all
    from release_run [OF m(2) this(1,2)] obtain v'' where
      "on_store (slot_drop l) v' = Some (Inr (), v'')" "inv v''" "provider_frame v0 v''" by blast
    then have "unless_published l m v = Some (Inl e, v'')"
      using m(1) Inl by (simp add: unless_published_def bind_run_def fail_run_def)
    with \<open>inv v''\<close> \<open>provider_frame v0 v''\<close> \<open>\<phi>\<close> show ?thesis by auto
  next
    case (Inr x)
    with m show ?thesis by (auto simp: unless_published_def)
  qed
qed

text \<open>The provider with one more element.\<close>

abbreviation stored :: "'k \<Rightarrow> 'w \<Rightarrow> u32 \<Rightarrow> ('a, 'q, 'm, 'k, 'w) provider \<Rightarrow> ('a, 'q, 'm, 'k, 'w) provider \<Rightarrow> bool" where
  "stored \<equiv> element_stored D layer"

lemma publish_mapped:
  assumes inv: "inv v" and l: "owns (pv_store v) l" and frame: "provider_frame v0 v"
    and ins: "id_map_insert D (pv_mapping v) gid (sl_slot l) = Inr (Inr m)"
    and data: "ly_set layer w (ly_bytes layer) = Inr (provider_data v (sl_slot l))"
  shows "\<exists>v'. on_store (slot_publish l) (v\<lparr>pv_mapping := m\<rparr>) = Some (Inr (sl_slot l), v') \<and> inv v' \<and>
     provider_adj v' = provider_adj v0 \<and> stored gid w (sl_slot l) v0 v'"
proof -
  note d = provider_invD [OF inv]
  let ?i = "sl_slot l"
  note b = owns_bounds [OF d(1) l]
  from slot_publish_run [OF d(1) l] obtain s where p: "slot_publish l (pv_store v) = Some (Inr ?i, s)" "store_inv items tot cap n s"
    "so_tags s = (so_tags (pv_store v))[unat ?i := PUBLISHED]" "so_neighbors s = so_neighbors (pv_store v)"
    "so_unpadded s = so_unpadded (pv_store v)" "so_unfrozen s = so_unfrozen (pv_store v)"
    "\<forall>j < tot. data_of s j = data_of (pv_store v) j" by blast
  let ?v = "v\<lparr>pv_mapping := m, pv_store := s\<rparr>"
  have run: "on_store (slot_publish l) (v\<lparr>pv_mapping := m\<rparr>) = Some (Inr ?i, ?v)"
    using on_store_Inr [of "slot_publish l" "v\<lparr>pv_mapping := m\<rparr>"] p(1) by simp
  note keeps = id_map_insert_keeps [OF dashmap_law d(2) ins]
  from ins [unfolded id_map_insert_ok [OF dashmap_law d(2)]] have
    gid: "dm_get D (im_forward (pv_mapping v)) gid = None" and
    m: "m = (pv_mapping v)\<lparr>im_backward := backward_upd (pv_mapping v) ?i (Some gid), im_forward := dm_insert D (im_forward (pv_mapping v)) gid ?i\<rparr>"
    by (auto split: if_splits)
  have slot: "backward_slot m j = (if j = ?i then Some gid else backward_slot (pv_mapping v) j)"
    if "unat j < so_unfrozen (pv_store v)" for j
    unfolding m by (rule backward_upd_slot [OF d(2)]) (use b(1) that d(3) in simp_all)
  have ne: "unat j = unat ?i \<longleftrightarrow> j = ?i" for j :: u32 by (simp add: word_unat_eq_iff)
  have "backward_slot m j \<noteq> None \<longleftrightarrow> so_tags s ! unat j = PUBLISHED" if "unat j < so_unfrozen (pv_store v)" for j
    using slot [OF that] d(12) [OF that] ne [of j] p(3) b(2) d(7) by (cases "j = ?i") simp_all
  then have inv': "inv ?v"
    using d provider_unfrozen [OF inv] p keeps(1,3) by (simp add: provider_inv_def)
  have "j \<in> provider_live ?v \<longleftrightarrow> j = ?i \<or> j \<in> provider_live v" for j
    using p(3) b(2) d(7) ne [of j] by (cases "j = ?i") (simp_all add: provider_live_def)
  then have "provider_live ?v = insert ?i (provider_live v)" by blast
  moreover have "?i \<notin> provider_live v" using b(3) by (simp add: provider_live_def)
  moreover have "provider_data ?v j = provider_data v j" if "unat j < tot" for j
    using p(7) that by (simp add: provider_data_def)
  moreover have "provider_adj ?v = provider_adj v" using p(4) by (simp add: provider_adj_def)
  moreover have "provider_ids D ?v = (provider_ids D v)(gid \<mapsto> ?i)" "provider_ids D v gid = None"
    using keeps(2) gid by (simp_all add: provider_ids_def)
  moreover have "so_unfrozen (pv_store v0) = so_unfrozen (pv_store v)" using frame by (simp add: provider_frame_def store_frame_def)
  moreover have "unat j < tot" if "j \<in> provider_live v" for j using that d(7) by (simp add: provider_live_def)
  ultimately have "provider_adj ?v = provider_adj v0 \<and> stored gid w ?i v0 ?v"
    using data b(1,2) provider_frame_same [OF frame] unfolding element_stored_def by auto
  with run inv' show ?thesis by blast
qed

abbreviation unstorable :: "'k \<Rightarrow> 'w \<Rightarrow> ('a, 'q, 'm, 'k, 'w) provider \<Rightarrow> bool" where
  "unstorable \<equiv> element_unstorable P D layer"

lemma unmapped:
  assumes inv: "inv v" and l: "owns (pv_store v) l" and frame: "provider_frame v0 v"
    and ins: "id_map_insert D (pv_mapping v) gid (sl_slot l) = Inr (Inl e)"
  shows "unstorable gid w v0"
proof -
  note d = provider_invD [OF inv]
  note b = owns_bounds [OF d(1) l]
  have "backward_slot (pv_mapping v) (sl_slot l) = None" using b d(12) [of "sl_slot l"] by auto
  with ins b(1) d(3) have "provider_ids D v gid \<noteq> None"
    by (auto simp: id_map_insert_ok [OF dashmap_law d(2)] provider_ids_def split: if_splits)
  then show ?thesis using provider_frame_same(3) [OF frame, of D] by (simp add: element_unstorable_def)
qed

lemma set_element_cases:
  assumes inv: "inv v"
  shows "\<exists>r v'. set_element P D gid w v = Some (r, v') \<and> inv v' \<and>
     (case r of
        Inl e \<Rightarrow> provider_frame v v' \<and> unstorable gid w v
      | Inr i \<Rightarrow> provider_adj v' = provider_adj v \<and> stored gid w i v v')"
proof -
  from acquire_run [OF inv] obtain r v1 where a: "on_store (store_acquire P) v = Some (r, v1)" "inv v1" "provider_frame v v1"
    "case r of Inr (Some l) \<Rightarrow> owns (pv_store v1) l | _ \<Rightarrow> True" by blast
  have no_slot: "unstorable gid w v" if "\<forall>l. r \<noteq> Inr (Some l)"
    using a(1) that on_store_Inr [of "store_acquire P" v] by (auto simp: element_unstorable_def)
  consider (failed) e where "r = Inl e" | (full) "r = Inr None" | (slot) l where "r = Inr (Some l)"
    by (metis option.exhaust sum.exhaust)
  then show ?thesis
  proof cases
    case failed
    with a no_slot show ?thesis by (auto simp: set_element_def bind_run_def)
  next
    case full
    with a no_slot show ?thesis by (auto simp: set_element_def bind_run_def fail_run_def)
  next
    case slot
    with a(4) have l: "owns (pv_store v1) l" by simp
    note d = provider_invD [OF a(2)]
    have len: "rs_len (sl_data l) = ly_bytes layer"
    proof -
      have "store_shape tot (pv_store v1)" by (rule store_coreD(1) [OF store_inv_core [OF d(1)]])
      with l d(4) show ?thesis by (simp add: owns_def data_unchecked_eq)
    qed
    let ?body = "bind_run get_run (\<lambda>v.
         bind_run (of_result (of_layer (ly_set (pv_layer v) w (rs_len (sl_data l))))) (\<lambda>bytes.
         bind_run (on_store (slot_copy_from_slice l bytes)) (\<lambda>_.
         bind_run (mapping_insert D gid (sl_slot l)) (\<lambda>_.
         on_store (slot_publish l)))))"
    have body: "\<exists>r v'. ?body v1 = Some (r, v') \<and> inv v' \<and>
        (case r of Inl e \<Rightarrow> (provider_frame v v' \<and> unstorable gid w v) \<and> owns (pv_store v') l | Inr i \<Rightarrow> provider_adj v' = provider_adj v \<and> stored gid w i v v')"
    proof (cases "ly_set layer w (ly_bytes layer)")
      case (Inl e)
      with a l d(5) len show ?thesis by (simp add: of_layer_def bind_run_def get_run_def of_result_def element_unstorable_def)
    next
      case (Inr bs)
      have "length bs = so_unpadded (pv_store v1) - 1" using set_length [OF Inr] d(4) by simp
      from slot_write_run [of items tot cap n "pv_store v1" "pv_store v1" l, OF _ l this] d(1)
      obtain s where s: "slot_copy_from_slice l bs (pv_store v1) = Some (Inr (), s)" "since items tot cap n (pv_store v1) s"
        "owns s l" "data_of s (unat (sl_slot l)) = bs" by auto
      let ?v = "v1\<lparr>pv_store := s\<rparr>"
      note w = on_store_Inr [of "slot_copy_from_slice l bs" v1, OF s(1)] provider_inv_store [OF a(2) s(2)]
      have frame: "provider_frame v ?v"
        using a(3) s(2) by (auto simp: provider_frame_def intro: store_frame_trans)
      have own: "owns (pv_store ?v) l" using s(3) by simp
      have step: "?body v1 = bind_run (mapping_insert D gid (sl_slot l)) (\<lambda>_. on_store (slot_publish l)) ?v"
        using Inr d(5) len w(1) by (simp add: of_layer_def bind_run_def)
      obtain x where x: "id_map_insert D (pv_mapping ?v) gid (sl_slot l) = Inr x"
        using id_map_insert_ok [OF dashmap_law provider_invD(2) [OF w(2)]] by blast
      show ?thesis
      proof (cases x)
        case (Inl e)
        have "unstorable gid w v" by (rule unmapped [OF w(2) own frame x [unfolded Inl]])
        with Inl step x w(2) frame own show ?thesis
          by (simp add: mapping_insert_def bind_run_def get_run_def of_result_def fail_run_def)
      next
        case (Inr m)
        have "ly_set layer w (ly_bytes layer) = Inr (provider_data ?v (sl_slot l))"
          using \<open>ly_set layer w (ly_bytes layer) = Inr bs\<close> s(4) by (simp add: provider_data_def)
        from publish_mapped [OF w(2) own frame x [unfolded Inr] this]
        obtain v' where "on_store (slot_publish l) (?v\<lparr>pv_mapping := m\<rparr>) = Some (Inr (sl_slot l), v')" "inv v'"
          "provider_adj v' = provider_adj v" "stored gid w (sl_slot l) v v'" by blast
        with step x Inr show ?thesis
          by (simp add: mapping_insert_def bind_run_def get_run_def of_result_def put_run_def)
      qed
    qed
    have "set_element P D gid w v = unless_published l ?body v1"
      using a(1) slot by (simp add: set_element_def bind_run_def [of "on_store (store_acquire P)"])
    with unless_published_run [where m = ?body and v = v1 and ?v0.0 = v and \<phi> = "unstorable gid w v", OF body] show ?thesis by simp
  qed
qed

lemma set_element_run:
  assumes inv: "inv v"
  shows "\<exists>r v'. set_element P D gid w v = Some (r, v') \<and> inv v' \<and>
     (case r of Inl e \<Rightarrow> provider_frame v v' | Inr i \<Rightarrow> provider_adj v' = provider_adj v \<and> stored gid w i v v')"
  using set_element_cases [OF inv, of gid w] by (elim exE conjE) (force split: sum.splits)

end

context inmem_data
begin

text \<open>The provider with one element less.\<close>

abbreviation deleted :: "'k \<Rightarrow> u32 \<Rightarrow> ('a, 'q, 'm, 'k, 'w) provider \<Rightarrow> ('a, 'q, 'm, 'k, 'w) provider \<Rightarrow> bool" where
  "deleted \<equiv> element_deleted D"

lemma delete_retired:
  assumes inv: "inv v" and i: "dm_get D (im_forward (pv_mapping v)) gid = Some i"
    and s: "store_inv items tot cap n s" "retires (unat i) (pv_store v) s" "so_tags (pv_store v) ! unat i = PUBLISHED"
  defines "m \<equiv> (pv_mapping v)\<lparr>im_backward := backward_upd (pv_mapping v) i None, im_forward := dm_remove D (im_forward (pv_mapping v)) gid\<rparr>"
  shows "inv (v\<lparr>pv_store := s, pv_mapping := m\<rparr>)" and "deleted gid i v (v\<lparr>pv_store := s, pv_mapping := m\<rparr>)"
    and "provider_adj (v\<lparr>pv_store := s, pv_mapping := m\<rparr>) = provider_adj v"
proof -
  note d = provider_invD [OF inv]
  let ?v = "v\<lparr>pv_store := s, pv_mapping := m\<rparr>"
  have u: "unat i < so_unfrozen (pv_store v)" using i d(2,3) by (simp add: id_map_ok_def)
  then have it: "unat i < tot" using d(10) by simp
  have ok: "id_map_ok D m" unfolding m_def by (rule entry_delete_ok(2) [OF dashmap_law d(2) i])
  have slot: "backward_slot m j = (if j = i then None else backward_slot (pv_mapping v) j)"
    if "unat j < so_unfrozen (pv_store v)" for j
    unfolding m_def by (rule backward_upd_slot [OF d(2)]) (use u that d(3) in simp_all)
  have ne: "unat j = unat i \<longleftrightarrow> j = i" for j :: u32 by (simp add: word_unat_eq_iff)
  have tags: "so_tags s = (so_tags (pv_store v))[unat i := RETIRING]" using s(2) by (simp add: retires_def)
  have "backward_slot m j \<noteq> None \<longleftrightarrow> so_tags s ! unat j = PUBLISHED" if "unat j < so_unfrozen (pv_store v)" for j
    using slot [OF that] d(12) [OF that] ne [of j] tags it d(7) by (cases "j = i") simp_all
  then show "inv ?v" using d provider_unfrozen [OF inv] s(1,2) ok by (simp add: provider_inv_def retires_def m_def)
  have "j \<in> provider_live ?v \<longleftrightarrow> j \<noteq> i \<and> j \<in> provider_live v" for j
    using tags it d(7) ne [of j] by (cases "j = i") (simp_all add: provider_live_def)
  then have live: "provider_live ?v = provider_live v - {i}" by blast
  moreover have "provider_data ?v j = provider_data v j" if "j \<in> provider_live ?v" for j
    using that s(2) tags by (simp add: provider_data_def retires_def provider_live_def)
  moreover have "provider_ids D ?v = (provider_ids D v)(gid := None)"
    using dashmap_law by (simp add: provider_ids_def m_def dashmap_laws_def)
  moreover have "i \<in> provider_live v" using it d(7) s(3) by (simp add: provider_live_def)
  ultimately show "deleted gid i v ?v" using i by (simp add: element_deleted_def provider_ids_def)
  show "provider_adj ?v = provider_adj v" using s(2) by (simp add: provider_adj_def retires_def)
qed

lemma provider_delete_run:
  assumes inv: "inv v"
  shows "\<exists>r v'. provider_delete P D gid v = Some (r, v') \<and> inv v' \<and>
     (case r of Inl e \<Rightarrow> provider_frame v v' \<and> (e = AnnMessage ''id already deleted'' \<longleftrightarrow> provider_ids D v gid = None)
      | Inr _ \<Rightarrow> provider_adj v' = provider_adj v \<and> (\<exists>i. deleted gid i v v'))"
proof (cases "dm_get D (im_forward (pv_mapping v)) gid")
  case None
  with inv show ?thesis
    by (simp add: provider_delete_def occupied_entry_ok [OF dashmap_law provider_invD(2) [OF inv]] lift_panic_def
        fail_run_def provider_ids_def)
next
  case (Some i)
  note d = provider_invD [OF inv]
  let ?e = "\<lparr>en_external = gid, en_internal = i, en_shard = fst (id_shard i), en_entry = snd (id_shard i)\<rparr>"
  let ?m = "(pv_mapping v)\<lparr>im_backward := backward_upd (pv_mapping v) i None, im_forward := dm_remove D (im_forward (pv_mapping v)) gid\<rparr>"
  have entry: "occupied_entry D (pv_mapping v) gid = Inr (Some ?e)"
    by (simp add: occupied_entry_ok [OF dashmap_law d(2)] Some)
  from store_retire_run [OF seg_queue_law d(1), of "unat i"] obtain r s where
    s: "store_retire P (unat i) (pv_store v) = Some (Inr r, s)" "store_inv items tot cap n s"
      "case r of Inl e \<Rightarrow> store_frame (pv_store v) s \<and> so_tags s = so_tags (pv_store v)
       | Inr _ \<Rightarrow> unat i < so_unfrozen (pv_store v) \<and> so_tags (pv_store v) ! unat i = PUBLISHED \<and> retires (unat i) (pv_store v) s"
    by blast
  note run = on_store_Inr [of "store_retire P (unat i)" v, OF s(1)]
  show ?thesis
  proof (cases r)
    case (Inl e)
    then have "since items tot cap n (pv_store v) s" using s by simp
    from provider_inv_store [OF inv this] Inl run entry Some show ?thesis
      by (simp add: provider_delete_def lift_panic_def bind_run_def get_run_def of_result_def fail_run_def provider_ids_def)
  next
    case (Inr u)
    with s(3) have "so_tags (pv_store v) ! unat i = PUBLISHED" "retires (unat i) (pv_store v) s" by simp_all
    from delete_retired [OF inv Some s(2) this(2,1)] Inr run entry entry_delete_ok(1) [OF dashmap_law d(2) Some]
    show ?thesis
      by (auto simp: provider_delete_def lift_panic_def bind_run_def get_run_def of_result_def put_run_def)
  qed
qed

section \<open>Readers and accessors\<close>

lemma reader_run:
  assumes inv: "inv v"
  shows "\<exists>r v'. provider_reader v = Some (r, v') \<and> inv v' \<and> provider_frame v v'"
proof -
  from store_guard_run [of items tot cap n "pv_store v" "pv_store v"] provider_invD(1) [OF inv]
  obtain g s where s: "store_guard (pv_store v) = Some (Inr g, s)" "since items tot cap n (pv_store v) s" by auto
  from provider_inv_store [OF inv s(2)] on_store_Inr [of store_guard v, OF s(1)] show ?thesis
    by (cases g) (simp_all add: provider_reader_def bind_run_def fail_run_def return_run_def)
qed

lemma drop_reader_inv:
  assumes inv: "inv v"
  shows "inv (drop_reader g v)" and "provider_frame v (drop_reader g v)"
  using provider_inv_store [OF inv, of "store_guard_drop g (pv_store v)"] store_guard_drop_inv [OF provider_invD(1) [OF inv]]
  by (simp_all add: drop_reader_def)

lemma store_read_eq:
  assumes "inv v"
  shows "store_read (pv_store v) (unat i) = (if i \<in> provider_live v then Some (provider_data v i) else None)"
  using reader_read_run [OF provider_invD(1) [OF assms], of "unat i"] provider_invD(7) [OF assms]
  by (simp add: store_read_def provider_live_def provider_data_def)

lemma store_read_length:
  assumes inv: "inv v" and "store_read (pv_store v) i = Some data"
  shows "length data = ly_bytes layer"
proof -
  note d = provider_invD [OF inv]
  have r: "i < tot" "data = data_of (pv_store v) i"
    using reader_read_run [OF d(1), of i] assms(2) by (auto simp: store_read_def split: if_splits)
  have shape: "store_shape tot (pv_store v)" by (rule store_coreD(1) [OF store_inv_core [OF d(1)]])
  from store_row(2) [OF shape r(1)] have "bf_stride (so_buffer (pv_store v)) * i + (so_unpadded (pv_store v) - 1) \<le> length (bf_mem (so_buffer (pv_store v)))"
    by simp
  then show ?thesis using r(2) d(4) by (simp add: data_of_def)
qed

text \<open>A search through the accessor of the provider runs on an accessor in working order.\<close>

lemma search_accessor_ok:
  assumes inv: "inv v" and q: "ly_query_distance layer w = Inr (sized, f)"
  shows "inmem_ok (search_accessor_of (pv_store v) f)"
    and "dom (inmem_dist (search_accessor_of (pv_store v) f)) \<subseteq> provider_live v"
proof -
  note d = provider_invD [OF inv]
  let ?a = "search_accessor_of (pv_store v) f"
  have nbrs: "\<exists>list. ia_neighbors ?a i = Inr list \<and> length list \<le> ia_buffer_len ?a" if "unat i < ia_len ?a" for i
    using that d(11) nb_get_list [OF d(6), of i] nb_list_length [OF d(6), of i] nb_sizes(1) [OF d(6)]
    by (simp add: search_accessor_of_def of_neighbors_def store_max_degree_def)
  have eval: "\<exists>x. ia_evaluate ?a data = Inr x" if "ia_read ?a i = Some data" for i data
  proof -
    from that have "length data = ly_bytes layer" using store_read_length [OF inv] by (simp add: search_accessor_of_def)
    from query_total [OF q this] show ?thesis by (auto simp: search_accessor_of_def of_layer_def)
  qed
  have frozen: "inmem_read ?a (unat p) \<noteq> None" if p: "p \<in> set (inmem_starting_points ?a)" for p
  proof -
    from p obtain k where k: "so_unfrozen (pv_store v) \<le> k" "k < tot" "p = of_nat k"
      using d(8,10,11) by (auto simp: inmem_starting_points_def search_accessor_of_def store_frozen_def unat_of_nat take_bit_nat_def)
    then have "unat p = k" using d(8) by (simp add: unat_of_nat take_bit_nat_def)
    moreover have "so_tags (pv_store v) ! k = FROZEN"
      using store_coreD(5) [OF store_inv_core [OF d(1)] k(2)] k(1) by (simp add: tag_ok_def)
    ultimately have "p \<in> provider_live v" using k(2) d(7) by (simp add: provider_live_def)
    then show ?thesis using store_read_eq [OF inv, of p] \<open>unat p = k\<close> k(2) d(11) by (simp add: inmem_read_def search_accessor_of_def)
  qed
  show "inmem_ok ?a" unfolding inmem_ok_def using nbrs eval frozen by blast
  show "dom (inmem_dist ?a) \<subseteq> provider_live v"
    using store_read_eq [OF inv]
    by (auto simp: inmem_dist_def inmem_read_def search_accessor_of_def split: option.splits if_splits)
qed

definition searchable :: "u32 set \<Rightarrow> (u8 list, inmem_error) inmem_accessor \<Rightarrow> bool" where
  "searchable L a \<longleftrightarrow> inmem_ok a \<and> dom (inmem_dist a) \<subseteq> L"

lemma search_accessor_run:
  assumes inv: "inv v"
  shows "\<exists>r v'. provider_search_accessor w v = Some (r, v') \<and> inv v' \<and> provider_frame v v' \<and>
     (case r of Inl e \<Rightarrow> True | Inr (a, h) \<Rightarrow> searchable (provider_live v') a)"
proof -
  from reader_run [OF inv] obtain r v1 where r: "provider_reader v = Some (r, v1)" "inv v1" "provider_frame v v1" by blast
  show ?thesis
  proof (cases r)
    case (Inl e)
    with r show ?thesis by (simp add: provider_search_accessor_def bind_run_def)
  next
    case (Inr g)
    note d = provider_invD [OF r(2)]
    have dropped: "inv (drop_reader g v1) \<and> provider_frame v (drop_reader g v1)"
      using drop_reader_inv [OF r(2), of g] r(3) by (auto simp: provider_frame_def intro: store_frame_trans)
    have run: "provider_search_accessor w v = (case of_layer (ly_query_distance layer w) of
       Inl e \<Rightarrow> dropping (drop_reader g) (fail_run e)
     | Inr (sized, evaluate) \<Rightarrow>
         if (case sized of Some bytes \<Rightarrow> store_bytes (pv_store v1) < bytes + TAG_SIZE | None \<Rightarrow> False)
         then dropping (drop_reader g) (fail_run (AnnPanic AssertFailed))
         else return_run (search_accessor_of (pv_store v1) evaluate, g)) v1"
      using r(1) Inr d(5) by (simp add: provider_search_accessor_def bind_run_def get_run_def)
    show ?thesis
    proof (cases "ly_query_distance layer w")
      case (Inl e)
      with run dropped show ?thesis by (simp add: of_layer_def dropping_def fail_run_def)
    next
      case (Inr x)
      then obtain sized f where q: "ly_query_distance layer w = Inr (sized, f)" by (cases x) auto
      note ok = search_accessor_ok [OF r(2) q]
      have "\<not> (case sized of Some bytes \<Rightarrow> store_bytes (pv_store v1) < bytes + TAG_SIZE | None \<Rightarrow> False)"
      proof (cases sized)
        case (Some b)
        with q have "b \<le> ly_bytes layer" by (simp add: query_sized)
        then show ?thesis using Some d(4) by (simp add: store_bytes_def TAG_SIZE_def)
      qed simp
      with run q ok r show ?thesis by (simp add: of_layer_def return_run_def searchable_def)
    qed
  qed
qed

end

section \<open>The provider under the index\<close>

text \<open>
  An index over the provider, with a configuration it can prune with, while the ids and the data of the
  elements stay as they are.
\<close>

locale inmem_index = inmem_data layer P D items ent tot cap n
  for layer :: "'w layer" and P :: "('a, 'q) store_deps" and D :: "('m, 'k) dashmap" and items ent tot cap n +
  fixes get_element :: "u32 \<Rightarrow> ('a, 'q, 'm, 'k, 'w, 'w) provider_run" and cfg :: config and dflt :: u32
    and order :: "u32 set \<Rightarrow> u32 list" and ids :: "'k \<Rightarrow> u32 option" and data :: "u32 \<Rightarrow> u8 list"
  assumes prunable_config: "prunable cfg" and set_order: "iteration_order order"
begin

abbreviation seen :: "('a, 'q, 'm, 'k, 'w) provider \<Rightarrow> bool" where
  "seen v \<equiv> inv v \<and> provider_ids D v = ids \<and> (\<forall>i \<in> provider_live v. provider_data v i = data i)"

abbreviation at_graph :: "(u32 \<Rightarrow> u32 list) \<Rightarrow> u32 set \<Rightarrow> ('a, 'q, 'm, 'k, 'w) provider \<Rightarrow> bool" where
  "at_graph \<equiv> store_at seen provider_adj provider_live"

lemma frame_at: "provider_frame v v' \<Longrightarrow> inv v' \<Longrightarrow> at_graph G L v \<Longrightarrow> at_graph G L v'"
  using provider_frame_same [of v v'] by (simp add: store_at_def)

lemma at_runI:
  assumes "\<And>v. inv v \<Longrightarrow> provider_adj v = G \<Longrightarrow> provider_live v = L \<Longrightarrow> \<exists>r v'. m v = Some (r, v') \<and> inv v' \<and>
      (case r of Inl e \<Rightarrow> provider_frame v v' | Inr x \<Rightarrow> provider_ids D v' = provider_ids D v \<and> provider_live v' = L \<and>
         (\<forall>i \<in> L. provider_data v' i = provider_data v i) \<and> provider_adj v' = G' \<and> Q x)"
  shows "total_run (at_graph G L) m (\<lambda>e. at_graph G L) (\<lambda>x v. at_graph G' L v \<and> Q x)"
proof (rule total_runI)
  fix v
  assume v: "at_graph G L v"
  with assms [of v] obtain r v' where m: "m v = Some (r, v')" "inv v'"
    "case r of Inl e \<Rightarrow> provider_frame v v' | Inr x \<Rightarrow> provider_ids D v' = provider_ids D v \<and> provider_live v' = L \<and>
         (\<forall>i \<in> L. provider_data v' i = provider_data v i) \<and> provider_adj v' = G' \<and> Q x" by (auto simp: store_at_def)
  with v frame_at [of v v', OF _ m(2) v] show "\<exists>r v'. m v = Some (r, v') \<and>
      (case r of Inl e \<Rightarrow> at_graph G L v' | Inr x \<Rightarrow> at_graph G' L v' \<and> Q x)"
    by (cases r) (simp_all add: store_at_def)
qed

lemma set_neighbors_at:
  "total_run (at_graph G L) (set_neighbors i ns) (\<lambda>e. at_graph G L) (\<lambda>u. at_graph (G(i := ns)) L)"
proof (rule total_run_post [OF at_runI])
  fix v :: "('a, 'q, 'm, 'k, 'w) provider"
  assume v: "inv v" "provider_adj v = G" "provider_live v = L"
  from set_neighbors_run [OF v(1), of i ns] obtain r v' where "set_neighbors i ns v = Some (r, v')" "inv v'"
    "provider_live v' = provider_live v" "provider_data v' = provider_data v" "provider_ids D v' = provider_ids D v"
    "case r of Inl e \<Rightarrow> v' = v | Inr _ \<Rightarrow> provider_adj v' = (provider_adj v)(i := ns)" by blast
  with v show "\<exists>r v'. set_neighbors i ns v = Some (r, v') \<and> inv v' \<and> (case r of Inl e \<Rightarrow> provider_frame v v'
      | Inr u \<Rightarrow> provider_ids D v' = provider_ids D v \<and> provider_live v' = L \<and>
         (\<forall>i \<in> L. provider_data v' i = provider_data v i) \<and> provider_adj v' = G(i := ns) \<and> True)"
    by (cases r) auto
qed simp

lemma append_vector_at:
  "total_run (at_graph G L) (append_vector i ns) (\<lambda>e. at_graph G L) (\<lambda>u. at_graph (G(i := take cap (G i @ ns))) L)"
proof (rule total_run_post [OF at_runI])
  fix v :: "('a, 'q, 'm, 'k, 'w) provider"
  assume v: "inv v" "provider_adj v = G" "provider_live v = L"
  from append_vector_run [OF v(1), of i ns] obtain r v' where "append_vector i ns v = Some (r, v')" "inv v'"
    "provider_live v' = provider_live v" "provider_data v' = provider_data v" "provider_ids D v' = provider_ids D v"
    "case r of Inl e \<Rightarrow> v' = v | Inr _ \<Rightarrow> provider_adj v' = (provider_adj v)(i := take cap (provider_adj v i @ ns))" by blast
  with v show "\<exists>r v'. append_vector i ns v = Some (r, v') \<and> inv v' \<and> (case r of Inl e \<Rightarrow> provider_frame v v'
      | Inr u \<Rightarrow> provider_ids D v' = provider_ids D v \<and> provider_live v' = L \<and>
         (\<forall>i \<in> L. provider_data v' i = provider_data v i) \<and> provider_adj v' = G(i := take cap (G i @ ns)) \<and> True)"
    by (cases r) auto
qed simp

lemma reader_at: "total_run (at_graph G L) provider_reader (\<lambda>e. at_graph G L) (\<lambda>u. at_graph G L)"
proof (rule total_run_post [OF at_runI])
  fix v :: "('a, 'q, 'm, 'k, 'w) provider"
  assume v: "inv v" "provider_adj v = G" "provider_live v = L"
  from reader_run [OF v(1)] obtain r v' where r: "provider_reader v = Some (r, v')" "inv v'" "provider_frame v v'" by blast
  with v provider_frame_same [OF r(3)] show "\<exists>r v'. provider_reader v = Some (r, v') \<and> inv v' \<and> (case r of Inl e \<Rightarrow> provider_frame v v'
      | Inr u \<Rightarrow> provider_ids D v' = provider_ids D v \<and> provider_live v' = L \<and>
         (\<forall>i \<in> L. provider_data v' i = provider_data v i) \<and> provider_adj v' = G \<and> True)"
    by (cases r) auto
qed simp

lemma search_accessor_at:
  "total_run (at_graph G L) (provider_search_accessor w) (\<lambda>e. at_graph G L)
     (\<lambda>(a, h) v. at_graph G L v \<and> searchable L a)"
proof (rule total_run_post [OF at_runI])
  fix v :: "('a, 'q, 'm, 'k, 'w) provider"
  assume v: "inv v" "provider_adj v = G" "provider_live v = L"
  from search_accessor_run [OF v(1), of w] obtain r v' where
    r: "provider_search_accessor w v = Some (r, v')" "inv v'" "provider_frame v v'"
    "case r of Inl e \<Rightarrow> True | Inr (a, h) \<Rightarrow> searchable (provider_live v') a" by blast
  with v provider_frame_same [OF r(3)] show "\<exists>r v'. provider_search_accessor w v = Some (r, v') \<and> inv v' \<and>
      (case r of Inl e \<Rightarrow> provider_frame v v'
      | Inr x \<Rightarrow> provider_ids D v' = provider_ids D v \<and> provider_live v' = L \<and>
         (\<forall>i \<in> L. provider_data v' i = provider_data v i) \<and> provider_adj v' = G \<and> searchable L (fst x))"
    by (cases r) auto
qed auto

end

text \<open>What the search for a deleted element copies out are elements that can be read.\<close>

lemma copied_candidates:
  assumes "copy_ids back_inserter_ops a cs (bi_new (replicate m x)) = Inr (n, a', out)"
  shows "set (take n (bi_buffer out)) \<subseteq> set cs"
proof -
  from assms obtain k b where e: "bi_extend (bi_new (replicate m x)) cs = Inr (k, b)" "n = k" "out = b"
    by (auto simp: copy_ids_def back_inserter_ops_def lift_panic_def bind_result_def split: sum.splits)
  have "bi_inv (bi_new (replicate m x))" by (simp add: bi_inv_def bi_new_def)
  from bi.extend_law [OF this, of cs] e(1) have "k = length (bi_contents b)"
    "set (bi_contents b) \<subseteq> set cs" "bi_inv b"
    by (auto simp: back_inserter_ops_def bi_new_def dest: in_set_takeD)
  with e(2,3) show ?thesis by (simp add: bi_inv_def min_def split: if_splits)
qed

context inmem_index
begin

lemma status_at:
  "total_run (at_graph G L) (bind_run get_run (\<lambda>v. map_error Hard (of_result (status_by_internal_id v i))))
     (\<lambda>e g. at_graph G L g \<and> i \<notin> L) (\<lambda>st g. at_graph G L g \<and> (st = Valid \<longleftrightarrow> i \<in> L))"
  by (rule total_runI)
    (auto simp: store_at_def provider_live_def status_by_internal_id_def can_read_approximate_def map_error_def of_result_def
      split: bool.splits)

lemma delete_search:
  assumes "searchable L a" and "0 < l"
  shows "\<exists>r. search_internal inmem_ops npq_ops noop_record None a (scratch_new (Fixed l)) () = Some r \<and>
      (case r of Inl e \<Rightarrow> True | Inr (stats, a', s', u) \<Rightarrow> \<forall>cs m x n a'' out. qo_iter npq_ops (ss_best s') = Inr cs \<longrightarrow>
         copy_ids back_inserter_ops a' cs (bi_new (replicate m x)) = Inr (n, a'', out) \<longrightarrow>
         nbr_id ` set (take n (bi_buffer out)) \<subseteq> L)"
proof -
  from assms have ok: "inmem_ok a" "dom (inmem_dist a) \<subseteq> L" by (simp_all add: searchable_def)
  have none: "search_internal inmem_ops npq_ops noop_record None a (scratch_new (Fixed l)) () =
      search_internal inmem_ops npq_ops noop_record (Some 1) a (scratch_new (Fixed l)) ()"
    by (simp add: search_internal_def)
  obtain stats s where run: "search_internal inmem_ops npq_ops noop_record (Some 1) a (scratch_new (Fixed l)) () = Some (Inr (stats, a, s, ()))"
    and st: "inmem_search_ok a a s" "inmem_explored a l s"
    by (rule inmem_search_internal [OF ok(1) assms(2), where bw = 1 and recorder = noop_record and ?r0.0 = "()"]) simp_all
  have "npq_inv (ss_best s)" using st(1) by (simp add: search_state_ok_def)
  from npq.iter_law [OF this] have "nbr_id ` set cs \<subseteq> dom (inmem_dist a)" if "qo_iter npq_ops (ss_best s) = Inr cs" for cs
    using st(2) that by (auto simp: explored_state_def dest!: in_set_takeD)
  with ok(2) have "nbr_id ` set (take n (bi_buffer out)) \<subseteq> L"
    if "qo_iter npq_ops (ss_best s) = Inr cs" "copy_ids back_inserter_ops a cs (bi_new (replicate m x)) = Inr (n, a'', out)" for cs m x n a'' out
    using copied_candidates [OF that(2)] that(1) by blast
  then show ?thesis unfolding none run by simp blast
qed

end

sublocale inmem_index \<subseteq> provider: delete_store "inmem_strategy P D get_element" seen cap provider_adj provider_live
    contains_simd_u32 cfg dflt searchable order
proof
  fix G L and i :: u32 and ns :: "u32 list" and v :: "('a, 'q, 'm, 'k, 'w) provider"
  let ?at = "at_graph"
  show "total_run (?at G L) (na_get_neighbors (inmem_strategy P D get_element) i) (\<lambda>e. ?at G L) (\<lambda>l g. ?at G L g \<and> al_edges l = G i)"
    by (rule total_runI) (auto simp: inmem_strategy_def store_at_def get_neighbors_run)
  show "total_run (?at G L) (na_set_neighbors (inmem_strategy P D get_element) i ns) (\<lambda>e. ?at G L) (\<lambda>u. ?at (G(i := ns)) L)"
    by (simp add: inmem_strategy_def set_neighbors_at)
  show "total_run (?at G L) (na_append_vector (inmem_strategy P D get_element) i ns) (\<lambda>e. ?at G L)
      (\<lambda>u. ?at (G(i := take cap (G i @ ns))) L)"
    using append_vector_at [of G L i ns] by (simp add: inmem_strategy_def)
  show "total_run (?at G L) (pa_prune_accessor (inmem_strategy P D get_element) m) (\<lambda>e. ?at G L) (\<lambda>u. ?at G L)" for m
    by (simp add: inmem_strategy_def reader_at)
  show "?at G L (pa_drop (inmem_strategy P D get_element) h v)" if "?at G L v" for h
    using that drop_reader_inv [of v h] frame_at [of v "drop_reader h v" G L] by (simp add: inmem_strategy_def store_at_def)
  show "total_run (?at G L) (pa_fill (inmem_strategy P D get_element) ns) (\<lambda>e. ?at G L)
      (\<lambda>(view, computer) g. ?at G L g \<and> set ns \<inter> L \<subseteq> dom view)"
    by (rule total_runI) (auto simp: inmem_strategy_def prune_fill_def store_at_def store_read_eq return_run_def)
  show "total_run (?at G L) (ip_complete (inmem_strategy P D get_element) i) (\<lambda>e. ?at G L) (\<lambda>u. ?at G L)"
    by (auto simp: inmem_strategy_def intro: total_run_return)
  show "total_run (?at G L) (ip_search_accessor (inmem_strategy P D get_element) w) (\<lambda>e. ?at G L)
      (\<lambda>(a, h) g. ?at G L g \<and> searchable L a)" for w
    by (simp add: inmem_strategy_def search_accessor_at)
  show "\<exists>r. search_internal (ip_search_ops (inmem_strategy P D get_element)) npq_ops visited_record None a (scratch_new (Fixed l)) [] = Some r \<and>
      (case r of Inl e \<Rightarrow> True | Inr (stats, a', s', visited) \<Rightarrow> searchable L a' \<and> \<not> pq_auto_resizable (ss_best s') \<and>
         distinct (map nbr_id visited) \<and> nbr_id ` set visited \<subseteq> L)" if "searchable L a" "0 < l" for a l
    using inmem_search_visited [of a l] that by (fastforce simp: inmem_strategy_def searchable_def)
  show "total_run (?at G L) (dl_status_by_internal_id (inmem_strategy P D get_element) i)
      (\<lambda>e g. ?at G L g \<and> i \<notin> L) (\<lambda>st g. ?at G L g \<and> (st = Valid \<longleftrightarrow> i \<in> L))"
    by (simp add: inmem_strategy_def status_at)
  show "\<exists>r. search_internal (ip_search_ops (inmem_strategy P D get_element)) npq_ops noop_record None a (scratch_new (Fixed l)) () = Some r \<and>
      (case r of Inl e \<Rightarrow> True | Inr (stats, a', s', u) \<Rightarrow> \<forall>cs m x n a'' out. qo_iter npq_ops (ss_best s') = Inr cs \<longrightarrow>
         dl_post_process (inmem_strategy P D get_element) a' cs (bi_new (replicate m x)) = Inr (n, a'', out) \<longrightarrow>
         nbr_id ` set (take n (bi_buffer out)) \<subseteq> L)" if "searchable L a" "0 < l" for a l
    using delete_search [OF that] by (simp add: inmem_strategy_def cong: sum.case_cong)
qed (rule prunable_config set_order)+

section \<open>Creation\<close>

lemma set_rows_spec:
  assumes "set_rows layer ps = Inr rows"
  shows "length rows = length ps" and "\<forall>k < length ps. ly_set layer (ps ! k) (ly_bytes layer) = Inr (rows ! k)"
proof -
  have "length rows = length ps \<and> (\<forall>k < length ps. ly_set layer (ps ! k) (ly_bytes layer) = Inr (rows ! k))"
    using assms
  proof (induction ps arbitrary: rows)
    case (Cons p ps)
    then obtain row rest where r: "ly_set layer p (ly_bytes layer) = Inr row" "set_rows layer ps = Inr rest" "rows = row # rest"
      by (auto simp: bind_result_def split: sum.splits)
    with Cons.IH [OF r(2)] show ?case by (auto simp: nth_Cons split: nat.splits)
  qed simp
  then show "length rows = length ps" "\<forall>k < length ps. ly_set layer (ps ! k) (ly_bytes layer) = Inr (rows ! k)" by blast+
qed

lemma store_config_fields:
  "sc_entries (provider_store_config layer config) = pg_capacity config"
  "sc_bytes (provider_store_config layer config) = ly_bytes layer"
  "sc_max_neighbors (provider_store_config layer config) = pg_max_degree config"
  "pg_epoch_guard_slots config \<noteq> Some 0 \<Longrightarrow> 0 < sc_epoch_guard_slots (provider_store_config layer config)"
  by (auto simp: provider_store_config_def store_config_new_def Let_def set_epoch_guard_slots_def
      set_freelist_recycle_capacity_def DEFAULT_GUARD_SLOTS_def split: option.splits)

text \<open>The number of epoch guard slots of a provider.\<close>

definition guard_slots :: "'w layer \<Rightarrow> provider_config \<Rightarrow> nat" where
  "guard_slots layer config = sc_epoch_guard_slots (provider_store_config layer config)"

lemma provider_new_inv:
  assumes "layer_contract layer" and "seg_queue_laws (dp_seg_queue P) items" and "dashmap_laws D"
    and slots: "pg_epoch_guard_slots config \<noteq> Some 0" and new: "provider_new P D layer config pts = Some (Inr (Inr v))"
  shows "provider_inv D items (pg_capacity config) (pg_capacity config + length pts) (pg_max_degree config) (guard_slots layer config) layer v"
    and "provider_adj v = (\<lambda>_. [])" and "provider_ids D v = Map.empty" and "so_unfrozen (pv_store v) = pg_capacity config"
    and "\<forall>k < length pts. ly_set layer (pts ! k) (ly_bytes layer) = Inr (provider_data v (of_nat (pg_capacity config + k)))"
proof -
  let ?c = "provider_store_config layer config"
  from new obtain rows where rows: "set_rows layer pts = Inr rows"
    by (auto simp: provider_new_def split: sum.splits ann_error.splits)
  with new obtain s where s: "store_new P ?c (ly_bytes layer) rows = Some (Inr (Inr s))"
    and v: "v = \<lparr>pv_store = s, pv_layer = layer, pv_mapping = id_map_new D (pg_capacity config), pv_config = config\<rparr>"
  proof -
    from new rows obtain z where z: "store_new P ?c (ly_bytes layer) rows = Some z" "map_sum id (map_sum CreatingStore (\<lambda>s.
        \<lparr>pv_store = s, pv_layer = layer, pv_mapping = id_map_new D (pg_capacity config), pv_config = config\<rparr>)) z = Inr (Inr v)"
      by (auto simp: provider_new_def)
    then show thesis using that by (cases z; cases "projr z") auto
  qed
  note r = set_rows_spec [OF rows]
  have len: "\<forall>row \<in> set rows. length row = ly_bytes layer"
    using r layer_contract.set_length [OF assms(1)] by (metis in_set_conv_nth)
  note spec = store_new_spec [OF assms(2) len store_config_fields(4) [OF slots] s]
  let ?tot = "pg_capacity config + length pts"
  have inv: "store_inv items ?tot (pg_max_degree config) (guard_slots layer config) s"
    using spec(1) by (simp add: store_config_fields r(1) guard_slots_def)
  have tot: "?tot < 2 ^ 32" using inv by (auto simp: store_inv_def store_core_def store_shape_def)
  have slot: "backward_slot (id_map_new D (pg_capacity config)) i = None" if "unat i < pg_capacity config" for i
  proof -
    have "unat i div 1024 < (pg_capacity config + 1023) div 1024" using that by linarith
    then show ?thesis by (simp add: backward_slot_def id_map_new_def id_shard_def SHARD_SIZE_def)
  qed
  show "provider_inv D items (pg_capacity config) ?tot (pg_max_degree config) (guard_slots layer config) layer v"
    using inv spec(2,3,6) id_map_new_ok [OF assms(3)] slot
    by (simp add: provider_inv_def v store_config_fields) (simp add: id_map_new_def)
  show "provider_adj v = (\<lambda>_. [])" using spec(4) by (simp add: provider_adj_def v fun_eq_iff)
  show "provider_ids D v = Map.empty"
    using assms(3) by (simp add: provider_ids_def v id_map_new_def dashmap_laws_def fun_eq_iff)
  show "so_unfrozen (pv_store v) = pg_capacity config" using spec(2) by (simp add: v store_config_fields)
  show "\<forall>k < length pts. ly_set layer (pts ! k) (ly_bytes layer) = Inr (provider_data v (of_nat (pg_capacity config + k)))"
  proof (intro allI impI)
    fix k
    assume k: "k < length pts"
    then have u: "unat (of_nat (pg_capacity config + k) :: u32) = pg_capacity config + k"
      using tot by (intro u32_of_nat) simp
    from spec(5) k r(1) have "reader_read s (pg_capacity config + k) = Inr (Some (rows ! k))" by (simp add: store_config_fields)
    with reader_read_run [OF inv, of "pg_capacity config + k"] have "rows ! k = data_of s (pg_capacity config + k)"
      by (auto split: if_splits)
    then have "provider_data v (of_nat (pg_capacity config + k)) = rows ! k" unfolding provider_data_def u by (simp add: v)
    with r(2) k show "ly_set layer (pts ! k) (ly_bytes layer) = Inr (provider_data v (of_nat (pg_capacity config + k)))" by simp
  qed
qed

section \<open>Index operations on the provider\<close>

context inmem_index
begin

lemma insert_links_at:
  assumes "0 < cf_l_build cfg" and "i \<in> L"
  shows "total_run (at_graph G L) (insert_links cfg contains_simd_u32 dflt (inmem_strategy P D get_element) pooled w i)
      (\<lambda>e v. \<exists>G'. at_graph G' L v \<and> partly_inserted cfg cap L G i G')
      (\<lambda>u v. \<exists>G' ns. at_graph G' L v \<and> inserted cfg cap L G i ns G')"
  using assms by (rule provider.insert_links_run)

lemma prune_range_at:
  "total_run (at_graph G L) (prune_range cfg contains_simd_u32 dflt (inmem_strategy P D get_element) is)
     (\<lambda>e v. \<exists>G'. at_graph G' L v \<and> trimmed cfg (set is) G G')
     (\<lambda>u v. \<exists>G'. at_graph G' L v \<and> trimmed cfg (set is) G G' \<and> (\<forall>i \<in> set is. length (G' i) \<le> cf_pruned_degree cfg))"
  by (rule provider.prune_range_run)

lemma count_reachable_at:
  "total_run (at_graph G L) (count_reachable_nodes (inmem_strategy P D get_element) starts)
     (\<lambda>e. at_graph G L) (\<lambda>k v. at_graph G L v \<and> k = card (reach G (set starts)))"
  by (rule provider.count_reachable_nodes_run) (rule finite_subset [OF subset_UNIV finite])

lemma degree_stats_at:
  assumes "is \<noteq> []" and "\<forall>i \<in> set is. length (G i) < 2 ^ 32"
  shows "total_run (at_graph G L) (get_degree_stats (inmem_strategy P D get_element) is)
     (\<lambda>e. at_graph G L) (\<lambda>st v. at_graph G L v \<and> stats_of (map (\<lambda>i. length (G i)) is) st)"
  using assms by (rule provider.get_degree_stats_run)

end

text \<open>The elements, their ids and data are the same; the graph may differ.\<close>

definition same_elements ::
  "('m, 'k) dashmap \<Rightarrow> ('a, 'q, 'm, 'k, 'w) provider \<Rightarrow> ('a, 'q, 'm, 'k, 'w) provider \<Rightarrow> bool" where
  "same_elements D v v' \<longleftrightarrow> provider_ids D v' = provider_ids D v \<and> provider_live v' = provider_live v \<and>
     (\<forall>i \<in> provider_live v. provider_data v' i = provider_data v i)"

context inmem_data
begin

text \<open>From runs at a graph to runs of a provider.\<close>

lemma at_graph_run:
  assumes "inv v" and "total_run (store_at (\<lambda>v'. inv v' \<and> provider_ids D v' = provider_ids D v \<and>
        (\<forall>i \<in> provider_live v'. provider_data v' i = provider_data v i)) provider_adj provider_live (provider_adj v) (provider_live v)) m
      (\<lambda>e v''. \<exists>G'. store_at (\<lambda>v'. inv v' \<and> provider_ids D v' = provider_ids D v \<and>
        (\<forall>i \<in> provider_live v'. provider_data v' i = provider_data v i)) provider_adj provider_live G' (provider_live v) v'' \<and> E G')
      (\<lambda>x v''. \<exists>G'. store_at (\<lambda>v'. inv v' \<and> provider_ids D v' = provider_ids D v \<and>
        (\<forall>i \<in> provider_live v'. provider_data v' i = provider_data v i)) provider_adj provider_live G' (provider_live v) v'' \<and> Q x G')"
  shows "\<exists>r v'. m v = Some (r, v') \<and> inv v' \<and> same_elements D v v' \<and>
     (case r of Inl e \<Rightarrow> E (provider_adj v') | Inr x \<Rightarrow> Q x (provider_adj v'))"
proof -
  have "store_at (\<lambda>v'. inv v' \<and> provider_ids D v' = provider_ids D v \<and>
        (\<forall>i \<in> provider_live v'. provider_data v' i = provider_data v i)) provider_adj provider_live (provider_adj v) (provider_live v) v"
    using assms(1) by (simp add: store_at_def)
  with assms(2) show ?thesis
    by (cases rule: total_runE) (auto simp: store_at_def same_elements_def)
qed

lemma inmem_insert_links_run:
  assumes "prunable cfg" and "0 < cf_l_build cfg" and "inv v" and "i \<in> provider_live v"
  shows "\<exists>r v'. insert_links cfg contains_simd_u32 dflt (inmem_strategy P D get_element) pooled w i v = Some (r, v') \<and> inv v' \<and>
     same_elements D v v' \<and>
     (case r of Inl e \<Rightarrow> partly_inserted cfg cap (provider_live v) (provider_adj v) i (provider_adj v')
      | Inr _ \<Rightarrow> \<exists>ns. inserted cfg cap (provider_live v) (provider_adj v) i ns (provider_adj v'))"
proof -
  have "inmem_index layer P D items cfg sorted_list_of_set"
    by unfold_locales (simp_all add: assms(1) iteration_order_def)
  note links = inmem_index.insert_links_at [OF this assms(2,4), where ids = "provider_ids D v" and data = "provider_data v"]
  show ?thesis
    by (rule at_graph_run [OF assms(3)]) (rule total_run_post [OF links], blast)
qed

lemma inmem_prune_range_run:
  assumes "prunable cfg" and "inv v"
  shows "\<exists>r v'. prune_range cfg contains_simd_u32 dflt (inmem_strategy P D get_element) is v = Some (r, v') \<and> inv v' \<and>
     same_elements D v v' \<and>
     (case r of Inl e \<Rightarrow> trimmed cfg (set is) (provider_adj v) (provider_adj v')
      | Inr _ \<Rightarrow> trimmed cfg (set is) (provider_adj v) (provider_adj v') \<and>
          (\<forall>i \<in> set is. length (provider_adj v' i) \<le> cf_pruned_degree cfg))"
proof -
  have "inmem_index layer P D items cfg sorted_list_of_set"
    by unfold_locales (simp_all add: assms(1) iteration_order_def)
  note prune = inmem_index.prune_range_at [OF this, where ids = "provider_ids D v" and data = "provider_data v"]
  show ?thesis
    by (rule at_graph_run [OF assms(2)]) (rule prune)
qed

lemma inmem_index_insert_run:
  assumes "prunable cfg" and "0 < cf_l_build cfg" and inv: "inv v"
  shows "\<exists>r v'. index_insert cfg contains_simd_u32 dflt (inmem_strategy P D get_element) pooled gid w v = Some (r, v') \<and> inv v' \<and>
     (case r of
        Inl e \<Rightarrow> provider_frame v v' \<and> unstorable gid w v \<or> (\<exists>i. stored gid w i v v' \<and>
          partly_inserted cfg cap (insert i (provider_live v)) (provider_adj v) i (provider_adj v'))
      | Inr _ \<Rightarrow> \<exists>i ns. stored gid w i v v' \<and>
          inserted cfg cap (insert i (provider_live v)) (provider_adj v) i ns (provider_adj v'))"
proof -
  from set_element_cases [OF inv, of gid w] obtain r v1 where s: "set_element P D gid w v = Some (r, v1)" "inv v1"
    "case r of Inl e \<Rightarrow> provider_frame v v1 \<and> unstorable gid w v | Inr i \<Rightarrow> provider_adj v1 = provider_adj v \<and> stored gid w i v v1" by blast
  show ?thesis
  proof (cases r)
    case (Inl e)
    with s show ?thesis
      by (simp add: index_insert_def inmem_strategy_def escalate_def map_error_def bind_run_def)
  next
    case (Inr i)
    with s(3) have st: "provider_adj v1 = provider_adj v" "stored gid w i v v1" by simp_all
    then have live: "provider_live v1 = insert i (provider_live v)" "i \<in> provider_live v1" by (simp_all add: element_stored_def)
    have run: "index_insert cfg contains_simd_u32 dflt (inmem_strategy P D get_element) pooled gid w v =
        insert_links cfg contains_simd_u32 dflt (inmem_strategy P D get_element) pooled w i v1"
      using s(1) Inr by (simp add: index_insert_def escalate_def map_error_def bind_run_def inmem_strategy_def)
    have keep: "stored gid w i v v'" if "same_elements D v1 v'" for v'
      using st(2) that live by (auto simp: element_stored_def same_elements_def)
    from inmem_insert_links_run [OF assms(1,2) s(2) live(2), of dflt get_element pooled w] obtain r' v' where
      "insert_links cfg contains_simd_u32 dflt (inmem_strategy P D get_element) pooled w i v1 = Some (r', v')" "inv v'" "same_elements D v1 v'"
      "case r' of Inl e \<Rightarrow> partly_inserted cfg cap (provider_live v1) (provider_adj v1) i (provider_adj v')
       | Inr _ \<Rightarrow> \<exists>ns. inserted cfg cap (provider_live v1) (provider_adj v1) i ns (provider_adj v')" by blast
    with run keep live(1) st(1) show ?thesis by (cases r') auto
  qed
qed

end

end
