(* ===== verification/InmemIndex.thy ===== *)
theory InmemIndex
  imports InmemProvider
begin

text \<open>
  The index over the in-memory provider: deletion in place and repair on it, the states an index can
  reach by these operations, and what holds in all of them.
\<close>

section \<open>Deletion and repair on the provider\<close>

context inmem_index
begin

lemma delete_edges_at:
  assumes "method_ok meth" and "(\<exists>k l. meth = VisitedAndTopK k l) \<Longrightarrow> element \<noteq> None"
  shows "total_run (at_graph G L)
     (inplace_delete_edges cfg order contains_simd_u32 dflt (inmem_strategy P D get_element) pooled num meth i element)
     (\<lambda>e. at_graph G L) (\<lambda>m v. at_graph G L v \<and> edges_ok L m \<and> {c \<in> looked_at meth G L i. i \<in> set (G c)} \<subseteq> dom m)"
  using assms by (rule provider.inplace_delete_edges_run)

lemma delete_apply_at:
  assumes "edges_ok L m"
  shows "total_run (at_graph G L) (inplace_delete_apply cfg order contains_simd_u32 dflt (inmem_strategy P D get_element) i m)
     (\<lambda>e v. \<exists>G'. at_graph G' L v \<and> partly_relinked cfg cap (\<lambda>j. the (m j)) {i} (dom m) G G')
     (\<lambda>u v. \<exists>G'. at_graph (G'(i := [])) L v \<and> relinked cfg cap (\<lambda>j. the (m j)) {i} (dom m) G G')"
  using assms by (rule provider.inplace_delete_apply_run)

lemma drop_deleted_at:
  "total_run (at_graph G L) (drop_deleted_neighbors cfg (inmem_strategy P D get_element) i only_orphans) (\<lambda>e. at_graph G L)
     (\<lambda>k v. if i \<in> L then k = ConsolidateComplete \<and> at_graph (G(i := kept_neighbors G L only_orphans i)) L v
            else k = ConsolidateDeleted \<and> at_graph G L v)"
  by (rule provider.drop_deleted_neighbors_run)

lemma consolidate_at:
  "total_run (at_graph G L) (consolidate_vector cfg order contains_simd_u32 dflt (inmem_strategy P D get_element) i) (\<lambda>e. at_graph G L)
     (\<lambda>k v. if i \<in> L then k = ConsolidateComplete \<and> (\<exists>ns. at_graph (G(i := ns)) L v \<and> consolidated cfg G L i ns)
            else k = ConsolidateDeleted \<and> at_graph G L v)"
  by (rule provider.consolidate_vector_run)

end

text \<open>The graph after a deletion of \<open>i\<close> that added the edges \<open>m\<close>, and after one that stopped somewhere.\<close>

definition removed ::
  "config \<Rightarrow> nat \<Rightarrow> inplace_delete_method \<Rightarrow> u32 set \<Rightarrow> u32 \<Rightarrow> (u32 \<Rightarrow> u32 list) \<Rightarrow> (u32 \<Rightarrow> u32 list) \<Rightarrow> bool" where
  "removed cfg cap meth L i G G' \<longleftrightarrow> (\<exists>m G1. edges_ok L m \<and> {c \<in> looked_at meth G L i. i \<in> set (G c)} \<subseteq> dom m \<and>
     relinked cfg cap (\<lambda>j. the (m j)) {i} (dom m) G G1 \<and> G' = G1(i := []))"

definition partly_removed ::
  "config \<Rightarrow> nat \<Rightarrow> u32 set \<Rightarrow> u32 \<Rightarrow> (u32 \<Rightarrow> u32 list) \<Rightarrow> (u32 \<Rightarrow> u32 list) \<Rightarrow> bool" where
  "partly_removed cfg cap L i G G' \<longleftrightarrow> (\<exists>m. edges_ok L m \<and> partly_relinked cfg cap (\<lambda>j. the (m j)) {i} (dom m) G G')"

lemma partly_removed_refl: "partly_removed cfg cap L i G G"
  unfolding partly_removed_def by (rule exI [of _ Map.empty]) (simp add: edges_ok_def partly_relinked_def)

context inmem_data
begin

lemma inmem_consolidate_run:
  assumes "prunable cfg" and "iteration_order order" and "inv v"
  shows "\<exists>r v'. consolidate_vector cfg order contains_simd_u32 dflt (inmem_strategy P D get_element) i v = Some (r, v') \<and>
     inv v' \<and> same_elements D v v' \<and>
     (case r of Inl e \<Rightarrow> provider_adj v' = provider_adj v
      | Inr k \<Rightarrow> if i \<in> provider_live v
          then k = ConsolidateComplete \<and>
            (\<exists>ns. provider_adj v' = (provider_adj v)(i := ns) \<and> consolidated cfg (provider_adj v) (provider_live v) i ns)
          else k = ConsolidateDeleted \<and> provider_adj v' = provider_adj v)"
proof -
  have "inmem_index layer P D items cfg order" by unfold_locales (simp_all add: assms)
  note run = inmem_index.consolidate_at [OF this, where ids = "provider_ids D v" and data = "provider_data v"]
  show ?thesis
    by (rule at_graph_run [OF assms(3)]) (rule total_run_weaken [OF run], blast, blast, cases "i \<in> provider_live v", (simp only: if_True if_False, blast)+)
qed

lemma inmem_drop_deleted_run:
  assumes "prunable cfg" and "inv v"
  shows "\<exists>r v'. drop_deleted_neighbors cfg (inmem_strategy P D get_element) i only_orphans v = Some (r, v') \<and>
     inv v' \<and> same_elements D v v' \<and>
     (case r of Inl e \<Rightarrow> provider_adj v' = provider_adj v
      | Inr k \<Rightarrow> if i \<in> provider_live v
          then k = ConsolidateComplete \<and>
            provider_adj v' = (provider_adj v)(i := kept_neighbors (provider_adj v) (provider_live v) only_orphans i)
          else k = ConsolidateDeleted \<and> provider_adj v' = provider_adj v)"
proof -
  have "inmem_index layer P D items cfg sorted_list_of_set"
    by unfold_locales (simp_all add: assms(1) iteration_order_def)
  note run = inmem_index.drop_deleted_at [OF this, where ids = "provider_ids D v" and data = "provider_data v"]
  show ?thesis
    by (rule at_graph_run [OF assms(2)]) (rule total_run_weaken [OF run], blast, blast, cases "i \<in> provider_live v", (simp only: if_True if_False, blast)+)
qed

text \<open>Deletion in place after the provider has deleted the element.\<close>

lemma inmem_delete_rest_run:
  assumes "prunable cfg" and "iteration_order order" and "inv v" and "method_ok meth"
    and "(\<exists>k l. meth = VisitedAndTopK k l) \<Longrightarrow> element \<noteq> None"
  shows "\<exists>r v'. bind_run (inplace_delete_edges cfg order contains_simd_u32 dflt (inmem_strategy P D get_element) pooled num meth i element)
       (\<lambda>m. inplace_delete_apply cfg order contains_simd_u32 dflt (inmem_strategy P D get_element) i m) v = Some (r, v') \<and>
     inv v' \<and> same_elements D v v' \<and>
     (case r of Inl e \<Rightarrow> partly_removed cfg cap (provider_live v) i (provider_adj v) (provider_adj v')
      | Inr _ \<Rightarrow> removed cfg cap meth (provider_live v) i (provider_adj v) (provider_adj v'))"
proof -
  let ?G = "provider_adj v" and ?L = "provider_live v"
  let ?at = "\<lambda>G. store_at (\<lambda>v'. inv v' \<and> provider_ids D v' = provider_ids D v \<and>
        (\<forall>i \<in> provider_live v'. provider_data v' i = provider_data v i)) provider_adj provider_live G ?L"
  have idx: "inmem_index layer P D items cfg order" by unfold_locales (simp_all add: assms)
  note edges = inmem_index.delete_edges_at [OF idx assms(4), where ids = "provider_ids D v" and data = "provider_data v"]
  note app = inmem_index.delete_apply_at [OF idx, where ids = "provider_ids D v" and data = "provider_data v"]
  have rest: "total_run (\<lambda>v. ?at ?G v \<and> edges_ok ?L m \<and> {c \<in> looked_at meth ?G ?L i. i \<in> set (?G c)} \<subseteq> dom m)
      (inplace_delete_apply cfg order contains_simd_u32 dflt (inmem_strategy P D get_element) i m)
      (\<lambda>e v'. \<exists>G'. ?at G' v' \<and> partly_removed cfg cap ?L i ?G G')
      (\<lambda>u v'. \<exists>G'. ?at G' v' \<and> removed cfg cap meth ?L i ?G G')" for m
  proof (rule total_run_fact [where \<phi> = "edges_ok ?L m \<and> {c \<in> looked_at meth ?G ?L i. i \<in> set (?G c)} \<subseteq> dom m"])
    assume m: "edges_ok ?L m \<and> {c \<in> looked_at meth ?G ?L i. i \<in> set (?G c)} \<subseteq> dom m"
    then have "edges_ok ?L m" by simp
    from app [OF this] show "total_run (\<lambda>v. ?at ?G v \<and> edges_ok ?L m \<and> {c \<in> looked_at meth ?G ?L i. i \<in> set (?G c)} \<subseteq> dom m)
      (inplace_delete_apply cfg order contains_simd_u32 dflt (inmem_strategy P D get_element) i m)
      (\<lambda>e v'. \<exists>G'. ?at G' v' \<and> partly_removed cfg cap ?L i ?G G')
      (\<lambda>u v'. \<exists>G'. ?at G' v' \<and> removed cfg cap meth ?L i ?G G')"
      by (rule total_run_weaken) (use m in \<open>unfold removed_def partly_removed_def, blast+\<close>)
  qed blast
  show ?thesis
    by (rule at_graph_run [OF assms(3)], rule total_run_bind [OF _ rest])
      (rule total_run_weaken, rule edges, erule assms(5), blast, meson partly_removed_refl, blast)
qed

end

lemma bind_run_assoc: "bind_run (bind_run a b) c = bind_run a (\<lambda>x. bind_run (b x) c)"
  by (auto simp: bind_run_def fun_eq_iff split: option.splits sum.splits)

lemma escalate_hard: "escalate (map_error Hard m) = m"
proof
  fix v
  show "escalate (map_error Hard m) v = m v"
    by (cases "m v") (auto simp: escalate_def map_error_def map_sum_def split: sum.splits)
qed

text \<open>The element that a deletion searches for is read without changing anything that matters.\<close>

definition element_reader ::
  "(('a, 'q, 'm, 'k, 'w) provider \<Rightarrow> bool) \<Rightarrow> (u32 \<Rightarrow> ('a, 'q, 'm, 'k, 'w, 'w) provider_run) \<Rightarrow> bool" where
  "element_reader I get_element \<longleftrightarrow>
     (\<forall>i v. I v \<longrightarrow> (\<exists>r v'. get_element i v = Some (r, v') \<and> I v' \<and> provider_frame v v'))"

lemma provider_frame_trans: "provider_frame v0 v1 \<Longrightarrow> provider_frame v1 v2 \<Longrightarrow> provider_frame v0 v2"
  by (auto simp: provider_frame_def intro: store_frame_trans)

lemma frame_deleted:
  assumes "provider_frame v0 v" and "element_deleted D gid i v v'"
  shows "element_deleted D gid i v0 v'"
proof -
  note f = provider_frame_same [OF assms(1)]
  have "provider_data v' j = provider_data v0 j" if "j \<in> provider_live v'" for j
    using assms(2) f(2) f(4) [of j] that by (auto simp: element_deleted_def)
  with assms(2) f(2,3) show ?thesis unfolding element_deleted_def by metis
qed

lemma same_elements_deleted:
  assumes "element_deleted D gid i v v1" and "same_elements D v1 v'"
  shows "element_deleted D gid i v v'"
  using assms by (auto simp: element_deleted_def same_elements_def)

context inmem_data
begin

lemma to_internal_run:
  "escalate (dl_to_internal_id (inmem_strategy P D get_element) gid) v = Some (
     case provider_ids D v gid of Some i \<Rightarrow> Inr i | None \<Rightarrow> Inl (AnnMessage ''no mapping''), v)"
  by (simp add: inmem_strategy_def escalate_def map_error_def of_result_def to_internal_id_def to_internal_def
      provider_ids_def split: option.splits)

lemma to_internal_bind:
  assumes "provider_ids D v gid = Some i"
  shows "bind_run (escalate (dl_to_internal_id (inmem_strategy P D get_element) gid)) f v = f i v"
  using assms by (simp add: bind_run_def [of "escalate _"] to_internal_run)

lemma inmem_inplace_delete_run:
  assumes cfg: "prunable cfg" and ord: "iteration_order order" and inv: "inv v" and meth: "method_ok meth"
    and elem: "element_reader inv get_element"
  shows "\<exists>r v'. inplace_delete cfg order contains_simd_u32 dflt (inmem_strategy P D get_element) pooled gid num meth v = Some (r, v') \<and>
     inv v' \<and>
     (case r of
        Inl e \<Rightarrow> provider_frame v v' \<or> (\<exists>i. deleted gid i v v' \<and>
          partly_removed cfg cap (provider_live v') i (provider_adj v) (provider_adj v'))
      | Inr _ \<Rightarrow> \<exists>i. deleted gid i v v' \<and> removed cfg cap meth (provider_live v') i (provider_adj v) (provider_adj v'))"
proof (cases "provider_ids D v gid")
  case None
  then have "inplace_delete cfg order contains_simd_u32 dflt (inmem_strategy P D get_element) pooled gid num meth v =
      Some (Inl (AnnMessage ''no mapping''), v)"
    by (simp add: inplace_delete_def bind_run_def to_internal_run)
  with inv show ?thesis by simp
next
  case (Some i)
  let ?S = "inmem_strategy P D get_element"
  let ?elem = "case meth of
         VisitedAndTopK _ _ \<Rightarrow> bind_run (dl_get_delete_element ?S i) (\<lambda>v. return_run (Some v))
       | _ \<Rightarrow> return_run None"
  let ?rest = "\<lambda>x. bind_run (inplace_delete_edges cfg order contains_simd_u32 dflt ?S pooled num meth i x)
       (\<lambda>m. inplace_delete_apply cfg order contains_simd_u32 dflt ?S i m)"
  have dl: "dl_get_delete_element ?S = get_element" "escalate (dl_delete ?S gid) = provider_delete P D gid"
    by (simp_all add: inmem_strategy_def escalate_hard)
  have run: "inplace_delete cfg order contains_simd_u32 dflt ?S pooled gid num meth v =
      bind_run ?elem (\<lambda>x. bind_run (provider_delete P D gid) (\<lambda>_. ?rest x)) v"
    using Some by (simp only: inplace_delete_def inplace_delete_inner_def bind_run_assoc dl(2) to_internal_bind)
  have el: "\<exists>r v1. ?elem v = Some (r, v1) \<and> inv v1 \<and> provider_frame v v1 \<and>
      (case r of Inl e \<Rightarrow> True | Inr x \<Rightarrow> (\<exists>k l. meth = VisitedAndTopK k l) \<longrightarrow> x \<noteq> None)"
  proof (cases meth)
    case (VisitedAndTopK k l)
    from elem inv obtain r v1 where "get_element i v = Some (r, v1)" "inv v1" "provider_frame v v1"
      unfolding element_reader_def by blast
    with VisitedAndTopK show ?thesis by (cases r) (simp_all add: bind_run_def return_run_def dl(1))
  qed (use inv in \<open>simp_all add: return_run_def\<close>)
  then obtain r v1 where e: "?elem v = Some (r, v1)" "inv v1" "provider_frame v v1"
    "case r of Inl e \<Rightarrow> True | Inr x \<Rightarrow> (\<exists>k l. meth = VisitedAndTopK k l) \<longrightarrow> x \<noteq> None" by blast
  show ?thesis
  proof (cases r)
    case (Inl err)
    with run e show ?thesis by (simp add: bind_run_def)
  next
    case (Inr x)
    with run e(1) have run1: "inplace_delete cfg order contains_simd_u32 dflt ?S pooled gid num meth v =
        bind_run (provider_delete P D gid) (\<lambda>_. ?rest x) v1" by (simp add: bind_run_def [of ?elem])
    from provider_delete_run [OF e(2), of gid] obtain d v2 where d: "provider_delete P D gid v1 = Some (d, v2)" "inv v2"
      "case d of Inl e \<Rightarrow> provider_frame v1 v2 \<and> (e = AnnMessage ''id already deleted'' \<longleftrightarrow> provider_ids D v1 gid = None)
       | Inr _ \<Rightarrow> provider_adj v2 = provider_adj v1 \<and> (\<exists>i. deleted gid i v1 v2)" by blast
    show ?thesis
    proof (cases d)
      case (Inl err)
      with run1 d e(3) show ?thesis by (auto simp: bind_run_def [of "provider_delete P D gid"] intro: provider_frame_trans)
    next
      case Inr': (Inr u)
      from d(3) Inr' obtain j where j: "provider_adj v2 = provider_adj v1" "deleted gid j v1 v2" by auto
      have del: "deleted gid i v v2" "provider_adj v2 = provider_adj v"
        using frame_deleted [OF e(3) j(2)] Some j(1) provider_frame_same(1) [OF e(3)] by (auto simp: element_deleted_def)
      have x: "x \<noteq> None" if "\<exists>k l. meth = VisitedAndTopK k l" using e(4) Inr that by simp
      from inmem_delete_rest_run [OF cfg ord d(2) meth x, of dflt get_element pooled num i]
      obtain r' v' where r': "?rest x v2 = Some (r', v')" "inv v'" "same_elements D v2 v'"
        "case r' of Inl e \<Rightarrow> partly_removed cfg cap (provider_live v2) i (provider_adj v2) (provider_adj v')
         | Inr _ \<Rightarrow> removed cfg cap meth (provider_live v2) i (provider_adj v2) (provider_adj v')" by blast
      have "deleted gid i v v'" by (rule same_elements_deleted [OF del(1) r'(3)])
      moreover have "provider_live v' = provider_live v2" using r'(3) by (simp add: same_elements_def)
      ultimately show ?thesis
        using run1 d(1) Inr' r'(1,2,4) del(2) by (cases r') (auto simp: bind_run_def [of "provider_delete P D gid"])
    qed
  qed
qed

end

section \<open>Elements and their ids\<close>

lemma provider_ids_backward:
  assumes "provider_inv D items ent tot cap n layer v"
  shows "provider_ids D v gid = Some i \<longleftrightarrow> unat i < ent \<and> backward_slot (pv_mapping v) i = Some gid"
  using provider_invD(2,3) [OF assms] provider_unfrozen [OF assms] by (simp add: provider_ids_def id_map_ok_def)

lemma provider_ids_live:
  assumes inv: "provider_inv D items ent tot cap n layer v" and i: "provider_ids D v gid = Some i"
  shows "unat i < ent" and "i \<in> provider_live v"
proof -
  note d = provider_invD [OF inv] and u = provider_unfrozen [OF inv]
  note b = i [unfolded provider_ids_backward [OF inv]]
  then show "unat i < ent" by simp
  with b d(7,10) d(12) [of i] u show "i \<in> provider_live v" by (simp add: provider_live_def)
qed

lemma provider_ids_onto:
  assumes inv: "provider_inv D items ent tot cap n layer v" and i: "i \<in> provider_live v" "unat i < ent"
  shows "\<exists>gid. provider_ids D v gid = Some i"
proof -
  note d = provider_invD [OF inv] and u = provider_unfrozen [OF inv]
  have "so_tags (pv_store v) ! unat i = PUBLISHED"
    using published_readable [OF d(1), of "unat i"] i u by (simp add: provider_live_def)
  with d(12) [of i] i(2) u provider_ids_backward [OF inv] show ?thesis by auto
qed

lemma provider_ids_inj:
  assumes "provider_inv D items ent tot cap n layer v" and "provider_ids D v gid = Some i" and "provider_ids D v gid' = Some i"
  shows "gid = gid'"
  using assms(2,3) unfolding provider_ids_backward [OF assms(1)] by simp

lemma frozen_live:
  assumes inv: "provider_inv D items ent tot cap n layer v" and i: "ent \<le> unat i" "unat i < tot"
  shows "i \<in> provider_live v"
proof -
  note d = provider_invD [OF inv] and u = provider_unfrozen [OF inv]
  from store_coreD(5) [OF store_inv_core [OF d(1)] i(2)] i(1) u have "so_tags (pv_store v) ! unat i = FROZEN"
    by (simp add: tag_ok_def)
  with d(7) i(2) show ?thesis by (simp add: provider_live_def)
qed

lemma provider_live_bound: "provider_inv D items ent tot cap n layer v \<Longrightarrow> provider_live v \<subseteq> {i. unat i < tot}"
  using provider_invD(7) by (fastforce simp: provider_live_def)

text \<open>The vectors of an index by their external ids.\<close>

definition contents ::
  "'t full_precision \<Rightarrow> full \<Rightarrow> ('m, 'k) dashmap \<Rightarrow> ('a, 'q, 'm, 'k, 't list) provider \<Rightarrow> 'k \<rightharpoonup> 't list" where
  "contents T f D v gid = map_option (\<lambda>i. cast_elements T (fu_dim f) (provider_data v i)) (provider_ids D v gid)"

lemma contents_same:
  assumes "provider_inv D items ent tot cap n layer v" and "same_elements D v v'"
  shows "contents T f D v' = contents T f D v"
  using assms(2) provider_ids_live(2) [OF assms(1)]
  by (auto simp: contents_def same_elements_def fun_eq_iff split: option.splits intro!: option.map_cong0)

lemma frame_same_elements: "provider_frame v v' \<Longrightarrow> same_elements D v v'"
  using provider_frame_same(2,4) [of v v'] provider_frame_same(3) [of v v' D] by (auto simp: same_elements_def)

lemma contents_stored:
  assumes inv: "provider_inv D items ent tot cap n (full_layer T K f) v" and "pod T"
    and st: "element_stored D (full_layer T K f) gid w i v v'"
  shows "contents T f D v' = (contents T f D v)(gid \<mapsto> w)" and "contents T f D v gid = None"
proof -
  have set: "full_set T f w (full_bytes T f) = Inr (provider_data v' i)"
    using st by (simp add: element_stored_def full_layer_def)
  then have "length w = fu_dim f" "provider_data v' i = cast_bytes T w" by (auto simp: full_set_def split: if_splits)
  then have w: "cast_elements T (fu_dim f) (provider_data v' i) = w" using cast_elements_bytes [OF assms(2), of w "fu_dim f"] by simp
  show "contents T f D v gid = None" using st by (simp add: contents_def element_stored_def)
  have "contents T f D v' k = ((contents T f D v)(gid \<mapsto> w)) k" for k
  proof (cases "k = gid")
    case True
    with w st show ?thesis by (simp add: contents_def element_stored_def)
  next
    case False
    with st have ids: "provider_ids D v' k = provider_ids D v k" by (simp add: element_stored_def)
    have "provider_data v' j = provider_data v j" if "provider_ids D v k = Some j" for j
      using provider_ids_live(2) [OF inv that] st by (simp add: element_stored_def)
    with False ids show ?thesis by (cases "provider_ids D v k") (simp_all add: contents_def)
  qed
  then show "contents T f D v' = (contents T f D v)(gid \<mapsto> w)" ..
qed

lemma contents_deleted:
  assumes inv: "provider_inv D items ent tot cap n layer v" and del: "element_deleted D gid i v v'"
  shows "contents T f D v' = (contents T f D v)(gid := None)" and "contents T f D v gid \<noteq> None"
proof -
  show "contents T f D v gid \<noteq> None" using del by (simp add: contents_def element_deleted_def)
  have "contents T f D v' k = ((contents T f D v)(gid := None)) k" for k
  proof (cases "k = gid")
    case True
    with del show ?thesis by (simp add: contents_def element_deleted_def)
  next
    case False
    with del have ids: "provider_ids D v' k = provider_ids D v k" by (simp add: element_deleted_def)
    have "provider_data v' j = provider_data v j" if j: "provider_ids D v k = Some j" for j
    proof -
      have "j \<noteq> i" using provider_ids_inj [OF inv j] del False by (auto simp: element_deleted_def)
      with provider_ids_live(2) [OF inv j] del show ?thesis by (simp add: element_deleted_def)
    qed
    with False ids show ?thesis by (cases "provider_ids D v k") (simp_all add: contents_def)
  qed
  then show "contents T f D v' = (contents T f D v)(gid := None)" ..
qed

lemma full_element_reader:
  fixes P :: "('a, 'q) store_deps" and D :: "('m, 'k) dashmap"
  assumes "inmem_data (full_layer T K f) P D items"
  shows "element_reader (provider_inv D items ent tot cap n (full_layer T K f) :: ('a, 'q, 'm, 'k, 't list) provider \<Rightarrow> bool)
     (get_delete_element T f)"
  unfolding element_reader_def
proof (intro allI impI)
  fix i and v :: "('a, 'q, 'm, 'k, 't list) provider"
  assume inv: "provider_inv D items ent tot cap n (full_layer T K f) v"
  from inmem_data.reader_run [OF assms this] obtain r v1 where r: "provider_reader v = Some (r, v1)"
    "provider_inv D items ent tot cap n (full_layer T K f) v1" "provider_frame v v1" by blast
  show "\<exists>r v'. get_delete_element T f i v = Some (r, v') \<and> provider_inv D items ent tot cap n (full_layer T K f) v' \<and> provider_frame v v'"
  proof (cases r)
    case (Inl e)
    with r show ?thesis by (simp add: get_delete_element_def bind_run_def)
  next
    case (Inr g)
    note dr = inmem_data.drop_reader_inv [OF assms r(2), of g]
    have "provider_frame v (drop_reader g v1)" by (rule provider_frame_trans [OF r(3) dr(2)])
    moreover have "\<exists>x. get_delete_element T f i v = Some (x, drop_reader g v1)"
      using r(1) Inr by (cases "store_read (pv_store v1) (unat i)")
        (auto simp: get_delete_element_def bind_run_def get_run_def dropping_def fail_run_def return_run_def split: if_split)
    ultimately show ?thesis using dr(1) by blast
  qed
qed

section \<open>The states of an index\<close>

text \<open>
  The operations on an index with full-precision vectors: those of \<open>DiskANNIndex\<close>, deletion by the
  provider alone, and the guards that searches running meanwhile hold. A pooled scratch may be any.
\<close>

datatype ('k, 'w) index_op =
    OpInsert "(u32 npq, u32) search_scratch option" 'k 'w
  | OpDelete 'k
  | OpInplaceDelete "(u32 npq, u32) search_scratch option" 'k nat inplace_delete_method
  | OpPruneRange "u32 list"
  | OpDropDeleted u32 bool
  | OpConsolidate u32
  | OpReader
  | OpDropReader guard

definition full_strategy ::
  "('a, 'q) store_deps \<Rightarrow> ('m, 'k) dashmap \<Rightarrow> 't full_precision \<Rightarrow> full \<Rightarrow>
   (('a, 'q, 'm, 'k, 't list) provider, u32, inmem_error, u8 list, guard, 'k, 't list, (u8 list, inmem_error) inmem_accessor) delete_provider" where
  "full_strategy P D T f = inmem_strategy P D (get_delete_element T f)"

definition discard :: "('g, 'f, 'x) run \<Rightarrow> ('g, 'f, unit) run" where
  "discard m = bind_run m (\<lambda>_. return_run ())"

fun index_run ::
  "('a, 'q) store_deps \<Rightarrow> ('m, 'k) dashmap \<Rightarrow> 't full_precision \<Rightarrow> full \<Rightarrow> config \<Rightarrow> (u32 set \<Rightarrow> u32 list) \<Rightarrow>
   ('k, 't list) index_op \<Rightarrow> ('a, 'q, 'm, 'k, 't list, unit) provider_run" where
  "index_run P D T f cfg order (OpInsert pooled gid w) =
     index_insert cfg contains_simd_u32 0 (full_strategy P D T f) pooled gid w"
| "index_run P D T f cfg order (OpDelete gid) = provider_delete P D gid"
| "index_run P D T f cfg order (OpInplaceDelete pooled gid num meth) =
     inplace_delete cfg order contains_simd_u32 0 (full_strategy P D T f) pooled gid num meth"
| "index_run P D T f cfg order (OpPruneRange is) = prune_range cfg contains_simd_u32 0 (full_strategy P D T f) is"
| "index_run P D T f cfg order (OpDropDeleted i only_orphans) =
     discard (drop_deleted_neighbors cfg (full_strategy P D T f) i only_orphans)"
| "index_run P D T f cfg order (OpConsolidate i) =
     discard (consolidate_vector cfg order contains_simd_u32 0 (full_strategy P D T f) i)"
| "index_run P D T f cfg order OpReader = discard provider_reader"
| "index_run P D T f cfg order (OpDropReader g) = dropping (drop_reader g) (return_run ())"

fun op_ok :: "('k, 'w) index_op \<Rightarrow> bool" where
  "op_ok (OpInplaceDelete pooled gid num meth) = method_ok meth"
| "op_ok _ = True"

inductive index_reach ::
  "('a, 'q) store_deps \<Rightarrow> ('m, 'k) dashmap \<Rightarrow> 't full_precision \<Rightarrow> 't kernels \<Rightarrow> full \<Rightarrow> config \<Rightarrow> (u32 set \<Rightarrow> u32 list) \<Rightarrow>
   provider_config \<Rightarrow> 't list list \<Rightarrow> ('a, 'q, 'm, 'k, 't list) provider \<Rightarrow> bool"
  for P D T K f cfg order config pts where
  created: "provider_new P D (full_layer T K f) config pts = Some (Inr (Inr v)) \<Longrightarrow> index_reach P D T K f cfg order config pts v"
| stepped: "index_reach P D T K f cfg order config pts v \<Longrightarrow> op_ok op \<Longrightarrow>
     index_run P D T f cfg order op v = Some (r, v') \<Longrightarrow> index_reach P D T K f cfg order config pts v'"

text \<open>What an operation may do, in terms of elements and graph.\<close>

fun index_effect ::
  "('a, 'q) store_deps \<Rightarrow> ('m, 'k) dashmap \<Rightarrow> 'w layer \<Rightarrow> config \<Rightarrow> nat \<Rightarrow> ('k, 'w) index_op \<Rightarrow> ('a, 'q, 'm, 'k, 'w) provider \<Rightarrow> bool \<Rightarrow>
   ('a, 'q, 'm, 'k, 'w) provider \<Rightarrow> bool" where
  "index_effect P D layer cfg cap (OpInsert pooled gid w) v ok v' =
     (if ok then \<exists>i ns. element_stored D layer gid w i v v' \<and>
          inserted cfg cap (insert i (provider_live v)) (provider_adj v) i ns (provider_adj v')
      else provider_frame v v' \<and> element_unstorable P D layer gid w v \<or> (\<exists>i. element_stored D layer gid w i v v' \<and>
          partly_inserted cfg cap (insert i (provider_live v)) (provider_adj v) i (provider_adj v')))"
| "index_effect P D layer cfg cap (OpDelete gid) v ok v' =
     (if ok then provider_adj v' = provider_adj v \<and> (\<exists>i. element_deleted D gid i v v') else provider_frame v v')"
| "index_effect P D layer cfg cap (OpInplaceDelete pooled gid num meth) v ok v' =
     (if ok then \<exists>i. element_deleted D gid i v v' \<and> removed cfg cap meth (provider_live v') i (provider_adj v) (provider_adj v')
      else provider_frame v v' \<or> (\<exists>i. element_deleted D gid i v v' \<and>
          partly_removed cfg cap (provider_live v') i (provider_adj v) (provider_adj v')))"
| "index_effect P D layer cfg cap (OpPruneRange is) v ok v' = (same_elements D v v' \<and>
     trimmed cfg (set is) (provider_adj v) (provider_adj v') \<and>
     (ok \<longrightarrow> (\<forall>i \<in> set is. length (provider_adj v' i) \<le> cf_pruned_degree cfg)))"
| "index_effect P D layer cfg cap (OpDropDeleted i only_orphans) v ok v' = (same_elements D v v' \<and>
     provider_adj v' = (if ok \<and> i \<in> provider_live v
       then (provider_adj v)(i := kept_neighbors (provider_adj v) (provider_live v) only_orphans i) else provider_adj v))"
| "index_effect P D layer cfg cap (OpConsolidate i) v ok v' = (same_elements D v v' \<and>
     (if ok \<and> i \<in> provider_live v
      then \<exists>ns. provider_adj v' = (provider_adj v)(i := ns) \<and> consolidated cfg (provider_adj v) (provider_live v) i ns
      else provider_adj v' = provider_adj v))"
| "index_effect P D layer cfg cap OpReader v ok v' = provider_frame v v'"
| "index_effect P D layer cfg cap (OpDropReader g) v ok v' = provider_frame v v'"

lemma discard_run: "m v = Some (r, v') \<Longrightarrow> discard m v = Some (map_sum id (\<lambda>_. ()) r, v')"
  by (cases r) (simp_all add: discard_def bind_run_def return_run_def)

definition succeeded :: "'e + 'a \<Rightarrow> bool" where
  "succeeded r = (case r of Inl _ \<Rightarrow> False | Inr _ \<Rightarrow> True)"

lemma succeeded_simps [simp]: "succeeded (Inr x)" "\<not> succeeded (Inl e)" "succeeded (map_sum h g r) = succeeded r"
  by (cases r; simp add: succeeded_def)+

lemma index_run_effect:
  assumes data: "inmem_data (full_layer T K f) P D items" and cfg: "prunable cfg" "0 < cf_l_build cfg" and ord: "iteration_order order"
    and ok: "op_ok op" and inv: "provider_inv D items ent tot cap n (full_layer T K f) v"
  shows "\<exists>r v'. index_run P D T f cfg order op v = Some (r, v') \<and> provider_inv D items ent tot cap n (full_layer T K f) v' \<and>
     index_effect P D (full_layer T K f) cfg cap op v (succeeded r) v'"
proof (cases op)
  case (OpInsert pooled gid w)
  from inmem_data.inmem_index_insert_run [OF data cfg inv, of 0 "get_delete_element T f" pooled gid w]
  obtain r v' where *: "index_run P D T f cfg order op v = Some (r, v')" "provider_inv D items ent tot cap n (full_layer T K f) v'"
    "case r of Inl e \<Rightarrow> index_effect P D (full_layer T K f) cfg cap op v False v'
     | Inr _ \<Rightarrow> index_effect P D (full_layer T K f) cfg cap op v True v'"
    unfolding OpInsert index_run.simps full_strategy_def index_effect.simps if_True if_False by blast
  then show ?thesis by (cases r) (auto simp: succeeded_def)
next
  case (OpDelete gid)
  from inmem_data.provider_delete_run [OF data inv, of gid]
  obtain r v' where "provider_delete P D gid v = Some (r, v')" "provider_inv D items ent tot cap n (full_layer T K f) v'"
    "case r of Inl e \<Rightarrow> provider_frame v v' \<and> (e = AnnMessage ''id already deleted'' \<longleftrightarrow> provider_ids D v gid = None)
      | Inr _ \<Rightarrow> provider_adj v' = provider_adj v \<and> (\<exists>i. element_deleted D gid i v v')" by blast
  with OpDelete show ?thesis by (cases r) auto
next
  case (OpInplaceDelete pooled gid num meth)
  from inmem_data.inmem_inplace_delete_run [OF data cfg(1) ord inv _ full_element_reader [OF data], of meth 0 pooled gid num] ok
  obtain r v' where *: "index_run P D T f cfg order op v = Some (r, v')" "provider_inv D items ent tot cap n (full_layer T K f) v'"
    "case r of Inl e \<Rightarrow> index_effect P D (full_layer T K f) cfg cap op v False v'
     | Inr _ \<Rightarrow> index_effect P D (full_layer T K f) cfg cap op v True v'"
    unfolding OpInplaceDelete index_run.simps full_strategy_def index_effect.simps if_True if_False op_ok.simps by blast
  then show ?thesis by (cases r) (auto simp: succeeded_def)
next
  case (OpPruneRange "is")
  from inmem_data.inmem_prune_range_run [OF data cfg(1) inv, of 0 "get_delete_element T f" "is"]
  obtain r v' where *: "index_run P D T f cfg order op v = Some (r, v')" "provider_inv D items ent tot cap n (full_layer T K f) v'"
    "same_elements D v v'" "case r of Inl e \<Rightarrow> trimmed cfg (set is) (provider_adj v) (provider_adj v')
      | Inr _ \<Rightarrow> trimmed cfg (set is) (provider_adj v) (provider_adj v') \<and>
          (\<forall>i \<in> set is. length (provider_adj v' i) \<le> cf_pruned_degree cfg)"
    unfolding OpPruneRange index_run.simps full_strategy_def by blast
  with OpPruneRange show ?thesis by (cases r) auto
next
  case (OpDropDeleted i only_orphans)
  from inmem_data.inmem_drop_deleted_run [OF data cfg(1) inv, of "get_delete_element T f" i only_orphans]
  obtain r v' where *: "drop_deleted_neighbors cfg (full_strategy P D T f) i only_orphans v = Some (r, v')"
    "provider_inv D items ent tot cap n (full_layer T K f) v'" "same_elements D v v'"
    "case r of Inl e \<Rightarrow> provider_adj v' = provider_adj v
      | Inr k \<Rightarrow> if i \<in> provider_live v
          then k = ConsolidateComplete \<and>
            provider_adj v' = (provider_adj v)(i := kept_neighbors (provider_adj v) (provider_live v) only_orphans i)
          else k = ConsolidateDeleted \<and> provider_adj v' = provider_adj v"
    unfolding full_strategy_def by blast
  with OpDropDeleted show ?thesis by (cases r) (auto simp: discard_run split: if_splits)
next
  case (OpConsolidate i)
  from inmem_data.inmem_consolidate_run [OF data cfg(1) ord inv, of 0 "get_delete_element T f" i]
  obtain r v' where *: "consolidate_vector cfg order contains_simd_u32 0 (full_strategy P D T f) i v = Some (r, v')"
    "provider_inv D items ent tot cap n (full_layer T K f) v'" "same_elements D v v'"
    "case r of Inl e \<Rightarrow> provider_adj v' = provider_adj v
      | Inr k \<Rightarrow> if i \<in> provider_live v
          then k = ConsolidateComplete \<and>
            (\<exists>ns. provider_adj v' = (provider_adj v)(i := ns) \<and> consolidated cfg (provider_adj v) (provider_live v) i ns)
          else k = ConsolidateDeleted \<and> provider_adj v' = provider_adj v"
    unfolding full_strategy_def by blast
  with OpConsolidate show ?thesis by (cases r) (auto simp: discard_run split: if_splits)
next
  case OpReader
  from inmem_data.reader_run [OF data inv] obtain r v' where "provider_reader v = Some (r, v')"
    "provider_inv D items ent tot cap n (full_layer T K f) v'" "provider_frame v v'" by blast
  with OpReader show ?thesis by (simp add: discard_run)
next
  case (OpDropReader g)
  with inmem_data.drop_reader_inv [OF data inv, of g] show ?thesis by (simp add: dropping_def return_run_def)
qed

end
