(* ===== verification/IndexCorrect.thy ===== *)
theory IndexCorrect
  imports InmemIndex
begin

text \<open>
  What holds in every state of an index over the in-memory provider, and what its operations do from
  there: the index as a map from external ids to vectors, and its graph.
\<close>

section \<open>The invariant of an index\<close>

definition index_ok ::
  "('m, 'k) dashmap \<Rightarrow> ('q \<Rightarrow> u32 list) \<Rightarrow> 't full_precision \<Rightarrow> 't kernels \<Rightarrow> full \<Rightarrow> config \<Rightarrow> provider_config \<Rightarrow> 't list list \<Rightarrow>
   ('a, 'q, 'm, 'k, 't list) provider \<Rightarrow> bool" where
  "index_ok D items T K f cfg config pts v \<longleftrightarrow>
     provider_inv D items (pg_capacity config) (pg_capacity config + length pts) (pg_max_degree config)
       (guard_slots (full_layer T K f) config) (full_layer T K f) v \<and>
     simple_graph cfg {i. unat i < pg_capacity config + length pts} (provider_adj v) \<and>
     (\<forall>k < length pts. ly_set (full_layer T K f) (pts ! k) (ly_bytes (full_layer T K f)) =
        Inr (provider_data v (of_nat (pg_capacity config + k))))"

lemma same_elements_frozen:
  assumes "same_elements D v v'" and "provider_inv D items ent tot cap n layer v" and "ent \<le> unat i" "unat i < tot"
  shows "provider_data v' i = provider_data v i"
  using frozen_live [OF assms(2-4)] assms(1) by (simp add: same_elements_def)

lemma stored_frozen:
  assumes "element_stored D layer gid w i0 v v'" and "provider_inv D items ent tot cap n layer v" and "ent \<le> unat i" "unat i < tot"
  shows "provider_data v' i = provider_data v i"
  using frozen_live [OF assms(2-4)] assms(1) by (simp add: element_stored_def)

lemma deleted_frozen:
  assumes "element_deleted D gid i0 v v'" and "provider_inv D items ent tot cap n layer v" and "ent \<le> unat i" "unat i < tot"
  shows "provider_data v' i = provider_data v i"
proof -
  have "i0 \<noteq> i" using provider_ids_live(1) [OF assms(2), of gid i0] assms(1,3) by (auto simp: element_deleted_def)
  with frozen_live [OF assms(2-4)] assms(1) show ?thesis by (simp add: element_deleted_def)
qed

lemma index_effect_frozen:
  assumes eff: "index_effect P D layer cfg cap op v ok v'" and inv: "provider_inv D items ent tot cap' n layer v"
    and i: "ent \<le> unat i" "unat i < tot"
  shows "provider_data v' i = provider_data v i"
proof -
  consider "same_elements D v v'" | gid w i0 where "element_stored D layer gid w i0 v v'" | gid i0 where "element_deleted D gid i0 v v'"
    using eff frame_same_elements [of v v' D] by (cases op) (auto split: if_splits)
  then show ?thesis
    by cases (auto intro: same_elements_frozen stored_frozen deleted_frozen inv i)
qed

lemma index_effect_simple:
  assumes eff: "index_effect P D layer cfg cap op v ok v'" and inv: "provider_inv D items ent tot cap' n layer v"
    and inv': "provider_inv D items ent tot cap' n layer v'" and cfg: "cf_pruned_degree cfg \<le> cf_max_degree cfg"
    and simple: "simple_graph cfg {i. unat i < tot} (provider_adj v)"
  shows "simple_graph cfg {i. unat i < tot} (provider_adj v')"
proof -
  let ?U = "{i :: u32. unat i < tot}" and ?G = "provider_adj v" and ?G' = "provider_adj v'"
  note live = provider_live_bound [OF inv] and live' = provider_live_bound [OF inv']
  have ins: "simple_graph cfg ?U ?G'" if "element_stored D layer gid w i v v'"
    "partly_inserted cfg cap (insert i (provider_live v)) ?G i ?G'" for gid w i
  proof -
    have "i \<in> ?U" using live' that(1) by (auto simp: element_stored_def)
    with partly_inserted_simple [OF that(2) simple _ _ cfg] live show ?thesis by blast
  qed
  have del: "simple_graph cfg ?U ?G'" if "partly_removed cfg cap (provider_live v') i ?G ?G'" for i
    using that deleted_graph_simple(1) [OF _ _ simple live'] by (auto simp: partly_removed_def)
  have rem: "simple_graph cfg ?U ?G'" if "removed cfg cap meth (provider_live v') i ?G ?G'" for meth i
    using that deleted_graph_simple(2) [OF relinked_partly _ simple live'] by (auto simp: removed_def)
  show ?thesis
  proof (cases op)
    case (OpInsert pooled gid w)
    with eff simple ins show ?thesis
      by (auto simp: provider_frame_same(1) dest: inserted_partly split: if_splits)
  next
    case (OpInplaceDelete pooled gid num meth)
    with eff simple del rem show ?thesis by (auto simp: provider_frame_same(1) split: if_splits)
  next
    case (OpPruneRange "is")
    with eff trimmed_simple [OF _ simple cfg] show ?thesis by auto
  next
    case (OpDropDeleted i only_orphans)
    with eff simple kept_neighbors_simple [OF simple] show ?thesis by (auto split: if_splits)
  next
    case (OpConsolidate i)
    with eff simple consolidated_simple [OF _ simple live cfg] show ?thesis by (auto split: if_splits)
  qed (use eff simple in \<open>auto simp: provider_frame_same(1) split: if_splits\<close>)
qed

lemma index_ok_step:
  assumes data: "inmem_data (full_layer T K f) P D items" and cfg: "prunable cfg" "0 < cf_l_build cfg" and ord: "iteration_order order"
    and ok: "op_ok op" and v: "index_ok D items T K f cfg config pts v"
  shows "\<exists>r v'. index_run P D T f cfg order op v = Some (r, v') \<and> index_ok D items T K f cfg config pts v' \<and>
     index_effect P D (full_layer T K f) cfg (pg_max_degree config) op v (succeeded r) v'"
proof -
  let ?ent = "pg_capacity config" and ?tot = "pg_capacity config + length pts" and ?n = "guard_slots (full_layer T K f) config"
  have inv: "provider_inv D items ?ent ?tot (pg_max_degree config) ?n (full_layer T K f) v" using v by (simp add: index_ok_def)
  from index_run_effect [OF data cfg ord ok inv] obtain r v' where r: "index_run P D T f cfg order op v = Some (r, v')"
    "provider_inv D items ?ent ?tot (pg_max_degree config) ?n (full_layer T K f) v'"
    "index_effect P D (full_layer T K f) cfg (pg_max_degree config) op v (succeeded r) v'" by blast
  have "simple_graph cfg {i. unat i < ?tot} (provider_adj v')"
    using index_effect_simple [OF r(3) inv r(2)] cfg(1) v by (simp add: prunable_def index_ok_def)
  moreover have "provider_data v' (of_nat (?ent + k)) = provider_data v (of_nat (?ent + k))" if "k < length pts" for k
  proof -
    have "unat (of_nat (?ent + k) :: u32) = ?ent + k"
      using provider_invD(8) [OF inv] that by (intro u32_of_nat) simp
    with that show ?thesis by (intro index_effect_frozen [OF r(3) inv]) simp_all
  qed
  ultimately have "index_ok D items T K f cfg config pts v'" using v r(2) by (simp add: index_ok_def)
  with r show ?thesis by blast
qed

lemma index_created_ok:
  assumes data: "inmem_data (full_layer T K f) P D items" and slots: "pg_epoch_guard_slots config \<noteq> Some 0"
    and new: "provider_new P D (full_layer T K f) config pts = Some (Inr (Inr v))"
  shows "index_ok D items T K f cfg config pts v" and "contents T f D v = Map.empty"
proof -
  have laws: "layer_contract (full_layer T K f)" "seg_queue_laws (dp_seg_queue P) items" "dashmap_laws D"
    using data by (simp_all add: inmem_data_def inmem_data_axioms_def)
  note n = provider_new_inv [OF laws slots new]
  from n show "index_ok D items T K f cfg config pts v" by (simp add: index_ok_def simple_graph_def)
  show "contents T f D v = Map.empty" using n(3) by (simp add: contents_def fun_eq_iff)
qed

lemma index_reach_ok:
  assumes "index_reach P D T K f cfg order config pts v"
    and data: "inmem_data (full_layer T K f) P D items" and cfg: "prunable cfg" "0 < cf_l_build cfg" and ord: "iteration_order order"
    and slots: "pg_epoch_guard_slots config \<noteq> Some 0"
  shows "index_ok D items T K f cfg config pts v"
  using assms(1)
proof induction
  case (created v)
  then show ?case by (rule index_created_ok(1) [OF data slots])
next
  case (stepped v op r v')
  from index_ok_step [OF data cfg ord stepped(2,4)] stepped(3) show ?case by auto
qed

section \<open>What an index relies on\<close>

text \<open>
  The queues and the hash map that the provider is built on keep their promises, hash maps are iterated in
  some order, the configuration came out of its builder with an \<open>alpha\<close> of at least one that is not
  huge (the builder does not check it), and there is room for guards.
\<close>

definition index_assms ::
  "('a, 'q) store_deps \<Rightarrow> ('m, 'k) dashmap \<Rightarrow> ('q \<Rightarrow> u32 list) \<Rightarrow> config \<Rightarrow> (u32 set \<Rightarrow> u32 list) \<Rightarrow> provider_config \<Rightarrow> bool" where
  "index_assms P D items cfg order config \<longleftrightarrow>
     seg_queue_laws (dp_seg_queue P) items \<and> dashmap_laws D \<and> iteration_order order \<and>
     config_valid cfg \<and> f32_le f32_one (cf_alpha cfg) \<and> f32_lt (cf_alpha cfg) f32_MAX \<and>
     pg_epoch_guard_slots config \<noteq> Some 0"

lemma index_assmsD:
  assumes "index_assms P D items cfg order config"
  shows "inmem_data (full_layer T K f) P D items" and "prunable cfg" and "0 < cf_l_build cfg" and "iteration_order order"
    and "pg_epoch_guard_slots config \<noteq> Some 0"
  using assms full.layer_contract_axioms
  by (auto simp: index_assms_def prunable_def config_valid_def inmem_data_def inmem_data_axioms_def)

lemma index_reach_run:
  assumes "index_assms P D items cfg order config" and "index_reach P D T K f cfg order config pts v" and "op_ok op"
  shows "index_ok D items T K f cfg config pts v"
    and "\<exists>r v'. index_run P D T f cfg order op v = Some (r, v') \<and> index_ok D items T K f cfg config pts v' \<and>
      index_effect P D (full_layer T K f) cfg (pg_max_degree config) op v (succeeded r) v'"
proof -
  note a = index_assmsD [OF assms(1)]
  show "index_ok D items T K f cfg config pts v" by (rule index_reach_ok [OF assms(2) a])
  from index_ok_step [OF a(1-4) assms(3) this] show "\<exists>r v'. index_run P D T f cfg order op v = Some (r, v') \<and> index_ok D items T K f cfg config pts v' \<and>
      index_effect P D (full_layer T K f) cfg (pg_max_degree config) op v (succeeded r) v'" .
qed

lemma full_set_cast:
  assumes "pod T" and "ly_set (full_layer T K f) w (ly_bytes (full_layer T K f)) = Inr bs"
  shows "bs = cast_bytes T w" and "cast_elements T (fu_dim f) bs = w"
  using assms cast_elements_bytes [OF assms(1), of w "fu_dim f"] by (auto simp: full_layer_def full_set_def split: if_splits)

lemma provider_adj_length:
  assumes "provider_inv D items ent tot cap n layer v"
  shows "length (provider_adj v i) \<le> cap"
  using nb_list_length [OF provider_invD(6) [OF assms]] by (simp add: provider_adj_def)

section \<open>Every state\<close>

text \<open>
  C1. In every state an index can reach, whatever operations succeeded or failed: external ids name live
  elements, different ids different ones, and every live element that is not a start point has an id; the
  adjacency lists have no duplicates, no loops and no id outside the store, and are no longer than the
  configured degree and the room of the store; and the start points are there, with the vectors given at
  creation.
\<close>

theorem index_invariant:
  assumes "index_assms P D items cfg order config" and "index_reach P D T K f cfg order config pts v" and "pod T"
  shows "(\<forall>gid i. provider_ids D v gid = Some i \<longrightarrow> i \<in> provider_live v \<and> to_external_id v i = Inr gid) \<and>
     (\<forall>i \<in> provider_live v. unat i < pg_capacity config \<longrightarrow> (\<exists>gid. provider_ids D v gid = Some i)) \<and>
     (\<forall>i. distinct (provider_adj v i) \<and> length (provider_adj v i) \<le> min (cf_max_degree cfg) (pg_max_degree config) \<and>
        (\<forall>j \<in> set (provider_adj v i). j \<noteq> i \<and> unat j < pg_capacity config + length pts)) \<and>
     (\<forall>k < length pts. of_nat (pg_capacity config + k) \<in> provider_live v \<and>
        cast_elements T (fu_dim f) (provider_data v (of_nat (pg_capacity config + k))) = pts ! k)"
proof -
  let ?ent = "pg_capacity config" and ?tot = "pg_capacity config + length pts"
  note ok = index_reach_ok [OF assms(2) index_assmsD [OF assms(1)], unfolded index_ok_def]
  then have inv: "provider_inv D items ?ent ?tot (pg_max_degree config) (guard_slots (full_layer T K f) config) (full_layer T K f) v"
    by simp
  note d = provider_invD [OF inv]
  have ids: "i \<in> provider_live v \<and> to_external_id v i = Inr gid" if "provider_ids D v gid = Some i" for gid i
    using that provider_ids_live(2) [OF inv that] d(2,3) provider_unfrozen [OF inv]
    by (simp add: provider_ids_backward [OF inv] to_external_id_def to_external_ok lift_panic_def)
  have pts: "of_nat (?ent + k) \<in> provider_live v \<and> cast_elements T (fu_dim f) (provider_data v (of_nat (?ent + k))) = pts ! k"
    if "k < length pts" for k
  proof -
    have "unat (of_nat (?ent + k) :: u32) = ?ent + k" using d(8) that by (intro u32_of_nat) simp
    then have "of_nat (?ent + k) \<in> provider_live v" using that by (intro frozen_live [OF inv]) simp_all
    moreover have "ly_set (full_layer T K f) (pts ! k) (ly_bytes (full_layer T K f)) = Inr (provider_data v (of_nat (?ent + k)))"
      using ok that by blast
    note full_set_cast(2) [OF assms(3) this]
    ultimately show ?thesis by blast
  qed
  have "\<forall>i. distinct (provider_adj v i) \<and> length (provider_adj v i) \<le> min (cf_max_degree cfg) (pg_max_degree config) \<and>
        (\<forall>j \<in> set (provider_adj v i). j \<noteq> i \<and> unat j < ?tot)"
    using ok provider_adj_length [OF inv] by (auto simp: simple_graph_def)
  with ids pts provider_ids_onto [OF inv] show ?thesis by blast
qed

section \<open>An index is a map from ids to vectors\<close>

text \<open>The contract: what an operation does to the vectors, given whether it succeeded.\<close>

fun map_effect :: "('k, 'w) index_op \<Rightarrow> ('k \<rightharpoonup> 'w) \<Rightarrow> bool \<Rightarrow> ('k \<rightharpoonup> 'w) \<Rightarrow> bool" where
  "map_effect (OpInsert pooled gid w) m ok m' =
     (if ok then m gid = None \<and> m' = m(gid \<mapsto> w) else m' = m \<or> m gid = None \<and> m' = m(gid \<mapsto> w))"
| "map_effect (OpDelete gid) m ok m' = (if ok then m gid \<noteq> None \<and> m' = m(gid := None) else m' = m)"
| "map_effect (OpInplaceDelete pooled gid num meth) m ok m' =
     (if ok then m gid \<noteq> None \<and> m' = m(gid := None) else m' = m \<or> m gid \<noteq> None \<and> m' = m(gid := None))"
| "map_effect _ m ok m' = (m' = m)"

lemma index_effect_contents:
  assumes "index_effect P D (full_layer T K f) cfg cap op v ok v'" and inv: "provider_inv D items ent tot cap' n (full_layer T K f) v"
    and "pod T"
  shows "map_effect op (contents T f D v) ok (contents T f D v')"
proof -
  note same = contents_same [OF inv]
  have frame: "contents T f D v' = contents T f D v" if "provider_frame v v'"
    by (rule same [OF frame_same_elements [OF that]])
  have stored: "contents T f D v gid = None \<and> contents T f D v' = (contents T f D v)(gid \<mapsto> w)"
    if "element_stored D (full_layer T K f) gid w i v v'" for gid w i
    using contents_stored [OF inv assms(3) that] by blast
  have deleted: "contents T f D v gid \<noteq> None \<and> contents T f D v' = (contents T f D v)(gid := None)"
    if "element_deleted D gid i v v'" for gid i
    using contents_deleted [OF inv that] by blast
  show ?thesis
  proof (cases op)
    case (OpInsert pooled gid w)
    show ?thesis
      using assms(1) unfolding OpInsert index_effect.simps map_effect.simps by (cases ok) (use frame stored in \<open>simp_all only: if_True if_False\<close>, blast+)
  next
    case (OpDelete gid)
    show ?thesis
      using assms(1) unfolding OpDelete index_effect.simps map_effect.simps by (cases ok) (use frame deleted in \<open>simp_all only: if_True if_False\<close>, blast+)
  next
    case (OpInplaceDelete pooled gid num meth)
    show ?thesis
      using assms(1) unfolding OpInplaceDelete index_effect.simps map_effect.simps by (cases ok) (use frame deleted in \<open>simp_all only: if_True if_False\<close>, blast+)
  qed (use assms(1) frame same in auto)
qed

lemma index_ok_inv:
  "index_ok D items T K f cfg config pts v \<Longrightarrow> provider_inv D items (pg_capacity config) (pg_capacity config + length pts)
     (pg_max_degree config) (guard_slots (full_layer T K f) config) (full_layer T K f) v"
  by (simp add: index_ok_def)

lemma index_read:
  fixes P :: "('a, 'q) store_deps" and v :: "('a, 'q, 'm, 'k, 't list) provider"
  assumes "index_assms P D items cfg order config" and "index_ok D items T K f cfg config pts v"
  shows "store_read (pv_store v) (unat i) = (if i \<in> provider_live v then Some (provider_data v i) else None)"
  by (rule inmem_data.store_read_eq [OF index_assmsD(1) [OF assms(1)] index_ok_inv [OF assms(2)]])

lemma to_internal_id_eq:
  "to_internal_id D v gid = (case provider_ids D v gid of Some i \<Rightarrow> Inr i | None \<Rightarrow> Inl (AnnMessage ''no mapping''))"
  by (simp add: to_internal_id_def to_internal_def provider_ids_def)

text \<open>
  C2. Every operation on an index returns, and what it does to the vectors is what a map from external
  ids to vectors would do: a successful insertion adds the vector under an id that had none, a successful
  deletion takes one away, and nothing else changes the map, failed operations included, except that an
  insertion or a deletion in place that fails may have been carried out already. Looking an id up and
  reading the element gives the entry of the map, and the status of an id tells whether there is one.
\<close>

theorem index_refines_map:
  assumes "index_assms P D items cfg order config" and "index_reach P D T K f cfg order config pts v" and "pod T" and "op_ok op"
  shows "(\<exists>r v'. index_run P D T f cfg order op v = Some (r, v') \<and>
       map_effect op (contents T f D v) (succeeded r) (contents T f D v')) \<and>
     (\<forall>gid. contents T f D v gid = (case to_internal_id D v gid of
          Inl _ \<Rightarrow> None
        | Inr i \<Rightarrow> map_option (cast_elements T (fu_dim f)) (store_read (pv_store v) (unat i)))) \<and>
     (\<forall>gid. status_by_external_id D v gid = Inr (if contents T f D v gid = None then Deleted else Valid))"
proof -
  note run = index_reach_run [OF assms(1,2,4)]
  note inv = index_ok_inv [OF run(1)]
  from run(2) index_effect_contents [OF _ inv assms(3)]
  have step: "\<exists>r v'. index_run P D T f cfg order op v = Some (r, v') \<and>
       map_effect op (contents T f D v) (succeeded r) (contents T f D v')" by blast
  have look: "contents T f D v gid = (case to_internal_id D v gid of
          Inl _ \<Rightarrow> None
        | Inr i \<Rightarrow> map_option (cast_elements T (fu_dim f)) (store_read (pv_store v) (unat i)))" for gid
    using provider_ids_live(2) [OF inv, of gid]
    by (cases "provider_ids D v gid") (simp_all add: contents_def to_internal_id_eq index_read [OF assms(1) run(1)])
  have "status_by_external_id D v gid = Inr (if contents T f D v gid = None then Deleted else Valid)" for gid
    by (simp add: status_by_external_id_def contains_external_def contents_def provider_ids_def)
  with step look show ?thesis by blast
qed

section \<open>Insertion\<close>

lemma inserted_lists:
  assumes "inserted cfg cap L G i ns G'" and "i \<notin> set ns"
  shows "G' i = ns" and "distinct ns" and "length ns \<le> cf_pruned_degree cfg" and "set ns \<subseteq> L - {i}"
    and "j \<notin> insert i (set (take (cf_max_backedges cfg) ns)) \<Longrightarrow> G' j = G j"
    and "j \<in> set (take (cf_max_backedges cfg) ns) \<Longrightarrow> linked cfg cap (G j) [i] {} (G' j)"
proof -
  have rel: "if j \<in> set (take (cf_max_backedges cfg) ns) then linked cfg cap ((G(i := ns)) j) [i] {} (G' j) else G' j = (G(i := ns)) j" for j
    using assms(1) unfolding inserted_def relinked_def by blast
  have i: "i \<notin> set (take (cf_max_backedges cfg) ns)" using assms(2) by (auto dest: in_set_takeD)
  with rel [of i] show "G' i = ns" by simp
  show "distinct ns" "length ns \<le> cf_pruned_degree cfg" "set ns \<subseteq> L - {i}" using assms(1) by (simp_all add: inserted_def out_edges_def)
  show "G' j = G j" if "j \<notin> insert i (set (take (cf_max_backedges cfg) ns))" using rel [of j] that by simp
  show "linked cfg cap (G j) [i] {} (G' j)" if "j \<in> set (take (cf_max_backedges cfg) ns)" using rel [of j] that i by (cases "j = i") simp_all
qed

text \<open>
  C8. \<open>insert\<close> returns. If it succeeds, the vector is stored under a slot that could not be read
  before, the id and the slot are mapped to each other and reading the slot gives the bytes of the vector;
  the out-edges of the new vertex are distinct, no more than the pruned degree, and lead to elements that
  were there; the first \<open>max_backedges\<close> of them get an edge back if there is room, their lists have at
  most that edge more, and all other lists are untouched.
\<close>

theorem index_insert_correct:
  assumes "index_assms P D items cfg order config" and "index_reach P D T K f cfg order config pts v" and "pod T"
  shows "\<exists>r v'. index_insert cfg contains_simd_u32 0 (full_strategy P D T f) pooled gid w v = Some (r, v') \<and>
     (r = Inr () \<longrightarrow> (\<exists>i ns back. i \<notin> provider_live v \<and> to_internal_id D v' gid = Inr i \<and> to_external_id v' i = Inr gid \<and>
        store_read (pv_store v') (unat i) = Some (cast_bytes T w) \<and>
        provider_adj v' i = ns \<and> distinct ns \<and> length ns \<le> cf_pruned_degree cfg \<and> set ns \<subseteq> provider_live v \<and>
        back = set (take (cf_max_backedges cfg) ns) \<and>
        (\<forall>j. j \<notin> insert i back \<longrightarrow> provider_adj v' j = provider_adj v j) \<and>
        (\<forall>j \<in> back. set (provider_adj v' j) \<subseteq> insert i (set (provider_adj v j)) \<and>
           (length (provider_adj v j) < cf_max_degree cfg \<and> cf_max_degree cfg \<le> pg_max_degree config \<longrightarrow>
              set (provider_adj v' j) = insert i (set (provider_adj v j)))))) \<and>
     (r \<noteq> Inr () \<longrightarrow> contents T f D v' = (contents T f D v)(gid \<mapsto> w) \<or>
        contents T f D v' = contents T f D v \<and> provider_adj v' = provider_adj v \<and> element_unstorable P D (full_layer T K f) gid w v)"
proof -
  let ?G = "provider_adj v"
  note run = index_reach_run [OF assms(1,2), of "OpInsert pooled gid w", unfolded index_run.simps op_ok.simps, OF TrueI]
  then obtain r v' where r: "index_insert cfg contains_simd_u32 0 (full_strategy P D T f) pooled gid w v = Some (r, v')"
    "index_ok D items T K f cfg config pts v'"
    "index_effect P D (full_layer T K f) cfg (pg_max_degree config) (OpInsert pooled gid w) v (succeeded r) v'" by blast
  note inv' = index_ok_inv [OF r(2)] and d = provider_invD [OF index_ok_inv [OF r(2)]]
  have simple: "distinct (?G j)" for j using run(1) by (simp add: index_ok_def simple_graph_def)
  show ?thesis
  proof (cases "r = Inr ()")
    case True
    with r(3) obtain i ns where i: "element_stored D (full_layer T K f) gid w i v v'"
      "inserted cfg (pg_max_degree config) (insert i (provider_live v)) ?G i ns (provider_adj v')" by auto
    then have ns: "i \<notin> set ns" by (auto simp: inserted_def out_edges_def)
    note l = inserted_lists [OF i(2) ns]
    have ids: "provider_ids D v' gid = Some i" using i(1) by (simp add: element_stored_def)
    have "i \<notin> provider_live v" "i \<in> provider_live v'" using i(1) by (simp_all add: element_stored_def)
    moreover have "to_internal_id D v' gid = Inr i" using ids by (simp add: to_internal_id_eq)
    moreover have "to_external_id v' i = Inr gid"
      using ids d(2,3) provider_unfrozen [OF inv']
      by (simp add: provider_ids_backward [OF inv'] to_external_id_def to_external_ok lift_panic_def)
    moreover have "provider_data v' i = cast_bytes T w"
      using full_set_cast(1) [OF assms(3)] i(1) unfolding element_stored_def by blast
    moreover have "set ns \<subseteq> provider_live v" using l(4) by auto
    moreover have "set (provider_adj v' j) \<subseteq> insert i (set (?G j)) \<and>
        (length (?G j) < cf_max_degree cfg \<and> cf_max_degree cfg \<le> pg_max_degree config \<longrightarrow>
           set (provider_adj v' j) = insert i (set (?G j)))" if "j \<in> set (take (cf_max_backedges cfg) ns)" for j
    proof -
      have "card (insert i (set (?G j))) \<le> Suc (length (?G j))"
        using card_insert_le_m1 card_length [of "?G j"] by (simp add: card_insert_if)
      with l(6) [OF that] simple [of j] show ?thesis by (auto simp: linked_def)
    qed
    moreover have "store_read (pv_store v') (unat i) = Some (provider_data v' i)"
      using index_read [OF assms(1) r(2), of i] i(1) by (simp add: element_stored_def)
    moreover have "\<forall>j. j \<notin> insert i (set (take (cf_max_backedges cfg) ns)) \<longrightarrow> provider_adj v' j = ?G j" using l(5) by blast
    ultimately show ?thesis using r(1) l(1,2,3)
      by (intro exI [of _ r] exI [of _ v'] exI [of _ i] exI [of _ ns] exI [of _ "set (take (cf_max_backedges cfg) ns)"] conjI impI refl)
        (assumption | rule ballI | simp only: | use True in simp)+
  next
    case False
    then have fail: "\<not> succeeded r" by (cases r) auto
    note inv = index_ok_inv [OF run(1)]
    have "contents T f D v' = (contents T f D v)(gid \<mapsto> w)" if "element_stored D (full_layer T K f) gid w i v v'" for i
      by (rule contents_stored(1) [OF inv assms(3) that])
    moreover have "contents T f D v' = contents T f D v" "provider_adj v' = provider_adj v" if "provider_frame v v'"
      using contents_same [OF inv frame_same_elements [OF that]] provider_frame_same(1) [OF that] by simp_all
    ultimately show ?thesis using r(1,3) fail False unfolding index_effect.simps by (simp only: if_False) blast
  qed
qed

section \<open>Deletion and repair\<close>

lemma removed_lists:
  assumes rem: "removed cfg cap meth L i G G'" and i: "i \<notin> L"
  shows "G' i = []" and "set (G' j) \<subseteq> set (G j) \<union> L" and "j \<in> looked_at meth G L i \<Longrightarrow> i \<notin> set (G' j)"
    and "i \<notin> set (G j) \<Longrightarrow> i \<notin> set (G' j)"
proof -
  obtain m G1 where m: "edges_ok L m" "{c \<in> looked_at meth G L i. i \<in> set (G c)} \<subseteq> dom m"
    "relinked cfg cap (\<lambda>j. the (m j)) {i} (dom m) G G1" "G' = G1(i := [])" using rem by (auto simp: removed_def)
  show "G' i = []" using m(4) by simp
  have G1: "j \<in> dom m \<and> set (G1 j) \<subseteq> set (G j) - {i} \<union> L \<or> j \<notin> dom m \<and> G1 j = G j" for j
  proof (cases "m j")
    case (Some ns)
    then have "linked cfg cap (G j) ns {i} (G1 j)" using m(3) by (auto simp: relinked_def split: if_splits dest!: spec [of _ j])
    moreover have "set ns \<subseteq> L" using m(1) Some by (auto simp: edges_ok_def)
    ultimately show ?thesis using Some by (auto simp: linked_def)
  next
    case None
    then show ?thesis using m(3) by (auto simp: relinked_def split: if_splits dest!: spec [of _ j])
  qed
  show "set (G' j) \<subseteq> set (G j) \<union> L" using G1 [of j] m(4) by (cases "j = i") auto
  show "i \<notin> set (G' j)" if "j \<in> looked_at meth G L i" using G1 [of j] m(2,4) that i by (cases "j = i") auto
  show "i \<notin> set (G' j)" if "i \<notin> set (G j)" using G1 [of j] m(4) that i by (cases "j = i") auto
qed


text \<open>
  C16. \<open>consolidate_vector\<close> returns and does not touch the vectors or any list but that of its vertex;
  if it fails, or the vertex is deleted, which it reports, it touches nothing. Otherwise the list
  of the vertex has no deleted vertex left, no duplicates, at most the pruned degree; it is the old one if
  that was so already, and else consists of live neighbors and live neighbors of deleted neighbors, all of
  them if they are fewer than the pruned degree.
\<close>

theorem consolidate_vector_correct:
  assumes "index_assms P D items cfg order config" and "index_reach P D T K f cfg order config pts v"
  shows "\<exists>r v'. consolidate_vector cfg order contains_simd_u32 0 (full_strategy P D T f) i v = Some (r, v') \<and>
     contents T f D v' = contents T f D v \<and> (\<forall>j. j \<noteq> i \<longrightarrow> provider_adj v' j = provider_adj v j) \<and>
     (case r of
        Inl e \<Rightarrow> provider_adj v' i = provider_adj v i
      | Inr k \<Rightarrow> k = (if i \<in> provider_live v then ConsolidateComplete else ConsolidateDeleted) \<and>
          (if i \<in> provider_live v
           then distinct (provider_adj v' i) \<and> length (provider_adj v' i) \<le> cf_pruned_degree cfg \<and>
             set (provider_adj v' i) \<subseteq> replacement_pool (provider_adj v) (provider_live v) i \<and>
             (set (provider_adj v i) \<subseteq> provider_live v \<and> length (provider_adj v i) \<le> cf_pruned_degree cfg \<longrightarrow>
                provider_adj v' i = provider_adj v i) \<and>
             (\<not> set (provider_adj v i) \<subseteq> provider_live v \<and>
              card (replacement_pool (provider_adj v) (provider_live v) i) < cf_pruned_degree cfg \<longrightarrow>
                set (provider_adj v' i) = replacement_pool (provider_adj v) (provider_live v) i)
           else provider_adj v' i = provider_adj v i))"
proof -
  let ?G = "provider_adj v" and ?L = "provider_live v"
  note a = index_assmsD [OF assms(1)] and ok = index_reach_ok [OF assms(2) index_assmsD [OF assms(1)]]
  note inv = index_ok_inv [OF ok]
  from inmem_data.inmem_consolidate_run [OF a(1,2,4) inv, of 0 "get_delete_element T f" i]
  obtain r v' where r: "consolidate_vector cfg order contains_simd_u32 0 (full_strategy P D T f) i v = Some (r, v')" "same_elements D v v'"
    "case r of Inl e \<Rightarrow> provider_adj v' = ?G
      | Inr k \<Rightarrow> if i \<in> ?L then k = ConsolidateComplete \<and> (\<exists>ns. provider_adj v' = ?G(i := ns) \<and> consolidated cfg ?G ?L i ns)
          else k = ConsolidateDeleted \<and> provider_adj v' = ?G" unfolding full_strategy_def by blast
  have c: "contents T f D v' = contents T f D v" by (rule contents_same [OF inv r(2)])
  have simple: "distinct (?G i)" "i \<notin> set (?G i)" using ok by (auto simp: index_ok_def simple_graph_def)
  show ?thesis
  proof (cases "\<exists>k. r = Inr k \<and> i \<in> ?L")
    case True
    with r(3) obtain ns where ns: "r = Inr ConsolidateComplete" "provider_adj v' = ?G(i := ns)" "consolidated cfg ?G ?L i ns" by auto
    have "distinct ns \<and> length ns \<le> cf_pruned_degree cfg \<and> set ns \<subseteq> replacement_pool ?G ?L i \<and>
        (set (?G i) \<subseteq> ?L \<and> length (?G i) \<le> cf_pruned_degree cfg \<longrightarrow> ns = ?G i) \<and>
        (\<not> set (?G i) \<subseteq> ?L \<and> card (replacement_pool ?G ?L i) < cf_pruned_degree cfg \<longrightarrow> set ns = replacement_pool ?G ?L i)"
      using ns(3) simple distinct_card [OF simple(1)] by (auto simp: consolidated_def replacement_pool_def split: if_splits)
    with r(1) c True ns(1,2) show ?thesis by (intro exI [of _ r] exI [of _ v']) simp
  next
    case False
    with r c show ?thesis by (intro exI [of _ r] exI [of _ v']) (auto split: sum.splits)
  qed
qed

text \<open>
  C17. \<open>drop_deleted_neighbors\<close> returns and does not touch the vectors or any list but that of its
  vertex, and none if it fails or the vertex is deleted. Otherwise the vertex keeps its live neighbors and,
  if only orphans are to go, the deleted ones that still have neighbors themselves; nothing is added.
\<close>

theorem drop_deleted_neighbors_correct:
  assumes "index_assms P D items cfg order config" and "index_reach P D T K f cfg order config pts v"
  shows "\<exists>r v'. drop_deleted_neighbors cfg (full_strategy P D T f) i only_orphans v = Some (r, v') \<and>
     contents T f D v' = contents T f D v \<and> (\<forall>j. j \<noteq> i \<longrightarrow> provider_adj v' j = provider_adj v j) \<and>
     (case r of
        Inl e \<Rightarrow> provider_adj v' i = provider_adj v i
      | Inr k \<Rightarrow> k = (if i \<in> provider_live v then ConsolidateComplete else ConsolidateDeleted) \<and>
          (if i \<in> provider_live v
           then distinct (provider_adj v' i) \<and> set (provider_adj v' i) =
             {j \<in> set (provider_adj v i). j \<in> provider_live v \<or> only_orphans \<and> provider_adj v j \<noteq> []}
           else provider_adj v' i = provider_adj v i))"
proof -
  let ?G = "provider_adj v" and ?L = "provider_live v"
  note a = index_assmsD [OF assms(1)] and ok = index_reach_ok [OF assms(2) index_assmsD [OF assms(1)]]
  note inv = index_ok_inv [OF ok]
  from inmem_data.inmem_drop_deleted_run [OF a(1,2) inv, of "get_delete_element T f" i only_orphans]
  obtain r v' where r: "drop_deleted_neighbors cfg (full_strategy P D T f) i only_orphans v = Some (r, v')" "same_elements D v v'"
    "case r of Inl e \<Rightarrow> provider_adj v' = ?G
      | Inr k \<Rightarrow> if i \<in> ?L then k = ConsolidateComplete \<and> provider_adj v' = ?G(i := kept_neighbors ?G ?L only_orphans i)
          else k = ConsolidateDeleted \<and> provider_adj v' = ?G" unfolding full_strategy_def by blast
  have c: "contents T f D v' = contents T f D v" by (rule contents_same [OF inv r(2)])
  have "distinct (?G i)" using ok by (auto simp: index_ok_def simple_graph_def)
  then have k: "distinct (kept_neighbors ?G ?L only_orphans i)"
    "set (kept_neighbors ?G ?L only_orphans i) = {j \<in> set (?G i). j \<in> ?L \<or> only_orphans \<and> ?G j \<noteq> []}"
    by (auto simp: kept_neighbors_def)
  show ?thesis
    using r c k by (intro exI [of _ r] exI [of _ v']) (auto split: sum.splits if_splits)
qed

text \<open>
  C18. \<open>prune_range\<close> returns and does not touch the vectors. Lists are only ever shortened, and only
  those named that were longer than the pruned degree; if it succeeds, no list named is longer than that.
\<close>

theorem prune_range_correct:
  assumes "index_assms P D items cfg order config" and "index_reach P D T K f cfg order config pts v"
  shows "\<exists>r v'. prune_range cfg contains_simd_u32 0 (full_strategy P D T f) is v = Some (r, v') \<and>
     contents T f D v' = contents T f D v \<and>
     (\<forall>j. provider_adj v' j = provider_adj v j \<or> j \<in> set is \<and> cf_pruned_degree cfg < length (provider_adj v j) \<and>
        length (provider_adj v' j) \<le> cf_pruned_degree cfg \<and> set (provider_adj v' j) \<subseteq> set (provider_adj v j)) \<and>
     (r = Inr () \<longrightarrow> (\<forall>j \<in> set is. length (provider_adj v' j) \<le> cf_pruned_degree cfg))"
proof -
  note run = index_reach_run [OF assms, of "OpPruneRange is", unfolded index_run.simps op_ok.simps, OF TrueI]
  then obtain r v' where r: "prune_range cfg contains_simd_u32 0 (full_strategy P D T f) is v = Some (r, v')"
    "same_elements D v v'" "trimmed cfg (set is) (provider_adj v) (provider_adj v')"
    "succeeded r \<longrightarrow> (\<forall>i \<in> set is. length (provider_adj v' i) \<le> cf_pruned_degree cfg)" by auto
  have "contents T f D v' = contents T f D v" by (rule contents_same [OF index_ok_inv [OF run(1)] r(2)])
  moreover have "provider_adj v' j = provider_adj v j \<or> j \<in> set is \<and> cf_pruned_degree cfg < length (provider_adj v j) \<and>
        length (provider_adj v' j) \<le> cf_pruned_degree cfg \<and> set (provider_adj v' j) \<subseteq> set (provider_adj v j)" for j
    using r(3) [unfolded trimmed_def, THEN spec, of j] by (auto simp: pruned_def)
  moreover have "r = Inr () \<longrightarrow> (\<forall>j \<in> set is. length (provider_adj v' j) \<le> cf_pruned_degree cfg)" using r(4) by auto
  ultimately show ?thesis using r(1) by blast
qed

section \<open>Reachability and degrees\<close>

text \<open>Traversals of lists that can be read do not fail and leave the provider as it is.\<close>

definition readable :: "('g, 'i, 'e, 'z) neighbor_accessor_scheme \<Rightarrow> 'i set \<Rightarrow> 'g \<Rightarrow> bool" where
  "readable A U g \<longleftrightarrow> (\<forall>i \<in> U. \<exists>l. na_get_neighbors A i g = Some (Inr l, g) \<and> set (al_edges l) \<subseteq> U)"

lemma reachable_loop_succeeds:
  fixes A :: "('g, 'i, 'e, 'z) neighbor_accessor_scheme"
  assumes "reachable_loop A expanded queue g = Some (r, g')" and "readable A U g" and "set queue \<subseteq> U"
  shows "g' = g \<and> (\<exists>n. r = Inr n)"
proof -
  have "\<forall>r g'. x = (r, g') \<longrightarrow> readable A U g \<longrightarrow> set queue \<subseteq> U \<longrightarrow> g' = g \<and> (\<exists>n. r = Inr n)"
    if "reachable_loop A expanded queue g = Some x" for x expanded queue and g :: 'g
  proof (rule reachable_loop.raw_induct [where P = "\<lambda>A expanded queue g x. \<forall>r g'. x = (r, g') \<longrightarrow> readable A U g \<longrightarrow>
      set queue \<subseteq> U \<longrightarrow> g' = g \<and> (\<exists>n. r = Inr n)", OF _ that])
    fix loop and A :: "('g, 'i, 'e, 'z) neighbor_accessor_scheme" and expanded queue g x
    assume IH: "\<And>A expanded queue g x. loop A expanded queue g = Some x \<Longrightarrow>
        \<forall>r g'. x = (r, g') \<longrightarrow> readable A U g \<longrightarrow> set queue \<subseteq> U \<longrightarrow> g' = g \<and> (\<exists>n. r = Inr n)"
      and run: "(case queue of
        [] \<Rightarrow> Some (Inr (card expanded), g)
      | i # queue \<Rightarrow>
          if i \<in> expanded then loop A expanded queue g
          else Option.bind (na_get_neighbors A i g) (\<lambda>(r, g). case r of
                 Inl e \<Rightarrow> Some (Inl e, g)
               | Inr neighbors \<Rightarrow> loop A (insert i expanded) (queue @ al_edges neighbors) g)) = Some x"
    show "\<forall>r g'. x = (r, g') \<longrightarrow> readable A U g \<longrightarrow> set queue \<subseteq> U \<longrightarrow> g' = g \<and> (\<exists>n. r = Inr n)"
    proof (cases queue)
      case Nil
      with run show ?thesis by auto
    next
      case (Cons i rest)
      show ?thesis
      proof (cases "i \<in> expanded")
        case True
        with run Cons have "loop A expanded rest g = Some x" by simp
        from IH [OF this] Cons show ?thesis by simp
      next
        case False
        show ?thesis
        proof (intro allI impI)
          fix r g'
          assume x: "x = (r, g')" and read: "readable A U g" and q: "set queue \<subseteq> U"
          from read q Cons obtain l where l: "na_get_neighbors A i g = Some (Inr l, g)" "set (al_edges l) \<subseteq> U"
            by (auto simp: readable_def)
          with run Cons False have "loop A (insert i expanded) (rest @ al_edges l) g = Some x" by simp
          from IH [OF this] x read q Cons l(2) show "g' = g \<and> (\<exists>n. r = Inr n)" by auto
        qed
      qed
    qed
  qed
  with assms show ?thesis by blast
qed

lemma degree_loop_succeeds:
  assumes "readable A U g" and "set itr \<subseteq> U"
  shows "\<exists>acc'. degree_loop A itr acc g = Some (Inr acc', g)"
  using assms(2)
proof (induction itr arbitrary: acc)
  case Nil
  show ?case by (simp add: return_run_def)
next
  case (Cons i itr)
  from assms(1) Cons.prems obtain l where "na_get_neighbors A i g = Some (Inr l, g)" by (auto simp: readable_def)
  with Cons show ?case by (simp add: bind_run_def Let_def)
qed

lemma index_readable:
  assumes "index_ok D items T K f cfg config pts v"
  shows "readable (inmem_strategy P D get_element) {i. unat i < pg_capacity config + length pts} v"
  using assms get_neighbors_run [OF index_ok_inv [OF assms]]
  by (fastforce simp: readable_def inmem_strategy_def index_ok_def simple_graph_def)

text \<open>
  C19. \<open>count_reachable_nodes\<close> started at elements of the store returns the number of vertices that
  can be reached from them along the adjacency lists, deleted ones included, and changes nothing.
\<close>

theorem count_reachable_correct:
  assumes "index_assms P D items cfg order config" and "index_reach P D T K f cfg order config pts v"
    and "\<forall>i \<in> set starts. unat i < pg_capacity config + length pts"
  shows "count_reachable_nodes (full_strategy P D T f) starts v = Some (Inr (card (reach (provider_adj v) (set starts))), v)"
proof -
  let ?S = "inmem_strategy P D (get_delete_element T f)" and ?U = "{i. unat i < pg_capacity config + length pts}"
  note a = index_assmsD [OF assms(1)] and ok = index_reach_ok [OF assms(2) index_assmsD [OF assms(1)]]
  have "inmem_index (full_layer T K f) P D items cfg order"
    using a by (simp add: inmem_index_def inmem_index_axioms_def)
  note run = inmem_index.count_reachable_at [OF this, where ids = "provider_ids D v" and data = "provider_data v"]
  have "total_run (store_at (\<lambda>v'. provider_inv D items (pg_capacity config) (pg_capacity config + length pts) (pg_max_degree config)
        (guard_slots (full_layer T K f) config) (full_layer T K f) v' \<and> provider_ids D v' = provider_ids D v \<and>
        (\<forall>i \<in> provider_live v'. provider_data v' i = provider_data v i)) provider_adj provider_live (provider_adj v) (provider_live v))
      (count_reachable_nodes ?S starts) (\<lambda>e v. True) (\<lambda>k v'. k = card (reach (provider_adj v) (set starts)))"
    by (rule total_run_weaken [OF run]) simp_all
  then obtain r v' where r: "count_reachable_nodes ?S starts v = Some (r, v')"
    "case r of Inl e \<Rightarrow> True | Inr k \<Rightarrow> k = card (reach (provider_adj v) (set starts))"
    using index_ok_inv [OF ok] by (fastforce simp: total_run_def store_at_def)
  have "set starts \<subseteq> ?U" using assms(3) by auto
  from reachable_loop_succeeds [OF r(1) [unfolded count_reachable_nodes_def] index_readable [OF ok] this] r
  show ?thesis by (auto simp: full_strategy_def)
qed

section \<open>A small index\<close>

definition sample_kernels :: "u8 kernels" where
  "sample_kernels = \<lparr>kn_distance = (\<lambda>_ _ x y. if x = y then f32_zero else f32_one), kn_query = (\<lambda>_ x y. if x = y then f32_zero else f32_one)\<rparr>"

definition sample_full :: full where
  "sample_full = \<lparr>fu_dim = 2, fu_metric = L2\<rparr>"

definition sample_provider_config :: provider_config where
  "sample_provider_config = \<lparr>pg_capacity = 1, pg_max_degree = 3, pg_prefetch_lookahead = None, pg_epoch_guard_slots = Some 2,
     pg_freelist_recycle_capacity = Some 1\<rparr>"

abbreviation sample_reach :: "(nat \<times> u32 list, u32 list, string \<rightharpoonup> u32, string, u8 list) provider \<Rightarrow> bool" where
  "sample_reach \<equiv> index_reach list_deps map_dashmap full_u8 sample_kernels sample_full sample_config sorted_list_of_set
     sample_provider_config [[3, 4]]"

lemma sample_assms: "index_assms list_deps map_dashmap id sample_config sorted_list_of_set sample_provider_config"
  using list_deps_laws(1) map_dashmap_laws ALPHA_bounds
  by (simp add: index_assms_def iteration_order_def config_valid_def sample_config_def sample_provider_config_def)

lemma sample_created:
  obtains v where "provider_new list_deps map_dashmap (full_layer full_u8 sample_kernels sample_full) sample_provider_config [[3, 4]] =
      Some (Inr (Inr v))" and "\<exists>l s. store_acquire list_deps (pv_store v) = Some (Inr (Some l), s)"
proof -
  let ?L = "full_layer full_u8 sample_kernels sample_full"
  let ?c = "provider_store_config ?L sample_provider_config"
  have set: "set_rows ?L [[3, 4]] = Inr [[3, 4]]" and bytes: "ly_bytes ?L = 2"
    by (simp_all add: full_layer_def full_set_def full_bytes_def sample_full_def full_u8_def cast_bytes_def bind_result_def)
  have c: "?c = \<lparr>sc_entries = 1, sc_bytes = 2, sc_max_neighbors = 3, sc_epoch_guard_slots = 2, sc_freelist_recycle_capacity = 1\<rparr>"
    by (simp add: provider_store_config_def store_config_new_def Let_def set_epoch_guard_slots_def set_freelist_recycle_capacity_def
        bytes sample_provider_config_def)
  obtain s where new: "store_new list_deps ?c 2 [[3, 4]] = Some (Inr (Inr s))"
    using store_new_total [of 2 ?c "[[3, 4]]" list_deps] by (auto simp: c)
  have rows: "\<forall>row \<in> set [[3, 4 :: u8]]. length row = 2" and slots: "0 < sc_epoch_guard_slots ?c" by (simp_all add: c)
  note n = store_new_spec [OF list_deps_laws(1) rows slots new]
  have inv: "store_inv id 2 3 2 s" using n(1) by (simp add: c numeral_2_eq_2)
  have "fl_next (so_freelist s) = 0" "fl_max (so_freelist s) = 1" "aq_pop (dp_array_queue list_deps) (fl_recycled (so_freelist s)) = (None, (1, []))"
    using n(9) by (simp_all add: freelist_new_def c list_deps_def list_array_queue_def)
  with acquire_minted [OF inv, of list_deps "(1, [])"] n(6) have "\<exists>l s'. store_acquire list_deps s = Some (Inr (Some l), s')"
    by (auto simp: c)
  with that [of "\<lparr>pv_store = s, pv_layer = ?L, pv_mapping = id_map_new map_dashmap 1, pv_config = sample_provider_config\<rparr>"] new set bytes
  show thesis by (simp add: provider_new_def sample_provider_config_def)
qed

lemma sample_pod: "pod full_u8"
  by (rule full_precision_pods(3))

text \<open>The small index after one vector was inserted.\<close>

abbreviation sample_contents :: "(nat \<times> u32 list, u32 list, string \<rightharpoonup> u32, string, u8 list) provider \<Rightarrow> string \<rightharpoonup> u8 list" where
  "sample_contents \<equiv> contents full_u8 sample_full map_dashmap"

lemma sample_index:
  obtains v0 v where "sample_reach v0" and "sample_contents v0 = Map.empty"
    and "\<not> element_unstorable list_deps map_dashmap (full_layer full_u8 sample_kernels sample_full) ''a'' [8, 9] v0"
    and "sample_reach v" and "sample_contents v = [''a'' \<mapsto> [8, 9]]"
proof -
  let ?L = "full_layer full_u8 sample_kernels sample_full" and ?op = "OpInsert None ''a'' [8, 9]"
  obtain v :: "(nat \<times> u32 list, u32 list, string \<rightharpoonup> u32, string, u8 list) provider" where v: "provider_new list_deps map_dashmap ?L sample_provider_config [[3, 4]] = Some (Inr (Inr v))"
    "\<exists>l s. store_acquire list_deps (pv_store v) = Some (Inr (Some l), s)" by (rule sample_created)
  have reach: "sample_reach v" by (rule created [OF v(1)])
  note a = index_assmsD [OF sample_assms]
  have c: "sample_contents v = Map.empty" by (rule index_created_ok(2) [OF a(1,5) v(1)])
  have ids: "provider_ids map_dashmap v ''a'' = None" using fun_cong [OF c, of "''a''"] by (simp add: contents_def)
  have "ly_set ?L [8, 9] (ly_bytes ?L) = Inr [8, 9]"
    by (simp add: full_layer_def full_set_def full_bytes_def sample_full_def full_u8_def cast_bytes_def)
  with v(2) ids have st: "\<not> element_unstorable list_deps map_dashmap ?L ''a'' [8, 9] v" by (auto simp: element_unstorable_def)
  have "op_ok ?op" by simp
  note run = index_reach_run [OF sample_assms reach this]
  then obtain r v' where r: "index_run list_deps map_dashmap full_u8 sample_full sample_config sorted_list_of_set ?op v = Some (r, v')"
    "index_effect list_deps map_dashmap ?L sample_config (pg_max_degree sample_provider_config) ?op v (succeeded r) v'" by blast
  from r(2) st obtain i where "element_stored map_dashmap ?L ''a'' [8, 9] i v v'" by (auto split: if_splits)
  from contents_stored(1) [OF index_ok_inv [OF run(1)] sample_pod this] have "sample_contents v' = [''a'' \<mapsto> [8, 9]]"
    using c by simp
  moreover have "sample_reach v'" by (rule stepped [OF reach _ r(1)]) simp
  ultimately show thesis using that reach c st by blast
qed

theorem index_invariant_witness:
  "\<exists>v i. sample_reach v \<and> provider_ids map_dashmap v ''a'' = Some i \<and> i \<in> provider_live v \<and> to_external_id v i = Inr ''a'' \<and>
     distinct (provider_adj v i) \<and> 1 \<in> provider_live v \<and> cast_elements full_u8 2 (provider_data v 1) = [3, 4]"
proof -
  obtain v where v: "sample_reach v" "sample_contents v = [''a'' \<mapsto> [8, 9]]" by (rule sample_index)
  from fun_cong [OF v(2), of "''a''"] obtain i where i: "provider_ids map_dashmap v ''a'' = Some i" by (auto simp: contents_def)
  from index_invariant [OF sample_assms v(1) sample_pod] i have "i \<in> provider_live v \<and> to_external_id v i = Inr ''a'' \<and> distinct (provider_adj v i) \<and>
      1 \<in> provider_live v \<and> cast_elements full_u8 2 (provider_data v 1) = [3, 4]"
    by (simp add: sample_provider_config_def sample_full_def)
  with v(1) i show ?thesis by blast
qed

theorem index_refines_map_witness:
  "\<exists>v r v'. sample_reach v \<and> sample_contents v = [''a'' \<mapsto> [8, 9]] \<and> status_by_external_id map_dashmap v ''a'' = Inr Valid \<and>
     index_run list_deps map_dashmap full_u8 sample_full sample_config sorted_list_of_set (OpDelete ''a'') v = Some (r, v') \<and>
     sample_contents v' = (if succeeded r then Map.empty else [''a'' \<mapsto> [8, 9]])"
proof -
  obtain v where v: "sample_reach v" "sample_contents v = [''a'' \<mapsto> [8, 9]]" by (rule sample_index)
  from index_refines_map [OF sample_assms v(1) sample_pod, of "OpDelete ''a''"] v(2)
  obtain r v' where r: "index_run list_deps map_dashmap full_u8 sample_full sample_config sorted_list_of_set (OpDelete ''a'') v = Some (r, v')"
    "map_effect (OpDelete ''a'') (sample_contents v) (succeeded r) (sample_contents v')"
    "status_by_external_id map_dashmap v ''a'' = Inr Valid" by auto
  from r(2) v(2) have "sample_contents v' = (if succeeded r then Map.empty else [''a'' \<mapsto> [8, 9]])" by (auto split: if_splits)
  with v r(1,3) show ?thesis by blast
qed

theorem index_insert_correct_witness:
  "\<exists>v r v'. sample_reach v \<and> sample_contents v = Map.empty \<and>
     index_insert sample_config contains_simd_u32 0 (full_strategy list_deps map_dashmap full_u8 sample_full) None ''a'' [8, 9] v = Some (r, v') \<and>
     ((\<exists>i. r = Inr () \<and> to_internal_id map_dashmap v' ''a'' = Inr i \<and> store_read (pv_store v') (unat i) = Some [8, 9] \<and>
         length (provider_adj v' i) \<le> 2) \<or>
      (\<exists>e. r = Inl e \<and> sample_contents v' = [''a'' \<mapsto> [8, 9]]))"
proof -
  obtain v where v: "sample_reach v" "sample_contents v = Map.empty"
    "\<not> element_unstorable list_deps map_dashmap (full_layer full_u8 sample_kernels sample_full) ''a'' [8, 9] v" by (rule sample_index)
  from index_insert_correct [OF sample_assms v(1) sample_pod, of None "''a''" "[8, 9]"]
  obtain r v' where r: "index_insert sample_config contains_simd_u32 0 (full_strategy list_deps map_dashmap full_u8 sample_full) None ''a'' [8, 9] v = Some (r, v')"
    "r = Inr () \<longrightarrow> (\<exists>i. to_internal_id map_dashmap v' ''a'' = Inr i \<and> store_read (pv_store v') (unat i) = Some (cast_bytes full_u8 [8, 9]) \<and>
       length (provider_adj v' i) \<le> cf_pruned_degree sample_config)"
    "r \<noteq> Inr () \<longrightarrow> sample_contents v' = (sample_contents v)(''a'' \<mapsto> [8, 9]) \<or>
       element_unstorable list_deps map_dashmap (full_layer full_u8 sample_kernels sample_full) ''a'' [8, 9] v" by blast
  have "cast_bytes full_u8 [8, 9] = [8, 9]" "cf_pruned_degree sample_config = 2"
    by (simp_all add: cast_bytes_def full_u8_def sample_config_def)
  with r(2,3) v have "(\<exists>i. r = Inr () \<and> to_internal_id map_dashmap v' ''a'' = Inr i \<and> store_read (pv_store v') (unat i) = Some [8, 9] \<and>
         length (provider_adj v' i) \<le> 2) \<or> (\<exists>e. r = Inl e \<and> sample_contents v' = [''a'' \<mapsto> [8, 9]])" by (cases r) auto
  with v r(1) show ?thesis by blast
qed


theorem consolidate_vector_correct_witness:
  "\<exists>v r v'. sample_reach v \<and> sample_contents v = [''a'' \<mapsto> [8, 9]] \<and>
     consolidate_vector sample_config sorted_list_of_set contains_simd_u32 0 (full_strategy list_deps map_dashmap full_u8 sample_full) 0 v =
       Some (r, v') \<and> sample_contents v' = [''a'' \<mapsto> [8, 9]] \<and> provider_adj v' 1 = provider_adj v 1"
proof -
  obtain v where v: "sample_reach v" "sample_contents v = [''a'' \<mapsto> [8, 9]]" by (rule sample_index)
  have ne: "(1 :: u32) \<noteq> 0" by simp
  from consolidate_vector_correct [OF sample_assms v(1), of 0] obtain r v' where
    r: "consolidate_vector sample_config sorted_list_of_set contains_simd_u32 0 (full_strategy list_deps map_dashmap full_u8 sample_full) 0 v =
       Some (r, v')" "sample_contents v' = sample_contents v" "\<forall>j. j \<noteq> 0 \<longrightarrow> provider_adj v' j = provider_adj v j" by blast
  from r(3) ne have "provider_adj v' 1 = provider_adj v 1" by blast
  with v r(1,2) show ?thesis by auto
qed

theorem drop_deleted_neighbors_correct_witness:
  "\<exists>v r v'. sample_reach v \<and> sample_contents v = [''a'' \<mapsto> [8, 9]] \<and>
     drop_deleted_neighbors sample_config (full_strategy list_deps map_dashmap full_u8 sample_full) 0 False v = Some (r, v') \<and>
     sample_contents v' = [''a'' \<mapsto> [8, 9]] \<and> provider_adj v' 1 = provider_adj v 1"
proof -
  obtain v where v: "sample_reach v" "sample_contents v = [''a'' \<mapsto> [8, 9]]" by (rule sample_index)
  have ne: "(1 :: u32) \<noteq> 0" by simp
  from drop_deleted_neighbors_correct [OF sample_assms v(1), of 0 False] obtain r v' where
    r: "drop_deleted_neighbors sample_config (full_strategy list_deps map_dashmap full_u8 sample_full) 0 False v = Some (r, v')"
      "sample_contents v' = sample_contents v" "\<forall>j. j \<noteq> 0 \<longrightarrow> provider_adj v' j = provider_adj v j" by blast
  from r(3) ne have "provider_adj v' 1 = provider_adj v 1" by blast
  with v r(1,2) show ?thesis by auto
qed

theorem prune_range_correct_witness:
  "\<exists>v r v'. sample_reach v \<and> sample_contents v = [''a'' \<mapsto> [8, 9]] \<and>
     prune_range sample_config contains_simd_u32 0 (full_strategy list_deps map_dashmap full_u8 sample_full) [0, 1] v = Some (r, v') \<and>
     ((\<exists>e. r = Inl e) \<or> length (provider_adj v' 0) \<le> 2 \<and> length (provider_adj v' 1) \<le> 2)"
proof -
  obtain v where v: "sample_reach v" "sample_contents v = [''a'' \<mapsto> [8, 9]]" by (rule sample_index)
  from prune_range_correct [OF sample_assms v(1), of "[0, 1]"] obtain r v' where
    r: "prune_range sample_config contains_simd_u32 0 (full_strategy list_deps map_dashmap full_u8 sample_full) [0, 1] v = Some (r, v')"
      "r = Inr () \<longrightarrow> (\<forall>j \<in> set [0, 1]. length (provider_adj v' j) \<le> cf_pruned_degree sample_config)" by blast
  from r(2) have "(\<exists>e. r = Inl e) \<or> length (provider_adj v' 0) \<le> 2 \<and> length (provider_adj v' 1) \<le> 2"
    by (cases r) (simp_all add: sample_config_def)
  with v r(1) show ?thesis by blast
qed

theorem count_reachable_correct_witness:
  "\<exists>v. sample_reach v \<and> sample_contents v = [''a'' \<mapsto> [8, 9]] \<and>
     count_reachable_nodes (full_strategy list_deps map_dashmap full_u8 sample_full) [1] v = Some (Inr (card (reach (provider_adj v) {1})), v)"
proof -
  obtain v where v: "sample_reach v" "sample_contents v = [''a'' \<mapsto> [8, 9]]" by (rule sample_index)
  have "\<forall>i \<in> set [1 :: u32]. unat i < pg_capacity sample_provider_config + length [[3, 4 :: u8]]"
    by (simp add: sample_provider_config_def)
  from count_reachable_correct [OF sample_assms v(1) this] v show ?thesis by auto
qed

end
