(* ===== verification/Concurrency.thy ===== *)
theory Concurrency
  imports StoreInvariant
begin

text \<open>
  The concurrent protocol of the store (\<open>diskann-inmem/src/epoch.rs\<close>, \<open>store.rs\<close>, \<open>tag.rs\<close>): any
  number of readers, retirements, writers and drains, interleaved step by step. Every access to an atomic
  variable is a step of its own, and the steps of all actors happen in one order. An actor is one use of the
  store: a \<open>Reader\<close> with the slices it has handed out, a call of \<open>retire\<close> or \<open>try_drain\<close>, or a \<open>Slot\<close>.

  The store is given by functions on slots here; the buffer behind it is the subject of the theory \<open>Store\<close>.
\<close>

section \<open>The shared state and the actors\<close>

record 'q shared =
  sh_guards :: "nat \<Rightarrow> u64"
  sh_epoch :: u64
  sh_drain :: bool
  sh_retiring :: "nat \<Rightarrow> 'q"
  sh_tags :: "u32 \<Rightarrow> u8"
  sh_mirrors :: "u32 \<Rightarrow> u8"
  sh_data :: "u32 \<Rightarrow> u8 list"

text \<open>What a guard is registered for: a reader, or retiring a slot whose tag was loaded before.\<close>

datatype goal = Read | Retire u32 u8

datatype actor =
    Idle
  | Starting goal
  | GuardCheck goal u64
  | GuardRecheck goal nat u64 bool
  | GuardReset goal nat u64
  | Guarded goal nat u64
  | Reading nat u64 "u32 \<rightharpoonup> u8 list"
  | RetireMirror nat u64 u32
  | RetirePush nat u64 u32
  | RetireDone nat u64
  | Owner u32
  | Publish u32
  | Unown u32
  | Waiting
  | ScanGuards u64 nat u64
  | Drain nat
  | ReleaseMirror nat u32
  | ReleaseTag nat u32
  | Overflow
  | Violation

section \<open>Steps\<close>

text \<open>
  \<open>guard_inner\<close> on \<open>n\<close> guard slots. The hint and the slots found taken only decide which free slot is
  claimed, so any may be; \<open>GuardRecheck\<close> is the loop after the exchange.
\<close>

inductive guard_step :: "nat \<Rightarrow> 'q shared \<times> actor \<Rightarrow> 'q shared \<times> actor \<Rightarrow> bool" for n where
  guard_check: "guard_step n (s, Starting g) (s, GuardCheck g (sh_epoch s))"
| guard_cas: "k < n \<Longrightarrow> sh_guards s k = 0 \<Longrightarrow>
     guard_step n (s, GuardCheck g e) (s\<lparr>sh_guards := (sh_guards s)(k := e)\<rparr>, GuardRecheck g k e False)"
| guard_unavailable: "guard_step n (s, GuardCheck g e) (s, Idle)"
| guard_retry: "sh_epoch s \<noteq> e \<Longrightarrow>
     guard_step n (s, GuardRecheck g k e reset) (s, GuardRecheck g k (sh_epoch s) True)"
| guard_stable: "sh_epoch s = e \<Longrightarrow>
     guard_step n (s, GuardRecheck g k e reset) (s, if reset then GuardReset g k e else Guarded g k e)"
| guard_reset: "guard_step n (s, GuardReset g k e) (s\<lparr>sh_guards := (sh_guards s)(k := e)\<rparr>, Guarded g k e)"

text \<open>\<open>Store::reader\<close>, \<open>Reader::read_in_bounds\<close>, the end of a slice, and the end of the reader.\<close>

inductive reader_step :: "nat \<Rightarrow> 'q shared \<times> actor \<Rightarrow> 'q shared \<times> actor \<Rightarrow> bool" for len where
  reader_start: "reader_step len (s, Idle) (s, Starting Read)"
| reader_open: "reader_step len (s, Guarded Read k e) (s, Reading k e Map.empty)"
| reader_read: "unat i < len \<Longrightarrow> can_read (sh_mirrors s i) \<Longrightarrow>
     reader_step len (s, Reading k e held) (s, Reading k e (held(i \<mapsto> sh_data s i)))"
| reader_forget: "reader_step len (s, Reading k e held) (s, Reading k e (held(i := None)))"
| reader_drop: "reader_step len (s, Reading k e held) (s\<lparr>sh_guards := (sh_guards s)(k := 0)\<rparr>, Idle)"

text \<open>\<open>Store::retire\<close>.\<close>

inductive retire_step :: "'q seg_queue \<Rightarrow> nat \<Rightarrow> 'q shared \<times> actor \<Rightarrow> 'q shared \<times> actor \<Rightarrow> bool" for Q len where
  retire_start: "unat i < len \<Longrightarrow> \<not> is_reserved (sh_tags s i) \<Longrightarrow>
     retire_step Q len (s, Idle) (s, Starting (Retire i (sh_tags s i)))"
| retire_claim: "sh_tags s i = current \<Longrightarrow>
     retire_step Q len (s, Guarded (Retire i current) k e) (s\<lparr>sh_tags := (sh_tags s)(i := RETIRING)\<rparr>, RetireMirror k e i)"
| retire_lost: "sh_tags s i \<noteq> current \<Longrightarrow> retire_step Q len (s, Guarded (Retire i current) k e) (s, RetireDone k e)"
| retire_mirror: "retire_step Q len (s, RetireMirror k e i) (s\<lparr>sh_mirrors := (sh_mirrors s)(i := RETIRING)\<rparr>, RetirePush k e i)"
| retire_push: "retire_step Q len (s, RetirePush k e i)
     (s\<lparr>sh_retiring := (sh_retiring s)(queue_index e := sq_push Q (sh_retiring s (queue_index e)) i)\<rparr>, RetireDone k e)"
| retire_drop: "retire_step Q len (s, RetireDone k e) (s\<lparr>sh_guards := (sh_guards s)(k := 0)\<rparr>, Idle)"

text \<open>\<open>try_acquire\<close>, writes through \<open>as_mut_slice\<close>, \<open>publish\<close> and \<open>drop\<close> of a \<open>Slot\<close>.\<close>

inductive slot_step :: "nat \<Rightarrow> 'q shared \<times> actor \<Rightarrow> 'q shared \<times> actor \<Rightarrow> bool" for len where
  slot_acquire: "unat i < len \<Longrightarrow> sh_tags s i = AVAILABLE \<Longrightarrow>
     slot_step len (s, Idle) (s\<lparr>sh_tags := (sh_tags s)(i := OWNED)\<rparr>, Owner i)"
| slot_write: "slot_step len (s, Owner i) (s\<lparr>sh_data := (sh_data s)(i := bytes)\<rparr>, Owner i)"
| slot_publish_mirror: "slot_step len (s, Owner i) (s\<lparr>sh_mirrors := (sh_mirrors s)(i := PUBLISHED)\<rparr>, Publish i)"
| slot_publish_tag: "slot_step len (s, Publish i) (s\<lparr>sh_tags := (sh_tags s)(i := PUBLISHED)\<rparr>, Idle)"
| slot_drop_mirror: "slot_step len (s, Owner i) (s\<lparr>sh_mirrors := (sh_mirrors s)(i := AVAILABLE)\<rparr>, Unown i)"
| slot_drop_tag: "slot_step len (s, Unown i) (s\<lparr>sh_tags := (sh_tags s)(i := AVAILABLE)\<rparr>, Idle)"

text \<open>\<open>can_advance\<close> and \<open>try_advance\<close>: the mutex, the scan of the guards, the new epoch.\<close>

inductive advance_step :: "nat \<Rightarrow> 'q shared \<times> actor \<Rightarrow> 'q shared \<times> actor \<Rightarrow> bool" for n where
  advance_lock: "\<not> sh_drain s \<Longrightarrow> advance_step n (s, Idle) (s\<lparr>sh_drain := True\<rparr>, Waiting)"
| advance_check: "advance_step n (s, Waiting) (s, ScanGuards (sh_epoch s) 0 (sh_epoch s))"
| advance_scan: "k < n \<Longrightarrow> advance_step n (s, ScanGuards current k least)
     (s, ScanGuards current (Suc k) (if sh_guards s k \<noteq> 0 then min least (sh_guards s k) else least))"
| advance_overflow: "least = - 1 \<Longrightarrow> advance_step n (s, ScanGuards current n least) (s\<lparr>sh_drain := False\<rparr>, Overflow)"
| advance: "least \<noteq> - 1 \<Longrightarrow> least = current \<Longrightarrow>
     advance_step n (s, ScanGuards current n least) (s\<lparr>sh_epoch := sh_epoch s + 1\<rparr>, Drain (last_queue least))"
| advance_refused: "least \<noteq> - 1 \<Longrightarrow> least \<noteq> current \<Longrightarrow>
     advance_step n (s, ScanGuards current n least) (s\<lparr>sh_drain := False\<rparr>, Idle)"

text \<open>\<open>try_drain\<close> with its assertions; the freelist only passes ids on.\<close>

inductive reclaim_step :: "'q seg_queue \<Rightarrow> nat \<Rightarrow> 'q shared \<times> actor \<Rightarrow> 'q shared \<times> actor \<Rightarrow> bool" for Q len where
  drain_pop: "sq_pop Q (sh_retiring s q) = Some (i, queue) \<Longrightarrow>
     reclaim_step Q len (s, Drain q)
       (s\<lparr>sh_retiring := (sh_retiring s)(q := queue)\<rparr>, if unat i < len then ReleaseMirror q i else Violation)"
| drain_mirror: "reclaim_step Q len (s, ReleaseMirror q i)
     (if sh_mirrors s i = RETIRING then (s\<lparr>sh_mirrors := (sh_mirrors s)(i := AVAILABLE)\<rparr>, ReleaseTag q i) else (s, Violation))"
| drain_tag: "reclaim_step Q len (s, ReleaseTag q i)
     (if sh_tags s i = RETIRING then (s\<lparr>sh_tags := (sh_tags s)(i := AVAILABLE)\<rparr>, Drain q) else (s, Violation))"
| drain_end: "sq_pop Q (sh_retiring s q) = None \<Longrightarrow> reclaim_step Q len (s, Drain q) (s\<lparr>sh_drain := False\<rparr>, Idle)"

inductive actor_step :: "'q seg_queue \<Rightarrow> nat \<Rightarrow> nat \<Rightarrow> 'q shared \<times> actor \<Rightarrow> 'q shared \<times> actor \<Rightarrow> bool" for Q n len where
  by_guard: "guard_step n x y \<Longrightarrow> actor_step Q n len x y"
| by_reader: "reader_step len x y \<Longrightarrow> actor_step Q n len x y"
| by_retire: "retire_step Q len x y \<Longrightarrow> actor_step Q n len x y"
| by_slot: "slot_step len x y \<Longrightarrow> actor_step Q n len x y"
| by_advance: "advance_step n x y \<Longrightarrow> actor_step Q n len x y"
| by_drain: "reclaim_step Q len x y \<Longrightarrow> actor_step Q n len x y"

text \<open>A store of which the first \<open>entries\<close> slots are available and the others frozen, as \<open>Store::new\<close> leaves it.\<close>

definition shared_new :: "'q seg_queue \<Rightarrow> nat \<Rightarrow> (u32 \<Rightarrow> u8 list) \<Rightarrow> 'q shared" where
  "shared_new Q entries data =
     (let tags = (\<lambda>i. if unat i < entries then AVAILABLE else FROZEN) in
      \<lparr>sh_guards = (\<lambda>_. 0), sh_epoch = 1, sh_drain = False, sh_retiring = (\<lambda>_. sq_new Q),
       sh_tags = tags, sh_mirrors = tags, sh_data = data\<rparr>)"

text \<open>The states that actors can reach: in every step one of them moves.\<close>

inductive concurrent_reach ::
  "'q seg_queue \<Rightarrow> nat \<Rightarrow> nat \<Rightarrow> nat \<Rightarrow> 'q shared \<Rightarrow> (nat \<Rightarrow> actor) \<Rightarrow> bool" for Q n entries len where
  initial: "concurrent_reach Q n entries len (shared_new Q entries data) (\<lambda>_. Idle)"
| interleaved: "concurrent_reach Q n entries len s actors \<Longrightarrow> actor_step Q n len (s, actors a) (s', p) \<Longrightarrow>
     concurrent_reach Q n entries len s' (actors(a := p))"

section \<open>The invariant\<close>

text \<open>The guard slot an actor has claimed, with the epoch it goes by.\<close>

fun guard_slot :: "actor \<Rightarrow> (nat \<times> u64) option" where
  "guard_slot (GuardRecheck g k e reset) = Some (k, e)"
| "guard_slot (GuardReset g k e) = Some (k, e)"
| "guard_slot (Guarded g k e) = Some (k, e)"
| "guard_slot (Reading k e held) = Some (k, e)"
| "guard_slot (RetireMirror k e i) = Some (k, e)"
| "guard_slot (RetirePush k e i) = Some (k, e)"
| "guard_slot (RetireDone k e) = Some (k, e)"
| "guard_slot _ = None"

text \<open>Its registration is complete: the epoch did not change after the slot was claimed.\<close>

fun registered :: "actor \<Rightarrow> bool" where
  "registered (GuardRecheck g k e reset) = False"
| "registered p = (guard_slot p \<noteq> None)"

text \<open>The slot an actor has to itself, with the tag and the mirror it has meanwhile.\<close>

fun claims :: "actor \<Rightarrow> (u32 \<times> u8 \<times> u8) option" where
  "claims (RetireMirror k e i) = Some (i, RETIRING, PUBLISHED)"
| "claims (RetirePush k e i) = Some (i, RETIRING, RETIRING)"
| "claims (ReleaseMirror q i) = Some (i, RETIRING, RETIRING)"
| "claims (ReleaseTag q i) = Some (i, RETIRING, AVAILABLE)"
| "claims (Owner i) = Some (i, OWNED, AVAILABLE)"
| "claims (Publish i) = Some (i, OWNED, PUBLISHED)"
| "claims (Unown i) = Some (i, OWNED, AVAILABLE)"
| "claims _ = None"

fun slices :: "actor \<Rightarrow> u32 \<rightharpoonup> u8 list" where
  "slices (Reading k e held) = held"
| "slices _ = Map.empty"

fun releases :: "actor \<Rightarrow> u32 option" where
  "releases (ReleaseMirror q i) = Some i"
| "releases (ReleaseTag q i) = Some i"
| "releases _ = None"

fun drains :: "actor \<Rightarrow> nat option" where
  "drains (Drain q) = Some q"
| "drains (ReleaseMirror q i) = Some q"
| "drains (ReleaseTag q i) = Some q"
| "drains _ = None"

fun waits :: "actor \<Rightarrow> bool" where
  "waits Waiting = True"
| "waits (ScanGuards current k least) = True"
| "waits _ = False"

definition locks :: "actor \<Rightarrow> bool" where
  "locks p \<longleftrightarrow> waits p \<or> drains p \<noteq> None"

fun goal_of :: "actor \<Rightarrow> goal" where
  "goal_of (Starting g) = g"
| "goal_of (GuardCheck g e) = g"
| "goal_of (GuardRecheck g k e reset) = g"
| "goal_of (GuardReset g k e) = g"
| "goal_of (Guarded g k e) = g"
| "goal_of _ = Read"

fun checked :: "actor \<Rightarrow> u64 option" where
  "checked (GuardCheck g e) = Some e"
| "checked _ = None"

text \<open>How many guard slots a scan has read, its epoch and the least one found; and the first two if none is behind.\<close>

fun scans :: "actor \<Rightarrow> (nat \<times> u64 \<times> u64) option" where
  "scans (ScanGuards current k least) = Some (k, current, least)"
| "scans _ = None"

fun scanned :: "actor \<Rightarrow> (nat \<times> u64) option" where
  "scanned (ScanGuards current k least) = (if least = current then Some (k, current) else None)"
| "scanned _ = None"

text \<open>The epoch of the guards that pushed what is in queue \<open>q\<close>, the last one of that queue up to \<open>epoch\<close>.\<close>

definition pushed_at :: "u64 \<Rightarrow> nat \<Rightarrow> int" where
  "pushed_at epoch q = int (unat epoch) - int ((unat epoch + 4 - q) mod 4)"

text \<open>
  What is known of the shared state: every retired slot is in one queue, once, and marked as retiring, and the
  queue that the next epoch takes over is empty unless it is being drained.
\<close>

definition queues_ok :: "('q \<Rightarrow> u32 list) \<Rightarrow> nat \<Rightarrow> 'q shared \<Rightarrow> bool" where
  "queues_ok items len s \<longleftrightarrow> (\<forall>q < 4. distinct (items (sh_retiring s q)) \<and>
     (\<forall>i \<in> set (items (sh_retiring s q)). unat i < len \<and> sh_tags s i = RETIRING \<and> sh_mirrors s i = RETIRING \<and>
        (\<forall>q' < 4. q' \<noteq> q \<longrightarrow> i \<notin> set (items (sh_retiring s q')))))"

definition tags_ok :: "'q shared \<Rightarrow> bool" where
  "tags_ok s \<longleftrightarrow> (\<forall>i. sh_tags s i \<in> {AVAILABLE, OWNED, RETIRING} \<union> {PUBLISHED, FROZEN} \<and>
     (sh_tags s i \<in> {AVAILABLE, PUBLISHED, FROZEN} \<longrightarrow> sh_mirrors s i = sh_tags s i))"

definition epoch_ok :: "('q \<Rightarrow> u32 list) \<Rightarrow> 'q shared \<Rightarrow> bool" where
  "epoch_ok items s \<longleftrightarrow> sh_epoch s \<noteq> 0 \<and>
     (\<not> sh_drain s \<longrightarrow> items (sh_retiring s (queue_index (sh_epoch s + 1))) = [])"

definition shared_ok :: "('q \<Rightarrow> u32 list) \<Rightarrow> nat \<Rightarrow> 'q shared \<Rightarrow> bool" where
  "shared_ok items len s \<longleftrightarrow> queues_ok items len s \<and> tags_ok s \<and> epoch_ok items s"

text \<open>What is known of an actor alone, of its guard slot, of the slot it claims and of the slices it has handed out.\<close>

definition goal_ok :: "nat \<Rightarrow> 'q shared \<Rightarrow> actor \<Rightarrow> bool" where
  "goal_ok len s p \<longleftrightarrow> p \<noteq> Violation \<and>
     (case goal_of p of Read \<Rightarrow> True | Retire i t \<Rightarrow> unat i < len \<and> t = PUBLISHED) \<and>
     (case checked p of None \<Rightarrow> True | Some e \<Rightarrow> e \<noteq> 0 \<and> e \<le> sh_epoch s)"

definition guard_ok :: "nat \<Rightarrow> 'q shared \<Rightarrow> actor \<Rightarrow> bool" where
  "guard_ok n s p \<longleftrightarrow> (case guard_slot p of None \<Rightarrow> True | Some (k, e) \<Rightarrow>
     k < n \<and> sh_guards s k \<noteq> 0 \<and> sh_guards s k \<le> e \<and> e \<le> sh_epoch s \<and>
     (registered p \<longrightarrow> unat (sh_epoch s) \<le> unat e + 1))"

definition claim_ok :: "('q \<Rightarrow> u32 list) \<Rightarrow> nat \<Rightarrow> 'q shared \<Rightarrow> actor \<Rightarrow> bool" where
  "claim_ok items len s p \<longleftrightarrow> (case claims p of None \<Rightarrow> True | Some (i, t, m) \<Rightarrow>
     unat i < len \<and> sh_tags s i = t \<and> sh_mirrors s i = m \<and> (\<forall>q < 4. i \<notin> set (items (sh_retiring s q))))"

definition slices_ok :: "('q \<Rightarrow> u32 list) \<Rightarrow> 'q shared \<Rightarrow> actor \<Rightarrow> bool" where
  "slices_ok items s p \<longleftrightarrow> (\<forall>i d. slices p i = Some d \<longrightarrow> sh_data s i = d \<and> sh_mirrors s i \<noteq> AVAILABLE \<and>
     (\<forall>q < 4. i \<in> set (items (sh_retiring s q)) \<longrightarrow>
        (case guard_slot p of None \<Rightarrow> False | Some (k, e) \<Rightarrow> int (unat e) \<le> pushed_at (sh_epoch s) q + 1)))"

definition lock_ok :: "('q \<Rightarrow> u32 list) \<Rightarrow> nat \<Rightarrow> 'q shared \<Rightarrow> actor \<Rightarrow> bool" where
  "lock_ok items n s p \<longleftrightarrow> (locks p \<longrightarrow> sh_drain s) \<and>
     (waits p \<longrightarrow> items (sh_retiring s (queue_index (sh_epoch s + 1))) = []) \<and>
     (case drains p of None \<Rightarrow> True | Some q \<Rightarrow> q = queue_index (sh_epoch s + 1)) \<and>
     (case scans p of None \<Rightarrow> True | Some (k, current, least) \<Rightarrow> current = sh_epoch s \<and> k \<le> n \<and> least \<le> current)"

definition actor_ok :: "('q \<Rightarrow> u32 list) \<Rightarrow> nat \<Rightarrow> nat \<Rightarrow> 'q shared \<Rightarrow> actor \<Rightarrow> bool" where
  "actor_ok items n len s p \<longleftrightarrow> goal_ok len s p \<and> guard_ok n s p \<and> claim_ok items len s p \<and> slices_ok items s p \<and>
     lock_ok items n s p"

text \<open>What is known of two actors.\<close>

definition apart :: "('a \<times> 'b) option \<Rightarrow> ('a \<times> 'b) option \<Rightarrow> bool" where
  "apart x y \<longleftrightarrow> (case x of None \<Rightarrow> True | Some (i, _) \<Rightarrow> (case y of None \<Rightarrow> True | Some (j, _) \<Rightarrow> i \<noteq> j))"

definition released_ok :: "actor \<Rightarrow> actor \<Rightarrow> bool" where
  "released_ok p r \<longleftrightarrow> (case releases p of None \<Rightarrow> True | Some i \<Rightarrow> slices r i = None)"

definition scanned_ok :: "actor \<Rightarrow> actor \<Rightarrow> bool" where
  "scanned_ok p r \<longleftrightarrow> (case scanned p of None \<Rightarrow> True | Some (k, current) \<Rightarrow>
     (case guard_slot r of None \<Rightarrow> True | Some (j, e) \<Rightarrow> registered r \<and> j < k \<longrightarrow> current \<le> e))"

definition pair_ok :: "actor \<Rightarrow> actor \<Rightarrow> bool" where
  "pair_ok p r \<longleftrightarrow> apart (guard_slot p) (guard_slot r) \<and> apart (claims p) (claims r) \<and> \<not> (locks p \<and> locks r) \<and>
     released_ok p r \<and> released_ok r p \<and> scanned_ok p r \<and> scanned_ok r p"

lemma apart_sym: "apart x y = apart y x"
  by (auto simp: apart_def split: option.splits)

lemma pair_ok_sym: "pair_ok p r \<Longrightarrow> pair_ok r p"
  by (auto simp: pair_ok_def apart_sym)

definition concurrent_ok :: "('q \<Rightarrow> u32 list) \<Rightarrow> nat \<Rightarrow> nat \<Rightarrow> 'q shared \<Rightarrow> (nat \<Rightarrow> actor) \<Rightarrow> bool" where
  "concurrent_ok items n len s actors \<longleftrightarrow> shared_ok items len s \<and> (\<forall>a. actor_ok items n len s (actors a)) \<and>
     (\<forall>a b. a \<noteq> b \<longrightarrow> pair_ok (actors a) (actors b))"

text \<open>It is enough that a step keeps what the moving actor and any other rely on.\<close>

definition keeps :: "('q \<Rightarrow> u32 list) \<Rightarrow> nat \<Rightarrow> nat \<Rightarrow> 'q shared \<Rightarrow> actor \<Rightarrow> 'q shared \<Rightarrow> actor \<Rightarrow> bool" where
  "keeps items n len s p s' p' \<longleftrightarrow> shared_ok items len s' \<and> actor_ok items n len s' p' \<and>
     (\<forall>r. actor_ok items n len s r \<and> pair_ok p r \<longrightarrow> actor_ok items n len s' r \<and> pair_ok p' r)"

lemma concurrent_ok_step:
  assumes "concurrent_ok items n len s actors" and "keeps items n len s (actors a) s' p"
  shows "concurrent_ok items n len s' (actors(a := p))"
  using assms by (auto simp: concurrent_ok_def keeps_def intro: pair_ok_sym)

lemma keepsI:
  assumes "shared_ok items len s'" and "actor_ok items n len s' p'"
    and "\<And>r. actor_ok items n len s r \<Longrightarrow> pair_ok p r \<Longrightarrow> actor_ok items n len s' r"
    and "\<And>r. actor_ok items n len s r \<Longrightarrow> pair_ok p r \<Longrightarrow> pair_ok p' r"
  shows "keeps items n len s p s' p'"
  using assms by (simp add: keeps_def)

lemma actor_ok_frame:
  assumes "actor_ok items n len s r" and "sh_epoch s' = sh_epoch s" and "sh_retiring s' = sh_retiring s"
    and "\<And>k e. guard_slot r = Some (k, e) \<Longrightarrow> sh_guards s' k = sh_guards s k"
    and "locks r \<Longrightarrow> sh_drain s \<Longrightarrow> sh_drain s'"
    and "\<And>i t m. claims r = Some (i, t, m) \<Longrightarrow> sh_tags s' i = sh_tags s i \<and> sh_mirrors s' i = sh_mirrors s i"
    and "\<And>i d. slices r i = Some d \<Longrightarrow> sh_mirrors s i \<noteq> AVAILABLE \<Longrightarrow>
      sh_data s' i = sh_data s i \<and> sh_mirrors s' i \<noteq> AVAILABLE"
  shows "actor_ok items n len s' r"
proof -
  note ok = actor_ok_def [of items n len s r, THEN iffD1, OF assms(1)]
  have "goal_ok len s' r"
    using ok unfolding goal_ok_def assms(2) by blast
  moreover have "guard_ok n s' r"
    using ok assms(2,4) by (cases "guard_slot r") (auto simp: guard_ok_def)
  moreover have "claim_ok items len s' r"
    using ok assms(3,6) by (cases "claims r") (auto simp: claim_ok_def)
  moreover have "slices_ok items s' r"
    unfolding slices_ok_def assms(2,3)
  proof (intro allI impI)
    fix i d
    assume held: "slices r i = Some d"
    with ok have "sh_data s i = d \<and> sh_mirrors s i \<noteq> AVAILABLE \<and>
      (\<forall>q < 4. i \<in> set (items (sh_retiring s q)) \<longrightarrow>
        (case guard_slot r of None \<Rightarrow> False | Some (k, e) \<Rightarrow> int (unat e) \<le> pushed_at (sh_epoch s) q + 1))"
      unfolding slices_ok_def by blast
    with assms(7) [OF held] show "sh_data s' i = d \<and> sh_mirrors s' i \<noteq> AVAILABLE \<and>
      (\<forall>q < 4. i \<in> set (items (sh_retiring s q)) \<longrightarrow>
        (case guard_slot r of None \<Rightarrow> False | Some (k, e) \<Rightarrow> int (unat e) \<le> pushed_at (sh_epoch s) q + 1))"
      by metis
  qed
  moreover have "lock_ok items n s' r"
    using ok assms(5) unfolding lock_ok_def assms(2,3) by blast
  ultimately show ?thesis by (simp add: actor_ok_def)
qed

lemma shared_ok_guards [simp]: "shared_ok items len (s\<lparr>sh_guards := x\<rparr>) = shared_ok items len s"
  by (simp add: shared_ok_def queues_ok_def tags_ok_def epoch_ok_def)

lemma registered_slot: "registered p \<Longrightarrow> \<exists>k e. guard_slot p = Some (k, e)"
  by (cases p) auto

lemma actor_guard:
  assumes "actor_ok items n len s r" and "guard_slot r = Some (k, e)"
  shows "k < n" and "sh_guards s k \<noteq> 0" and "sh_guards s k \<le> e" and "e \<le> sh_epoch s"
    and "registered r \<Longrightarrow> unat (sh_epoch s) \<le> unat e + 1"
  using assms by (simp_all add: actor_ok_def guard_ok_def)

lemma actor_claims:
  assumes "actor_ok items n len s r" and "claims r = Some (i, t, m)"
  shows "unat i < len" and "sh_tags s i = t" and "sh_mirrors s i = m"
    and "\<And>q. q < 4 \<Longrightarrow> i \<notin> set (items (sh_retiring s q))" and "t = RETIRING \<or> t = OWNED"
proof -
  show "t = RETIRING \<or> t = OWNED"
    using assms(2) by (cases r) auto
qed (use assms in \<open>simp_all add: actor_ok_def claim_ok_def\<close>)

lemma actor_slices:
  assumes "actor_ok items n len s r" and "slices r i = Some d"
  shows "sh_data s i = d" and "sh_mirrors s i \<noteq> AVAILABLE"
    and "\<And>q k e. q < 4 \<Longrightarrow> i \<in> set (items (sh_retiring s q)) \<Longrightarrow> guard_slot r = Some (k, e) \<Longrightarrow>
      int (unat e) \<le> pushed_at (sh_epoch s) q + 1"
  using assms unfolding actor_ok_def slices_ok_def by (blast, blast, fastforce)

lemma actor_locks:
  assumes "actor_ok items n len s r"
  shows "locks r \<Longrightarrow> sh_drain s" and "waits r \<Longrightarrow> items (sh_retiring s (queue_index (sh_epoch s + 1))) = []"
    and "drains r = Some q \<Longrightarrow> q = queue_index (sh_epoch s + 1)"
    and "scans r = Some (k, current, least) \<Longrightarrow> current = sh_epoch s \<and> k \<le> n \<and> least \<le> current"
    and "scanned r = Some (k, current) \<Longrightarrow> current = sh_epoch s"
proof -
  show "current = sh_epoch s" if "scanned r = Some (k, current)"
    using assms that by (cases r) (auto simp: actor_ok_def lock_ok_def split: if_splits)
qed (use assms in \<open>auto simp: actor_ok_def lock_ok_def\<close>)

lemma slices_guard: "slices p i = Some d \<Longrightarrow> \<exists>k e. guard_slot p = Some (k, e) \<and> registered p"
  by (cases p) auto

lemma actor_okI:
  assumes "goal_ok len s p"
    and "\<And>k e. guard_slot p = Some (k, e) \<Longrightarrow> k < n \<and> sh_guards s k \<noteq> 0 \<and> sh_guards s k \<le> e \<and> e \<le> sh_epoch s"
    and "\<And>k e. guard_slot p = Some (k, e) \<Longrightarrow> registered p \<Longrightarrow> unat (sh_epoch s) \<le> unat e + 1"
    and "\<And>i t m. claims p = Some (i, t, m) \<Longrightarrow> unat i < len \<and> sh_tags s i = t \<and> sh_mirrors s i = m"
    and "\<And>i t m q. claims p = Some (i, t, m) \<Longrightarrow> q < 4 \<Longrightarrow> i \<notin> set (items (sh_retiring s q))"
    and "\<And>i d. slices p i = Some d \<Longrightarrow> sh_data s i = d \<and> sh_mirrors s i \<noteq> AVAILABLE"
    and "\<And>i d q k e. slices p i = Some d \<Longrightarrow> q < 4 \<Longrightarrow> i \<in> set (items (sh_retiring s q)) \<Longrightarrow>
      guard_slot p = Some (k, e) \<Longrightarrow> int (unat e) \<le> pushed_at (sh_epoch s) q + 1"
    and "lock_ok items n s p"
  shows "actor_ok items n len s p"
proof -
  have "guard_ok n s p"
    using assms(2,3) by (auto simp: guard_ok_def split: option.split)
  moreover have "claim_ok items len s p"
    using assms(4,5) by (auto simp: claim_ok_def split: option.split)
  moreover have "slices_ok items s p"
    unfolding slices_ok_def
  proof (intro allI impI conjI)
    fix i d q
    assume held: "slices p i = Some d"
    then show "sh_data s i = d" and "sh_mirrors s i \<noteq> AVAILABLE"
      using assms(6) by blast+
    obtain k e where slot: "guard_slot p = Some (k, e)"
      using slices_guard [OF held] by blast
    assume "q < 4" and "i \<in> set (items (sh_retiring s q))"
    with assms(7) [OF held _ _ slot] slot
    show "case guard_slot p of None \<Rightarrow> False | Some (k, e) \<Rightarrow> int (unat e) \<le> pushed_at (sh_epoch s) q + 1"
      by simp
  qed
  ultimately show ?thesis
    using assms(1,8) by (simp add: actor_ok_def)
qed

lemma pair_guard:
  "pair_ok p r \<Longrightarrow> guard_slot p = Some (k, e) \<Longrightarrow> guard_slot r = Some (k', e') \<Longrightarrow> k \<noteq> k'"
  by (simp add: pair_ok_def apart_def)

lemma pair_claims:
  "pair_ok p r \<Longrightarrow> claims p = Some (i, t) \<Longrightarrow> claims r = Some (i', t') \<Longrightarrow> i \<noteq> i'"
  by (simp add: pair_ok_def apart_def)

lemma pair_locks: "pair_ok p r \<Longrightarrow> locks p \<Longrightarrow> \<not> locks r"
  by (simp add: pair_ok_def)

lemma pair_releases:
  "pair_ok p r \<Longrightarrow> releases p = Some i \<Longrightarrow> slices r i = None"
  "pair_ok p r \<Longrightarrow> releases r = Some i \<Longrightarrow> slices p i = None"
  by (simp_all add: pair_ok_def released_ok_def)

lemma pair_scanned:
  "pair_ok p r \<Longrightarrow> scanned p = Some (k, current) \<Longrightarrow> guard_slot r = Some (j, e) \<Longrightarrow> registered r \<Longrightarrow> j < k \<Longrightarrow> current \<le> e"
  "pair_ok p r \<Longrightarrow> scanned r = Some (k, current) \<Longrightarrow> guard_slot p = Some (j, e) \<Longrightarrow> registered p \<Longrightarrow> j < k \<Longrightarrow> current \<le> e"
  by (simp_all add: pair_ok_def scanned_ok_def)

lemma pair_okI:
  assumes "\<And>k e k' e'. guard_slot p = Some (k, e) \<Longrightarrow> guard_slot r = Some (k', e') \<Longrightarrow> k \<noteq> k'"
    and "\<And>i t i' t'. claims p = Some (i, t) \<Longrightarrow> claims r = Some (i', t') \<Longrightarrow> i \<noteq> i'"
    and "locks p \<Longrightarrow> \<not> locks r"
    and "\<And>i. releases p = Some i \<Longrightarrow> slices r i = None"
    and "\<And>i. releases r = Some i \<Longrightarrow> slices p i = None"
    and "\<And>k current j e. scanned p = Some (k, current) \<Longrightarrow> guard_slot r = Some (j, e) \<Longrightarrow> registered r \<Longrightarrow> j < k \<Longrightarrow> current \<le> e"
    and "\<And>k current j e. scanned r = Some (k, current) \<Longrightarrow> guard_slot p = Some (j, e) \<Longrightarrow> registered p \<Longrightarrow> j < k \<Longrightarrow> current \<le> e"
  shows "pair_ok p r"
proof -
  have "apart (guard_slot p) (guard_slot r)"
    using assms(1) by (auto simp: apart_def split: option.split)
  moreover have "apart (claims p) (claims r)"
    using assms(2) by (fastforce simp: apart_def split: option.split)
  moreover have "released_ok p r" and "released_ok r p"
    using assms(4,5) by (auto simp: released_ok_def split: option.split)
  moreover have "scanned_ok p r" and "scanned_ok r p"
    using assms(6,7) by (auto simp: scanned_ok_def split: option.split)
  ultimately show ?thesis
    using assms(3) by (simp add: pair_ok_def)
qed

lemma guard_step_keeps:
  assumes "guard_step n (s, p) (s', p')" and "shared_ok items len s" and "actor_ok items n len s p"
  shows "keeps items n len s p s' p'"
proof (rule keepsI)
  show "shared_ok items len s'"
    using assms(1,2) by cases auto
  show "actor_ok items n len s' p'"
    using assms(1)
    by cases (use assms(2,3) in \<open>auto simp: actor_ok_def goal_ok_def guard_ok_def claim_ok_def slices_ok_def lock_ok_def
      locks_def shared_ok_def epoch_ok_def split: if_splits\<close>)
next
  fix r
  assume r: "actor_ok items n len s r" "pair_ok p r"
  show "actor_ok items n len s' r"
    using assms(1) 
    by cases (use r in \<open>auto intro!: actor_ok_frame [of items n len s r] dest: actor_guard pair_guard\<close>)
  show "pair_ok p' r"
    using assms(1)
  proof cases
    case (guard_cas k g e)
    then show ?thesis
      using r actor_guard(2) [OF r(1)] by (intro pair_okI) (auto simp: locks_def)
  next
    case (guard_retry e g k reset)
    then show ?thesis
      using r(2) by (intro pair_okI) (auto simp: locks_def dest: pair_guard)
  next
    case (guard_stable e g k reset)
    then show ?thesis
      using r by (intro pair_okI; cases reset)
        (auto simp: locks_def dest: pair_guard actor_locks(5) [OF r(1)])
  next
    case (guard_reset g k e)
    then show ?thesis
      using r by (intro pair_okI) (auto simp: locks_def dest: pair_guard pair_scanned)
  qed (auto intro!: pair_okI simp: locks_def)
qed

lemma reader_step_keeps:
  assumes "reader_step len (s, p) (s', p')" and "shared_ok items len s" and "actor_ok items n len s p"
  shows "keeps items n len s p s' p'"
proof (rule keepsI)
  show "shared_ok items len s'"
    using assms(1,2) by cases auto
  show "actor_ok items n len s' p'"
    using assms(1)
  proof cases
    case (reader_read i k e held)
    then have "i \<notin> set (items (sh_retiring s q))" if "q < 4" for q
      using assms(2) that by (auto simp: shared_ok_def queues_ok_def can_read_def)
    with reader_read assms(3) show ?thesis
      by (intro actor_okI) (auto simp: goal_ok_def lock_ok_def locks_def can_read_def
        dest: actor_guard actor_slices split: if_splits)
  next
    case (reader_forget k e held i)
    with assms(3) show ?thesis
      by (intro actor_okI) (auto simp: goal_ok_def lock_ok_def locks_def
        dest: actor_guard actor_slices split: if_splits)
  qed (use assms(3) in \<open>auto simp: actor_ok_def goal_ok_def guard_ok_def claim_ok_def slices_ok_def lock_ok_def locks_def\<close>)
next
  fix r
  assume r: "actor_ok items n len s r" "pair_ok p r"
  show "actor_ok items n len s' r"
    using assms(1)
    by cases (use r in \<open>auto intro!: actor_ok_frame [of items n len s r] dest: pair_guard\<close>)
  show "pair_ok p' r"
    using assms(1)
  proof cases
    case (reader_open k e)
    then show ?thesis
      using r by (intro pair_okI) (auto simp: locks_def dest: pair_guard pair_scanned)
  next
    case (reader_read i k e held)
    have "releases r \<noteq> Some i"
    proof
      assume "releases r = Some i"
      then obtain t m where "claims r = Some (i, t, m)" and "m = RETIRING \<or> m = AVAILABLE"
        by (cases r) auto
      with actor_claims(3) [OF r(1)] reader_read show False
        by (auto simp: can_read_def)
    qed
    with reader_read show ?thesis
      using r by (intro pair_okI) (auto simp: locks_def dest: pair_guard pair_scanned pair_releases)
  next
    case (reader_forget k e held i)
    then show ?thesis
      using r by (intro pair_okI) (auto simp: locks_def dest: pair_guard pair_scanned pair_releases)
  qed (auto intro!: pair_okI simp: locks_def)
qed

lemma claims_releases: "releases p = Some i \<Longrightarrow> \<exists>t m. claims p = Some (i, t, m) \<and> m \<noteq> PUBLISHED"
  by (cases p) auto

lemma queued:
  assumes "shared_ok items len s" and "q < 4"
  shows "distinct (items (sh_retiring s q))"
    and "i \<in> set (items (sh_retiring s q)) \<Longrightarrow> unat i < len \<and> sh_tags s i = RETIRING \<and> sh_mirrors s i = RETIRING"
    and "i \<in> set (items (sh_retiring s q)) \<Longrightarrow> q' < 4 \<Longrightarrow> q' \<noteq> q \<Longrightarrow> i \<notin> set (items (sh_retiring s q'))"
  using assms unfolding shared_ok_def queues_ok_def by blast+

lemma shared_ok_unclaimed:
  assumes "shared_ok items len s" and "\<And>q::nat. q < 4 \<Longrightarrow> i \<notin> set (items (sh_retiring s q))"
    and "sh_retiring s' = sh_retiring s" and "sh_epoch s' = sh_epoch s" and "sh_drain s' = sh_drain s"
    and "\<And>j. j \<noteq> i \<Longrightarrow> sh_tags s' j = sh_tags s j \<and> sh_mirrors s' j = sh_mirrors s j"
    and "sh_tags s' i \<in> {OWNED, RETIRING} \<or> sh_tags s' i \<in> {AVAILABLE, PUBLISHED, FROZEN} \<and> sh_mirrors s' i = sh_tags s' i"
  shows "shared_ok items len s'"
proof -
  have "queues_ok items len s'"
    unfolding queues_ok_def assms(3)
  proof (intro allI impI conjI ballI)
    fix q :: nat and j
    assume q: "q < 4"
    show "distinct (items (sh_retiring s q))"
      by (rule queued(1) [OF assms(1) q])
    assume j: "j \<in> set (items (sh_retiring s q))"
    then have "j \<noteq> i"
      using assms(2) [OF q] by blast
    with queued(2) [OF assms(1) q j] assms(6) [OF this]
    show "unat j < len" and "sh_tags s' j = RETIRING" and "sh_mirrors s' j = RETIRING"
      by simp_all
    show "j \<notin> set (items (sh_retiring s q'))" if "q' < 4" "q' \<noteq> q" for q'
      by (rule queued(3) [OF assms(1) q j that])
  qed
  moreover have "tags_ok s'"
    unfolding tags_ok_def
  proof
    fix j
    show "sh_tags s' j \<in> {AVAILABLE, OWNED, RETIRING} \<union> {PUBLISHED, FROZEN} \<and>
      (sh_tags s' j \<in> {AVAILABLE, PUBLISHED, FROZEN} \<longrightarrow> sh_mirrors s' j = sh_tags s' j)"
    proof (cases "j = i")
      case True
      then show ?thesis using assms(7) by auto
    next
      case False
      then show ?thesis using assms(1) assms(6) [OF False] by (simp add: shared_ok_def tags_ok_def)
    qed
  qed
  moreover have "epoch_ok items s'"
    using assms(1) by (simp add: shared_ok_def epoch_ok_def assms(3-5))
  ultimately show ?thesis by (simp add: shared_ok_def)
qed

lemma tags_not_queued:
  assumes "shared_ok items len s" and "sh_tags s i \<noteq> RETIRING" and "q < 4"
  shows "i \<notin> set (items (sh_retiring s q))"
  using assms by (auto simp: shared_ok_def queues_ok_def)

lemma tags_mirror:
  assumes "shared_ok items len s" and "sh_tags s i \<in> {AVAILABLE, PUBLISHED, FROZEN}"
  shows "sh_mirrors s i = sh_tags s i"
  using assms unfolding shared_ok_def tags_ok_def by blast

lemma actor_ok_tag:
  assumes "actor_ok items n len s r" and "\<And>t m. claims r \<noteq> Some (i, t, m)"
  shows "actor_ok items n len (s\<lparr>sh_tags := (sh_tags s)(i := t)\<rparr>) r"
proof (rule actor_ok_frame [OF assms(1)])
  show "sh_tags (s\<lparr>sh_tags := (sh_tags s)(i := t)\<rparr>) j = sh_tags s j \<and> sh_mirrors (s\<lparr>sh_tags := (sh_tags s)(i := t)\<rparr>) j = sh_mirrors s j"
    if "claims r = Some (j, t', m')" for j t' m'
    using assms(2) that by auto
qed auto

lemma actor_ok_mirror:
  assumes "actor_ok items n len s r" and "\<And>t m. claims r \<noteq> Some (i, t, m)" and "slices r i = None \<or> x \<noteq> AVAILABLE"
  shows "actor_ok items n len (s\<lparr>sh_mirrors := (sh_mirrors s)(i := x)\<rparr>) r"
proof (rule actor_ok_frame [OF assms(1)])
  let ?s = "s\<lparr>sh_mirrors := (sh_mirrors s)(i := x)\<rparr>"
  show "sh_tags ?s j = sh_tags s j \<and> sh_mirrors ?s j = sh_mirrors s j" if "claims r = Some (j, t', m')" for j t' m'
    using assms(2) that by auto
  show "sh_data ?s j = sh_data s j \<and> sh_mirrors ?s j \<noteq> AVAILABLE"
    if "slices r j = Some d" "sh_mirrors s j \<noteq> AVAILABLE" for j d
    using assms(3) that by auto
qed auto

lemma slot_step_keeps:
  assumes "slot_step len (s, p) (s', p')" and "shared_ok items len s" and "actor_ok items n len s p"
  shows "keeps items n len s p s' p'"
proof (rule keepsI)
  note claim = actor_claims [OF assms(3)]
  show "shared_ok items len s'"
    using assms(1)
  proof cases
    case (slot_acquire i)
    then show ?thesis
      using tags_not_queued [OF assms(2), of i] by (auto intro!: shared_ok_unclaimed [OF assms(2), of i])
  next
    case (slot_write i bytes)
    then show ?thesis
      using claim by (auto intro!: shared_ok_unclaimed [OF assms(2), of i])
  next
    case (slot_publish_mirror i)
    then show ?thesis
      using claim by (auto intro!: shared_ok_unclaimed [OF assms(2), of i])
  next
    case (slot_publish_tag i)
    then show ?thesis
      using claim by (auto intro!: shared_ok_unclaimed [OF assms(2), of i])
  next
    case (slot_drop_mirror i)
    then show ?thesis
      using claim by (auto intro!: shared_ok_unclaimed [OF assms(2), of i])
  next
    case (slot_drop_tag i)
    then show ?thesis
      using claim by (auto intro!: shared_ok_unclaimed [OF assms(2), of i])
  qed
  show "actor_ok items n len s' p'"
    using assms(1)
  proof cases
    case (slot_acquire i)
    then show ?thesis
      using tags_not_queued [OF assms(2), of i] tags_mirror [OF assms(2), of i]
      by (intro actor_okI) (auto simp: goal_ok_def lock_ok_def locks_def)
  qed (use claim in \<open>auto intro!: actor_okI simp: goal_ok_def lock_ok_def locks_def\<close>)
next
  note claim = actor_claims [OF assms(3)]
  fix r
  assume r: "actor_ok items n len s r" "pair_ok p r"
  have free: "claims r \<noteq> Some (i, t, m)" if "sh_tags s i = AVAILABLE" for i t m
    using actor_claims(2,5) [OF r(1), of i t m] that by auto
  show "actor_ok items n len s' r"
    using assms(1)
  proof cases
    case (slot_acquire i)
    then show ?thesis
      using free by (auto intro: actor_ok_tag [OF r(1)])
  next
    case (slot_write i bytes)
    then show ?thesis
      using claim(3) actor_slices(2) [OF r(1), of i] by (intro actor_ok_frame [OF r(1)]) auto
  next
    case (slot_publish_mirror i)
    then show ?thesis
      using pair_claims [OF r(2)] by (auto intro!: actor_ok_mirror [OF r(1)])
  next
    case (slot_publish_tag i)
    then show ?thesis
      using pair_claims [OF r(2)] by (auto intro!: actor_ok_tag [OF r(1)])
  next
    case (slot_drop_mirror i)
    then have "slices r i = None"
      using claim(3) actor_slices(2) [OF r(1), of i] by (cases "slices r i") auto
    with slot_drop_mirror show ?thesis
      using pair_claims [OF r(2)] by (auto intro!: actor_ok_mirror [OF r(1)])
  next
    case (slot_drop_tag i)
    then show ?thesis
      using pair_claims [OF r(2)] by (auto intro!: actor_ok_tag [OF r(1)])
  qed
  show "pair_ok p' r"
    using assms(1)
  proof cases
    case (slot_acquire i)
    then show ?thesis
      using free by (intro pair_okI) (auto simp: locks_def)
  qed (use pair_claims [OF r(2)] in \<open>auto intro!: pair_okI simp: locks_def\<close>)
qed

text \<open>The four queues: what is pushed at \<open>e\<close> stays clear of the next epoch's queue, and is drained two epochs later.\<close>

lemma queue_index_Suc: "queue_index (e + 1) = (unat e + 1) mod 4"
  using queue_index_add [of e 1] by (simp add: queue_index_def mod_Suc_eq)

lemma below_4: "q = 0 \<or> q = 1 \<or> q = 2 \<or> q = 3" if "q < 4" for q :: nat
  using that by auto

lemma quarters:
  fixes x :: nat
  obtains a where "x = 4 * a" | a where "x = 4 * a + 1" | a where "x = 4 * a + 2" | a where "x = 4 * a + 3"
proof -
  have "x = 4 * (x div 4) + x mod 4" by simp
  with below_4 [of "x mod 4"] that show ?thesis by fastforce
qed

lemma quarter_facts:
  fixes x :: nat
  shows "x mod 4 \<noteq> (x + 1) mod 4" and "x mod 4 \<noteq> (x + 2) mod 4" and "(x + 4 - x mod 4) mod 4 = 0"
    and "(x + 5 - x mod 4) mod 4 = 1" and "(x + 4 - (x + 1) mod 4) mod 4 = 3"
proof -
  have "(4 * a + k) mod 4 = k mod 4" for a k :: nat by simp
  note rules = this this [where k = 0, simplified] diff_add_assoc [symmetric]
  show "x mod 4 \<noteq> (x + 1) mod 4" and "x mod 4 \<noteq> (x + 2) mod 4"
    by (rule quarters [of x]; simp only: rules add.assoc; simp)+
  show "(x + 4 - x mod 4) mod 4 = 0" and "(x + 5 - x mod 4) mod 4 = 1" and "(x + 4 - (x + 1) mod 4) mod 4 = 3"
    by (rule quarters [of x]; simp add: mod_Suc)+
qed

lemma quarter_lag:
  fixes x q :: nat
  assumes "q < 4" and "q \<noteq> (x + 1) mod 4"
  shows "(x + 1 + 4 - q) mod 4 = (x + 4 - q) mod 4 + 1"
  using assms(2) below_4 [OF assms(1)]
  by (rule_tac quarters [of x]; elim disjE; simp add: mod_Suc)

lemma pushed_at_queue:
  assumes "e \<le> epoch" and "unat epoch \<le> unat e + 1"
  shows "queue_index e \<noteq> queue_index (epoch + 1)" and "pushed_at epoch (queue_index e) = int (unat e)"
proof -
  consider "unat epoch = unat e" | "unat epoch = unat e + 1"
    using assms by (fastforce simp: word_le_nat_alt)
  then have "queue_index e \<noteq> queue_index (epoch + 1) \<and> pushed_at epoch (queue_index e) = int (unat e)"
  proof cases
    case 1
    then show ?thesis
      unfolding queue_index_Suc unfolding queue_index_def pushed_at_def 1 using quarter_facts(1,3) [of "unat e"] by simp
  next
    case 2
    then show ?thesis
      unfolding queue_index_Suc unfolding queue_index_def pushed_at_def 2 using quarter_facts(2,4) [of "unat e"] by (simp add: ac_simps)
  qed
  then show "queue_index e \<noteq> queue_index (epoch + 1)" and "pushed_at epoch (queue_index e) = int (unat e)"
    by blast+
qed

lemma unat_next: "e \<noteq> - 1 \<Longrightarrow> unat (e + 1 :: u64) = unat e + 1"
  by (metis add.commute eq_neg_iff_add_eq_0 unatSuc Suc_eq_plus1)

lemma pushed_at_Suc:
  assumes "q < 4" and "q \<noteq> queue_index (epoch + 1)" and "epoch \<noteq> - 1"
  shows "pushed_at (epoch + 1) q = pushed_at epoch q"
  using quarter_lag [of q "unat epoch"] assms(1,2)
  unfolding pushed_at_def queue_index_Suc unat_next [OF assms(3)] by linarith

lemma pushed_at_next: "pushed_at epoch (queue_index (epoch + 1)) = int (unat epoch) - 3"
  unfolding pushed_at_def queue_index_Suc quarter_facts by simp

lemma last_queue_next: "last_queue e = queue_index (e + 1 + 1)"
proof -
  have "queue_index (e - 2 + of_nat 4) = queue_index (e - 2)"
    unfolding queue_index_add by simp
  then show ?thesis by (simp add: last_queue_def)
qed

lemma goal_ok_same: "sh_epoch s' = sh_epoch s \<Longrightarrow> goal_ok len s' r = goal_ok len s r"
  by (simp add: goal_ok_def split: option.split)

lemma lock_ok_same:
  assumes "sh_epoch s' = sh_epoch s" and "sh_drain s' = sh_drain s"
    and "items (sh_retiring s' (queue_index (sh_epoch s + 1))) = items (sh_retiring s (queue_index (sh_epoch s + 1)))"
  shows "lock_ok items n s' r = lock_ok items n s r"
  unfolding lock_ok_def assms ..

lemma queues_ok_push:
  assumes "queues_ok items len s" and "unat i < len" "sh_tags s i = RETIRING" "sh_mirrors s i = RETIRING"
    and fresh: "\<And>q::nat. q < 4 \<Longrightarrow> i \<notin> set (items (sh_retiring s q))"
    and "items queue = items (sh_retiring s q) @ [i]" and "q < 4"
    and s': "sh_retiring s' = (sh_retiring s)(q := queue)" "sh_tags s' = sh_tags s" "sh_mirrors s' = sh_mirrors s"
  shows "queues_ok items len s'"
proof -
  let ?ret = "(sh_retiring s)(q := queue)"
  have members: "set (items (?ret q')) = set (items (sh_retiring s q')) \<union> (if q' = q then {i} else {})" for q'
    using assms(6) by simp
  show ?thesis
    unfolding queues_ok_def s'
  proof (intro allI impI conjI ballI)
    fix q' :: nat and j
    assume q': "q' < 4"
    note old = assms(1) [unfolded queues_ok_def, rule_format]
    show "distinct (items (?ret q'))"
      using old [OF q'] fresh [OF q'] assms(6) by (cases "q' = q") simp_all
    assume "j \<in> set (items (?ret q'))"
    then have j: "j = i \<and> q' = q \<or> j \<in> set (items (sh_retiring s q')) \<and> j \<noteq> i"
      using fresh [OF q'] unfolding members by (auto split: if_splits)
    then show "unat j < len" and "sh_tags s j = RETIRING" and "sh_mirrors s j = RETIRING"
      using old [OF q'] assms(2-4) by blast+
    show "j \<notin> set (items (?ret q''))" if "q'' < 4" "q'' \<noteq> q'" for q''
      using j old [OF q'] fresh [OF that(1)] that unfolding members by (auto split: if_splits)
  qed
qed

lemma retire_step_keeps:
  assumes "retire_step Q len (s, p) (s', p')" and "shared_ok items len s" and "actor_ok items n len s p"
    and "\<forall>q i. items (sq_push Q q i) = items q @ [i]"
  shows "keeps items n len s p s' p'"
proof (rule keepsI)
  note claim = actor_claims [OF assms(3)]
  show "shared_ok items len s'"
    using assms(1)
  proof cases
    case (retire_claim i current k e)
    moreover from this have "current = PUBLISHED"
      using assms(3) by (simp add: actor_ok_def goal_ok_def)
    ultimately show ?thesis
      using tags_not_queued [OF assms(2), of i] by (auto intro!: shared_ok_unclaimed [OF assms(2), of i])
  next
    case (retire_mirror k e i)
    then show ?thesis
      using claim by (auto intro!: shared_ok_unclaimed [OF assms(2), of i])
  next
    case (retire_push k e i)
    have next_queue: "queue_index e \<noteq> queue_index (sh_epoch s + 1)"
      using actor_guard [OF assms(3)] retire_push by (intro pushed_at_queue) auto
    have "queues_ok items len s'"
    proof (rule queues_ok_push)
      show "queues_ok items len s"
        using assms(2) by (simp add: shared_ok_def)
      show "items (sq_push Q (sh_retiring s (queue_index e)) i) = items (sh_retiring s (queue_index e)) @ [i]"
        using assms(4) by simp
    qed (use claim retire_push in auto)
    moreover have "tags_ok s' \<and> epoch_ok items s'"
      using assms(2) next_queue retire_push by (auto simp: shared_ok_def tags_ok_def epoch_ok_def)
    ultimately show ?thesis by (simp add: shared_ok_def)
  qed (use assms(2) in auto)
  show "actor_ok items n len s' p'"
    using assms(1)
  proof cases
    case (retire_start i)
    moreover from this have "sh_tags s i = PUBLISHED"
      using assms(2) unfolding shared_ok_def tags_ok_def is_reserved_def by fastforce
    ultimately show ?thesis
      by (auto intro!: actor_okI simp: goal_ok_def lock_ok_def locks_def)
  next
    case (retire_claim i current k e)
    moreover from this have "current = PUBLISHED" and "unat i < len"
      using assms(3) by (simp_all add: actor_ok_def goal_ok_def)
    ultimately show ?thesis
      using tags_not_queued [OF assms(2), of i] tags_mirror [OF assms(2), of i] actor_guard [OF assms(3)]
      by (intro actor_okI) (auto simp: goal_ok_def lock_ok_def locks_def)
  qed (use claim actor_guard [OF assms(3)] in \<open>auto intro!: actor_okI simp: goal_ok_def lock_ok_def locks_def\<close>)
next
  note claim = actor_claims [OF assms(3)]
  fix r
  assume r: "actor_ok items n len s r" "pair_ok p r"
  have free: "claims r \<noteq> Some (i, t, m)" if "sh_tags s i = PUBLISHED" for i t m
    using actor_claims(2,5) [OF r(1), of i t m] that by auto
  show "actor_ok items n len s' r"
    using assms(1)
  proof cases
    case (retire_claim i current k e)
    moreover from this have "current = PUBLISHED"
      using assms(3) by (simp add: actor_ok_def goal_ok_def)
    ultimately show ?thesis
      using free by (auto intro: actor_ok_tag [OF r(1)])
  next
    case (retire_mirror k e i)
    then show ?thesis
      using pair_claims [OF r(2)] by (auto intro!: actor_ok_mirror [OF r(1)])
  next
    case (retire_push k e i)
    have queue: "queue_index e \<noteq> queue_index (sh_epoch s + 1)" "pushed_at (sh_epoch s) (queue_index e) = int (unat e)"
      using actor_guard [OF assms(3)] retire_push by (intro pushed_at_queue; auto)+
    show ?thesis
    proof (rule actor_okI)
      show "goal_ok len s' r"
        using r(1) retire_push goal_ok_same [of s' s] by (simp add: actor_ok_def)
      show "lock_ok items n s' r"
        using r(1) retire_push queue lock_ok_same [of s' s items] by (simp add: actor_ok_def)
      show "j \<notin> set (items (sh_retiring s' q))" if "claims r = Some (j, t, m)" "q < 4" for j t m q
        using that actor_claims(4) [OF r(1)] pair_claims [OF r(2)] retire_push assms(4) by auto
      show "int (unat e') \<le> pushed_at (sh_epoch s') q + 1"
        if "slices r j = Some d" "q < 4" "j \<in> set (items (sh_retiring s' q))" "guard_slot r = Some (k', e')" for j d q k' e'
      proof (cases "j \<in> set (items (sh_retiring s q))")
        case True
        with that retire_push show ?thesis
          using actor_slices(3) [OF r(1)] by simp
      next
        case False
        with that retire_push assms(4) have "q = queue_index e"
          by (auto split: if_splits)
        moreover have "unat e' \<le> unat (sh_epoch s)"
          using actor_guard(4) [OF r(1) that(4)] by (simp add: word_le_nat_alt)
        moreover have "unat (sh_epoch s) \<le> unat e + 1"
          using actor_guard(5) [OF assms(3)] retire_push by simp
        ultimately have "int (unat e') \<le> pushed_at (sh_epoch s) q + 1"
          unfolding queue(2) \<open>q = _\<close> by linarith
        with retire_push show ?thesis by simp
      qed
    qed (use retire_push actor_guard [OF r(1)] actor_claims [OF r(1)] actor_slices [OF r(1)] in auto)
  next
    case (retire_drop k e)
    then show ?thesis
      using r by (auto intro!: actor_ok_frame [OF r(1)] dest: pair_guard)
  qed (use r(1) in auto)
  show "pair_ok p' r"
    using assms(1)
  proof cases
    case (retire_claim i current k e)
    moreover from this have "current = PUBLISHED"
      using assms(3) by (simp add: actor_ok_def goal_ok_def)
    ultimately show ?thesis
      using r free by (intro pair_okI) (auto simp: locks_def dest: pair_guard pair_scanned)
  qed (use r pair_claims [OF r(2)] in \<open>auto intro!: pair_okI simp: locks_def dest: pair_guard pair_scanned\<close>)
qed

lemma idle_locks: "\<not> locks p \<Longrightarrow> lock_ok items n s p"
  by (cases p) (auto simp: lock_ok_def locks_def)

lemma advance_step_keeps:
  assumes "advance_step n (s, p) (s', p')" and "shared_ok items len s" and "actor_ok items n len s p"
  shows "keeps items n len s p s' p'"
proof (rule keepsI)
  note lock = actor_locks [OF assms(3)]
  show "shared_ok items len s'"
    using assms(1)
  proof cases
    case (advance least current)
    then have "least = sh_epoch s"
      using lock(4) by simp
    with advance(4) have "sh_epoch s + 1 \<noteq> 0"
      by (simp add: eq_neg_iff_add_eq_0)
    with advance lock(1) show ?thesis
      using assms(2) by (auto simp: shared_ok_def queues_ok_def tags_ok_def epoch_ok_def locks_def)
  qed (use assms(2) lock(2) in \<open>auto simp: shared_ok_def queues_ok_def tags_ok_def epoch_ok_def\<close>)
  show "actor_ok items n len s' p'"
    using assms(1)
  proof cases
    case advance_lock
    then show ?thesis
      using assms(2) by (auto intro!: actor_okI simp: goal_ok_def lock_ok_def locks_def shared_ok_def epoch_ok_def)
  next
    case (advance least current)
    then have "least = sh_epoch s"
      using lock(4) by simp
    with advance show ?thesis
      using lock(1) by (auto intro!: actor_okI simp: goal_ok_def lock_ok_def locks_def last_queue_next)
  next
    case advance_check
    then show ?thesis
      using lock(1,2) by (auto intro!: actor_okI simp: goal_ok_def lock_ok_def locks_def)
  next
    case (advance_scan k current least)
    then show ?thesis
      using lock(1,2) lock(4) [of k current least]
      by (auto intro!: actor_okI simp: goal_ok_def lock_ok_def locks_def min.coboundedI1)
  qed (auto intro!: actor_okI simp: goal_ok_def lock_ok_def locks_def)
next
  note lock = actor_locks [OF assms(3)]
  fix r
  assume r: "actor_ok items n len s r" "pair_ok p r"
  show "actor_ok items n len s' r"
    using assms(1)
  proof cases
    case (advance least current)
    then have epoch: "least = sh_epoch s" "current = sh_epoch s" "sh_epoch s \<noteq> - 1"
      using lock(4) by auto
    have up: "e \<le> sh_epoch s + 1" if "e \<le> sh_epoch s" for e
      using that unat_next [OF epoch(3)] by (simp add: word_le_nat_alt)
    have free: "\<not> locks r"
      using pair_locks [OF r(2)] advance by (simp add: locks_def)
    show ?thesis
    proof (rule actor_okI)
      show "goal_ok len s' r"
        using r(1) advance up by (auto simp: actor_ok_def goal_ok_def split: option.splits)
      show "lock_ok items n s' r"
        using free by (rule idle_locks)
      show "k < n \<and> sh_guards s' k \<noteq> 0 \<and> sh_guards s' k \<le> e \<and> e \<le> sh_epoch s'" if "guard_slot r = Some (k, e)" for k e
        using actor_guard [OF r(1) that] advance up by simp
      show "unat (sh_epoch s') \<le> unat e + 1" if "guard_slot r = Some (k, e)" "registered r" for k e
        using pair_scanned(1) [OF r(2) _ that, of n "sh_epoch s"] actor_guard(1) [OF r(1) that(1)] advance epoch
          unat_next [OF epoch(3)] by (simp add: word_le_nat_alt)
      show "int (unat e) \<le> pushed_at (sh_epoch s') q + 1"
        if "slices r i = Some d" "q < 4" "i \<in> set (items (sh_retiring s' q))" "guard_slot r = Some (k, e)" for i d q k e
      proof -
        have "q \<noteq> queue_index (sh_epoch s + 1)"
          using lock(2) advance that by auto
        then have "pushed_at (sh_epoch s') q = pushed_at (sh_epoch s) q"
          using pushed_at_Suc [OF that(2) _ epoch(3)] advance by simp
        then show ?thesis
          using actor_slices(3) [OF r(1) that(1,2) _ that(4)] that(3) advance by simp
      qed
    qed (use advance actor_claims [OF r(1)] actor_slices [OF r(1)] in auto)
  qed (use r(1) pair_locks [OF r(2)] in \<open>auto intro!: actor_ok_frame [OF r(1)] simp: locks_def\<close>)
  show "pair_ok p' r"
    using assms(1)
  proof cases
    case advance_lock
    then show ?thesis
      using actor_locks(1) [OF r(1)] by (auto intro!: pair_okI)
  next
    case (advance_scan k current least)
    have "current \<le> e"
      if "guard_slot r = Some (j, e)" "registered r" "j < Suc k"
        "(if sh_guards s k \<noteq> 0 then min least (sh_guards s k) else least) = current" for j e
    proof (cases "j = k")
      case True
      then have "current \<le> sh_guards s k"
        using actor_guard(2) [OF r(1) that(1)] that(4) by auto
      with True show ?thesis
        using actor_guard(3) [OF r(1) that(1)] by simp
    next
      case False
      have "least \<le> current"
        using lock(4) [of k current least] advance_scan by auto
      with that(4) have "least = current"
        by (auto simp: min_def split: if_splits)
      then show ?thesis
        using pair_scanned(1) [OF r(2) _ that(1,2)] False that(3) advance_scan by auto
    qed
    then show ?thesis
      using r pair_locks [OF r(2)] advance_scan by (auto intro!: pair_okI simp: locks_def split: if_splits)
  qed (use r pair_locks [OF r(2)] in \<open>auto intro!: pair_okI simp: locks_def\<close>)
qed

lemma queues_ok_pop:
  assumes "queues_ok items len s" and "items (sh_retiring s q) = i # items queue" and "q < 4"
    and s': "sh_retiring s' = (sh_retiring s)(q := queue)" "sh_tags s' = sh_tags s" "sh_mirrors s' = sh_mirrors s"
  shows "queues_ok items len s'" and "\<And>q'. q' < 4 \<Longrightarrow> i \<notin> set (items (sh_retiring s' q'))"
    and "\<And>q'. set (items (sh_retiring s' q')) \<subseteq> set (items (sh_retiring s q'))"
proof -
  note old = assms(1) [unfolded queues_ok_def, rule_format]
  show sub: "set (items (sh_retiring s' q')) \<subseteq> set (items (sh_retiring s q'))" for q'
    using assms(2) s'(1) by (cases "q' = q") auto
  show "i \<notin> set (items (sh_retiring s' q'))" if "q' < 4" for q'
    using old [OF assms(3)] old [OF that] assms(2) s'(1) that by (cases "q' = q") auto
  show "queues_ok items len s'"
    unfolding queues_ok_def s'(2,3)
  proof (intro allI impI conjI ballI)
    fix q' :: nat and j
    assume q': "q' < 4"
    show "distinct (items (sh_retiring s' q'))"
      using old [OF q'] assms(2) s'(1) by (cases "q' = q") auto
    assume "j \<in> set (items (sh_retiring s' q'))"
    then have "j \<in> set (items (sh_retiring s q'))"
      using sub by blast
    with old [OF q'] show "unat j < len" and "sh_tags s j = RETIRING" and "sh_mirrors s j = RETIRING"
      and "\<And>q''. q'' < 4 \<Longrightarrow> q'' \<noteq> q' \<Longrightarrow> j \<notin> set (items (sh_retiring s' q''))"
      using sub by blast+
  qed
qed

lemma reclaim_step_keeps:
  assumes "reclaim_step Q len (s, p) (s', p')" and "shared_ok items len s" and "actor_ok items n len s p"
    and laws: "\<forall>q. case sq_pop Q q of None \<Rightarrow> items q = [] | Some (i, q') \<Rightarrow> items q = i # items q'"
  shows "keeps items n len s p s' p'"
  using assms(1)
proof cases
  case (drain_pop q i queue)
  let ?s = "s\<lparr>sh_retiring := (sh_retiring s)(q := queue)\<rparr>"
  have q: "q = queue_index (sh_epoch s + 1)"
    using actor_locks(3) [OF assms(3)] drain_pop by simp
  then have q4: "q < 4" by simp
  have pop: "items (sh_retiring s q) = i # items queue"
    using laws [rule_format, of "sh_retiring s q"] drain_pop by simp
  then have i: "i \<in> set (items (sh_retiring s q))" by simp
  note head = queued(2) [OF assms(2) q4 i]
  note rest = queues_ok_pop [of items len s q i queue ?s, OF _ pop q4]
  have queues: "queues_ok items len s"
    using assms(2) by (simp add: shared_ok_def)
  have drain: "sh_drain s"
    using actor_locks(1) [OF assms(3)] drain_pop by (simp add: locks_def)
  have p': "p' = ReleaseMirror q i" and s': "s' = ?s"
    using drain_pop head by auto
  show ?thesis
    unfolding p' s'
  proof (rule keepsI)
    show "shared_ok items len ?s"
      using assms(2) rest(1) [OF queues] drain by (simp add: shared_ok_def tags_ok_def epoch_ok_def)
    show "actor_ok items n len ?s (ReleaseMirror q i)"
      using head rest(2) [OF queues] drain q by (auto intro!: actor_okI simp: goal_ok_def lock_ok_def locks_def)
  next
    fix r
    assume r: "actor_ok items n len s r" "pair_ok p r"
    have free: "\<not> locks r"
      using pair_locks [OF r(2)] drain_pop by (simp add: locks_def)
    have sub: "j \<in> set (items (sh_retiring s q'))" if "j \<in> set (items (sh_retiring ?s q'))" for j q'
      using rest(3) [OF queues, of q'] that by auto
    show "actor_ok items n len ?s r"
    proof (rule actor_okI)
      show "goal_ok len ?s r"
        using r(1) goal_ok_same [of ?s s] by (simp add: actor_ok_def)
      show "lock_ok items n ?s r"
        using free by (rule idle_locks)
      show "j \<notin> set (items (sh_retiring ?s q'))" if "claims r = Some (j, t, m)" "q' < 4" for j t m q'
        using actor_claims(4) [OF r(1) that] sub by blast
      show "int (unat e) \<le> pushed_at (sh_epoch ?s) q' + 1"
        if "slices r j = Some d" "q' < 4" "j \<in> set (items (sh_retiring ?s q'))" "guard_slot r = Some (k, e)" for j d q' k e
        using actor_slices(3) [OF r(1) that(1,2) sub [OF that(3)] that(4)] by simp
    qed (use actor_guard [OF r(1)] actor_claims [OF r(1)] actor_slices [OF r(1)] in auto)
    have "slices r i = None"
    proof (rule ccontr)
      assume "slices r i \<noteq> None"
      then obtain d where held: "slices r i = Some d" by blast
      then obtain k e where slot: "guard_slot r = Some (k, e)" and "registered r"
        using slices_guard by blast
      then have "unat (sh_epoch s) \<le> unat e + 1"
        using actor_guard(5) [OF r(1)] by blast
      moreover have "int (unat e) \<le> int (unat (sh_epoch s)) - 3 + 1"
        using actor_slices(3) [OF r(1) held q4 i slot] unfolding q pushed_at_next .
      ultimately show False by linarith
    qed
    moreover have "fst claim \<noteq> i" if "claims r = Some claim" for claim
      using actor_claims(4) [OF r(1) _ q4, of i] i that by (cases claim) auto
    ultimately show "pair_ok (ReleaseMirror q i) r"
      using free by (auto intro!: pair_okI)
  qed
next
  case (drain_mirror q i)
  have claim: "unat i < len" "sh_mirrors s i = RETIRING" "sh_tags s i = RETIRING"
    "\<And>q. q < 4 \<Longrightarrow> i \<notin> set (items (sh_retiring s q))"
    using actor_claims [OF assms(3)] drain_mirror by auto
  have lock: "sh_drain s" "q = queue_index (sh_epoch s + 1)"
    using actor_locks(1,3) [OF assms(3)] drain_mirror by (auto simp: locks_def)
  have p': "p' = ReleaseTag q i" and s': "s' = s\<lparr>sh_mirrors := (sh_mirrors s)(i := AVAILABLE)\<rparr>"
    using drain_mirror claim by auto
  show ?thesis
    unfolding p' s'
  proof (rule keepsI)
    show "shared_ok items len (s\<lparr>sh_mirrors := (sh_mirrors s)(i := AVAILABLE)\<rparr>)"
      using claim by (auto intro!: shared_ok_unclaimed [OF assms(2), of i])
    show "actor_ok items n len (s\<lparr>sh_mirrors := (sh_mirrors s)(i := AVAILABLE)\<rparr>) (ReleaseTag q i)"
      using claim lock by (auto intro!: actor_okI simp: goal_ok_def lock_ok_def locks_def)
  next
    fix r
    assume r: "actor_ok items n len s r" "pair_ok p r"
    have none: "slices r i = None"
      using pair_releases(1) [OF r(2)] drain_mirror by simp
    show "actor_ok items n len (s\<lparr>sh_mirrors := (sh_mirrors s)(i := AVAILABLE)\<rparr>) r"
      using pair_claims [OF r(2)] none drain_mirror by (auto intro!: actor_ok_mirror [OF r(1)])
    show "pair_ok (ReleaseTag q i) r"
      using pair_claims [OF r(2)] pair_locks [OF r(2)] none drain_mirror by (auto intro!: pair_okI simp: locks_def)
  qed
next
  case (drain_tag q i)
  have claim: "unat i < len" "sh_mirrors s i = AVAILABLE" "sh_tags s i = RETIRING"
    "\<And>q. q < 4 \<Longrightarrow> i \<notin> set (items (sh_retiring s q))"
    using actor_claims [OF assms(3)] drain_tag by auto
  have lock: "sh_drain s" "q = queue_index (sh_epoch s + 1)"
    using actor_locks(1,3) [OF assms(3)] drain_tag by (auto simp: locks_def)
  have p': "p' = Drain q" and s': "s' = s\<lparr>sh_tags := (sh_tags s)(i := AVAILABLE)\<rparr>"
    using drain_tag claim by auto
  show ?thesis
    unfolding p' s'
  proof (rule keepsI)
    show "shared_ok items len (s\<lparr>sh_tags := (sh_tags s)(i := AVAILABLE)\<rparr>)"
      using claim by (auto intro!: shared_ok_unclaimed [OF assms(2), of i])
    show "actor_ok items n len (s\<lparr>sh_tags := (sh_tags s)(i := AVAILABLE)\<rparr>) (Drain q)"
      using lock by (auto intro!: actor_okI simp: goal_ok_def lock_ok_def locks_def)
  next
    fix r
    assume r: "actor_ok items n len s r" "pair_ok p r"
    show "actor_ok items n len (s\<lparr>sh_tags := (sh_tags s)(i := AVAILABLE)\<rparr>) r"
      using pair_claims [OF r(2)] drain_tag by (auto intro!: actor_ok_tag [OF r(1)])
    show "pair_ok (Drain q) r"
      using pair_locks [OF r(2)] drain_tag by (auto intro!: pair_okI simp: locks_def)
  qed
next
  case (drain_end q)
  have "q = queue_index (sh_epoch s + 1)"
    using actor_locks(3) [OF assms(3)] drain_end by simp
  moreover have "items (sh_retiring s q) = []"
    using laws [rule_format, of "sh_retiring s q"] drain_end by simp
  ultimately have empty: "items (sh_retiring s (queue_index (sh_epoch s + 1))) = []" by simp
  show ?thesis
  proof (rule keepsI)
    show "shared_ok items len s'"
      using assms(2) drain_end empty by (auto simp: shared_ok_def queues_ok_def tags_ok_def epoch_ok_def)
    show "actor_ok items n len s' p'"
      using drain_end by (auto intro!: actor_okI simp: goal_ok_def lock_ok_def locks_def)
  next
    fix r
    assume r: "actor_ok items n len s r" "pair_ok p r"
    show "actor_ok items n len s' r"
      using pair_locks [OF r(2)] drain_end by (auto intro!: actor_ok_frame [OF r(1)] simp: locks_def)
    show "pair_ok p' r"
      using drain_end by (auto intro!: pair_okI simp: locks_def)
  qed
qed

lemma actor_step_keeps:
  assumes "actor_step Q n len (s, p) (s', p')" and "shared_ok items len s" and "actor_ok items n len s p"
    and "seg_queue_laws Q items"
  shows "keeps items n len s p s' p'"
  using assms(1)
proof cases
  case by_guard
  then show ?thesis using assms(2,3) by (rule guard_step_keeps)
next
  case by_reader
  then show ?thesis using assms(2,3) by (rule reader_step_keeps)
next
  case by_retire
  then show ?thesis using assms(2,3) by (rule retire_step_keeps) (use assms(4) in \<open>simp add: seg_queue_laws_def\<close>)
next
  case by_slot
  then show ?thesis using assms(2,3) by (rule slot_step_keeps)
next
  case by_advance
  then show ?thesis using assms(2,3) by (rule advance_step_keeps)
next
  case by_drain
  then show ?thesis using assms(2,3) by (rule reclaim_step_keeps) (use assms(4) in \<open>simp add: seg_queue_laws_def\<close>)
qed

lemma concurrent_invariant:
  assumes "concurrent_reach Q n entries len s actors" and "seg_queue_laws Q items"
  shows "concurrent_ok items n len s actors"
  using assms(1)
proof induction
  case (initial data)
  have "items (sq_new Q) = []"
    using assms(2) by (simp add: seg_queue_laws_def)
  then have "shared_ok items len (shared_new Q entries data)"
    by (simp add: shared_new_def Let_def shared_ok_def queues_ok_def tags_ok_def epoch_ok_def)
  moreover have "actor_ok items n len s Idle" for s
    by (auto intro!: actor_okI simp: goal_ok_def lock_ok_def locks_def)
  moreover have "pair_ok Idle Idle"
    by (auto intro!: pair_okI simp: locks_def)
  ultimately show ?case
    by (simp add: concurrent_ok_def)
next
  case (interleaved s actors a s' p)
  then have "keeps items n len s (actors a) s' p"
    using assms(2) by (intro actor_step_keeps) (auto simp: concurrent_ok_def)
  with interleaved.IH show ?case
    by (rule concurrent_ok_step)
qed

text \<open>
  C3. No data race. However the steps of readers, retirements, writers and drains interleave, no two actors own
  the same slot, nobody holds a slice of a slot while another owns it, what a reader's slice shows is what
  it showed when it was handed out, and no assertion of a drain fails.
\<close>

theorem no_data_race:
  assumes "seg_queue_laws Q items" and "concurrent_reach Q n entries len s actors"
  shows "(\<forall>a b i. a \<noteq> b \<and> actors a = Owner i \<longrightarrow> actors b \<noteq> Owner i) \<and>
    (\<forall>a b i k e held. actors a = Owner i \<and> actors b = Reading k e held \<longrightarrow> held i = None) \<and>
    (\<forall>a i k e held d. actors a = Reading k e held \<and> held i = Some d \<longrightarrow> sh_data s i = d) \<and>
    (\<forall>a. actors a \<noteq> Violation)"
proof (intro conjI allI impI)
  have ok: "concurrent_ok items n len s actors"
    by (rule concurrent_invariant [OF assms(2,1)])
  then have actor: "actor_ok items n len s (actors a)" for a
    by (simp add: concurrent_ok_def)
  show "actors b \<noteq> Owner i" if "a \<noteq> b \<and> actors a = Owner i" for a b i
  proof -
    have "pair_ok (actors a) (actors b)"
      using ok that unfolding concurrent_ok_def by blast
    from pair_claims [OF this] that show ?thesis by auto
  qed
  show "held i = None" if "actors a = Owner i \<and> actors b = Reading k e held" for a b i k e held
    using that actor_claims(3) [OF actor, of a i] actor_slices(2) [OF actor, of b i] by (cases "held i") auto
  show "sh_data s i = d" if "actors a = Reading k e held \<and> held i = Some d" for a i k e held d
    using that actor_slices(1) [OF actor, of a i] by auto
  show "actors a \<noteq> Violation" for a
    using actor [of a] by (simp add: actor_ok_def goal_ok_def)
qed

text \<open>A run of two actors: the first publishes a vector, the second reads it, the first goes on to the next slot.\<close>

definition two_actors :: "actor \<Rightarrow> actor \<Rightarrow> nat \<Rightarrow> actor" where
  "two_actors p r = (\<lambda>a. if a = 0 then p else if a = 1 then r else Idle)"

lemma two_actors_step:
  assumes "concurrent_reach Q n entries len s (two_actors p r)"
  shows "actor_step Q n len (s, p) (s', p') \<Longrightarrow> concurrent_reach Q n entries len s' (two_actors p' r)"
    and "actor_step Q n len (s, r) (s', r') \<Longrightarrow> concurrent_reach Q n entries len s' (two_actors p r')"
proof -
  have upd: "two_actors p' r = (two_actors p r)(0 := p')" "two_actors p r' = (two_actors p r)(1 := r')"
    by (auto simp: two_actors_def)
  show "concurrent_reach Q n entries len s' (two_actors p' r)" if "actor_step Q n len (s, p) (s', p')"
    unfolding upd(1) by (rule concurrent_reach.interleaved [OF assms]) (use that in \<open>simp add: two_actors_def\<close>)
  show "concurrent_reach Q n entries len s' (two_actors p r')" if "actor_step Q n len (s, r) (s', r')"
    unfolding upd(2) by (rule concurrent_reach.interleaved [OF assms]) (use that in \<open>simp add: two_actors_def\<close>)
qed

lemma sample_concurrent_run:
  obtains s where "concurrent_reach list_seg_queue 1 2 3 s (two_actors (Owner 1) (Reading 0 1 [0 \<mapsto> [7]]))"
proof -
  define s0 where "s0 = shared_new list_seg_queue 2 (\<lambda>_. [])"
  define s1 where "s1 = s0\<lparr>sh_tags := (sh_tags s0)(0 := OWNED)\<rparr>"
  define s2 where "s2 = s1\<lparr>sh_data := (sh_data s1)(0 := [7])\<rparr>"
  define s3 where "s3 = s2\<lparr>sh_mirrors := (sh_mirrors s2)(0 := PUBLISHED)\<rparr>"
  define s4 where "s4 = s3\<lparr>sh_tags := (sh_tags s3)(0 := PUBLISHED)\<rparr>"
  define s5 where "s5 = s4\<lparr>sh_guards := (sh_guards s4)(0 := 1)\<rparr>"
  define s6 where "s6 = s5\<lparr>sh_tags := (sh_tags s5)(1 := OWNED)\<rparr>"
  note defs = s0_def s1_def s2_def s3_def s4_def s5_def s6_def shared_new_def Let_def can_read_def
  note step = two_actors_step [where Q = list_seg_queue and n = 1 and entries = 2 and len = 3]
  let ?reach = "\<lambda>s p r. concurrent_reach list_seg_queue 1 2 3 s (two_actors p r)"
  have "two_actors Idle Idle = (\<lambda>_. Idle)" by (auto simp: two_actors_def)
  then have "?reach s0 Idle Idle"
    unfolding s0_def using concurrent_reach.initial by metis
  then have "?reach s1 (Owner 0) Idle"
    unfolding s1_def by (rule step, intro by_slot slot_acquire) (simp_all add: defs)
  then have "?reach s2 (Owner 0) Idle"
    unfolding s2_def by (rule step, intro by_slot slot_write)
  then have "?reach s3 (Publish 0) Idle"
    unfolding s3_def by (rule step, intro by_slot slot_publish_mirror)
  then have "?reach s4 Idle Idle"
    unfolding s4_def by (rule step, intro by_slot slot_publish_tag)
  then have "?reach s4 Idle (Starting Read)"
    by (rule step(2), intro by_reader reader_start)
  then have "?reach s4 Idle (GuardCheck Read (sh_epoch s4))"
    by (rule step(2), intro by_guard guard_check)
  then have "?reach s4 Idle (GuardCheck Read 1)"
    by (simp add: defs)
  then have "?reach s5 Idle (GuardRecheck Read 0 1 False)"
    unfolding s5_def by (rule step(2), intro by_guard guard_cas) (simp_all add: defs)
  then have "?reach s5 Idle (if False then GuardReset Read 0 1 else Guarded Read 0 1)"
    by (rule step(2), intro by_guard guard_stable) (simp add: defs)
  then have "?reach s5 Idle (Guarded Read 0 1)" by simp
  then have "?reach s5 Idle (Reading 0 1 Map.empty)"
    by (rule step(2), intro by_reader reader_open)
  then have "?reach s5 Idle (Reading 0 1 [0 \<mapsto> sh_data s5 0])"
    by (rule step(2), intro by_reader reader_read) (simp_all add: defs)
  then have "?reach s6 (Owner 1) (Reading 0 1 [0 \<mapsto> sh_data s5 0])"
    unfolding s6_def by (rule step(1), intro by_slot slot_acquire) (simp_all add: defs)
  then have "?reach s6 (Owner 1) (Reading 0 1 [0 \<mapsto> [7]])"
    by (simp add: defs)
  then show ?thesis by (rule that)
qed

theorem no_data_race_witness:
  "\<exists>s actors held. concurrent_reach list_seg_queue 1 2 3 s actors \<and> actors 0 = Owner 1 \<and>
     actors 1 = Reading 0 1 held \<and> held 0 = Some [7] \<and> sh_data s 0 = [7] \<and> held 1 = None"
proof -
  obtain s where run: "concurrent_reach list_seg_queue 1 2 3 s (two_actors (Owner 1) (Reading 0 1 [0 \<mapsto> [7]]))"
    by (rule sample_concurrent_run)
  have "seg_queue_laws list_seg_queue id"
    using list_deps_laws(1) by (simp add: list_deps_def)
  note race = no_data_race [OF this run, THEN conjunct2]
  have "two_actors (Owner 1) (Reading 0 1 [0 \<mapsto> [7]]) 1 = Reading 0 1 [0 \<mapsto> [7]]"
    "two_actors (Owner 1) (Reading 0 1 [0 \<mapsto> [7]]) 0 = Owner 1"
    by (simp_all add: two_actors_def)
  then have "sh_data s 0 = [7]"
    using race [THEN conjunct2, THEN conjunct1, rule_format, of 1 0 1 "[0 \<mapsto> [7]]" 0 "[7]"] by simp
  with run show ?thesis
    by (intro exI [of _ s] exI [of _ "two_actors (Owner 1) (Reading 0 1 [0 \<mapsto> [7]])"] exI [of _ "[0 \<mapsto> [7]]"])
      (simp add: two_actors_def)
qed

end
