(* ===== verification/Spec2Isabelle.thy ===== *)
theory Spec2Isabelle
  imports NeighborQueue OutputBuffer Adjacency GraphConfig Prune GraphSearch InmemSearch SearchModes InmemBuffer IdMap StoreInvariant IndexCorrect Concurrency
begin

text \<open>
  A verification library for the core of DiskANN, a graph-based approximate nearest neighbor
  index written in Rust. Paths are relative to the repository root.
\<close>

end
